(* ===== verification/Summa_Prelude.thy ===== *)
theory Summa_Prelude
  imports Main "HOL-Library.Word"
begin


text \<open>
  This theory holds what every component of the development shares: the machine
  types of the Rust sources (\<open>u8\<close> to \<open>u64\<close> as words, \<open>usize\<close> and document ids as
  naturals), I/O errors as values, readers over a byte cursor (\<open>std::io::Read\<close> on a
  slice and the \<open>byteorder\<close> little-endian calls), and the lemmas that a
  little-endian reader undoes the writer.
\<close>

unbundle bit_operations_syntax

section \<open>Machine types\<close>

type_synonym u8 = "8 word"
type_synonym u16 = "16 word"
type_synonym u32 = "32 word"
type_synonym u64 = "64 word"
type_synonym usize = nat
type_synonym bytes = "u8 list"
type_synonym docid = nat

named_theorems bits_simps \<open>bit-level characterisations of the byte and bitmap operations\<close>
named_theorems le_simps \<open>little-endian readers applied to what the writers produced\<close>

abbreviation strictly_sorted :: "'a::linorder list \<Rightarrow> bool" where
  "strictly_sorted \<equiv> sorted_wrt (<)"

section \<open>Results and byte readers\<close>

datatype error_kind = UnexpectedEof | InvalidData | InvalidInput

datatype io_error = IoError (kind: error_kind) (message: string)

text \<open>The error type of the crate.\<close>

datatype summa_error =
    Io io_error
  | FieldNotFound string
  | InvalidFieldType string string
  | Corruption string
  | Serialization string
  | IndexClosed
  | DocumentNotFound u32
  | Schema string
  | Query string
  | QueueFull
  | CommitInProgress
  | CommitFlushTimeout nat nat
  | Internal string
  | Document string
  | Tokenizer string
  | DuplicatePrimaryKey string

type_synonym 'a io_result = "io_error + 'a"
type_synonym 'a reader = "bytes \<Rightarrow> io_error + 'a \<times> bytes"

definition eof_error :: io_error where
  "eof_error = IoError UnexpectedEof ''failed to fill whole buffer''"

definition read_exact :: "nat \<Rightarrow> bytes reader" where
  "read_exact n bs = (if length bs < n then Inl eof_error else Inr (take n bs, drop n bs))"

definition rreturn :: "'a \<Rightarrow> 'a reader" where
  "rreturn x bs = Inr (x, bs)"

definition rfail :: "io_error \<Rightarrow> 'a reader" where
  "rfail e bs = Inl e"

definition rbind :: "'a reader \<Rightarrow> ('a \<Rightarrow> 'b reader) \<Rightarrow> 'b reader" where
  "rbind m f bs = (case m bs of Inl e \<Rightarrow> Inl e | Inr (x, rest) \<Rightarrow> f x rest)"

primrec rreplicate :: "nat \<Rightarrow> 'a reader \<Rightarrow> 'a list reader" where
  "rreplicate 0 m = rreturn []"
| "rreplicate (Suc n) m = rbind m (\<lambda>x. rbind (rreplicate n m) (\<lambda>xs. rreturn (x # xs)))"

section \<open>Little-endian integers\<close>

definition to_le :: "nat \<Rightarrow> 'a::len word \<Rightarrow> bytes" where
  "to_le n w = map (\<lambda>i. ucast (drop_bit (8 * i) w)) [0..<n]"

fun of_le :: "bytes \<Rightarrow> 'a::len word" where
  "of_le [] = 0"
| "of_le (b # bs) = ucast b OR push_bit 8 (of_le bs)"

definition u16_le :: "u16 \<Rightarrow> bytes" where "u16_le = to_le 2"
definition u32_le :: "u32 \<Rightarrow> bytes" where "u32_le = to_le 4"
definition u64_le :: "u64 \<Rightarrow> bytes" where "u64_le = to_le 8"

definition read_u8 :: "u8 reader" where
  "read_u8 = rbind (read_exact 1) (\<lambda>bs. rreturn (hd bs))"
definition read_u16 :: "u16 reader" where
  "read_u16 = rbind (read_exact 2) (\<lambda>bs. rreturn (of_le bs))"
definition read_u32 :: "u32 reader" where
  "read_u32 = rbind (read_exact 4) (\<lambda>bs. rreturn (of_le bs))"
definition read_u64 :: "u64 reader" where
  "read_u64 = rbind (read_exact 8) (\<lambda>bs. rreturn (of_le bs))"

lemma length_to_le [simp]: "length (to_le n w) = n"
  by (simp add: to_le_def)

lemma length_u16_le [simp]: "length (u16_le w) = 2"
  by (simp add: u16_le_def)
lemma length_u32_le [simp]: "length (u32_le w) = 4"
  by (simp add: u32_le_def)
lemma length_u64_le [simp]: "length (u64_le w) = 8"
  by (simp add: u64_le_def)

lemma bit_of_le [bits_simps]:
  "bit (of_le bs :: 'a::len word) k \<longleftrightarrow>
     k < LENGTH('a) \<and> k div 8 < length bs \<and> bit (bs ! (k div 8)) (k mod 8)"
proof (induction bs arbitrary: k)
  case Nil
  then show ?case by simp
next
  case (Cons b bs)
  show ?case
  proof (cases "k < 8")
    case True
    then show ?thesis by (auto simp: bit_simps)
  next
    case False
    then obtain j where j: "k = j + 8" by (metis le_add_diff_inverse2 not_less)
    have "\<not> bit b k" using False by (simp add: impossible_bit)
    moreover have "(j + 8) div 8 = Suc (j div 8)" "(j + 8) mod 8 = j mod 8" by simp_all
    ultimately show ?thesis using j Cons.IH [of j] by (auto simp: bit_simps)
  qed
qed

lemma bit_to_le [bits_simps]:
  "i < n \<Longrightarrow> bit (to_le n w ! i) j \<longleftrightarrow> j < 8 \<and> bit w (8 * i + j)"
  by (simp add: to_le_def bit_simps)

lemma of_le_to_le: "LENGTH('a) \<le> 8 * n \<Longrightarrow> of_le (to_le n w) = (w :: 'a::len word)"
  by (rule bit_word_eqI) (auto simp: bits_simps)

lemma of_u16_le [simp]: "of_le (u16_le w) = w"
  by (simp add: u16_le_def of_le_to_le)
lemma of_u32_le [simp]: "of_le (u32_le w) = w"
  by (simp add: u32_le_def of_le_to_le)
lemma of_u64_le [simp]: "of_le (u64_le w) = w"
  by (simp add: u64_le_def of_le_to_le)

lemma to_le_of_le: "length bs = n \<Longrightarrow> 8 * n \<le> LENGTH('a) \<Longrightarrow> to_le n (of_le bs :: 'a::len word) = bs"
proof (rule nth_equalityI)
  fix i assume a: "length bs = n" "8 * n \<le> LENGTH('a)" "i < length (to_le n (of_le bs :: 'a word))"
  show "to_le n (of_le bs :: 'a word) ! i = bs ! i"
  proof (rule bit_word_eqI)
    fix k assume k: "k < LENGTH(8)"
    have "(8 * i + k) div 8 = i" "(8 * i + k) mod 8 = k" "8 * i + k < LENGTH('a)"
      using k a by auto
    then show "bit (to_le n (of_le bs :: 'a word) ! i) k = bit (bs ! i) k"
      using a k by (simp add: bits_simps)
  qed
qed simp

lemma rbind_return [simp]: "rbind (rreturn x) f = f x"
  by (simp add: fun_eq_iff rbind_def rreturn_def)

lemma read_u8_Cons [le_simps]: "read_u8 (b # bs) = Inr (b, bs)"
  by (simp add: read_u8_def rbind_def read_exact_def rreturn_def)

lemma read_u8_Nil [le_simps]: "read_u8 [] = Inl eof_error"
  by (simp add: read_u8_def rbind_def read_exact_def rreturn_def)

lemma read_u16_le [le_simps]: "read_u16 (u16_le w @ bs) = Inr (w, bs)"
  by (simp add: read_u16_def rbind_def read_exact_def rreturn_def)

lemma read_u32_le [le_simps]: "read_u32 (u32_le w @ bs) = Inr (w, bs)"
  by (simp add: read_u32_def rbind_def read_exact_def rreturn_def)

lemma read_u64_le [le_simps]: "read_u64 (u64_le w @ bs) = Inr (w, bs)"
  by (simp add: read_u64_def rbind_def read_exact_def rreturn_def)

text \<open>A reader that inverts a writer on every element inverts it on a counted sequence.\<close>

lemma rreplicate_concat:
  assumes "\<And>x bs. x \<in> set xs \<Longrightarrow> m (w x @ bs) = Inr (x, bs)"
  shows "rreplicate (length xs) m (concat (map w xs) @ bs) = Inr (xs, bs)"
  using assms
proof (induction xs arbitrary: bs)
  case Nil
  then show ?case by (simp add: rreturn_def)
next
  case (Cons x xs)
  have "rreplicate (length xs) m (concat (map w xs) @ bs) = Inr (xs, bs)"
    by (rule Cons.IH) (simp add: Cons.prems)
  then show ?case by (simp add: rbind_def Cons.prems rreturn_def)
qed

definition div_ceil :: "nat \<Rightarrow> nat \<Rightarrow> nat" where
  "div_ceil n d = (n + d - 1) div d"

lemma div_ceil_mult_ge: "0 < d \<Longrightarrow> n \<le> div_ceil n d * d"
proof -
  assume "0 < d"
  moreover have "(n + d - 1) div d * d + (n + d - 1) mod d = n + d - 1" by simp
  moreover have "(n + d - 1) mod d < d" using \<open>0 < d\<close> by simp
  ultimately show ?thesis unfolding div_ceil_def by linarith
qed

lemma div_less_div_ceil: "0 < d \<Longrightarrow> k < n \<Longrightarrow> k div d < div_ceil n d"
  using div_ceil_mult_ge [of d n] by (metis less_mult_imp_div_less order_less_le_trans)

lemma div_ceil_alt: "0 < d \<Longrightarrow> div_ceil n d = n div d + (if n mod d = 0 then 0 else 1)"
proof -
  assume d: "0 < d"
  have n: "n = d * (n div d) + n mod d" by simp
  show ?thesis
  proof (cases "n mod d = 0")
    case True
    then have "n + d - 1 = (n div d) * d + (d - 1)" using n d by (simp add: mult.commute)
    moreover have "((n div d) * d + (d - 1)) div d = n div d" using d by (subst div_mult_self3) auto
    ultimately show ?thesis using True unfolding div_ceil_def by simp
  next
    case False
    have "0 < n mod d" using False by simp
    moreover have "d * (n div d + 1) = d * (n div d) + d" by simp
    ultimately have "n + d - 1 = d * (n div d + 1) + (n mod d - 1)" using n by linarith
    moreover have "n mod d - 1 < d" using d by (meson less_imp_diff_less mod_less_divisor)
    ultimately have "(n + d - 1) div d = (n div d + 1) + (n mod d - 1) div d"
      using d by (metis div_mult_self4 not_gr0)
    moreover have "(n mod d - 1) div d = 0" using \<open>n mod d - 1 < d\<close> by simp
    ultimately show ?thesis using False unfolding div_ceil_def by simp
  qed
qed

lemma div_neq_less: "k div d \<noteq> n div d \<Longrightarrow> k div d < n div d \<longleftrightarrow> k < (n :: nat)"
  using div_le_mono [of n k d] div_le_mono [of k n d] by (cases "k < n") auto

section \<open>Document ids, casts and chunked slices\<close>

definition TERMINATED :: docid where
  "TERMINATED = 4294967295"

text \<open>\<open>x as u32\<close> of a \<open>usize\<close>.\<close>

definition as_u32 :: "usize \<Rightarrow> docid" where
  "as_u32 n = n mod 2 ^ 32"

lemma as_u32_id [simp]: "n \<le> TERMINATED \<Longrightarrow> as_u32 n = n"
  by (simp add: as_u32_def TERMINATED_def)

text \<open>\<open>x.saturating_add(y)\<close> on \<open>u32\<close>.\<close>

definition saturating_add :: "docid \<Rightarrow> docid \<Rightarrow> docid" where
  "saturating_add x y = min (x + y) TERMINATED"

text \<open>\<open>slice.chunks(n)\<close>.\<close>

function chunks :: "nat \<Rightarrow> 'a list \<Rightarrow> 'a list list" where
  "chunks n xs = (if xs = [] \<or> n = 0 then [] else take n xs # chunks n (drop n xs))"
  by pat_completeness auto
termination
  by (relation "measure (\<lambda>(n, xs). length xs)") auto

declare chunks.simps [simp del]

lemma chunks_Nil [simp]: "chunks n [] = []"
  by (simp add: chunks.simps)

lemma chunks_step: "0 < n \<Longrightarrow> xs \<noteq> [] \<Longrightarrow> chunks n xs = take n xs # chunks n (drop n xs)"
  by (simp add: chunks.simps [of n xs])

lemma concat_chunks [simp]: "0 < n \<Longrightarrow> concat (chunks n xs) = xs"
proof (induction n xs rule: chunks.induct)
  case (1 n xs)
  then show ?case by (cases "xs = []") (simp_all add: chunks_step)
qed

section \<open>Strictly sorted lists\<close>

lemma strictly_sorted_distinct: "strictly_sorted (xs :: 'a::linorder list) \<Longrightarrow> distinct xs"
  by (simp add: strict_sorted_iff)

lemma dropWhile_less_filter:
  "strictly_sorted xs \<Longrightarrow> dropWhile (\<lambda>d. d < t) xs = filter (\<lambda>d. t \<le> d) (xs :: 'a::linorder list)"
proof (induction xs)
  case (Cons x xs)
  show ?case
  proof (cases "x < t")
    case False
    then have "\<forall>y \<in> set xs. t \<le> y" using Cons.prems by force
    then show ?thesis using False by simp
  qed (use Cons in simp)
qed simp

lemma set_dropWhile_less:
  "strictly_sorted xs \<Longrightarrow> set (dropWhile (\<lambda>d. d < t) xs) = {d \<in> set xs. (t :: 'a::linorder) \<le> d}"
  by (auto simp: dropWhile_less_filter)

lemma strictly_sorted_dropWhile [simp]:
  "strictly_sorted xs \<Longrightarrow> strictly_sorted (dropWhile (\<lambda>d. d < t) (xs :: 'a::linorder list))"
  by (simp add: dropWhile_less_filter sorted_wrt_filter)

lemma strictly_sorted_tl [simp]: "strictly_sorted xs \<Longrightarrow> strictly_sorted (tl (xs :: 'a::linorder list))"
  by (cases xs) auto

lemma dropWhile_less_dropWhile:
  "a \<le> b \<Longrightarrow> dropWhile (\<lambda>d. d < b) (dropWhile (\<lambda>d. d < a) xs) = dropWhile (\<lambda>d. d < (b :: 'a::linorder)) xs"
  by (induction xs) auto

text \<open>The first element at or above a bound in a strictly sorted list.\<close>

lemma dropWhile_less_Cons_iff:
  fixes xs :: "'a::linorder list"
  assumes "strictly_sorted xs"
  shows "(\<exists>ys. dropWhile (\<lambda>d. d < t) xs = k # ys) \<longleftrightarrow>
    k \<in> set xs \<and> t \<le> k \<and> (\<forall>j \<in> set xs. t \<le> j \<longrightarrow> k \<le> j)" (is "?l \<longleftrightarrow> ?r")
proof
  assume ?l
  then obtain ys where e: "dropWhile (\<lambda>d. d < t) xs = k # ys" by blast
  have "strictly_sorted (k # ys)" using assms strictly_sorted_dropWhile e by metis
  moreover have "set (k # ys) = {d \<in> set xs. t \<le> d}" using set_dropWhile_less [OF assms, of t] e by simp
  ultimately show ?r by (auto intro: less_imp_le)
next
  assume r: ?r
  obtain z zs where e: "dropWhile (\<lambda>d. d < t) xs = z # zs"
    using r set_dropWhile_less [OF assms, of t] by (cases "dropWhile (\<lambda>d. d < t) xs") auto
  have "strictly_sorted (z # zs)" using assms strictly_sorted_dropWhile e by metis
  moreover have s: "set (z # zs) = {d \<in> set xs. t \<le> d}" using set_dropWhile_less [OF assms, of t] e by simp
  ultimately have "z \<le> k" using r by (auto intro: less_imp_le)
  moreover have "k \<le> z" using r s by auto
  ultimately show ?l using e by auto
qed

end
