(* ===== verification/Summa_Bits.thy ===== *)
theory Summa_Bits
  imports Summa_Prelude
begin


text \<open>
  This theory holds the bit scanning the sources use: \<open>count_ones\<close>,
  \<open>trailing_zeros\<close> and \<open>leading_zeros\<close> of Rust's integers, the
  clear-the-lowest-bit loop that drains a bitmap word in ascending order, and
  bitmaps as lists of words (\<open>wbit\<close> is the bit at a global position, \<open>wpositions\<close>
  the ascending list of set positions).
\<close>

section \<open>Bit counting and bit scanning on words\<close>

definition bit_positions :: "'a::len word \<Rightarrow> nat list" where
  "bit_positions w = filter (bit w) [0..<LENGTH('a)]"

definition count_ones :: "'a::len word \<Rightarrow> nat" where
  "count_ones w = length (bit_positions w)"

definition trailing_zeros :: "'a::len word \<Rightarrow> nat" where
  "trailing_zeros w = (case bit_positions w of [] \<Rightarrow> LENGTH('a) | i # _ \<Rightarrow> i)"

definition leading_zeros :: "'a::len word \<Rightarrow> nat" where
  "leading_zeros w = (case rev (bit_positions w) of [] \<Rightarrow> LENGTH('a) | i # _ \<Rightarrow> LENGTH('a) - 1 - i)"

lemma bit_positions_Nil_iff: "bit_positions w = [] \<longleftrightarrow> w = 0"
proof
  assume "bit_positions w = []"
  then show "w = 0"
    by (intro bit_word_eqI) (auto simp: bit_positions_def filter_empty_conv)
next
  assume "w = 0"
  then show "bit_positions w = []" by (simp add: bit_positions_def)
qed

lemma set_bit_positions [bits_simps]: "set (bit_positions w) = {i. bit w i}"
  by (auto simp: bit_positions_def bit_imp_le_length)

lemma sorted_bit_positions [simp]: "strictly_sorted (bit_positions w)"
  by (simp add: bit_positions_def sorted_wrt_filter)

lemma trailing_zeros_bit:
  assumes "w \<noteq> 0"
  shows "bit w (trailing_zeros w)" and "\<And>j. j < trailing_zeros w \<Longrightarrow> \<not> bit w j"
    and "trailing_zeros (w :: 'a::len word) < LENGTH('a)"
proof -
  obtain i js where eq: "bit_positions w = i # js"
    using assms bit_positions_Nil_iff [of w] by (cases "bit_positions w") auto
  then have tz: "trailing_zeros w = i" by (simp add: trailing_zeros_def)
  have "bit w i" using eq set_bit_positions [of w] by auto
  then show "bit w (trailing_zeros w)" and "trailing_zeros w < LENGTH('a)"
    using tz bit_imp_le_length [of w] by auto
  show "\<not> bit w j" if "j < trailing_zeros w" for j
  proof
    assume "bit w j"
    then have "j \<in> set (i # js)" using eq set_bit_positions [of w] by auto
    moreover have "\<forall>k\<in>set js. i < k" using sorted_bit_positions [of w] eq by simp
    ultimately show False using that tz by auto
  qed
qed

text \<open>\<open>w & (w - 1)\<close> clears exactly the lowest set bit.\<close>

lemma bit_clear_lowest:
  fixes w :: "'a::len word"
  assumes "w \<noteq> 0"
  shows "bit (w AND (w - 1)) n \<longleftrightarrow> bit w n \<and> n \<noteq> trailing_zeros w"
proof -
  let ?t = "trailing_zeros w"
  let ?x = "uint w"
  note tz = trailing_zeros_bit [OF assms]
  have low: "take_bit ?t ?x = 0"
    by (rule bit_eqI) (use tz(2) in \<open>auto simp: bit_take_bit_iff bit_uint_iff\<close>)
  have "odd (?x div 2 ^ ?t)"
    using tz(1,3) by (simp add: bit_uint_iff flip: bit_iff_odd)
  then obtain k where k: "?x div 2 ^ ?t = 2 * k + 1" by (elim oddE)
  have x: "?x = 2 ^ ?t * (2 * k + 1)"
    using low k by (metis add.right_neutral mult_div_mod_eq take_bit_eq_mod)
  have "?x \<ge> 1" using assms uint_ge_0 [of w] uint_0_iff [of w] by linarith
  have u1: "uint (w - 1) = ?x - 1"
    using \<open>?x \<ge> 1\<close> by (simp add: uint_sub_if_size)
  have e1: "?x - 1 = 2 ^ ?t * (2 * k) + (2 ^ ?t - 1)" using x by (simp add: algebra_simps)
  have d: "(?x - 1) div 2 ^ ?t = 2 * k" unfolding e1 by simp
  show ?thesis
  proof (cases "n < LENGTH('a)")
    case False
    then show ?thesis using bit_imp_le_length by (auto simp: bit_and_iff)
  next
    case n: True
    have bw1: "bit (w - 1) n \<longleftrightarrow> odd ((?x - 1) div 2 ^ n)"
      using n u1 by (metis bit_iff_odd bit_uint_iff)
    consider "n < ?t" | "n = ?t" | m where "n = ?t + Suc m" by (metis add_Suc_right less_imp_Suc_add linorder_cases)
    then show ?thesis
    proof cases
      case 1
      then show ?thesis using tz(2) by (simp add: bit_and_iff)
    next
      case 2
      then show ?thesis using bw1 d by (simp add: bit_and_iff)
    next
      case 3
      have "(?x - 1) div 2 ^ n = ((?x - 1) div 2 ^ ?t) div 2 ^ Suc m"
        by (simp only: 3 div_exp_eq)
      also have "\<dots> = k div 2 ^ m" unfolding d by (simp add: zdiv_zmult2_eq)
      also have "\<dots> = (2 * k + 1) div 2 ^ Suc m" by (simp add: zdiv_zmult2_eq)
      also have "\<dots> = ?x div 2 ^ n" by (simp only: 3 div_exp_eq flip: k)
      finally have "bit (w - 1) n \<longleftrightarrow> bit w n"
        using bw1 n by (metis bit_iff_odd bit_uint_iff)
      then show ?thesis using 3 by (simp add: bit_and_iff)
    qed
  qed
qed

text \<open>The loop \<open>while w != 0 { emit(w.trailing_zeros()); w &= w - 1 }\<close>.\<close>

lemma clear_lowest_less: "w \<noteq> 0 \<Longrightarrow> unat (w AND (w - 1)) < unat w"
proof -
  assume "w \<noteq> 0"
  then have "unat (w - 1) < unat w"
    by (metis measure_unat)
  moreover have "unat (w AND (w - 1)) \<le> unat (w - 1)"
    using word_and_le1 [of w "w - 1"] by (simp add: word_le_nat_alt)
  ultimately show ?thesis by simp
qed

function drain_bits :: "'a::len word \<Rightarrow> nat list" where
  "drain_bits w = (if w = 0 then [] else trailing_zeros w # drain_bits (w AND (w - 1)))"
  by pat_completeness auto
termination
  by (relation "measure unat") (simp_all add: clear_lowest_less)

declare drain_bits.simps [simp del]

lemma bit_positions_step:
  assumes "w \<noteq> 0"
  shows "bit_positions w = trailing_zeros w # bit_positions (w AND (w - 1))"
proof (rule strict_sorted_equal)
  have "\<forall>k \<in> set (bit_positions (w AND (w - 1))). trailing_zeros w < k"
    using trailing_zeros_bit(2) [OF assms]
    by (auto simp: bits_simps bit_clear_lowest [OF assms]) (metis linorder_cases)
  then show "sorted_wrt (<) (trailing_zeros w # bit_positions (w AND (w - 1)))" by simp
  show "set (bit_positions w) = set (trailing_zeros w # bit_positions (w AND (w - 1)))"
    using trailing_zeros_bit(1) [OF assms] by (auto simp: bits_simps bit_clear_lowest [OF assms])
qed simp

lemma drain_bits_eq: "drain_bits w = bit_positions w"
proof (induction w rule: drain_bits.induct)
  case (1 w)
  show ?case
  proof (cases "w = 0")
    case True
    then show ?thesis using bit_positions_Nil_iff [of w] by (simp add: drain_bits.simps)
  next
    case False
    then show ?thesis using "1" by (simp add: drain_bits.simps [of w] bit_positions_step [OF False])
  qed
qed

lemma clear_lowest_positions:
  "r < count_ones w \<Longrightarrow> trailing_zeros (((\<lambda>w. w AND (w - 1)) ^^ r) w) = bit_positions (w :: 'a::len word) ! r"
proof (induction r arbitrary: w)
  case 0
  then have "w \<noteq> 0" using bit_positions_Nil_iff [of w] by (auto simp: count_ones_def)
  then show ?case by (simp add: bit_positions_step)
next
  case (Suc r)
  then have w: "w \<noteq> 0" using bit_positions_Nil_iff [of w] by (auto simp: count_ones_def)
  then have "r < count_ones (w AND (w - 1))" using Suc.prems by (simp add: count_ones_def bit_positions_step)
  then show ?case using Suc.IH [of "w AND (w - 1)"] w by (simp add: bit_positions_step funpow_Suc_right del: funpow.simps)
qed

section \<open>Bitmaps: lists of words read as one bit string\<close>

definition wbit :: "'a::len word list \<Rightarrow> nat \<Rightarrow> bool" where
  "wbit ws k \<longleftrightarrow> k div LENGTH('a) < length ws \<and> bit (ws ! (k div LENGTH('a))) (k mod LENGTH('a))"

definition wpositions :: "'a::len word list \<Rightarrow> nat list" where
  "wpositions ws = filter (wbit ws) [0..<length ws * LENGTH('a)]"

lemma wbit_bound: "wbit (ws :: 'a::len word list) k \<Longrightarrow> k < length ws * LENGTH('a)"
  by (simp add: wbit_def div_less_iff_less_mult)

lemma set_wpositions [bits_simps]: "set (wpositions ws) = {k. wbit ws k}"
  by (auto simp: wpositions_def wbit_bound)

lemma sorted_wpositions [simp]: "strictly_sorted (wpositions ws)"
  by (simp add: wpositions_def sorted_wrt_filter)

lemma wpositions_Nil [simp]: "wpositions [] = []"
  by (simp add: wpositions_def)

lemma wbit_Cons: "wbit (w # ws :: 'a::len word list) k \<longleftrightarrow>
    (if k < LENGTH('a) then bit w k else wbit ws (k - LENGTH('a)))"
proof (cases "k < LENGTH('a)")
  case False
  then have "k div LENGTH('a) = Suc ((k - LENGTH('a)) div LENGTH('a))"
    by (simp add: le_div_geq)
  moreover have "k mod LENGTH('a) = (k - LENGTH('a)) mod LENGTH('a)"
    using False by (simp add: le_mod_geq)
  ultimately show ?thesis using False by (simp add: wbit_def)
qed (simp add: wbit_def)

lemma wpositions_Cons:
  "wpositions (w # ws :: 'a::len word list) = bit_positions w @ map (\<lambda>k. k + LENGTH('a)) (wpositions ws)"
proof (rule strict_sorted_equal)
  show "sorted_wrt (<) (bit_positions w @ map (\<lambda>k. k + LENGTH('a)) (wpositions ws))"
    by (auto simp: sorted_wrt_append sorted_wrt_map bits_simps dest: bit_imp_le_length)
  show "set (wpositions (w # ws)) = set (bit_positions w @ map (\<lambda>k. k + LENGTH('a)) (wpositions ws))"
    (is "?l = ?r")
  proof (rule set_eqI)
    fix k
    show "k \<in> ?l \<longleftrightarrow> k \<in> ?r"
    proof (cases "k < LENGTH('a)")
      case True
      then show ?thesis by (auto simp: bits_simps wbit_Cons)
    next
      case False
      then have "k = (k - LENGTH('a)) + LENGTH('a)" "\<not> bit w k"
        by (auto dest: bit_imp_le_length)
      then show ?thesis using False by (auto simp: bits_simps wbit_Cons image_iff)
    qed
  qed
qed simp

text \<open>The word-by-word enumeration every bitmap loop of the code performs.\<close>

lemma wpositions_enumerate:
  "wpositions (ws :: 'a::len word list) =
     concat (map (\<lambda>(i, w). map (\<lambda>b. i * LENGTH('a) + b) (drain_bits w)) (enumerate 0 ws))"
proof -
  have "map (\<lambda>k. k + n * LENGTH('a)) (wpositions ws) =
      concat (map (\<lambda>(i, w). map (\<lambda>b. i * LENGTH('a) + b) (drain_bits w)) (enumerate n ws))" for n
  proof (induction ws arbitrary: n)
    case Nil
    then show ?case by simp
  next
    case (Cons w ws)
    have "map (\<lambda>k. k + n * LENGTH('a)) (wpositions (w # ws)) =
        map (\<lambda>b. n * LENGTH('a) + b) (bit_positions w) @ map (\<lambda>k. k + Suc n * LENGTH('a)) (wpositions ws)"
      by (simp add: wpositions_Cons add.commute add.left_commute)
    also have "\<dots> = map (\<lambda>b. n * LENGTH('a) + b) (drain_bits w) @
        concat (map (\<lambda>(i, w). map (\<lambda>b. i * LENGTH('a) + b) (drain_bits w)) (enumerate (Suc n) ws))"
      by (simp only: Cons.IH drain_bits_eq)
    finally show ?case by (simp only: enumerate_simps list.map concat.simps prod.case)
  qed
  from this [of 0] show ?thesis by simp
qed

lemma length_wpositions: "length (wpositions ws) = sum_list (map count_ones ws)"
  by (induction ws) (simp_all add: wpositions_Cons count_ones_def)

lemma card_wbit: "card {k. wbit ws k} = sum_list (map count_ones ws)"
proof -
  have "distinct (wpositions ws)" by (simp add: strict_sorted_iff [THEN iffD1])
  then show ?thesis by (metis distinct_card length_wpositions set_wpositions)
qed

lemma wbit_update:
  fixes ws :: "'a::len word list"
  assumes "i < length ws"
  shows "wbit (ws[i := w]) k \<longleftrightarrow> (if k div LENGTH('a) = i then bit w (k mod LENGTH('a)) else wbit ws k)"
  using assms by (auto simp: wbit_def nth_list_update)

lemma same_word_bit: "k div n = d div n \<Longrightarrow> k mod n = d mod n \<longleftrightarrow> k = (d :: nat)"
  by (metis div_mult_mod_eq)

lemma wbit_set_bit:
  fixes ws :: "'a::len word list"
  assumes "d div LENGTH('a) < length ws"
  shows "wbit (ws[d div LENGTH('a) := ws ! (d div LENGTH('a)) OR push_bit (d mod LENGTH('a)) 1]) k \<longleftrightarrow>
    wbit ws k \<or> k = d"
proof (cases "k div LENGTH('a) = d div LENGTH('a)")
  case True
  then show ?thesis
    using assms same_word_bit [OF True]
    by (simp only: wbit_update if_True bit_or_iff) (auto simp: wbit_def bit_simps)
next
  case False
  then show ?thesis using assms by (auto simp: wbit_update)
qed

lemma wbit_clear_bit:
  fixes ws :: "'a::len word list"
  assumes "d div LENGTH('a) < length ws"
  shows "wbit (ws[d div LENGTH('a) := ws ! (d div LENGTH('a)) AND NOT (push_bit (d mod LENGTH('a)) 1)]) k \<longleftrightarrow>
    wbit ws k \<and> k \<noteq> d"
proof (cases "k div LENGTH('a) = d div LENGTH('a)")
  case True
  then show ?thesis
    using assms same_word_bit [OF True]
    by (simp only: wbit_update if_True bit_and_iff) (auto simp: wbit_def bit_simps)
next
  case False
  then show ?thesis using assms by (auto simp: wbit_update)
qed

lemma wbit_replicate_0 [simp]: "\<not> wbit (replicate n 0) k"
  by (simp add: wbit_def nth_replicate)

end
