(* ===== verification/Summa_Search.thy ===== *)
theory Summa_Search
  imports Summa_Prelude
begin


text \<open>
  This theory holds the slice searches of Rust's standard library that the sources
  call, \<open>binary_search\<close>, \<open>binary_search_by_key\<close> and \<open>partition_point\<close>, with the
  algorithm of \<open>core::slice\<close>, once more for a comparison that may panic, and the facts their callers rely on over sorted
  slices.
\<close>

section \<open>Binary search over slices\<close>

datatype ordering = Less | Equal | Greater

function search_loop :: "('a \<Rightarrow> ordering) \<Rightarrow> 'a list \<Rightarrow> nat \<Rightarrow> nat \<Rightarrow> nat" where
  "search_loop f xs base sz =
     (if sz > 1 then
        let half = sz div 2; mid = base + half
        in search_loop f xs (if f (xs ! mid) = Greater then base else mid) (sz - half)
      else base)"
  by pat_completeness auto
termination
  by (relation "measure (\<lambda>(f, xs, base, sz). sz)") auto

declare search_loop.simps [simp del]

definition binary_search_by :: "('a \<Rightarrow> ordering) \<Rightarrow> 'a list \<Rightarrow> nat + nat" where
  "binary_search_by f xs =
     (if xs = [] then Inl 0
      else let base = search_loop f xs 0 (length xs)
           in if f (xs ! base) = Equal then Inr base
              else Inl (base + (if f (xs ! base) = Less then 1 else 0)))"

definition cmp_key :: "'k::linorder \<Rightarrow> 'k \<Rightarrow> ordering" where
  "cmp_key target x = (if x < target then Less else if x = target then Equal else Greater)"

definition binary_search_by_key :: "'k::linorder \<Rightarrow> ('a \<Rightarrow> 'k) \<Rightarrow> 'a list \<Rightarrow> nat + nat" where
  "binary_search_by_key target key xs = binary_search_by (\<lambda>x. cmp_key target (key x)) xs"

definition binary_search :: "'a::linorder \<Rightarrow> 'a list \<Rightarrow> nat + nat" where
  "binary_search target xs = binary_search_by (cmp_key target) xs"

definition partition_point :: "('a \<Rightarrow> bool) \<Rightarrow> 'a list \<Rightarrow> nat" where
  "partition_point p xs =
     (case binary_search_by (\<lambda>x. if p x then Less else Greater) xs of Inl i \<Rightarrow> i | Inr i \<Rightarrow> i)"

text \<open>The same search with a comparison that may panic; only the probed elements are compared.\<close>

function try_search_loop :: "('a \<Rightarrow> ordering option) \<Rightarrow> 'a list \<Rightarrow> nat \<Rightarrow> nat \<Rightarrow> nat option" where
  "try_search_loop f xs base sz =
     (if sz > 1 then
        let half = sz div 2; mid = base + half
        in Option.bind (f (xs ! mid)) (\<lambda>cmp. try_search_loop f xs (if cmp = Greater then base else mid) (sz - half))
      else Some base)"
  by pat_completeness auto
termination
  by (relation "measure (\<lambda>(f, xs, base, sz). sz)") auto

declare try_search_loop.simps [simp del]

definition try_binary_search_by :: "('a \<Rightarrow> ordering option) \<Rightarrow> 'a list \<Rightarrow> (nat + nat) option" where
  "try_binary_search_by f xs =
     (if xs = [] then Some (Inl 0)
      else Option.bind (try_search_loop f xs 0 (length xs)) (\<lambda>base.
        map_option (\<lambda>cmp. if cmp = Equal then Inr base else Inl (base + (if cmp = Less then 1 else 0))) (f (xs ! base))))"

text \<open>The precondition of a binary search: first the elements the comparison calls
  \<open>Less\<close>, then the \<open>Equal\<close> ones, then the \<open>Greater\<close> ones.\<close>

primrec rank :: "ordering \<Rightarrow> nat" where
  "rank Less = 0" | "rank Equal = 1" | "rank Greater = 2"

definition partitioned :: "('a \<Rightarrow> ordering) \<Rightarrow> 'a list \<Rightarrow> bool" where
  "partitioned f xs \<longleftrightarrow> sorted (map (rank \<circ> f) xs)"

lemma partitionedD: "partitioned f xs \<Longrightarrow> i \<le> j \<Longrightarrow> j < length xs \<Longrightarrow> rank (f (xs ! i)) \<le> rank (f (xs ! j))"
  unfolding partitioned_def by (drule sorted_nth_mono) auto

lemma search_loop_spec:
  assumes "partitioned f xs" "0 < sz" "base + sz \<le> length xs"
    and "base = 0 \<or> f (xs ! base) \<noteq> Greater"
    and "\<forall>j. base + sz \<le> j \<and> j < length xs \<longrightarrow> f (xs ! j) = Greater"
  shows "let b = search_loop f xs base sz
         in b < length xs \<and> (b = 0 \<or> f (xs ! b) \<noteq> Greater) \<and>
            (\<forall>j. b < j \<and> j < length xs \<longrightarrow> f (xs ! j) = Greater)"
  using assms
proof (induction f xs base sz rule: search_loop.induct)
  case (1 f xs base sz)
  show ?case
  proof (cases "sz > 1")
    case False
    then have "sz = 1" using "1.prems"(2) by simp
    then show ?thesis using "1.prems" False by (simp add: search_loop.simps [of f xs base sz] Suc_le_eq)
  next
    case True
    define half where "half = sz div 2"
    define b where "b = (if f (xs ! (base + half)) = Greater then base else base + half)"
    have h: "0 < half" "half < sz" "half \<le> sz - half" using True by (auto simp: half_def)
    have step: "search_loop f xs base sz = search_loop f xs b (sz - half)"
      using True by (simp add: search_loop.simps [of f xs base sz] Let_def half_def b_def)
    have gt: "f (xs ! j) = Greater" if "f (xs ! (base + half)) = Greater" "base + half \<le> j" "j < length xs" for j
    proof -
      have "rank Greater \<le> rank (f (xs ! j))"
        using partitionedD [OF "1.prems"(1) that(2,3)] that(1) by simp
      then show ?thesis by (cases "f (xs ! j)") auto
    qed
    show ?thesis unfolding step
    proof (rule "1.IH" [OF True half_def refl, folded b_def])
      show "partitioned f xs" by (fact "1.prems"(1))
      show "0 < sz - half" using h by simp
      show "b + (sz - half) \<le> length xs" using h "1.prems"(3) by (auto simp: b_def)
      show "b = 0 \<or> f (xs ! b) \<noteq> Greater" using "1.prems"(4) by (auto simp: b_def)
      show "\<forall>j. b + (sz - half) \<le> j \<and> j < length xs \<longrightarrow> f (xs ! j) = Greater"
        using h "1.prems"(5) gt by (auto simp: b_def)
    qed
  qed
qed

lemma search_loop_bound: "0 < sz \<Longrightarrow> base + sz \<le> length xs \<Longrightarrow> search_loop f xs base sz < length xs"
proof (induction f xs base sz rule: search_loop.induct)
  case (1 f xs base sz)
  show ?case
  proof (cases "sz > 1")
    case True
    then show ?thesis using "1.IH" [OF True refl refl] "1.prems" by (auto simp: search_loop.simps [of f xs base sz] Let_def)
  next
    case False
    then show ?thesis using "1.prems" by (simp add: search_loop.simps [of f xs base sz])
  qed
qed

lemma try_search_loop_total:
  assumes "\<forall>x \<in> set xs. f x = Some (g x)"
  shows "base + sz \<le> length xs \<Longrightarrow> try_search_loop f xs base sz = Some (search_loop g xs base sz)"
  using assms
proof (induction g xs base sz rule: search_loop.induct)
  case (1 g xs base sz)
  show ?case
  proof (cases "sz > 1")
    case True
    then have "base + sz div 2 < length xs" using "1.prems"(1) by linarith
    then have "f (xs ! (base + sz div 2)) = Some (g (xs ! (base + sz div 2)))" using "1.prems"(2) by simp
    then show ?thesis using "1.IH" [OF True refl refl] "1.prems" True
      by (cases "g (xs ! (base + sz div 2)) = Greater")
        (simp_all add: try_search_loop.simps [of f xs base sz] search_loop.simps [of g xs base sz] Let_def)
  next
    case False
    then show ?thesis by (simp add: try_search_loop.simps search_loop.simps)
  qed
qed

lemma try_binary_search_by_total:
  assumes "\<forall>x \<in> set xs. f x = Some (g x)"
  shows "try_binary_search_by f xs = Some (binary_search_by g xs)"
proof (cases "xs = []")
  case False
  then have "search_loop g xs 0 (length xs) < length xs" by (simp add: search_loop_bound)
  then show ?thesis using False assms try_search_loop_total [OF assms, of 0 "length xs"]
    by (simp add: try_binary_search_by_def binary_search_by_def Let_def)
qed (simp add: try_binary_search_by_def binary_search_by_def)

lemma binary_search_by_map: "binary_search_by f (map h xs) = binary_search_by (f \<circ> h) xs"
proof -
  have "base + sz \<le> length xs \<Longrightarrow> search_loop f (map h xs) base sz = search_loop (f \<circ> h) xs base sz" for base sz
  proof (induction "f \<circ> h" xs base sz rule: search_loop.induct)
    case (1 xs base sz)
    then show ?case by (auto simp: search_loop.simps [of f "map h xs" base sz] search_loop.simps [of "f \<circ> h" xs base sz] Let_def)
  qed
  then show ?thesis using search_loop_bound [of "length xs" 0 xs "f \<circ> h"]
    by (cases "xs = []") (simp_all add: binary_search_by_def Let_def)
qed

lemma binary_search_by_spec:
  assumes "partitioned f xs"
  shows "case binary_search_by f xs of
      Inr i \<Rightarrow> i < length xs \<and> f (xs ! i) = Equal
    | Inl i \<Rightarrow> i \<le> length xs \<and> (\<forall>j < i. f (xs ! j) = Less) \<and>
        (\<forall>j. i \<le> j \<and> j < length xs \<longrightarrow> f (xs ! j) = Greater)"
proof (cases "xs = []")
  case True
  then show ?thesis by (simp add: binary_search_by_def)
next
  case False
  define b where "b = search_loop f xs 0 (length xs)"
  have e: "\<forall>j. 0 + length xs \<le> j \<and> j < length xs \<longrightarrow> f (xs ! j) = Greater" by auto
  have "b < length xs \<and> (b = 0 \<or> f (xs ! b) \<noteq> Greater) \<and>
      (\<forall>j. b < j \<and> j < length xs \<longrightarrow> f (xs ! j) = Greater)"
    using search_loop_spec [OF assms _ _ _ e] False unfolding b_def [symmetric] Let_def by simp
  then have b: "b < length xs" "b = 0 \<or> f (xs ! b) \<noteq> Greater"
      "\<And>j. b < j \<Longrightarrow> j < length xs \<Longrightarrow> f (xs ! j) = Greater"
    by blast+
  show ?thesis
  proof (cases "f (xs ! b)")
    case Equal
    then show ?thesis using False b by (simp add: binary_search_by_def b_def [symmetric] Let_def)
  next
    case Less
    have "f (xs ! j) = Less" if "j < Suc b" for j
      using partitionedD [OF assms, of j b] that b(1) Less by (cases "f (xs ! j)") auto
    then show ?thesis using False b Less
      by (auto simp: binary_search_by_def b_def [symmetric] Let_def)
  next
    case Greater
    then show ?thesis using False b
      by (auto simp: binary_search_by_def b_def [symmetric] Let_def) (metis gr0I)
  qed
qed

lemma cmp_key_iff [simp]:
  "cmp_key t x = Less \<longleftrightarrow> x < t" "cmp_key t x = Equal \<longleftrightarrow> x = t" "cmp_key t x = Greater \<longleftrightarrow> t < x"
  by (auto simp: cmp_key_def)

lemma partitioned_cmp_key: "sorted (map key xs) \<Longrightarrow> partitioned (\<lambda>x. cmp_key t (key x)) xs"
  unfolding partitioned_def
  by (induction xs) (auto simp: cmp_key_def)

lemma binary_search_by_key_Inr:
  assumes "sorted (map key xs)" "binary_search_by_key t key xs = Inr i"
  shows "i < length xs" "key (xs ! i) = t"
  using binary_search_by_spec [OF partitioned_cmp_key [OF assms(1)], of t] assms(2)
  by (auto simp: binary_search_by_key_def)

lemma binary_search_by_key_Inl:
  assumes "sorted (map key xs)" "binary_search_by_key t key xs = Inl i"
  shows "i \<le> length xs" "\<And>j. j < i \<Longrightarrow> key (xs ! j) < t"
    "\<And>j. i \<le> j \<Longrightarrow> j < length xs \<Longrightarrow> t < key (xs ! j)"
  using binary_search_by_spec [OF partitioned_cmp_key [OF assms(1)], of t] assms(2)
  by (auto simp: binary_search_by_key_def)

lemma binary_search_by_key_id: "binary_search t xs = binary_search_by_key t (\<lambda>x. x) xs"
  by (simp add: binary_search_def binary_search_by_key_def)

lemma binary_search_Inr:
  assumes "sorted xs" "binary_search t xs = Inr i"
  shows "i < length xs" "xs ! i = t"
  using binary_search_by_key_Inr [of "\<lambda>x. x" xs t i] assms by (auto simp: binary_search_by_key_id)

lemma binary_search_Inl:
  assumes "sorted xs" "binary_search t xs = Inl i"
  shows "i \<le> length xs" "\<And>x. x \<in> set (take i xs) \<Longrightarrow> x < t" "\<And>x. x \<in> set (drop i xs) \<Longrightarrow> t < x"
proof -
  note r = binary_search_by_key_Inl [of "\<lambda>x. x" xs t i]
  have s: "sorted (map (\<lambda>x. x) xs)" "binary_search_by_key t (\<lambda>x. x) xs = Inl i"
    using assms by (simp_all add: binary_search_by_key_id)
  show "i \<le> length xs" using r [OF s] by simp
  then show "x < t" if "x \<in> set (take i xs)" for x
    using that r(2) [OF s] by (auto simp: in_set_conv_nth)
  show "t < x" if "x \<in> set (drop i xs)" for x
    using that r(3) [OF s] by (auto simp: in_set_conv_nth)
qed

lemma binary_search_found: "sorted xs \<Longrightarrow> \<not> isl (binary_search t xs) \<longleftrightarrow> t \<in> set xs"
proof (cases "binary_search t xs")
  case (Inl i)
  assume s: "sorted xs"
  have "t \<notin> set (take i xs @ drop i xs)"
    using binary_search_Inl(2,3) [OF s Inl] unfolding set_append by blast
  then show ?thesis using Inl by simp
next
  case (Inr i)
  assume "sorted xs"
  then show ?thesis using Inr binary_search_Inr [of xs t i] by (auto simp: in_set_conv_nth)
qed

lemma sorted_insert_at:
  assumes "strictly_sorted xs" "binary_search t xs = Inl i"
  shows "strictly_sorted (take i xs @ t # drop i xs)"
proof -
  have s: "sorted xs" using assms(1) by (simp add: strict_sorted_imp_sorted)
  have "strictly_sorted (take i xs @ drop i xs)" using assms(1) by simp
  then show ?thesis
    using binary_search_Inl [OF s assms(2)] unfolding sorted_wrt_append by auto
qed

lemma partition_point_spec:
  assumes "\<And>i j. i < j \<Longrightarrow> j < length xs \<Longrightarrow> p (xs ! j) \<Longrightarrow> p (xs ! i)"
  shows "partition_point p xs \<le> length xs"
    and "\<And>i. i < partition_point p xs \<Longrightarrow> p (xs ! i)"
    and "\<And>i. partition_point p xs \<le> i \<Longrightarrow> i < length xs \<Longrightarrow> \<not> p (xs ! i)"
proof -
  let ?f = "\<lambda>x. if p x then Less else Greater"
  have "partitioned ?f xs"
    using assms by (auto simp: partitioned_def sorted_iff_nth_mono_less)
  from binary_search_by_spec [OF this]
  show "partition_point p xs \<le> length xs"
    and "\<And>i. i < partition_point p xs \<Longrightarrow> p (xs ! i)"
    and "\<And>i. partition_point p xs \<le> i \<Longrightarrow> i < length xs \<Longrightarrow> \<not> p (xs ! i)"
    by (auto simp: partition_point_def split: sum.splits if_splits)
qed

end
