(* ===== verification/Vint.thy ===== *)
theory Vint
  imports Summa_Bits
begin

text \<open>
  This theory models \<open>src/summa-core/src/structures/vint.rs\<close>, the seven-bit
  variable-length integers of dictionaries and postings: the writer, the reader, the
  slice reader with its one-byte shortcut, and the skipper. A reader takes the
  remaining bytes and returns its result with the bytes it leaves, since the
  cursor position after a failure is part of the contract.
\<close>

section \<open>Model\<close>

lemma drop7_less: "drop_bit 7 v \<noteq> 0 \<Longrightarrow> unat (drop_bit 7 (v :: u64)) < unat v"
proof -
  assume "drop_bit 7 v \<noteq> 0"
  then have "v \<noteq> 0" by auto
  then have "0 < unat v" by (simp add: unat_gt_0)
  then show ?thesis by (simp add: drop_bit_eq_div unat_div)
qed

function write_vint :: "u64 \<Rightarrow> bytes" where
  "write_vint v =
     (let b = ucast (v AND 0x7f) :: u8; v' = drop_bit 7 v
      in if v' = 0 then [b] else (b OR 0x80) # write_vint v')"
  by pat_completeness auto
termination
  by (relation "measure unat") (simp_all only: wf_measure in_measure drop7_less not_False_eq_True)

fun read_vint_loop :: "nat \<Rightarrow> u64 \<Rightarrow> bytes \<Rightarrow> (io_error + u64) \<times> bytes" where
  "read_vint_loop shift acc [] = (Inl eof_error, [])"
| "read_vint_loop shift acc (b # bs) =
     (if shift = 63 \<and> b > 1 then (Inl (IoError InvalidData ''varint exceeds u64''), bs)
      else let acc' = acc OR push_bit shift (ucast (b AND 0x7f))
           in if b AND 0x80 = 0 then (Inr acc', bs)
              else if shift + 7 \<ge> 64 then (Inl (IoError InvalidData ''varint too long''), bs)
              else read_vint_loop (shift + 7) acc' bs)"

definition read_vint :: "bytes \<Rightarrow> (io_error + u64) \<times> bytes" where
  "read_vint = read_vint_loop 0 0"

definition read_vint_slice :: "bytes \<Rightarrow> (io_error + u64) \<times> bytes" where
  "read_vint_slice r =
     (case r of
        b # rest \<Rightarrow> if b < 0x80 then (Inr (ucast b), rest) else read_vint r
      | [] \<Rightarrow> read_vint r)"

function skip_vint_from :: "nat \<Rightarrow> bytes \<Rightarrow> (io_error + unit) \<times> bytes" where
  "skip_vint_from i r =
     (let limit = min (length r) 10
      in if i < limit then
           let b = r ! i
           in if i = 9 \<and> b > 1 then (Inl (IoError InvalidData ''varint exceeds u64''), drop 10 r)
              else if b AND 0x80 = 0 then (Inr (), drop (i + 1) r)
              else skip_vint_from (i + 1) r
         else (Inl (IoError UnexpectedEof ''varint truncated''), drop limit r))"
  by pat_completeness auto
termination
  by (relation "measure (\<lambda>(i, r). 10 - i)") auto

definition skip_vint :: "bytes \<Rightarrow> (io_error + unit) \<times> bytes" where
  "skip_vint = skip_vint_from 0"

text \<open>
  What a caller sees of a result: the error kind, or success. The messages are
  for people and differ between \<^const>\<open>read_vint\<close> and \<^const>\<open>skip_vint\<close>.
\<close>

definition outcome :: "io_error + 'a \<Rightarrow> error_kind option" where
  "outcome r = (case r of Inl e \<Rightarrow> Some (kind e) | Inr _ \<Rightarrow> None)"

section \<open>Lemmas\<close>

declare write_vint.simps [simp del] skip_vint_from.simps [simp del]

lemma bit_7f [bits_simps]: "bit (0x7f :: int) k \<longleftrightarrow> k < 7"
proof -
  have "(0x7f :: int) = mask 7" by (simp add: mask_eq_exp_minus_1)
  then show ?thesis by (simp only: bit_mask_iff) simp
qed

lemma bit_80 [bits_simps]: "bit (0x80 :: int) k \<longleftrightarrow> k = 7"
proof -
  have "(0x80 :: int) = 2 ^ 7" by simp
  then show ?thesis by (simp only: bit_exp_iff) auto
qed

lemmas vint_bits = bit_7f bit_80 bit_and_iff bit_or_iff bit_unsigned_iff bit_push_bit_iff bit_drop_bit_eq

lemma continuation_clear: "(b :: u8) AND 0x80 = 0 \<longleftrightarrow> \<not> bit b 7"
  unfolding bit_eq_iff by (auto simp: vint_bits dest: spec [of _ 7])

lemma payload_last: "\<not> bit (ucast ((v :: u64) AND 0x7f) :: u8) 7"
  by (simp add: vint_bits)

lemma payload_more: "bit ((ucast ((v :: u64) AND 0x7f) :: u8) OR 0x80) 7"
  by (simp add: vint_bits)

lemma payload_value:
  "ucast ((ucast ((v :: u64) AND 0x7f) :: u8) AND 0x7f) = v AND (0x7f :: u64)"
  "ucast (((ucast ((v :: u64) AND 0x7f) :: u8) OR 0x80) AND 0x7f) = v AND (0x7f :: u64)"
  by (auto intro!: bit_word_eqI simp: vint_bits)

lemma split7: "(v :: u64) AND 0x7f OR push_bit 7 (drop_bit 7 v) = v"
proof (rule bit_word_eqI)
  fix k assume "k < LENGTH(64)"
  then show "bit (v AND 0x7f OR push_bit 7 (drop_bit 7 v)) k = bit v k"
    by (cases "k < 7") (auto simp: vint_bits)
qed

lemma unat_less_2: "unat (v :: u64) < 2 \<Longrightarrow> v = 0 \<or> v = 1"
proof -
  assume "unat v < 2"
  then have "unat v = 0 \<or> unat v = 1" by auto

  then show ?thesis by (simp only: word_unat_eq_iff unat_0 unat_1)
qed

text \<open>One step of the reader on what one step of the writer emitted.\<close>

lemma read_write_loop:
  assumes "s = 7 * k" "s \<le> 63" "unat v < 2 ^ (64 - s)"
  shows "read_vint_loop s acc (write_vint v @ rest) = (Inr (acc OR push_bit s v), rest)"
  using assms
proof (induction v arbitrary: s k acc rule: write_vint.induct)
  case (1 v)
  let ?b = "ucast (v AND 0x7f) :: u8"
  have "push_bit s (v AND 0x7f) OR push_bit (s + 7) (drop_bit 7 v)
      = push_bit s ((v AND 0x7f) OR push_bit 7 (drop_bit 7 v))"
    by (simp only: push_bit_or push_bit_push_bit)
  then have join: "(acc OR push_bit s (v AND 0x7f)) OR push_bit (s + 7) (drop_bit 7 v) = acc OR push_bit s v"
    for acc by (simp only: split7 or.assoc)
  show ?case
  proof (cases "drop_bit 7 v = 0")
    case True
    have small: "\<not> (s = 63 \<and> 1 < ?b)"
    proof
      assume "s = 63 \<and> 1 < ?b"
      then have "unat v < 2" "1 < ?b" using "1.prems" by auto
      then show False using unat_less_2 [of v] by auto
    qed
    then show ?thesis
      using True join [of acc] payload_last [of v]
      by (simp add: write_vint.simps [of v] Let_def continuation_clear payload_value del: push_bit_and)
  next
    case False
    have lt: "s < 63"
    proof (rule ccontr)
      assume "\<not> s < 63"
      then have "unat v < 2" using "1.prems" by auto
      then have "v = 0 \<or> v = 1" by (rule unat_less_2)
      then show False using False by auto
    qed
    then have s7: "s + 7 \<le> 63" using "1.prems"(1) by presburger
    have "unat (drop_bit 7 v) < 2 ^ (64 - (s + 7))"
    proof -
      have e: "64 - s = (64 - (s + 7)) + 7" using s7 by simp
      have "(2::nat) ^ (64 - s) = 2 ^ (64 - (s + 7)) * 2 ^ 7" unfolding e by (rule power_add)
      then show ?thesis
        using "1.prems"(3) by (simp add: unat_drop_bit_eq drop_bit_eq_div unat_div div_less_iff_less_mult)
    qed
    then have "read_vint_loop (s + 7) acc' (write_vint (drop_bit 7 v) @ rest)
        = (Inr (acc' OR push_bit (s + 7) (drop_bit 7 v)), rest)" for acc'
      using "1.IH" [OF refl refl False, of "s + 7" "k + 1"] "1.prems" s7 by simp
    then show ?thesis
      using False join [of acc] lt s7 payload_more [of v]
      by (simp add: write_vint.simps [of v] Let_def continuation_clear payload_value del: push_bit_and)
  qed
qed


lemma write_vint_nonempty: "write_vint v \<noteq> []"
  by (simp add: write_vint.simps [of v] Let_def)

lemma write_vint_length_bounds:
  "unat v < 128 ^ length (write_vint v) \<and> (v \<noteq> 0 \<longrightarrow> 128 ^ (length (write_vint v) - 1) \<le> unat v)"
proof (induction v rule: write_vint.induct)
  case (1 v)
  have q: "unat (drop_bit 7 v) = unat v div 128" by (simp add: drop_bit_eq_div unat_div)
  show ?case
  proof (cases "drop_bit 7 v = 0")
    case True
    then have "unat v div 128 = 0" using q by simp
    then have "unat v < 128" by simp
    moreover have "v \<noteq> 0 \<longrightarrow> 1 \<le> unat v" using unat_gt_0 [of v] by linarith
    ultimately show ?thesis using True by (simp add: write_vint.simps [of v] Let_def)
  next
    case False
    define n where "n = length (write_vint (drop_bit 7 v)) - 1"
    have l: "length (write_vint (drop_bit 7 v)) = n + 1"
      using write_vint_nonempty [of "drop_bit 7 v"] by (simp add: n_def)
    have "unat v div 128 < 128 ^ (n + 1)" "128 ^ n \<le> unat v div 128"
      using "1.IH" [OF refl refl False] False q l by auto
    then have "unat v < 128 ^ (n + 2)" "128 ^ (n + 1) \<le> unat v"
      by (auto simp: div_less_iff_less_mult less_eq_div_iff_mult_less_eq mult.commute)
    then show ?thesis using False l by (simp add: write_vint.simps [of v] Let_def)
  qed
qed

lemma high_bit_clear: "(b :: u8) \<le> 1 \<Longrightarrow> b AND 0x80 = 0"
proof -
  assume "b \<le> 1"
  then have "unat b < 2" by (simp add: word_le_nat_alt)
  then have "unat b = 0 \<or> unat b = 1" by auto
  then have "b = 0 \<or> b = 1" by (simp only: word_unat_eq_iff unat_0 unat_1)
  then show ?thesis by auto
qed

lemma skip_vint_from_read:
  assumes "i \<le> 9" "i \<le> length r"
  shows "snd (skip_vint_from i r) = snd (read_vint_loop (7 * i) acc (drop i r)) \<and>
    outcome (fst (skip_vint_from i r)) = outcome (fst (read_vint_loop (7 * i) acc (drop i r)))"
  using assms
proof (induction i r arbitrary: acc rule: skip_vint_from.induct)
  case (1 i r)
  show ?case
  proof (cases "i < length r")
    case False
    then have "i = length r" using "1.prems" by simp
    then show ?thesis using "1.prems" by (simp add: skip_vint_from.simps [of "length r"] outcome_def eof_error_def)
  next
    case True
    let ?b = "r ! i"
    have d: "drop i r = ?b # drop (i + 1) r" using True by (simp add: Cons_nth_drop_Suc)
    have lim: "i < min (length r) 10" using True "1.prems" by simp
    have sh: "7 * i = 63 \<longleftrightarrow> i = 9" by presburger
    note step = skip_vint_from.simps [of i r] d sh
    show ?thesis
    proof (cases "?b AND 0x80 = 0 \<or> i = 9")
      case True
      show ?thesis
      proof (cases "i = 9 \<and> 1 < ?b")
        case True
        then have "1 < r ! 9" by auto
        with True show ?thesis using lim unfolding step by (simp add: Let_def outcome_def)
      next
        case no: False
        then have "?b AND 0x80 = 0" using True high_bit_clear [of ?b] by (auto simp: not_less)
        then show ?thesis using lim no unfolding step
          by (cases "i = 9") (simp_all add: Let_def outcome_def)
      qed
    next
      case False
      then have "i < 9" using "1.prems" by simp
      moreover have "i + 1 \<le> 9" "i + 1 \<le> length r" using \<open>i < 9\<close> lim by auto
      note IH = "1.IH" [OF refl lim refl _ _ this, of "acc OR push_bit (7 * i) (ucast (?b AND 0x7f))"]
      ultimately show ?thesis using False lim IH
        by (simp add: step add.commute Let_def)
    qed
  qed
qed

lemma read_vint_small:
  "(b :: u8) < 0x80 \<Longrightarrow> read_vint (b # rest) = (Inr (ucast b), rest)"
proof -
  assume "b < 0x80"
  then have "unat b < 2 ^ 7" by (simp add: word_less_nat_alt)
  then have "take_bit 7 b = b" by (simp add: take_bit_nat_eq_self word_unat_eq_iff unsigned_take_bit_eq)
  then have "\<not> bit b k" if "k \<ge> 7" for k using that by (metis bit_take_bit_iff not_le)
  then have "b AND 0x7f = b" "b AND 0x80 = 0"
    by (auto intro!: bit_word_eqI simp: vint_bits) (meson not_less)
  then show ?thesis by (simp add: read_vint_def)
qed


lemma skip_vint_read:
  "snd (skip_vint r) = snd (read_vint r)"
  "outcome (fst (skip_vint r)) = outcome (fst (read_vint r))"
  using skip_vint_from_read [of 0 r 0] by (simp_all add: skip_vint_def read_vint_def)

lemma read_vint_slice_eq: "read_vint_slice r = read_vint r"
  by (auto simp: read_vint_slice_def read_vint_small split: list.splits)

section \<open>Properties\<close>

text \<open>
  C35. Every u64 that \<open>write_vint\<close> emits is read back unchanged by \<open>read_vint\<close> and
  by \<open>read_vint_slice\<close>, both of which stop exactly behind it, whatever follows in
  the stream; \<open>skip_vint\<close> stops at the same place.
\<close>

theorem vint_round_trip:
  "read_vint (write_vint v @ rest) = (Inr v, rest) \<and>
   read_vint_slice (write_vint v @ rest) = (Inr v, rest) \<and>
   skip_vint (write_vint v @ rest) = (Inr (), rest)"
proof -
  have r: "read_vint (write_vint v @ rest) = (Inr v, rest)"
    unfolding read_vint_def using read_write_loop [of 0 0 v 0 rest] using unsigned_less [of v, where ?'a = nat] by simp
  moreover have "skip_vint (write_vint v @ rest) = (Inr (), rest)"
    using skip_vint_read [of "write_vint v @ rest"] r by (cases "skip_vint (write_vint v @ rest)")
      (auto simp: outcome_def split: sum.splits)
  ultimately show ?thesis by (simp add: read_vint_slice_eq)
qed

text \<open>
  On every input, well-formed or not, \<open>skip_vint\<close> leaves the cursor where
  \<open>read_vint\<close> leaves it and fails exactly when \<open>read_vint\<close> does, with the same
  error kind; the one-byte shortcut of \<open>read_vint_slice\<close> changes nothing.
\<close>

lemma skip_vint_matches_read_vint:
  "snd (skip_vint r) = snd (read_vint r) \<and>
   outcome (fst (skip_vint r)) = outcome (fst (read_vint r)) \<and>
   read_vint_slice r = read_vint r"
  using skip_vint_read [of r] read_vint_slice_eq [of r] by simp

text \<open>
  C40. An encoding has as many bytes as its value has base-128 digits, hence between
  one and ten.
\<close>

theorem write_vint_length:
  "1 \<le> length (write_vint v) \<and> length (write_vint v) \<le> 10 \<and>
   unat v < 128 ^ length (write_vint v) \<and>
   (v \<noteq> 0 \<longrightarrow> 128 ^ (length (write_vint v) - 1) \<le> unat v)"
proof -
  have "length (write_vint v) \<le> 10"
  proof (rule ccontr)
    assume "\<not> ?thesis"
    then have l: "10 \<le> length (write_vint v) - 1" by simp
    then have "v \<noteq> 0" by (auto simp: write_vint.simps [of 0])
    have "(128::nat) ^ 10 \<le> 128 ^ (length (write_vint v) - 1)" using l by (rule power_increasing) simp
    also have "\<dots> \<le> unat v" using write_vint_length_bounds [of v] \<open>v \<noteq> 0\<close> by simp
    finally show False using unsigned_less [of v, where ?'a = nat] by simp
  qed
  moreover have "1 \<le> length (write_vint v)" using write_vint_nonempty [of v] by (cases "write_vint v") auto
  ultimately show ?thesis using write_vint_length_bounds [of v] by simp
qed

theorem write_vint_length_witness:
  "length (write_vint 300) = 2"
proof -
  have l: "unat (300 :: u64) = 300" by simp
  let ?n = "length (write_vint 300)"
  have a: "300 < (128::nat) ^ ?n" "(128::nat) ^ (?n - 1) \<le> 300" "1 \<le> ?n"
    using write_vint_length [of 300] l by auto
  have "?n \<noteq> 1" using a(1) by auto
  moreover have "\<not> 3 \<le> ?n"
  proof
    assume "3 \<le> ?n"
    then have "(128::nat) ^ 2 \<le> 128 ^ (?n - 1)" by (intro power_increasing) auto
    then show False using a(2) by simp
  qed
  ultimately show ?thesis using a(3) by simp
qed

end
