(* ===== verification/DocBitset.thy ===== *)
theory DocBitset
  imports Summa_Bits
begin

text \<open>
  This theory models \<open>DocBitset\<close> of \<open>src/summa-core/src/query/traits.rs\<close>: a vector of
  64-bit words indexed by document id. Every method is a function on the record;
  \<open>insert_matching_values\<close>, which indexes the vector without a check, returns
  \<open>None\<close> where the code panics. The lemmas read each method as an operation on the
  set of documents \<open>bitset_docs\<close>.
\<close>

section \<open>Model\<close>

record doc_bitset =
  bits :: "u64 list"

definition bitset_clear :: "doc_bitset \<Rightarrow> docid \<Rightarrow> doc_bitset" where
  "bitset_clear b doc_id =
     (if doc_id div 64 < length (bits b)
      then b\<lparr>bits := (bits b)[doc_id div 64 := bits b ! (doc_id div 64) AND NOT (push_bit (doc_id mod 64) 1)]\<rparr>
      else b)"

definition bitset_new :: "docid \<Rightarrow> doc_bitset" where
  "bitset_new num_docs = \<lparr>bits = replicate (div_ceil num_docs 64) 0\<rparr>"

definition bitset_all :: "docid \<Rightarrow> doc_bitset" where
  "bitset_all num_docs =
     (let result = (bitset_new num_docs)\<lparr>bits := map (\<lambda>_. - 1) (bits (bitset_new num_docs))\<rparr>
      in if num_docs mod 64 \<noteq> 0 \<and> bits result \<noteq> []
         then result\<lparr>bits := (bits result)[length (bits result) - 1 := push_bit (num_docs mod 64) 1 - 1]\<rparr>
         else result)"

definition bitset_set :: "doc_bitset \<Rightarrow> docid \<Rightarrow> doc_bitset" where
  "bitset_set b doc_id =
     (let word = doc_id div 64; bit = doc_id mod 64
      in if word < length (bits b)
         then b\<lparr>bits := (bits b)[word := bits b ! word OR push_bit bit 1]\<rparr>
         else b)"

definition match_mask :: "(u64 \<Rightarrow> bool) \<Rightarrow> u64 list \<Rightarrow> u64" where
  "match_mask pred chunk =
     (let matches = map (\<lambda>v. if pred v then 1 else 0 :: u64) chunk @ replicate (64 - length chunk) 0
      in foldl (\<lambda>mask (bit, matched). mask OR push_bit bit matched) 0 (enumerate 0 matches))"

definition insert_matching_chunk ::
  "docid \<Rightarrow> (u64 \<Rightarrow> bool) \<Rightarrow> nat \<times> u64 list \<Rightarrow> doc_bitset \<Rightarrow> doc_bitset option" where
  "insert_matching_chunk start pred = (\<lambda>(chunk_index, chunk) b.
     let mask = match_mask pred chunk;
         doc = start + chunk_index * 64;
         word = doc div 64;
         shift = doc mod 64
     in if word < length (bits b) then
          let b1 = b\<lparr>bits := (bits b)[word := bits b ! word OR push_bit shift mask]\<rparr>
          in if shift + length chunk > 64 then
               if word + 1 < length (bits b1)
               then Some (b1\<lparr>bits := (bits b1)[word + 1 := bits b1 ! (word + 1) OR drop_bit (64 - shift) mask]\<rparr>)
               else None
             else Some b1
        else None)"

fun insert_matching_chunks ::
  "docid \<Rightarrow> (u64 \<Rightarrow> bool) \<Rightarrow> (nat \<times> u64 list) list \<Rightarrow> doc_bitset \<Rightarrow> doc_bitset option" where
  "insert_matching_chunks start pred [] b = Some b"
| "insert_matching_chunks start pred (c # cs) b =
     (case insert_matching_chunk start pred c b of
        None \<Rightarrow> None
      | Some b' \<Rightarrow> insert_matching_chunks start pred cs b')"

definition insert_matching_values ::
  "doc_bitset \<Rightarrow> docid \<Rightarrow> u64 list \<Rightarrow> (u64 \<Rightarrow> bool) \<Rightarrow> doc_bitset option" where
  "insert_matching_values b start vs pred =
     insert_matching_chunks start pred (enumerate 0 (chunks 64 vs)) b"

function next_set_bit_loop :: "u64 list \<Rightarrow> nat \<Rightarrow> u64 \<Rightarrow> docid option" where
  "next_set_bit_loop ws word bs =
     (if bs \<noteq> 0 then Some (as_u32 (word * 64 + trailing_zeros bs))
      else if word + 1 \<ge> length ws then None
      else next_set_bit_loop ws (word + 1) (ws ! (word + 1)))"
  by pat_completeness auto
termination
  by (relation "measure (\<lambda>(ws, word, bs). length ws - word)") auto

definition next_set_bit :: "doc_bitset \<Rightarrow> docid \<Rightarrow> docid option" where
  "next_set_bit b from_doc =
     (let word = from_doc div 64
      in if word \<ge> length (bits b) then None
         else next_set_bit_loop (bits b) word (bits b ! word AND push_bit (from_doc mod 64) (- 1)))"

definition bitset_contains :: "doc_bitset \<Rightarrow> docid \<Rightarrow> bool" where
  "bitset_contains b doc_id \<longleftrightarrow>
     (let word = doc_id div 64; bit = doc_id mod 64
      in word < length (bits b) \<and> bits b ! word AND push_bit bit 1 \<noteq> 0)"

definition bitset_count :: "doc_bitset \<Rightarrow> docid" where
  "bitset_count b = as_u32 (sum_list (map count_ones (bits b)))"

definition from_predicate :: "docid \<Rightarrow> (docid \<Rightarrow> bool) \<Rightarrow> doc_bitset" where
  "from_predicate num_docs pred =
     foldl (\<lambda>bs doc_id. if pred doc_id then bitset_set bs doc_id else bs)
       (bitset_new num_docs) [0..<num_docs]"

definition union_with :: "doc_bitset \<Rightarrow> doc_bitset \<Rightarrow> doc_bitset" where
  "union_with a b =
     a\<lparr>bits := map2 (OR) (bits a) (bits b) @ drop (length (bits b)) (bits a)\<rparr>"

definition intersect_with :: "doc_bitset \<Rightarrow> doc_bitset \<Rightarrow> doc_bitset" where
  "intersect_with a b =
     a\<lparr>bits := map2 (AND) (bits a) (bits b) @ map (\<lambda>_. 0) (drop (length (bits b)) (bits a))\<rparr>"

definition bitset_subtract :: "doc_bitset \<Rightarrow> doc_bitset \<Rightarrow> doc_bitset" where
  "bitset_subtract a b =
     a\<lparr>bits := map2 (\<lambda>x y. x AND NOT y) (bits a) (bits b) @ drop (length (bits b)) (bits a)\<rparr>"

function retain_word :: "(docid \<Rightarrow> bool) \<Rightarrow> nat \<Rightarrow> u64 \<Rightarrow> u64 \<Rightarrow> u64" where
  "retain_word pred w word bs =
     (if bs = 0 then word
      else let b = trailing_zeros bs;
               doc = as_u32 (as_u32 (w * 64) + b);
               word' = (if pred doc then word else word AND NOT (push_bit b 1))
           in retain_word pred w word' (bs AND (bs - 1)))"
  by pat_completeness auto
termination
  by (relation "measure (\<lambda>(pred, w, word, bs). unat bs)") (simp_all add: clear_lowest_less)

definition bitset_retain :: "doc_bitset \<Rightarrow> (docid \<Rightarrow> bool) \<Rightarrow> doc_bitset" where
  "bitset_retain b pred = b\<lparr>bits := map (\<lambda>(w, word). retain_word pred w word word) (enumerate 0 (bits b))\<rparr>"

declare next_set_bit_loop.simps [simp del] retain_word.simps [simp del]

section \<open>The set of documents\<close>

definition bitset_docs :: "doc_bitset \<Rightarrow> docid set" where
  "bitset_docs b = {d. bitset_contains b d}"

text \<open>
  A bitset for \<open>num_docs\<close> documents has exactly the words those documents need and
  no padding bit set.
\<close>

definition bitset_wf :: "docid \<Rightarrow> doc_bitset \<Rightarrow> bool" where
  "bitset_wf num_docs b \<longleftrightarrow>
     num_docs \<le> TERMINATED \<and> length (bits b) = div_ceil num_docs 64 \<and>
     (\<forall>w \<in> set (wpositions (bits b)). w < num_docs)"

lemma single_bit_test: "(w :: 'a::len word) AND push_bit n 1 \<noteq> 0 \<longleftrightarrow> bit w n"
  by (simp add: bit_iff_and_push_bit_not_eq_0)

lemma bitset_contains_wbit: "bitset_contains b d \<longleftrightarrow> wbit (bits b) d"
  unfolding bitset_contains_def wbit_def Let_def single_bit_test by simp

lemma bitset_docs_wbit: "bitset_docs b = {d. wbit (bits b) d}"
  by (simp add: bitset_docs_def bitset_contains_wbit)

lemma mem_bitset_docs: "d \<in> bitset_docs b \<longleftrightarrow> wbit (bits b) d"
  by (simp add: bitset_docs_wbit)

lemma set_wpositions_docs: "set (wpositions (bits b)) = bitset_docs b"
  by (simp add: bitset_docs_wbit bits_simps)

lemma bitset_wf_words: "bitset_wf n b \<Longrightarrow> length (bits b) * 64 \<le> 2 ^ 32"
proof -
  assume wf: "bitset_wf n b"
  have "(n + 64 - 1) div 64 \<le> (4294967295 + 64 - 1) div 64"
    using wf by (intro div_le_mono) (simp add: bitset_wf_def TERMINATED_def)
  then show ?thesis using wf by (simp add: bitset_wf_def div_ceil_def)
qed

lemma bitset_wf_iff:
  "bitset_wf n b \<longleftrightarrow> n \<le> TERMINATED \<and> length (bits b) = div_ceil n 64 \<and> bitset_docs b \<subseteq> {..<n}"
  unfolding bitset_wf_def set_wpositions_docs by auto

lemma in_words: "d < n \<Longrightarrow> d div 64 < div_ceil n 64"
  by (rule div_less_div_ceil) simp

lemma bitset_clear_docs: "bitset_docs (bitset_clear b d) = bitset_docs b - {d}"
proof (cases "d div 64 < length (bits b)")
  case True
  then show ?thesis
    using wbit_clear_bit [of d "bits b"] by (auto simp: bitset_docs_wbit bitset_clear_def)
next
  case False
  then show ?thesis by (auto simp: bitset_docs_wbit bitset_clear_def wbit_def)
qed

lemma bitset_new_docs: "bitset_docs (bitset_new n) = {}"
  by (simp add: bitset_docs_wbit bitset_new_def)

lemma bitset_set_docs:
  "bitset_docs (bitset_set b d) = (if d div 64 < length (bits b) then insert d (bitset_docs b) else bitset_docs b)"
  using wbit_set_bit [of d "bits b"] by (auto simp: bitset_docs_wbit bitset_set_def Let_def)

lemma bitset_set_length [simp]: "length (bits (bitset_set b d)) = length (bits b)"
  by (simp add: bitset_set_def Let_def)


lemma bit_below: "bit (push_bit r 1 - 1 :: 'a::len word) j \<longleftrightarrow> j < min r LENGTH('a)"
proof -
  have "push_bit r 1 - 1 = (mask r :: 'a word)" by (simp add: mask_eq_exp_minus_1 push_bit_of_1)
  then show ?thesis by (simp only: bit_mask_iff) auto
qed

lemma bitset_all_docs: "bitset_docs (bitset_all n) = {..<n}"
proof -
  let ?m = "div_ceil n 64"
  have m: "?m = n div 64 + (if n mod 64 = 0 then 0 else 1)" by (rule div_ceil_alt) simp
  have "wbit (bits (bitset_all n)) k \<longleftrightarrow> k < n" for k
  proof (cases "n mod 64 = 0")
    case True
    then have "bits (bitset_all n) = replicate ?m (- 1)"
      by (simp add: bitset_all_def bitset_new_def Let_def)
    then show ?thesis using True m
      by (auto simp: wbit_def div_less_iff_less_mult)
  next
    case False
    then have "?m \<noteq> 0" using m by simp
    then have b: "bits (bitset_all n) = (replicate ?m (- 1))[n div 64 := push_bit (n mod 64) 1 - 1]"
      using False m by (simp add: bitset_all_def bitset_new_def Let_def)
    have "n div 64 < length (replicate ?m (- 1 :: u64))" using m False by simp
    note u = wbit_update [OF this, of "push_bit (n mod 64) 1 - 1" k]
    have "wbit (bits (bitset_all n)) k \<longleftrightarrow>
        (if k div 64 = n div 64 then k mod 64 < n mod 64 else k div 64 < ?m)"
      unfolding b u by (auto simp: bit_below wbit_def simp del: push_bit_of_1)
    also have "\<dots> \<longleftrightarrow> k < n"
    proof (cases "k div 64 = n div 64")
      case True
      have "k = 64 * (k div 64) + k mod 64" "n = 64 * (n div 64) + n mod 64" by simp_all
      then have "k mod 64 < n mod 64 \<longleftrightarrow> k < n" using True by linarith
      then show ?thesis using True by simp
    next
      case d: False
      then have "k div 64 < ?m \<longleftrightarrow> k div 64 < n div 64" using m False by auto
      also have "\<dots> \<longleftrightarrow> k < n" using d by (rule div_neq_less)
      finally show ?thesis using d by simp
    qed
    finally show ?thesis .
  qed
  then show ?thesis by (auto simp: bitset_docs_wbit)
qed

lemma bitset_all_length [simp]: "length (bits (bitset_all n)) = div_ceil n 64"
  by (simp add: bitset_all_def bitset_new_def Let_def)

lemma from_predicate_docs: "bitset_docs (from_predicate n p) = {d. d < n \<and> p d}"
  and from_predicate_length: "length (bits (from_predicate n p)) = div_ceil n 64"
proof -
  let ?f = "\<lambda>bs d. if p d then bitset_set bs d else bs"
  have "bitset_docs (foldl ?f (bitset_new n) [0..<j]) = {d. d < j \<and> p d} \<and>
      length (bits (foldl ?f (bitset_new n) [0..<j])) = div_ceil n 64" if "j \<le> n" for j
    using that
  proof (induction j)
    case 0
    then show ?case by (simp add: bitset_new_docs) (simp add: bitset_new_def)
  next
    case (Suc j)
    then show ?case using in_words [of j n] by (auto simp: bitset_set_docs less_Suc_eq)
  qed
  from this [of n] show "bitset_docs (from_predicate n p) = {d. d < n \<and> p d}"
    and "length (bits (from_predicate n p)) = div_ceil n 64"
    by (simp_all add: from_predicate_def)
qed

text \<open>Word-by-word combination of two bitsets.\<close>

lemma wbit_map2:
  fixes xs ys :: "u64 list" and f :: "u64 \<Rightarrow> u64 \<Rightarrow> u64"
  shows "wbit (map2 f xs ys @ map h (drop (length ys) xs)) k \<longleftrightarrow> k div 64 < length xs \<and>
    (if k div 64 < length ys then bit (f (xs ! (k div 64)) (ys ! (k div 64))) (k mod 64)
     else bit (h (xs ! (k div 64))) (k mod 64))"
proof (cases "k div 64 < length ys")
  case True
  then show ?thesis by (auto simp: wbit_def nth_append)
next
  case False
  then show ?thesis by (auto simp: wbit_def nth_append min_def)
qed

lemmas wbit_map2_keep = wbit_map2 [where h = "\<lambda>x. x", simplified list.map_ident]

lemma union_with_docs:
  assumes "length (bits b) \<le> length (bits a)"
  shows "bitset_docs (union_with a b) = bitset_docs a \<union> bitset_docs b"
  unfolding bitset_docs_wbit union_with_def
  using assms by (auto simp: wbit_map2_keep) (auto simp: wbit_def bit_or_iff split: if_splits)

lemma intersect_with_docs: "bitset_docs (intersect_with a b) = bitset_docs a \<inter> bitset_docs b"
  unfolding bitset_docs_wbit intersect_with_def
  by (auto simp: wbit_map2 bit_and_iff split: if_splits) (auto simp: wbit_def split: if_splits)

lemma bitset_subtract_docs: "bitset_docs (bitset_subtract a b) = bitset_docs a - bitset_docs b"
  unfolding bitset_docs_wbit bitset_subtract_def
  by (auto simp: wbit_map2_keep bit_and_iff bit_not_iff split: if_splits) (auto simp: wbit_def split: if_splits)


subsection \<open>Scanning\<close>

lemma as_u32_word: "word < length ws \<Longrightarrow> length ws * 64 \<le> 2 ^ 32 \<Longrightarrow> b < 64 \<Longrightarrow> as_u32 (word * 64 + b) = word * 64 + b"
  by (simp add: as_u32_def)

lemma wbit_word: "b < 64 \<Longrightarrow> wbit (ws :: u64 list) (word * 64 + b) \<longleftrightarrow> word < length ws \<and> bit (ws ! word) b"
  by (simp add: wbit_def)

lemma next_set_bit_loop_spec:
  assumes "word < length ws" "length ws * 64 \<le> 2 ^ 32"
  shows "case next_set_bit_loop ws word bs of
      None \<Rightarrow> bs = 0 \<and> (\<forall>k \<ge> (word + 1) * 64. \<not> wbit ws k)
    | Some r \<Rightarrow> if bs \<noteq> 0 then r = word * 64 + trailing_zeros bs
        else wbit ws r \<and> (word + 1) * 64 \<le> r \<and> (\<forall>j. (word + 1) * 64 \<le> j \<and> j < r \<longrightarrow> \<not> wbit ws j)"
  using assms
proof (induction ws word bs rule: next_set_bit_loop.induct)
  case (1 ws word bs)
  show ?case
  proof (cases "bs = 0")
    case False
    then show ?thesis using trailing_zeros_bit(3) [of bs] "1.prems"
      by (simp add: next_set_bit_loop.simps [of ws word bs] as_u32_word)
  next
    case z: True
    show ?thesis
    proof (cases "word + 1 < length ws")
      case False
      have "\<not> wbit ws k" if "(word + 1) * 64 \<le> k" for k
        using wbit_bound [of ws k] that False "1.prems" by auto
      moreover have "next_set_bit_loop ws word bs = None"
        using z False by (simp add: next_set_bit_loop.simps [of ws word 0])
      ultimately show ?thesis using z by simp
    next
      case True
      let ?w = "ws ! (word + 1)"
      have n: "next_set_bit_loop ws word bs = next_set_bit_loop ws (word + 1) ?w"
        using z True by (simp add: next_set_bit_loop.simps [of ws word 0])
      have IH: "case next_set_bit_loop ws (word + 1) ?w of
          None \<Rightarrow> ?w = 0 \<and> (\<forall>k \<ge> (word + 1 + 1) * 64. \<not> wbit ws k)
        | Some r \<Rightarrow> if ?w \<noteq> 0 then r = (word + 1) * 64 + trailing_zeros ?w
            else wbit ws r \<and> (word + 1 + 1) * 64 \<le> r \<and> (\<forall>j. (word + 1 + 1) * 64 \<le> j \<and> j < r \<longrightarrow> \<not> wbit ws j)"
        using "1.IH" z True "1.prems" by simp
      have split: "wbit ws j \<longleftrightarrow> bit ?w (j - (word + 1) * 64)" if "(word + 1) * 64 \<le> j" "j < (word + 1 + 1) * 64" for j
        using wbit_word [of "j - (word + 1) * 64" ws "word + 1"] that True by simp
      show ?thesis
      proof (cases "?w = 0")
        case w: True
        have none: "\<not> wbit ws j" if "(word + 1) * 64 \<le> j" "j < (word + 1 + 1) * 64" for j
          using split [OF that] w by simp
        then show ?thesis using IH z w n
          by (auto split: option.splits) (metis not_less)+
      next
        case w: False
        note tz = trailing_zeros_bit [OF w]
        have "wbit ws ((word + 1) * 64 + trailing_zeros ?w)"
          using wbit_word [of "trailing_zeros ?w" ws "word + 1"] tz True by simp
        moreover have "\<not> wbit ws j" if "(word + 1) * 64 \<le> j" "j < (word + 1) * 64 + trailing_zeros ?w" for j
          using split [of j] tz(2) [of "j - (word + 1) * 64"] tz(3) that by auto
        ultimately show ?thesis using IH z w n by (auto split: option.splits)
      qed
    qed
  qed
qed


lemma bit_high:
  "j < 64 \<Longrightarrow> bit ((w :: u64) AND push_bit r (- 1)) j \<longleftrightarrow> bit w j \<and> r \<le> j"
  "j < 64 \<Longrightarrow> bit ((w :: u64) AND NOT (mask r)) j \<longleftrightarrow> bit w j \<and> r \<le> j"
  by (auto simp: bit_and_iff bit_push_bit_iff bit_not_iff bit_mask_iff)

lemma next_set_bit_None:
  assumes "length (bits b) * 64 \<le> 2 ^ 32" "next_set_bit b t = None"
  shows "\<forall>k \<ge> t. k \<notin> bitset_docs b"
proof (cases "t div 64 < length (bits b)")
  case False
  have "\<not> wbit (bits b) k" if "t \<le> k" for k
    using False div_le_mono [OF that, of 64] by (auto simp: wbit_def)
  then show ?thesis by (simp add: mem_bitset_docs)
next
  case True
  let ?w = "bits b ! (t div 64) AND push_bit (t mod 64) (- 1)"
  have n: "?w = 0 \<and> (\<forall>k \<ge> (t div 64 + 1) * 64. \<not> wbit (bits b) k)"
    using next_set_bit_loop_spec [of "t div 64" "bits b" ?w] assms True
    by (simp add: next_set_bit_def Let_def)
  have "\<not> wbit (bits b) k" if "t \<le> k" for k
  proof (cases "k div 64 = t div 64")
    case True
    have "t mod 64 \<le> k mod 64" using that True
      by (metis add_le_cancel_left div_mult_mod_eq)
    moreover have "\<not> bit ?w (k mod 64)" using n by simp
    ultimately have "\<not> bit (bits b ! (t div 64)) (k mod 64)"
      by (simp add: bit_high)
    then show ?thesis using True by (simp add: wbit_def)
  next
    case False
    then have "t div 64 < k div 64" using div_le_mono [OF that, of 64] by simp
    then have "(t div 64 + 1) * 64 \<le> k" by (simp add: less_eq_div_iff_mult_less_eq Suc_le_eq)
    then show ?thesis using n by blast
  qed
  then show ?thesis by (simp add: mem_bitset_docs)
qed

lemma next_set_bit_Some:
  assumes "length (bits b) * 64 \<le> 2 ^ 32" "next_set_bit b t = Some r"
  shows "r \<in> bitset_docs b \<and> t \<le> r \<and> (\<forall>k. t \<le> k \<and> k < r \<longrightarrow> k \<notin> bitset_docs b)"
proof -
  have True: "t div 64 < length (bits b)" using assms by (auto simp: next_set_bit_def Let_def split: if_splits)
  let ?w = "bits b ! (t div 64) AND push_bit (t mod 64) (- 1)"
  have n: "if ?w \<noteq> 0 then r = t div 64 * 64 + trailing_zeros ?w
      else wbit (bits b) r \<and> (t div 64 + 1) * 64 \<le> r \<and>
        (\<forall>j. (t div 64 + 1) * 64 \<le> j \<and> j < r \<longrightarrow> \<not> wbit (bits b) j)"
    using next_set_bit_loop_spec [of "t div 64" "bits b" ?w] assms True
    by (simp add: next_set_bit_def Let_def)
  have t: "t div 64 * 64 + t mod 64 = t" by simp
  have word: "wbit (bits b) k \<longleftrightarrow> bit ?w (k - t div 64 * 64)" if "t \<le> k" "k < (t div 64 + 1) * 64" for k
  proof -
    define j where "j = k - t div 64 * 64"
    have k: "k = t div 64 * 64 + j" "t mod 64 \<le> j" "j < 64"
      using that t unfolding j_def by (linarith, linarith, simp)
    then show ?thesis using wbit_word [of j "bits b" "t div 64"] True
      by (simp add: bit_high)
  qed
  show ?thesis
  proof (cases "?w = 0")
    case False
    note tz = trailing_zeros_bit [OF False]
    have r: "r = t div 64 * 64 + trailing_zeros ?w" using n False by simp
    have "t mod 64 \<le> trailing_zeros ?w" using tz(1,3) by (simp add: bit_high)
    then have tr: "t \<le> r" using t r by linarith
    have "wbit (bits b) r" using word [OF tr] tz r by simp
    moreover have "\<not> wbit (bits b) k" if "t \<le> k" "k < r" for k
    proof -
      have "k - t div 64 * 64 < trailing_zeros ?w" using that r t by linarith
      moreover have "k < (t div 64 + 1) * 64" using that r tz(3) by simp
      ultimately show ?thesis using word [OF that(1)] tz(2) by blast
    qed
    ultimately show ?thesis using tr by (simp add: mem_bitset_docs)
  next
    case z: True
    then have "\<not> wbit (bits b) k" if "t \<le> k" "k < (t div 64 + 1) * 64" for k using word [OF that] by simp
    moreover have "t \<le> r" using n z t by auto
    ultimately show ?thesis using n z by (auto simp: mem_bitset_docs) (metis not_less)
  qed
qed

lemma next_set_bit_dropWhile:
  assumes "length (bits b) * 64 \<le> 2 ^ 32"
  shows "next_set_bit b t = (case dropWhile (\<lambda>d. d < t) (wpositions (bits b)) of [] \<Rightarrow> None | d # _ \<Rightarrow> Some d)"
proof (cases "next_set_bit b t")
  case None
  then have e: "dropWhile (\<lambda>d. d < t) (wpositions (bits b)) = []"
    using next_set_bit_None [OF assms None]
    by (auto simp: set_wpositions_docs simp flip: not_le)
  show ?thesis unfolding None e by simp
next
  case (Some r)
  then have "\<exists>ys. dropWhile (\<lambda>d. d < t) (wpositions (bits b)) = r # ys"
    using next_set_bit_Some [OF assms Some]
    by (subst dropWhile_less_Cons_iff) (auto simp: set_wpositions_docs not_less intro: leI)
  then show ?thesis using Some by auto
qed

lemma bitset_count_docs: "bitset_wf n b \<Longrightarrow> bitset_count b = card (bitset_docs b)"
proof -
  assume wf: "bitset_wf n b"
  have "card (bitset_docs b) \<le> card {..<n}" using wf by (intro card_mono) (auto simp: bitset_wf_iff)
  then show ?thesis using wf
    by (simp add: bitset_count_def bitset_docs_wbit card_wbit bitset_wf_iff)
qed


subsection \<open>Retaining and inserting\<close>

lemma retain_word_bit:
  assumes "w * 64 + 64 \<le> 2 ^ 32"
  shows "j < 64 \<Longrightarrow> bit (retain_word pred w word bs) j \<longleftrightarrow> bit word j \<and> (bit bs j \<longrightarrow> pred (w * 64 + j))"
  using assms
proof (induction pred w word bs rule: retain_word.induct)
  case (1 pred w word bs)
  show ?case
  proof (cases "bs = 0")
    case True
    then show ?thesis by (simp add: retain_word.simps [of pred w word 0])
  next
    case False
    let ?b = "trailing_zeros bs"
    let ?word = "if pred (w * 64 + ?b) then word else word AND NOT (push_bit ?b 1)"
    note tz = trailing_zeros_bit [OF False]
    have "as_u32 (as_u32 (w * 64) + ?b) = w * 64 + ?b"
      using "1.prems"(2) tz(3) by (simp add: as_u32_def)
    note step = retain_word.simps [of pred w word bs, unfolded Let_def this]
    have "bit (retain_word pred w ?word (bs AND (bs - 1))) j \<longleftrightarrow>
        bit ?word j \<and> (bit (bs AND (bs - 1)) j \<longrightarrow> pred (w * 64 + j))"
      using "1.IH" [OF False refl refl refl] "1.prems" \<open>as_u32 _ = _\<close> by simp
    moreover have "bit ?word j \<longleftrightarrow> bit word j \<and> (j = ?b \<longrightarrow> pred (w * 64 + ?b))"
      using "1.prems"(1) by (auto simp: bit_and_iff bit_not_iff bit_exp_iff)
    ultimately have "bit (retain_word pred w ?word (bs AND (bs - 1))) j \<longleftrightarrow>
        bit word j \<and> (bit bs j \<longrightarrow> pred (w * 64 + j))"
      using tz(1) by (auto simp: bit_clear_lowest [OF False])
    then show ?thesis unfolding step using False by simp
  qed
qed

lemma bitset_retain_docs:
  assumes "length (bits b) * 64 \<le> 2 ^ 32"
  shows "bitset_docs (bitset_retain b pred) = {d \<in> bitset_docs b. pred d}"
proof -
  have "wbit (bits (bitset_retain b pred)) k \<longleftrightarrow> wbit (bits b) k \<and> pred k" for k
  proof (cases "k div 64 < length (bits b)")
    case True
    then have "k div 64 * 64 + 64 \<le> 2 ^ 32" using assms by simp
    note retain_word_bit [OF this, of "k mod 64" pred "bits b ! (k div 64)" "bits b ! (k div 64)"]
    then show ?thesis using True by (auto simp: wbit_def bitset_retain_def nth_enumerate_eq)
  qed (simp add: wbit_def bitset_retain_def)
  then show ?thesis by (simp add: bitset_docs_wbit)
qed

lemma bit_fold_matches:
  assumes "\<forall>x \<in> set xs. x = 0 \<or> x = 1" "j < 64"
  shows "bit (foldl (\<lambda>mask (b, m). mask OR push_bit b m) (acc :: u64) (enumerate n xs)) j \<longleftrightarrow>
    bit acc j \<or> n \<le> j \<and> j < n + length xs \<and> xs ! (j - n) = 1"
  using assms
proof (induction xs arbitrary: n acc)
  case (Cons x xs)
  have "bit (acc OR push_bit n x) j \<longleftrightarrow> bit acc j \<or> j = n \<and> x = 1"
    using Cons.prems by (auto simp: bit_or_iff bit_push_bit_iff bit_1_iff)
  then show ?case using Cons.IH [of "acc OR push_bit n x" "Suc n"] Cons.prems
    by (cases "j = n") (auto simp: nth_Cons' Suc_le_eq)
qed auto

lemma bit_match_mask:
  assumes "length chunk \<le> 64" "j < 64"
  shows "bit (match_mask pred chunk) j \<longleftrightarrow> j < length chunk \<and> pred (chunk ! j)"
proof -
  let ?m = "map (\<lambda>v. if pred v then 1 else 0 :: u64) chunk @ replicate (64 - length chunk) 0"
  have "bit (match_mask pred chunk) j \<longleftrightarrow> ?m ! j = 1"
    unfolding match_mask_def Let_def using assms by (subst bit_fold_matches) auto
  then show ?thesis using assms by (auto simp: nth_append)
qed


text \<open>One chunk, at document \<open>s\<close>: the shifted mask over at most two words.\<close>

lemma insert_chunk_bits:
  assumes len: "length chunk \<le> 64" "0 < length chunk"
    and room: "s + length chunk \<le> length (bits b) * 64" and s: "s = start + ci * 64"
  shows "\<exists>b'. insert_matching_chunk start pred (ci, chunk) b = Some b' \<and>
    length (bits b') = length (bits b) \<and>
    bitset_docs b' = bitset_docs b \<union> {k. s \<le> k \<and> k < s + length chunk \<and> pred (chunk ! (k - s))}"
proof -
  define mask where "mask = match_mask pred chunk"
  define word where "word = s div 64"
  define shift where "shift = s mod 64"
  define ws where "ws = bits b"
  define w1 where "w1 = ws[word := ws ! word OR push_bit shift mask]"
  have sw: "s = word * 64 + shift" "shift < 64" by (auto simp: word_def shift_def)
  have "word * 64 < length ws * 64" using room len(2) sw unfolding ws_def by linarith
  then have in1: "word < length ws" by simp
  have m: "bit mask j \<longleftrightarrow> j < length chunk \<and> pred (chunk ! j)" if "j < 64" for j
    unfolding mask_def using bit_match_mask [OF len(1) that] .
  have m64: "\<not> bit mask j" if "64 \<le> j" for j using bit_imp_le_length [of mask j] that by auto
  let ?new = "\<lambda>k. s \<le> k \<and> k < s + length chunk \<and> pred (chunk ! (k - s))"
  have hit: "?new k \<longleftrightarrow> s \<le> k \<and> bit mask (k - s)" for k
    using m [of "k - s"] m64 [of "k - s"] len by (cases "k - s < 64") auto
  have lo: "bit (push_bit shift mask) (k mod 64) \<longleftrightarrow> ?new k" if "k div 64 = word" for k
  proof -
    have k: "k = word * 64 + k mod 64" using that by (metis div_mult_mod_eq)
    have "s \<le> k \<longleftrightarrow> shift \<le> k mod 64" "k - s = k mod 64 - shift" using k sw by linarith+
    then show ?thesis unfolding hit by (auto simp: bit_push_bit_iff)
  qed
  have hi: "bit (drop_bit (64 - shift) mask) (k mod 64) \<longleftrightarrow> ?new k" if "k div 64 = word + 1" for k
  proof -
    have k: "k = word * 64 + 64 + k mod 64" using that by (metis add_mult_distrib div_mult_mod_eq mult_1)
    have "s \<le> k" "k - s = 64 - shift + k mod 64" using k sw by linarith+
    then show ?thesis unfolding hit by (simp add: bit_drop_bit_eq)
  qed
  have out: "\<not> ?new k" if "k div 64 \<noteq> word" "k div 64 \<noteq> word + 1" for k
  proof
    assume n: "?new k"
    then have "word * 64 \<le> k" "k < (word + 2) * 64" using sw len by auto
    then have "word \<le> k div 64" "k div 64 < word + 2"
      by (simp_all add: less_eq_div_iff_mult_less_eq div_less_iff_less_mult)
    then show False using that by linarith
  qed
  have u1: "wbit w1 k \<longleftrightarrow> wbit ws k \<or> k div 64 = word \<and> ?new k" for k
    unfolding w1_def using wbit_update [OF in1, of "ws ! word OR push_bit shift mask" k] lo [of k] in1
    by (auto simp: bit_or_iff) (auto simp: wbit_def)
  note chunk = insert_matching_chunk_def [of start pred] s [symmetric] Let_def mask_def [symmetric]
    word_def [symmetric] shift_def [symmetric] ws_def [symmetric] w1_def [symmetric]
  show ?thesis
  proof (cases "shift + length chunk > 64")
    case True
    have in2: "word + 1 < length w1" using True room sw by (simp add: ws_def w1_def)
    define w2 where "w2 = w1[word + 1 := w1 ! (word + 1) OR drop_bit (64 - shift) mask]"
    have "wbit w2 k \<longleftrightarrow> wbit w1 k \<or> k div 64 = word + 1 \<and> ?new k" for k
      unfolding w2_def using wbit_update [OF in2, of "w1 ! (word + 1) OR drop_bit (64 - shift) mask" k] hi [of k] in2
      by (auto simp: bit_or_iff) (auto simp: wbit_def)
    then have "wbit w2 k \<longleftrightarrow> wbit ws k \<or> ?new k" for k
      using u1 [of k] out [of k] by blast
    moreover have "insert_matching_chunk start pred (ci, chunk) b = Some (b\<lparr>bits := w2\<rparr>)"
      unfolding chunk prod.case w2_def using in1 in2 True by (simp add: chunk(6-))
    ultimately show ?thesis by (auto simp: bitset_docs_wbit w2_def w1_def ws_def)
  next
    case False
    have "\<not> ?new k" if "k div 64 = word + 1" for k
    proof -
      have "k = word * 64 + 64 + k mod 64" using that by (metis add_mult_distrib div_mult_mod_eq mult_1)
      then show ?thesis using False sw by linarith
    qed
    then have "wbit w1 k \<longleftrightarrow> wbit ws k \<or> ?new k" for k using u1 [of k] out [of k] by blast
    moreover have "insert_matching_chunk start pred (ci, chunk) b = Some (b\<lparr>bits := w1\<rparr>)"
      unfolding chunk prod.case using in1 False by (simp add: chunk(6-))
    ultimately show ?thesis by (auto simp: bitset_docs_wbit w1_def ws_def)
  qed
qed

lemma insert_matching_chunks_docs:
  assumes "vs = [] \<or> start + ci * 64 + length vs \<le> length (bits b) * 64"
  shows "\<exists>b'. insert_matching_chunks start pred (enumerate ci (chunks 64 vs)) b = Some b' \<and>
    length (bits b') = length (bits b) \<and>
    bitset_docs b' = bitset_docs b \<union>
      {k. start + ci * 64 \<le> k \<and> k < start + ci * 64 + length vs \<and> pred (vs ! (k - (start + ci * 64)))}"
  using assms
proof (induction "64 :: nat" vs arbitrary: ci b rule: chunks.induct)
  case (1 vs)
  show ?case
  proof (cases "vs = []")
    case False
    define s where "s = start + ci * 64"
    have "s + length (take 64 vs) \<le> length (bits b) * 64" using "1.prems" False by (simp add: s_def)
    then obtain b1 where b1: "insert_matching_chunk start pred (ci, take 64 vs) b = Some b1"
        "length (bits b1) = length (bits b)"
        "bitset_docs b1 = bitset_docs b \<union>
          {k. s \<le> k \<and> k < s + length (take 64 vs) \<and> pred (take 64 vs ! (k - s))}"
      using insert_chunk_bits [of "take 64 vs" s b start ci pred] False by (auto simp: s_def)
    have "drop 64 vs = [] \<or> start + Suc ci * 64 + length (drop 64 vs) \<le> length (bits b1) * 64"
      using "1.prems" b1(2) by auto
    note IH = "1.hyps" [of "Suc ci" b1, OF _ this]
    then obtain b2 where b2: "insert_matching_chunks start pred (enumerate (Suc ci) (chunks 64 (drop 64 vs))) b1 = Some b2"
        "length (bits b2) = length (bits b)"
        "bitset_docs b2 = bitset_docs b1 \<union>
          {k. s + 64 \<le> k \<and> k < s + 64 + length (drop 64 vs) \<and> pred (drop 64 vs ! (k - (s + 64)))}"
      using IH False b1(2) by (auto simp: s_def algebra_simps)
    have "bitset_docs b2 = bitset_docs b \<union> {k. s \<le> k \<and> k < s + length vs \<and> pred (vs ! (k - s))}"
    proof (rule set_eqI)
      fix k
      have "s + 64 \<le> k \<Longrightarrow> 64 + (k - (s + 64)) = k - s" by simp
      then show "k \<in> bitset_docs b2 \<longleftrightarrow>
          k \<in> bitset_docs b \<union> {k. s \<le> k \<and> k < s + length vs \<and> pred (vs ! (k - s))}"
        unfolding b2(3) b1(3) by (cases "k < s + 64") auto
    qed
    then show ?thesis using b1 b2 False by (auto simp: chunks_step s_def)
  qed auto
qed


section \<open>Properties\<close>

lemma bitset_lengths [simp]:
  "length (bits (bitset_clear a d)) = length (bits a)"
  "length (bits (bitset_new n)) = div_ceil n 64"
  "length (bits (intersect_with a b)) = length (bits a)"
  "length (bits (bitset_retain a p)) = length (bits a)"
  by (auto simp: bitset_clear_def bitset_new_def intersect_with_def bitset_retain_def)

lemma bitset_length_zip [simp]:
  "length (bits (union_with a b)) = length (bits a)"
  "length (bits (bitset_subtract a b)) = length (bits a)"
  by (auto simp: union_with_def bitset_subtract_def)

text \<open>
  C29. Every in-place operation of a \<open>DocBitset\<close> is the operation of the same name on
  its set of documents: setting, clearing and testing a document, union,
  intersection, difference, filtering and counting.
\<close>

theorem doc_bitset_refines_set:
  assumes "bitset_wf n a" "bitset_wf n b" "d < n"
  shows "bitset_docs (bitset_set a d) = insert d (bitset_docs a) \<and>
    bitset_docs (bitset_clear a d) = bitset_docs a - {d} \<and>
    bitset_docs (union_with a b) = bitset_docs a \<union> bitset_docs b \<and>
    bitset_docs (intersect_with a b) = bitset_docs a \<inter> bitset_docs b \<and>
    bitset_docs (bitset_subtract a b) = bitset_docs a - bitset_docs b \<and>
    bitset_docs (bitset_retain a p) = {k \<in> bitset_docs a. p k} \<and>
    bitset_count a = card (bitset_docs a)"
proof -
  have "length (bits a) = div_ceil n 64" "length (bits b) = div_ceil n 64"
    using assms by (simp_all add: bitset_wf_iff)
  then show ?thesis
    using in_words [OF assms(3)] bitset_wf_words [OF assms(1)] bitset_count_docs [OF assms(1)]
    by (simp add: bitset_set_docs bitset_clear_docs union_with_docs intersect_with_docs
        bitset_subtract_docs bitset_retain_docs)
qed

theorem doc_bitset_refines_set_witness:
  "bitset_docs (bitset_set (bitset_all 70) 65) = insert 65 (bitset_docs (bitset_all 70)) \<and>
   bitset_docs (intersect_with (bitset_all 70) (bitset_new 70)) = {}"
proof -
  have "bitset_wf 70 (bitset_all 70)" "bitset_wf 70 (bitset_new 70)"
    by (auto simp: bitset_wf_iff bitset_all_docs bitset_new_docs TERMINATED_def)
  from doc_bitset_refines_set [OF this, of 65 "\<lambda>_. True"]
  show ?thesis by (simp add: bitset_new_docs)
qed

text \<open>
  \<open>insert_matching_values\<close> never indexes past the bitset when the range lies
  inside it, and adds exactly the documents whose value the predicate accepts,
  whatever the alignment of the range and without touching earlier matches.
\<close>

lemma insert_matching_values_docs:
  assumes "bitset_wf n b" "start + length vs \<le> n"
  shows "\<exists>b'. insert_matching_values b start vs pred = Some b' \<and> bitset_wf n b' \<and>
    bitset_docs b' = bitset_docs b \<union> {k. start \<le> k \<and> k < start + length vs \<and> pred (vs ! (k - start))}"
proof -
  have "start + length vs \<le> length (bits b) * 64"
    using assms div_ceil_mult_ge [of 64 n] by (simp add: bitset_wf_iff)
  then obtain b' where b': "insert_matching_values b start vs pred = Some b'"
      "length (bits b') = length (bits b)"
      "bitset_docs b' = bitset_docs b \<union> {k. start \<le> k \<and> k < start + length vs \<and> pred (vs ! (k - start))}"
    using insert_matching_chunks_docs [of vs start 0 b pred] by (auto simp: insert_matching_values_def)
  then show ?thesis using assms by (intro exI [of _ b']) (auto simp: bitset_wf_iff)
qed

text \<open>
  C33. The constructors build the intended set (empty, every document, the documents
  a predicate accepts), and the operations on bitsets of one document universe keep
  the padding bits beyond \<open>num_docs\<close> clear, so a bitset never yields a document that
  the segment does not have. \<open>set\<close> guards only the index of the word: it keeps the
  padding clear exactly when its document is below \<open>num_docs\<close>, or lies past the last
  word, where it does nothing. \<open>insert_matching_values\<close> does so for every range inside
  the universe, and adds exactly the documents whose value matches.
\<close>

theorem doc_bitset_invariant:
  assumes "bitset_wf n a" "bitset_wf n b" "start + length vs \<le> n"
  shows "bitset_wf n (bitset_new n) \<and> bitset_docs (bitset_new n) = {} \<and>
    bitset_wf n (bitset_all n) \<and> bitset_docs (bitset_all n) = {..<n} \<and>
    bitset_wf n (from_predicate n p) \<and> bitset_docs (from_predicate n p) = {k. k < n \<and> p k} \<and>
    (bitset_wf n (bitset_set a d) \<longleftrightarrow> d < n \<or> div_ceil n 64 \<le> d div 64) \<and>
    (div_ceil n 64 \<le> d div 64 \<longrightarrow> bitset_set a d = a) \<and>
    bitset_wf n (bitset_clear a d) \<and>
    bitset_wf n (union_with a b) \<and> bitset_wf n (intersect_with a b) \<and>
    bitset_wf n (bitset_subtract a b) \<and> bitset_wf n (bitset_retain a p) \<and>
    (\<exists>a'. insert_matching_values a start vs q = Some a' \<and> bitset_wf n a' \<and>
       bitset_docs a' = bitset_docs a \<union> {k. start \<le> k \<and> k < start + length vs \<and> q (vs ! (k - start))})"
proof -
  have wf: "length (bits a) = div_ceil n 64" "length (bits b) = div_ceil n 64" "n \<le> TERMINATED"
      "bitset_docs a \<subseteq> {..<n}" "bitset_docs b \<subseteq> {..<n}"
    using assms by (simp_all add: bitset_wf_iff)
  have "bitset_wf n (bitset_set a d) \<longleftrightarrow> d < n \<or> div_ceil n 64 \<le> d div 64"
    using wf in_words [of d n] unfolding bitset_wf_iff by (auto simp: bitset_set_docs)
  moreover have "div_ceil n 64 \<le> d div 64 \<longrightarrow> bitset_set a d = a" using wf(1) by (simp add: bitset_set_def Let_def)
  moreover have "bitset_wf n (bitset_new n) \<and> bitset_wf n (bitset_all n) \<and> bitset_wf n (from_predicate n p) \<and>
      bitset_wf n (bitset_clear a d) \<and> bitset_wf n (union_with a b) \<and> bitset_wf n (intersect_with a b) \<and>
      bitset_wf n (bitset_subtract a b) \<and> bitset_wf n (bitset_retain a p)"
    using wf bitset_wf_words [OF assms(1)] unfolding bitset_wf_iff
    by (auto simp: bitset_clear_docs union_with_docs intersect_with_docs
        bitset_subtract_docs bitset_retain_docs bitset_new_docs bitset_all_docs
        from_predicate_docs from_predicate_length)
  moreover have "bitset_docs (bitset_new n) = {}" "bitset_docs (bitset_all n) = {..<n}" "bitset_docs (from_predicate n p) = {k. k < n \<and> p k}"
    using wf(3) by (auto simp: bitset_new_docs bitset_all_docs from_predicate_docs)
  ultimately show ?thesis using insert_matching_values_docs [OF assms(1,3), of q] by blast
qed

theorem doc_bitset_invariant_witness:
  "bitset_wf 130 (bitset_subtract (bitset_all 130) (from_predicate 130 even)) \<and>
   bitset_wf 130 (bitset_set (bitset_all 130) 129) \<and> \<not> bitset_wf 130 (bitset_set (bitset_all 130) 131)"
proof -
  have "bitset_wf 130 (bitset_all 130)" "bitset_wf 130 (from_predicate 130 even)" "128 + length [7, 9 :: u64] \<le> 130"
    by (auto simp: bitset_wf_iff bitset_all_docs from_predicate_docs from_predicate_length TERMINATED_def)
  note h = doc_bitset_invariant [OF this, of even]
  show ?thesis using h [of 129] h [of 131] by (simp add: div_ceil_def)
qed

text \<open>
  \<open>next_set_bit\<close> finds the least document at or after its argument, and
  returns \<open>None\<close> exactly when there is none.
\<close>

lemma next_set_bit_least:
  assumes "bitset_wf n b"
  shows "case next_set_bit b t of
      None \<Rightarrow> \<forall>k \<ge> t. k \<notin> bitset_docs b
    | Some r \<Rightarrow> r \<in> bitset_docs b \<and> t \<le> r \<and> (\<forall>k. t \<le> k \<and> k < r \<longrightarrow> k \<notin> bitset_docs b)"
  using next_set_bit_None [OF bitset_wf_words [OF assms], of t]
    next_set_bit_Some [OF bitset_wf_words [OF assms], of t]
  by (auto split: option.splits)

end
