(* ===== verification/DocSet.thy ===== *)
theory DocSet
  imports Summa_Bits
begin

text \<open>
  This theory models the \<open>DocSet\<close> trait of \<open>src/summa-core/src/query/docset.rs\<close> and the
  functions written against it. A trait is the record of its methods; a method that
  moves the cursor returns the moved cursor with its result, and \<open>None\<close> stands for a
  call that never returns, so a contract that yields \<open>Some\<close> includes termination.

  The locale \<open>doc_cursor\<close> states what \<open>doc\<close> and \<open>advance\<close> promise over the list
  of documents a cursor still has to yield, \<open>docset_contract\<close> adds \<open>seek\<close>, and
  \<open>windowed_contract\<close> adds \<open>fill_doc_window\<close>. The lemmas inside them verify the
  default \<open>seek\<close>, \<open>fill_batch\<close>, \<open>retain_batch\<close> and \<open>fill_window\<close> for every
  cursor that keeps the contract.
\<close>

section \<open>Model\<close>

definition DOC_WINDOW_WORDS :: nat where
  "DOC_WINDOW_WORDS = 64"

definition DOC_WINDOW_SIZE :: docid where
  "DOC_WINDOW_SIZE = DOC_WINDOW_WORDS * 64"

definition DOC_BATCH_SIZE :: nat where
  "DOC_BATCH_SIZE = 128"

type_synonym doc_window = "u64 list"
type_synonym doc_batch = "docid list"

record 's docset =
  doc :: "'s \<Rightarrow> docid"
  advance :: "'s \<Rightarrow> ('s \<times> docid) option"
  seek :: "'s \<Rightarrow> docid \<Rightarrow> ('s \<times> docid) option"

record 's windowed = "'s docset" +
  fill_doc_window :: "'s \<Rightarrow> docid \<Rightarrow> ('s \<times> doc_window) option"

partial_function (option) default_seek_loop ::
  "('s, 'x) docset_scheme \<Rightarrow> docid \<Rightarrow> 's \<Rightarrow> docid \<Rightarrow> ('s \<times> docid) option" where
  "default_seek_loop D target s d =
     (if d < target
      then Option.bind (advance D s) (\<lambda>(s', d'). default_seek_loop D target s' d')
      else Some (s, d))"

definition default_seek :: "('s, 'x) docset_scheme \<Rightarrow> 's \<Rightarrow> docid \<Rightarrow> ('s \<times> docid) option" where
  "default_seek D s target = default_seek_loop D target s (doc D s)"

function fill_batch_loop ::
  "('s, 'x) docset_scheme \<Rightarrow> 's \<Rightarrow> doc_batch \<Rightarrow> nat \<Rightarrow> docid \<Rightarrow> ('s \<times> doc_batch \<times> nat) option" where
  "fill_batch_loop D s docs count d =
     (if count < length docs \<and> d \<noteq> TERMINATED
      then case advance D s of
             None \<Rightarrow> None
           | Some (s', d') \<Rightarrow> fill_batch_loop D s' (docs[count := d]) (count + 1) d'
      else Some (s, docs, count))"
  by pat_completeness auto
termination
  by (relation "measure (\<lambda>(D, s, docs, count, d). length docs - count)") auto

definition fill_batch ::
  "('s, 'x) docset_scheme \<Rightarrow> 's \<Rightarrow> doc_batch \<Rightarrow> ('s \<times> doc_batch \<times> nat) option" where
  "fill_batch D s docs = fill_batch_loop D s docs 0 (doc D s)"

function retain_batch_loop ::
  "('s, 'x) docset_scheme \<Rightarrow> nat \<Rightarrow> nat \<Rightarrow> 's \<Rightarrow> doc_batch \<Rightarrow> nat \<Rightarrow> ('s \<times> doc_batch \<times> nat) option" where
  "retain_batch_loop D len i s docs kept =
     (if i < len
      then let d = docs ! i
           in case seek D s d of
                None \<Rightarrow> None
              | Some (s', d') \<Rightarrow>
                  if d' = d then retain_batch_loop D len (i + 1) s' (docs[kept := d]) (kept + 1)
                  else retain_batch_loop D len (i + 1) s' docs kept
      else Some (s, docs, kept))"
  by pat_completeness auto
termination
  by (relation "measure (\<lambda>(D, len, i, s, docs, kept). len - i)") auto

text \<open>A batch shorter than \<open>len\<close> fails the assertion, which is \<open>None\<close> as well.\<close>

definition retain_batch ::
  "('s, 'x) docset_scheme \<Rightarrow> 's \<Rightarrow> doc_batch \<Rightarrow> nat \<Rightarrow> ('s \<times> doc_batch \<times> nat) option" where
  "retain_batch D s docs len =
     (if len \<le> length docs then retain_batch_loop D len 0 s docs 0 else None)"

partial_function (option) fill_window_loop ::
  "('s, 'x) docset_scheme \<Rightarrow> docid \<Rightarrow> docid \<Rightarrow> 's \<Rightarrow> docid \<Rightarrow> doc_window \<Rightarrow> ('s \<times> doc_window) option" where
  "fill_window_loop D base end_doc s d bits =
     (if d < end_doc
      then let offset = d - base
           in Option.bind (advance D s) (\<lambda>(s', d').
                fill_window_loop D base end_doc s' d'
                  (bits[offset div 64 := bits ! (offset div 64) OR push_bit (offset mod 64) 1]))
      else Some (s, bits))"

definition fill_window ::
  "('s, 'x) docset_scheme \<Rightarrow> 's \<Rightarrow> docid \<Rightarrow> ('s \<times> doc_window) option" where
  "fill_window D s base =
     (let end_doc = saturating_add base DOC_WINDOW_SIZE
      in Option.bind (seek D s base) (\<lambda>(s', d).
           fill_window_loop D base end_doc s' d (replicate DOC_WINDOW_WORDS 0)))"

text \<open>An implementation that keeps a default method: the trait's record with the default filled in.\<close>

definition with_default_seek :: "('s, 'x) docset_scheme \<Rightarrow> ('s, 'x) docset_scheme" where
  "with_default_seek D = D\<lparr>seek := default_seek D\<rparr>"

definition with_default_window :: "'s docset \<Rightarrow> 's windowed" where
  "with_default_window D = docset.extend D (windowed.fields (fill_window D))"

declare fill_batch_loop.simps [simp del] retain_batch_loop.simps [simp del]

section \<open>The contract\<close>

text \<open>The document a cursor stands on, given the ascending list of documents it has left.\<close>

fun head_doc :: "docid list \<Rightarrow> docid" where
  "head_doc [] = TERMINATED"
| "head_doc (d # ds) = d"

locale doc_cursor =
  fixes D :: "('s, 'x) docset_scheme"
    and inv :: "'s \<Rightarrow> bool"
    and rem :: "'s \<Rightarrow> docid list"
  assumes rem_sorted: "inv s \<Longrightarrow> strictly_sorted (rem s)"
    and rem_bound: "inv s \<Longrightarrow> d \<in> set (rem s) \<Longrightarrow> d < TERMINATED"
    and doc_rem: "inv s \<Longrightarrow> doc D s = head_doc (rem s)"
    and advance_rem: "inv s \<Longrightarrow>
      \<exists>s'. advance D s = Some (s', head_doc (tl (rem s))) \<and> inv s' \<and> rem s' = tl (rem s)"

locale docset_contract = doc_cursor +
  assumes seek_rem: "inv s \<Longrightarrow> t \<le> TERMINATED \<Longrightarrow>
    \<exists>s'. seek D s t = Some (s', head_doc (dropWhile (\<lambda>d. d < t) (rem s))) \<and>
      inv s' \<and> rem s' = dropWhile (\<lambda>d. d < t) (rem s)"

text \<open>
  What \<open>fill_doc_window\<close> promises: the bits of the window are the documents left in
  \<open>[base, base + DOC_WINDOW_SIZE)\<close>, and the cursor moves to the first document
  behind it.
\<close>

definition window_of :: "docid \<Rightarrow> docid list \<Rightarrow> nat set" where
  "window_of base ds = {o'. o' < DOC_WINDOW_SIZE \<and> base + o' \<in> set ds}"

locale windowed_contract = docset_contract D inv rem
  for D :: "('s, 'x) windowed_scheme"
    and inv :: "'s \<Rightarrow> bool"
    and rem :: "'s \<Rightarrow> docid list" +
  assumes window_rem: "inv s \<Longrightarrow> base < TERMINATED \<Longrightarrow>
    \<exists>s' w. fill_doc_window D s base = Some (s', w) \<and> inv s' \<and>
      rem s' = dropWhile (\<lambda>d. d < saturating_add base DOC_WINDOW_SIZE) (rem s) \<and>
      length w = DOC_WINDOW_WORDS \<and> {o'. wbit w o'} = window_of base (rem s)"

context doc_cursor
begin

lemma head_less_iff: "inv s \<Longrightarrow> t \<le> TERMINATED \<Longrightarrow>
    head_doc (rem s) < t \<longleftrightarrow> rem s \<noteq> [] \<and> hd (rem s) < t"
  by (cases "rem s") (auto simp: leD)

lemma head_terminated_iff: "inv s \<Longrightarrow> head_doc (rem s) = TERMINATED \<longleftrightarrow> rem s = []"
  using rem_bound [of s] by (cases "rem s") auto

lemma default_seek_loop_rem:
  assumes "inv s" "t \<le> TERMINATED"
  shows "\<exists>s'. default_seek_loop D t s (head_doc (rem s)) = Some (s', head_doc (dropWhile (\<lambda>d. d < t) (rem s))) \<and>
      inv s' \<and> rem s' = dropWhile (\<lambda>d. d < t) (rem s)"
  using assms(1)
proof (induction "length (rem s)" arbitrary: s)
  case 0
  then show ?case using assms(2) by (simp add: default_seek_loop.simps)
next
  case (Suc n)
  then obtain x xs where r: "rem s = x # xs" by (cases "rem s") auto
  show ?case
  proof (cases "x < t")
    case False
    then show ?thesis using r Suc.prems by (simp add: default_seek_loop.simps)
  next
    case True
    obtain s1 where s1: "advance D s = Some (s1, head_doc xs)" "inv s1" "rem s1 = xs"
      using advance_rem [OF Suc.prems] r by auto
    have "n = length (rem s1)" using Suc.hyps(2) r s1(3) by simp
    from Suc.hyps(1) [OF this s1(2)] show ?thesis using True r s1
      by (simp add: default_seek_loop.simps [of D t s x])
  qed
qed

lemma default_seek_rem:
  assumes "inv s" "t \<le> TERMINATED"
  shows "\<exists>s'. default_seek D s t = Some (s', head_doc (dropWhile (\<lambda>d. d < t) (rem s))) \<and>
      inv s' \<and> rem s' = dropWhile (\<lambda>d. d < t) (rem s)"
  using default_seek_loop_rem [OF assms] by (simp add: default_seek_def doc_rem [OF assms(1)])

lemma fill_batch_loop_rem:
  assumes "inv s" "count \<le> length docs"
  shows "\<exists>s' docs'. fill_batch_loop D s docs count (head_doc (rem s)) =
      Some (s', docs', min (length docs) (count + length (rem s))) \<and>
    inv s' \<and> rem s' = drop (length docs - count) (rem s) \<and> length docs' = length docs \<and>
    take (min (length docs) (count + length (rem s))) docs' = take count docs @ take (length docs - count) (rem s)"
  using assms
proof (induction "length docs - count" arbitrary: s docs count)
  case 0
  then show ?case by (simp add: fill_batch_loop.simps)
next
  case (Suc n)
  show ?case
  proof (cases "rem s")
    case Nil
    then show ?thesis using Suc.prems by (simp add: fill_batch_loop.simps)
  next
    case (Cons x xs)
    have x: "x \<noteq> TERMINATED" using rem_bound [OF Suc.prems(1), of x] Cons by simp
    obtain s1 where s1: "advance D s = Some (s1, head_doc xs)" "inv s1" "rem s1 = xs"
      using advance_rem [OF Suc.prems(1)] Cons by auto
    have lt: "count < length docs" using Suc.hyps(2) by simp
    have "n = length (docs[count := x]) - (count + 1)" "count + 1 \<le> length (docs[count := x])"
      using Suc.hyps(2) by auto
    from Suc.hyps(1) [OF this(1) s1(2) this(2)] obtain s' docs' where
      IH: "fill_batch_loop D s1 (docs[count := x]) (count + 1) (head_doc xs) =
        Some (s', docs', min (length docs) (count + 1 + length xs))"
      "inv s'" "rem s' = drop (length docs - (count + 1)) xs" "length docs' = length docs"
      "take (min (length docs) (count + 1 + length xs)) docs' =
        take (count + 1) (docs[count := x]) @ take (length docs - (count + 1)) xs"
      using s1(3) by auto
    have "take (count + 1) (docs[count := x]) = take count docs @ [x]"
      using lt by (simp add: take_Suc_conv_app_nth)
    moreover have "length docs - count = Suc (length docs - (count + 1))" using lt by simp
    ultimately show ?thesis using IH s1 Cons x lt
      by (simp add: fill_batch_loop.simps [of D s docs count x])
  qed
qed

lemma fill_batch_rem:
  assumes "inv s"
  shows "\<exists>s' docs'. fill_batch D s docs = Some (s', docs', min (length docs) (length (rem s))) \<and>
    inv s' \<and> rem s' = drop (length docs) (rem s) \<and> length docs' = length docs \<and>
    take (min (length docs) (length (rem s))) docs' = take (length docs) (rem s)"
  using fill_batch_loop_rem [OF assms, of 0 docs] by (simp add: fill_batch_def doc_rem [OF assms])

end

context docset_contract
begin

lemma seek_hit:
  assumes "inv s" "t < TERMINATED"
  shows "\<exists>s' d. seek D s t = Some (s', d) \<and> (d = t \<longleftrightarrow> t \<in> set (rem s)) \<and>
    inv s' \<and> rem s' = dropWhile (\<lambda>d. d < t) (rem s)"
proof -
  obtain s' where s': "seek D s t = Some (s', head_doc (dropWhile (\<lambda>d. d < t) (rem s)))"
      "inv s'" "rem s' = dropWhile (\<lambda>d. d < t) (rem s)"
    using seek_rem [OF assms(1), of t] assms(2) by auto
  have "head_doc (dropWhile (\<lambda>d. d < t) (rem s)) = t \<longleftrightarrow> t \<in> set (rem s)"
  proof (cases "dropWhile (\<lambda>d. d < t) (rem s)")
    case Nil
    then have "t \<notin> set (rem s)" by auto
    then show ?thesis unfolding Nil using assms(2) by simp
  next
    case (Cons x xs)
    then show ?thesis
      using dropWhile_less_Cons_iff [OF rem_sorted [OF assms(1)], of t x] by force
  qed
  then show ?thesis using s' by auto
qed

text \<open>After a seek to \<open>t\<close>, membership of a later document is unchanged.\<close>

lemma mem_after_seek: "inv s \<Longrightarrow> t \<le> d \<Longrightarrow> d \<in> set (dropWhile (\<lambda>d. d < t) (rem s)) \<longleftrightarrow> d \<in> set (rem s)"
  by (auto simp: set_dropWhile_less rem_sorted)

lemma retain_batch_loop_rem:
  assumes "inv s" "len \<le> length docs" "kept \<le> i" "i \<le> len"
    "strictly_sorted (drop i (take len docs))" "\<forall>d \<in> set (drop i (take len docs)). d < TERMINATED"
  shows "\<exists>s' docs' kept'. retain_batch_loop D len i s docs kept = Some (s', docs', kept') \<and>
    inv s' \<and> length docs' = length docs \<and>
    take kept' docs' = take kept docs @ filter (\<lambda>d. d \<in> set (rem s)) (drop i (take len docs)) \<and>
    rem s' = (if i < len then dropWhile (\<lambda>d. d < docs ! (len - 1)) (rem s) else rem s)"
  using assms
proof (induction "len - i" arbitrary: i s docs kept)
  case 0
  then show ?case by (simp add: retain_batch_loop.simps)
next
  case (Suc n)
  define d where "d = docs ! i"
  have lt: "i < len" using Suc.hyps(2) by simp
  have rest: "drop i (take len docs) = d # drop (i + 1) (take len docs)"
    using lt Suc.prems(2) by (simp add: d_def Cons_nth_drop_Suc [symmetric])
  have dT: "d < TERMINATED" and above: "\<forall>x \<in> set (drop (i + 1) (take len docs)). d < x"
    using Suc.prems(5,6) rest by auto
  obtain s1 x where s1: "seek D s d = Some (s1, x)" "x = d \<longleftrightarrow> d \<in> set (rem s)" "inv s1"
      "rem s1 = dropWhile (\<lambda>x. x < d) (rem s)"
    using seek_hit [OF Suc.prems(1) dT] by auto
  define docs1 kept1 where "docs1 = (if x = d then docs[kept := d] else docs)"
    and "kept1 = (if x = d then kept + 1 else kept)"
  have later: "drop (i + 1) (take len docs1) = drop (i + 1) (take len docs)"
    using Suc.prems(3) by (auto simp: docs1_def drop_update_cancel take_update_swap)
  have n: "n = len - (i + 1)" "len \<le> length docs1" "kept1 \<le> i + 1" "i + 1 \<le> len"
    using Suc.hyps(2) Suc.prems lt by (auto simp: docs1_def kept1_def)
  obtain s' docs' kept' where
    IH: "retain_batch_loop D len (i + 1) s1 docs1 kept1 = Some (s', docs', kept')" "inv s'"
      "length docs' = length docs1"
      "take kept' docs' = take kept1 docs1 @ filter (\<lambda>d. d \<in> set (rem s1)) (drop (i + 1) (take len docs))"
      "rem s' = (if i + 1 < len then dropWhile (\<lambda>d. d < docs1 ! (len - 1)) (rem s1) else rem s1)"
    using Suc.hyps(1) [OF n(1) s1(3) n(2,3,4)] Suc.prems(5,6) later rest by auto
  have "filter (\<lambda>d. d \<in> set (rem s1)) (drop (i + 1) (take len docs)) =
      filter (\<lambda>d. d \<in> set (rem s)) (drop (i + 1) (take len docs))"
    unfolding s1(4) using above mem_after_seek [OF Suc.prems(1)]
    by (intro filter_cong) (auto dest!: bspec less_imp_le)
  moreover have "take kept1 docs1 = take kept docs @ filter (\<lambda>d. d \<in> set (rem s)) [d]"
    using Suc.prems(2,3) lt s1(2) by (auto simp: docs1_def kept1_def take_Suc_conv_app_nth)
  moreover have "rem s' = dropWhile (\<lambda>d. d < docs ! (len - 1)) (rem s)"
  proof (cases "i + 1 < len")
    case True
    have "docs1 ! (len - 1) = docs ! (len - 1)" using Suc.prems(3) True by (auto simp: docs1_def)
    moreover have "d < docs ! (len - 1)"
    proof -
      have "i + 1 + (len - 1 - (i + 1)) = len - 1" using True by simp
      then have "docs ! (len - 1) = drop (i + 1) (take len docs) ! (len - 1 - (i + 1))"
        using True Suc.prems(2) by (simp del: One_nat_def)
      moreover have "len - 1 - (i + 1) < length (drop (i + 1) (take len docs))"
        using True Suc.prems(2) by simp
      ultimately show ?thesis using above nth_mem by metis
    qed
    ultimately show ?thesis using IH(5) True
      by (simp add: s1(4) dropWhile_less_dropWhile)
  next
    case False
    then have "i = len - 1" using lt by simp
    then show ?thesis using IH(5) False s1(4) by (simp add: d_def)
  qed
  moreover have "retain_batch_loop D len i s docs kept = Some (s', docs', kept')"
    using IH(1) lt s1(1) by (cases "x = d")
      (simp_all add: retain_batch_loop.simps [of D len i] Let_def d_def [symmetric] docs1_def kept1_def)
  ultimately show ?case using IH lt rest by (auto simp: docs1_def)
qed

lemma retain_batch_rem:
  assumes "inv s" "len \<le> length docs"
    "strictly_sorted (take len docs)" "\<forall>d \<in> set (take len docs). d < TERMINATED"
  shows "\<exists>s' docs' kept. retain_batch D s docs len = Some (s', docs', kept) \<and>
    inv s' \<and> length docs' = length docs \<and>
    take kept docs' = filter (\<lambda>d. d \<in> set (rem s)) (take len docs)"
  using retain_batch_loop_rem [of s len docs 0 0] assms by (auto simp: retain_batch_def)

lemma fill_window_loop_rem:
  assumes "inv s" "end_doc \<le> TERMINATED" "end_doc \<le> base + DOC_WINDOW_SIZE" "length bits = DOC_WINDOW_WORDS"
    "\<forall>d \<in> set (rem s). base \<le> d"
  shows "\<exists>s' bits'. fill_window_loop D base end_doc s (head_doc (rem s)) bits = Some (s', bits') \<and>
    inv s' \<and> rem s' = dropWhile (\<lambda>d. d < end_doc) (rem s) \<and> length bits' = DOC_WINDOW_WORDS \<and>
    {o'. wbit bits' o'} = {o'. wbit bits o'} \<union> {o'. base + o' < end_doc \<and> base + o' \<in> set (rem s)}"
  using assms(1,4,5)
proof (induction "length (rem s)" arbitrary: s bits)
  case 0
  then show ?case using assms(2) by (simp add: fill_window_loop.simps)
next
  case (Suc n)
  then obtain x xs where r: "rem s = x # xs" by (cases "rem s") auto
  show ?case
  proof (cases "x < end_doc")
    case False
    have "\<not> base + o' < end_doc" if "base + o' \<in> set (rem s)" for o'
      using False rem_sorted [OF Suc.prems(1)] that r by (auto simp: not_less)
    then show ?thesis using r Suc.prems False by (auto simp: fill_window_loop.simps)
  next
    case True
    define off where "off = x - base"
    have x: "x = base + off" using Suc.prems(3) r by (simp add: off_def)
    have in_word: "off div 64 < length bits"
      using True assms(3) x Suc.prems(2) by (simp add: DOC_WINDOW_SIZE_def DOC_WINDOW_WORDS_def div_less_iff_less_mult)
    define bits1 where "bits1 = bits[off div 64 := bits ! (off div 64) OR push_bit (off mod 64) 1]"
    obtain s1 where s1: "advance D s = Some (s1, head_doc xs)" "inv s1" "rem s1 = xs"
      using advance_rem [OF Suc.prems(1)] r by auto
    have "wbit bits1 k \<longleftrightarrow> wbit bits k \<or> k = off" for k
      using wbit_set_bit [of off bits k] in_word by (simp add: bits1_def)
    moreover have "length bits1 = DOC_WINDOW_WORDS" "n = length (rem s1)" "\<forall>d \<in> set (rem s1). base \<le> d"
      using Suc.prems(2,3) Suc.hyps(2) r s1(3) by (auto simp: bits1_def)
    note Suc.hyps(1) [OF this(2) s1(2) this(1) this(3)]
    then obtain s' bits' where IH: "fill_window_loop D base end_doc s1 (head_doc xs) bits1 = Some (s', bits')"
        "inv s'" "rem s' = dropWhile (\<lambda>d. d < end_doc) xs" "length bits' = DOC_WINDOW_WORDS"
        "{o'. wbit bits' o'} = {o'. wbit bits1 o'} \<union> {o'. base + o' < end_doc \<and> base + o' \<in> set xs}"
      using s1(3) by auto
    have "fill_window_loop D base end_doc s x bits = Some (s', bits')"
      using True s1(1) IH(1) by (simp add: fill_window_loop.simps [of D base end_doc s x] Let_def off_def [symmetric] bits1_def)
    moreover have "{o'. wbit bits' o'} = {o'. wbit bits o'} \<union> {o'. base + o' < end_doc \<and> base + o' \<in> set (rem s)}"
      unfolding IH(5) using r x True \<open>\<And>k. wbit bits1 k \<longleftrightarrow> wbit bits k \<or> k = off\<close> by auto
    ultimately show ?thesis using IH r True by auto
  qed
qed

lemma fill_window_rem:
  assumes "inv s" "base \<le> TERMINATED"
  shows "\<exists>s' w. fill_window D s base = Some (s', w) \<and> inv s' \<and>
      rem s' = dropWhile (\<lambda>d. d < saturating_add base DOC_WINDOW_SIZE) (rem s) \<and>
      length w = DOC_WINDOW_WORDS \<and> {o'. wbit w o'} = window_of base (rem s)"
proof -
  let ?stop = "saturating_add base DOC_WINDOW_SIZE"
  obtain s1 where s1: "seek D s base = Some (s1, head_doc (rem s1))" "inv s1"
      "rem s1 = dropWhile (\<lambda>d. d < base) (rem s)"
    using seek_rem [OF assms] by auto
  have e: "?stop \<le> TERMINATED" "?stop \<le> base + DOC_WINDOW_SIZE" "base \<le> ?stop"
    using assms(2) by (auto simp: saturating_add_def)
  have ge: "\<forall>d \<in> set (rem s1). base \<le> d"
    using rem_sorted [OF assms(1)] by (auto simp: s1(3) set_dropWhile_less)
  obtain s' w where w: "fill_window_loop D base ?stop s1 (head_doc (rem s1)) (replicate DOC_WINDOW_WORDS 0) = Some (s', w)"
      "inv s'" "rem s' = dropWhile (\<lambda>d. d < ?stop) (rem s1)" "length w = DOC_WINDOW_WORDS"
      "{o'. wbit w o'} = {o'. base + o' < ?stop \<and> base + o' \<in> set (rem s1)}"
    using fill_window_loop_rem [OF s1(2) e(1,2) _ ge, of "replicate DOC_WINDOW_WORDS 0"] by auto
  have "{o'. wbit w o'} = window_of base (rem s)"
    unfolding w(5) window_of_def s1(3) using rem_bound [OF assms(1)] rem_sorted [OF assms(1)]
    by (auto simp: set_dropWhile_less saturating_add_def)
  moreover have "rem s' = dropWhile (\<lambda>d. d < ?stop) (rem s)"
    unfolding w(3) s1(3) using e(3) by (rule dropWhile_less_dropWhile)
  ultimately show ?thesis using w s1 by (auto simp: fill_window_def Let_def)
qed

end

section \<open>The default methods keep the contract\<close>

lemma with_default_seek_simps [simp]:
  "doc (with_default_seek D) = doc D" "advance (with_default_seek D) = advance D"
  "seek (with_default_seek D) = default_seek D"
  by (simp_all add: with_default_seek_def)

lemma with_default_window_simps [simp]:
  "doc (with_default_window D) = doc D" "advance (with_default_window D) = advance D"
  "seek (with_default_window D) = seek D" "fill_doc_window (with_default_window D) = fill_window D"
  by (simp_all add: with_default_window_def docset.defs windowed.defs)

lemma default_seek_contract:
  assumes "doc_cursor D I R"
  shows "docset_contract (with_default_seek D) I R"
proof -
  have c: "doc_cursor (with_default_seek D) I R"
    using assms by (simp add: doc_cursor_def)
  show ?thesis
    using doc_cursor.default_seek_rem [OF assms]
    by (intro docset_contract.intro [OF c] docset_contract_axioms.intro) simp
qed

lemma default_window_contract:
  assumes "docset_contract D I R"
  shows "windowed_contract (with_default_window D) I R"
proof -
  have "docset_contract (with_default_window D) I R"
    using assms by (simp add: docset_contract_def doc_cursor_def docset_contract_axioms_def)
  then show ?thesis
    using docset_contract.fill_window_rem [OF assms]
    by (intro windowed_contract.intro windowed_contract_axioms.intro) simp_all
qed

end
