(* ===== verification/DocSetCursors.thy ===== *)
theory DocSetCursors
  imports DocSet DocBitset Summa_Search
begin

text \<open>
  This theory models the cursors of \<open>src/summa-core/src/query/docset.rs\<close> and interprets
  the \<open>DocSet\<close> contract on each: \<open>SortedVecDocSet\<close> (binary search), \<open>BitsetDocSet\<close>
  (bitmap scan and its own window extraction), \<open>AllDocSet\<close>, \<open>EmptyDocSet\<close> and
  \<open>IntersectionDocSet\<close> over any two cursors that keep the contract.
\<close>

section \<open>Sorted vectors\<close>

record sorted_vec =
  sv_docs :: "docid list"
  sv_pos :: nat

definition sorted_vec_new :: "docid list \<Rightarrow> sorted_vec" where
  "sorted_vec_new ds = \<lparr>sv_docs = ds, sv_pos = 0\<rparr>"

definition sorted_vec_doc :: "sorted_vec \<Rightarrow> docid" where
  "sorted_vec_doc s = (if sv_pos s < length (sv_docs s) then sv_docs s ! sv_pos s else TERMINATED)"

definition sorted_vec_advance :: "sorted_vec \<Rightarrow> sorted_vec \<times> docid" where
  "sorted_vec_advance s =
     (let s' = (if sv_pos s < length (sv_docs s) then s\<lparr>sv_pos := sv_pos s + 1\<rparr> else s)
      in (s', sorted_vec_doc s'))"

definition sorted_vec_seek :: "sorted_vec \<Rightarrow> docid \<Rightarrow> sorted_vec \<times> docid" where
  "sorted_vec_seek s target =
     (if sv_pos s \<ge> length (sv_docs s) then (s, TERMINATED)
      else let remaining = drop (sv_pos s) (sv_docs s)
           in case binary_search target remaining of
                Inr offset \<Rightarrow>
                  let s' = s\<lparr>sv_pos := sv_pos s + offset\<rparr> in (s', sv_docs s ! sv_pos s')
              | Inl offset \<Rightarrow>
                  let s' = s\<lparr>sv_pos := sv_pos s + offset\<rparr> in (s', sorted_vec_doc s'))"

definition sorted_vec_size_hint :: "sorted_vec \<Rightarrow> nat" where
  "sorted_vec_size_hint s = as_u32 (length (sv_docs s) - sv_pos s)"

definition sorted_vec_fill_doc_batch :: "sorted_vec \<Rightarrow> doc_batch \<Rightarrow> sorted_vec \<times> doc_batch \<times> nat" where
  "sorted_vec_fill_doc_batch s batch =
     (let count = min (length (sv_docs s) - sv_pos s) (length batch)
      in (s\<lparr>sv_pos := sv_pos s + count\<rparr>,
          take count (drop (sv_pos s) (sv_docs s)) @ drop count batch,
          count))"

definition sorted_vec_docset :: "sorted_vec docset" where
  "sorted_vec_docset = \<lparr>doc = sorted_vec_doc, advance = \<lambda>s. Some (sorted_vec_advance s),
     seek = \<lambda>s t. Some (sorted_vec_seek s t)\<rparr>"

definition sorted_vec_inv :: "sorted_vec \<Rightarrow> bool" where
  "sorted_vec_inv s \<longleftrightarrow> strictly_sorted (sv_docs s) \<and> (\<forall>d \<in> set (sv_docs s). d < TERMINATED) \<and>
     sv_pos s \<le> length (sv_docs s)"

definition sorted_vec_rem :: "sorted_vec \<Rightarrow> docid list" where
  "sorted_vec_rem s = drop (sv_pos s) (sv_docs s)"

lemma head_doc_drop: "head_doc (drop i xs) = (if i < length xs then xs ! i else TERMINATED)"
  by (auto simp: Cons_nth_drop_Suc [symmetric])

lemma sorted_vec_doc_head: "sorted_vec_doc s = head_doc (sorted_vec_rem s)"
  by (simp add: sorted_vec_doc_def sorted_vec_rem_def head_doc_drop)

lemma binary_search_dropWhile:
  assumes "strictly_sorted (xs :: 'a::linorder list)" "binary_search t xs = Inl i \<or> binary_search t xs = Inr i"
  shows "drop i xs = dropWhile (\<lambda>d. d < t) xs" "i \<le> length xs"
proof -
  have s: "sorted xs" using assms(1) by (simp add: strict_sorted_imp_sorted)
  have *: "i \<le> length xs \<and> (\<forall>x \<in> set (take i xs). x < t) \<and> (\<forall>x \<in> set (drop i xs). t \<le> x)"
  proof (cases "binary_search t xs")
    case (Inl k)
    then show ?thesis using assms(2) binary_search_Inl [OF s Inl] by (auto intro: less_imp_le)
  next
    case (Inr k)
    then have k: "i = k" "k < length xs" "xs ! k = t" using assms(2) binary_search_Inr [OF s Inr] by auto
    have "strictly_sorted (take k xs @ t # drop (Suc k) xs)"
      using assms(1) k by (metis Cons_nth_drop_Suc append_take_drop_id)
    moreover have "drop k xs = t # drop (Suc k) xs" using k by (metis Cons_nth_drop_Suc)
    ultimately show ?thesis using k unfolding sorted_wrt_append by (auto intro: less_imp_le)
  qed
  have "dropWhile (\<lambda>d. d < t) (take i xs @ drop i xs) = dropWhile (\<lambda>d. d < t) (drop i xs)"
    using * by (intro dropWhile_append2) auto
  moreover have "dropWhile (\<lambda>d. d < t) (drop i xs) = drop i xs"
    using * by (cases "drop i xs") auto
  ultimately show "drop i xs = dropWhile (\<lambda>d. d < t) xs" by simp
  show "i \<le> length xs" using * by simp
qed

lemma sorted_vec_seek_rem:
  assumes "sorted_vec_inv s"
  shows "\<exists>s'. sorted_vec_seek s t = (s', head_doc (dropWhile (\<lambda>d. d < t) (sorted_vec_rem s))) \<and>
    sorted_vec_inv s' \<and> sorted_vec_rem s' = dropWhile (\<lambda>d. d < t) (sorted_vec_rem s)"
proof (cases "sv_pos s < length (sv_docs s)")
  case False
  then show ?thesis using assms by (simp add: sorted_vec_seek_def sorted_vec_rem_def)
next
  case True
  let ?r = "drop (sv_pos s) (sv_docs s)"
  have r: "strictly_sorted ?r" using assms by (simp add: sorted_vec_inv_def sorted_wrt_drop)
  obtain i where i: "binary_search t ?r = Inl i \<or> binary_search t ?r = Inr i"
    by (cases "binary_search t ?r") auto
  note d = binary_search_dropWhile [OF r i]
  define s' where "s' = s\<lparr>sv_pos := sv_pos s + i\<rparr>"
  have rem: "sorted_vec_rem s' = dropWhile (\<lambda>d. d < t) (sorted_vec_rem s)" "sorted_vec_inv s'"
    using d True assms by (auto simp: sorted_vec_rem_def s'_def sorted_vec_inv_def add.commute)
  have "binary_search t ?r = Inr i \<Longrightarrow> sv_pos s' < length (sv_docs s)"
    using binary_search_Inr(1) [OF strict_sorted_imp_sorted [OF r], of t i] True by (simp add: s'_def)
  then have "binary_search t ?r = Inr i \<Longrightarrow> sv_docs s ! sv_pos s' = sorted_vec_doc s'"
    by (simp add: sorted_vec_doc_def s'_def)
  then have "sorted_vec_seek s t = (s', sorted_vec_doc s')"
    using True i by (auto simp: sorted_vec_seek_def Let_def s'_def)
  then show ?thesis using rem by (simp add: sorted_vec_doc_head)
qed

interpretation sorted_vec: docset_contract sorted_vec_docset sorted_vec_inv sorted_vec_rem
proof
  fix s :: sorted_vec and d t :: docid
  assume inv: "sorted_vec_inv s"
  show "strictly_sorted (sorted_vec_rem s)"
    using inv by (simp add: sorted_vec_inv_def sorted_vec_rem_def sorted_wrt_drop)
  show "d < TERMINATED" if "d \<in> set (sorted_vec_rem s)"
    using inv that by (auto simp: sorted_vec_inv_def sorted_vec_rem_def dest: in_set_dropD)
  show "doc sorted_vec_docset s = head_doc (sorted_vec_rem s)"
    by (simp add: sorted_vec_docset_def sorted_vec_doc_head)
  show "\<exists>s'. advance sorted_vec_docset s = Some (s', head_doc (tl (sorted_vec_rem s))) \<and>
      sorted_vec_inv s' \<and> sorted_vec_rem s' = tl (sorted_vec_rem s)"
    using inv by (auto simp: sorted_vec_docset_def sorted_vec_advance_def Let_def sorted_vec_inv_def
        sorted_vec_doc_head sorted_vec_rem_def drop_Suc tl_drop)
  show "\<exists>s'. seek sorted_vec_docset s t = Some (s', head_doc (dropWhile (\<lambda>d. d < t) (sorted_vec_rem s))) \<and>
      sorted_vec_inv s' \<and> sorted_vec_rem s' = dropWhile (\<lambda>d. d < t) (sorted_vec_rem s)" if "t \<le> TERMINATED"
    using sorted_vec_seek_rem [OF inv, of t] by (auto simp: sorted_vec_docset_def)
qed

text \<open>The bulk copy fills a batch as the cursor loop of \<open>fill_batch\<close> does.\<close>

lemma sorted_vec_fill_doc_batch_rem:
  assumes "sorted_vec_inv s"
  shows "\<exists>s' batch'. sorted_vec_fill_doc_batch s batch = (s', batch', min (length batch) (length (sorted_vec_rem s))) \<and>
    sorted_vec_inv s' \<and> sorted_vec_rem s' = drop (length batch) (sorted_vec_rem s) \<and>
    take (min (length batch) (length (sorted_vec_rem s))) batch' = take (length batch) (sorted_vec_rem s)"
  using assms
  by (auto simp: sorted_vec_fill_doc_batch_def Let_def sorted_vec_inv_def sorted_vec_rem_def min_def add.commute)

section \<open>All documents, no documents\<close>

record all_docs =
  all_current :: docid
  all_num_docs :: docid

definition all_new :: "docid \<Rightarrow> all_docs" where
  "all_new num_docs = \<lparr>all_current = 0, all_num_docs = num_docs\<rparr>"

definition all_doc :: "all_docs \<Rightarrow> docid" where
  "all_doc s = (if all_current s \<ge> all_num_docs s then TERMINATED else all_current s)"

definition all_advance :: "all_docs \<Rightarrow> all_docs \<times> docid" where
  "all_advance s =
     (let s' = (if all_current s < all_num_docs s then s\<lparr>all_current := all_current s + 1\<rparr> else s)
      in (s', all_doc s'))"

definition all_seek :: "all_docs \<Rightarrow> docid \<Rightarrow> all_docs \<times> docid" where
  "all_seek s target =
     (let s' = s\<lparr>all_current := max (all_current s) target\<rparr> in (s', all_doc s'))"

definition all_size_hint :: "all_docs \<Rightarrow> nat" where
  "all_size_hint s = all_num_docs s - all_current s"

definition all_docset :: "all_docs docset" where
  "all_docset = \<lparr>doc = all_doc, advance = \<lambda>s. Some (all_advance s), seek = \<lambda>s t. Some (all_seek s t)\<rparr>"

definition all_inv :: "all_docs \<Rightarrow> bool" where
  "all_inv s \<longleftrightarrow> all_num_docs s \<le> TERMINATED"

definition all_rem :: "all_docs \<Rightarrow> docid list" where
  "all_rem s = [all_current s..<all_num_docs s]"

lemma all_doc_head: "all_doc s = head_doc (all_rem s)"
  by (cases "all_current s < all_num_docs s") (simp_all add: all_doc_def all_rem_def upt_conv_Cons)

lemma dropWhile_upt: "dropWhile (\<lambda>d. d < t) [a..<b] = [max a t..<b]"
proof (induction "b - a" arbitrary: a)
  case (Suc n)
  then have "[a..<b] = a # [Suc a..<b]" by (simp add: upt_conv_Cons)
  then show ?case using Suc.hyps(1) [of "Suc a"] Suc.hyps(2) by (cases "a < t") (auto simp: max_def)
qed auto

interpretation all_docs: docset_contract all_docset all_inv all_rem
  by unfold_locales
    (auto simp: all_docset_def all_doc_head all_advance_def all_seek_def Let_def all_inv_def all_rem_def dropWhile_upt)

definition empty_docset :: "unit docset" where
  "empty_docset = \<lparr>doc = \<lambda>_. TERMINATED, advance = \<lambda>s. Some (s, TERMINATED), seek = \<lambda>s _. Some (s, TERMINATED)\<rparr>"

interpretation empty: docset_contract empty_docset "\<lambda>_. True" "\<lambda>_. []"
  by unfold_locales (auto simp: empty_docset_def)

section \<open>Bitmaps\<close>

record bitset_cursor =
  bc_bits :: doc_bitset
  bc_current :: docid
  bc_count :: docid

definition next_or_terminated :: "doc_bitset \<Rightarrow> docid \<Rightarrow> docid" where
  "next_or_terminated b t = (case next_set_bit b t of Some d \<Rightarrow> d | None \<Rightarrow> TERMINATED)"

definition bitset_cursor_new :: "doc_bitset \<Rightarrow> bitset_cursor" where
  "bitset_cursor_new b = \<lparr>bc_bits = b, bc_current = next_or_terminated b 0, bc_count = bitset_count b\<rparr>"

definition bitset_cursor_seek :: "bitset_cursor \<Rightarrow> docid \<Rightarrow> bitset_cursor \<times> docid" where
  "bitset_cursor_seek s target =
     (let s' = (if target > bc_current s then s\<lparr>bc_current := next_or_terminated (bc_bits s) target\<rparr> else s)
      in (s', bc_current s'))"

definition bitset_cursor_advance :: "bitset_cursor \<Rightarrow> bitset_cursor \<times> docid" where
  "bitset_cursor_advance s = bitset_cursor_seek s (saturating_add (bc_current s) 1)"

definition word_or_zero :: "doc_bitset \<Rightarrow> nat \<Rightarrow> u64" where
  "word_or_zero b i = (if i < length (bits b) then bits b ! i else 0)"

definition window_word :: "doc_bitset \<Rightarrow> docid \<Rightarrow> nat \<Rightarrow> u64" where
  "window_word b base offset =
     (let first = base div 64; shift = base mod 64; index = first + offset;
          word = drop_bit shift (word_or_zero b index)
      in if shift \<noteq> 0 then word OR push_bit (64 - shift) (word_or_zero b (index + 1)) else word)"

definition bitset_fill_doc_window :: "bitset_cursor \<Rightarrow> docid \<Rightarrow> bitset_cursor \<times> doc_window" where
  "bitset_fill_doc_window s base =
     (let end_doc = saturating_add base DOC_WINDOW_SIZE; start = max base (bc_current s)
      in if start \<ge> end_doc then (s, replicate DOC_WINDOW_WORDS 0)
         else let window = map (window_word (bc_bits s) base) [0..<DOC_WINDOW_WORDS];
                  consumed = start - base;
                  cleared = replicate (consumed div 64) 0 @ drop (consumed div 64) window;
                  masked = cleared[consumed div 64 := cleared ! (consumed div 64) AND push_bit (consumed mod 64) (- 1)]
              in (s\<lparr>bc_current := next_or_terminated (bc_bits s) end_doc\<rparr>, masked))"

definition bitset_docset :: "bitset_cursor windowed" where
  "bitset_docset = \<lparr>doc = bc_current, advance = \<lambda>s. Some (bitset_cursor_advance s),
     seek = \<lambda>s t. Some (bitset_cursor_seek s t),
     fill_doc_window = \<lambda>s base. Some (bitset_fill_doc_window s base)\<rparr>"

definition bitset_cursor_rem :: "bitset_cursor \<Rightarrow> docid list" where
  "bitset_cursor_rem s = dropWhile (\<lambda>d. d < bc_current s) (wpositions (bits (bc_bits s)))"

definition bitset_cursor_inv :: "bitset_cursor \<Rightarrow> bool" where
  "bitset_cursor_inv s \<longleftrightarrow> length (bits (bc_bits s)) * 64 \<le> 2 ^ 32 \<and>
     (\<forall>d \<in> set (wpositions (bits (bc_bits s))). d < TERMINATED) \<and>
     bc_current s = head_doc (bitset_cursor_rem s)"

lemma head_doc_le: "(\<forall>d \<in> set xs. d < TERMINATED) \<Longrightarrow> head_doc xs \<le> TERMINATED"
  by (cases xs) auto

lemma next_or_terminated_head:
  assumes "length (bits b) * 64 \<le> 2 ^ 32"
  shows "next_or_terminated b t = head_doc (dropWhile (\<lambda>d. d < t) (wpositions (bits b)))"
  unfolding next_or_terminated_def next_set_bit_dropWhile [OF assms]
  by (cases "dropWhile (\<lambda>d. d < t) (wpositions (bits b))") (simp_all only: list.case option.case head_doc.simps)

lemma dropWhile_head_doc:
  assumes "strictly_sorted xs" "\<forall>d \<in> set xs. d < TERMINATED"
  shows "dropWhile (\<lambda>d. d < head_doc (dropWhile (\<lambda>d. d < t) xs)) xs = dropWhile (\<lambda>d. d < t) xs"
proof (cases "dropWhile (\<lambda>d. d < t) xs")
  case Nil
  then show ?thesis unfolding Nil using assms(2) by (auto simp: dropWhile_eq_Nil_conv)
next
  case (Cons x ys)
  then have x: "x \<in> set xs" "t \<le> x" "\<forall>j \<in> set xs. t \<le> j \<longrightarrow> x \<le> j"
    using dropWhile_less_Cons_iff [OF assms(1), of t x] by auto
  have "dropWhile (\<lambda>d. d < x) xs = dropWhile (\<lambda>d. d < t) xs"
    using x assms(1) by (auto simp: dropWhile_less_filter intro!: filter_cong)
  then show ?thesis by (simp add: Cons)
qed

lemma bitset_cursor_moved:
  assumes "bitset_cursor_inv s" "bc_current s \<le> t"
  shows "let s' = s\<lparr>bc_current := next_or_terminated (bc_bits s) t\<rparr>
    in bitset_cursor_inv s' \<and> bitset_cursor_rem s' = dropWhile (\<lambda>d. d < t) (bitset_cursor_rem s)"
  using assms
  by (simp add: Let_def bitset_cursor_inv_def bitset_cursor_rem_def next_or_terminated_head
      dropWhile_head_doc dropWhile_less_dropWhile)

lemma bitset_cursor_seek_rem:
  assumes "bitset_cursor_inv s"
  shows "\<exists>s'. bitset_cursor_seek s t = (s', head_doc (dropWhile (\<lambda>d. d < t) (bitset_cursor_rem s))) \<and>
    bitset_cursor_inv s' \<and> bitset_cursor_rem s' = dropWhile (\<lambda>d. d < t) (bitset_cursor_rem s)"
proof (cases "bc_current s < t")
  case True
  then show ?thesis using bitset_cursor_moved [OF assms, of t]
    by (auto simp: bitset_cursor_seek_def Let_def) (auto simp: bitset_cursor_inv_def)
next
  case False
  have "dropWhile (\<lambda>d. d < t) (bitset_cursor_rem s) = bitset_cursor_rem s"
    using False assms by (cases "bitset_cursor_rem s") (auto simp: bitset_cursor_inv_def)
  then show ?thesis using False assms by (auto simp: bitset_cursor_seek_def Let_def bitset_cursor_inv_def)
qed

text \<open>Word \<open>offset\<close> of the window is the bitmap read at an unaligned base.\<close>

lemma window_word_bit:
  assumes "r < 64"
  shows "bit (window_word b base q) r \<longleftrightarrow> wbit (bits b) (base + (q * 64 + r))"
proof -
  define first shift where "first = base div 64" and "shift = base mod 64"
  have b: "base = first * 64 + shift" "shift < 64" by (simp_all add: first_def shift_def)
  have w: "bit (word_or_zero b i) j \<longleftrightarrow> wbit (bits b) (i * 64 + j)" if "j < 64" for i j
    using wbit_word [OF that, of "bits b" i] by (simp add: word_or_zero_def)
  have ww: "window_word b base q = (if shift \<noteq> 0
      then drop_bit shift (word_or_zero b (first + q)) OR push_bit (64 - shift) (word_or_zero b (first + q + 1))
      else drop_bit shift (word_or_zero b (first + q)))"
    by (simp add: window_word_def Let_def first_def shift_def)
  show ?thesis
  proof (cases "r + shift < 64")
    case True
    have "bit (window_word b base q) r \<longleftrightarrow> bit (word_or_zero b (first + q)) (shift + r)"
      using True b(2) by (auto simp: ww bit_or_iff bit_drop_bit_eq bit_push_bit_iff)
    also have "\<dots> \<longleftrightarrow> wbit (bits b) (base + (q * 64 + r))"
      using w [of "shift + r" "first + q"] True b(1) by (simp add: algebra_simps)
    finally show ?thesis .
  next
    case False
    define j where "j = r + shift - 64"
    have j: "j < 64" "r - (64 - shift) = j" "shift \<noteq> 0" "64 - shift \<le> r"
      using False b(2) assms by (auto simp: j_def)
    have high: "\<not> bit (word_or_zero b (first + q)) (shift + r)"
      using bit_imp_le_length [of "word_or_zero b (first + q)" "shift + r"] False by auto
    have "bit (window_word b base q) r \<longleftrightarrow> bit (word_or_zero b (first + q + 1)) j"
      using j(2,3,4) high assms unfolding ww by (simp add: bit_or_iff bit_drop_bit_eq bit_push_bit_iff)
    also have "\<dots> \<longleftrightarrow> wbit (bits b) ((first + q + 1) * 64 + j)" by (rule w [OF j(1)])
    also have "(first + q + 1) * 64 + j = base + (q * 64 + r)" using b j False by (simp add: j_def algebra_simps)
    finally show ?thesis .
  qed
qed

lemma wbit_div_mod: "wbit (ws :: u64 list) k \<longleftrightarrow> k div 64 < length ws \<and> bit (ws ! (k div 64)) (k mod 64)"
  by (simp add: wbit_def)

lemma wbit_window:
  "wbit (map (window_word b base) [0..<n]) o' \<longleftrightarrow> o' < n * 64 \<and> wbit (bits b) (base + o')"
proof -
  have "bit (window_word b base (o' div 64)) (o' mod 64) \<longleftrightarrow> wbit (bits b) (base + o')"
    using window_word_bit [of "o' mod 64" b base "o' div 64"] by simp
  then show ?thesis by (auto simp: wbit_div_mod [of "map _ _"] div_less_iff_less_mult)
qed

text \<open>Clearing whole words and then the low bits of the next drops the positions below \<open>c\<close>.\<close>

lemma wbit_clear_below:
  fixes ws :: "u64 list"
  assumes "c < length ws * 64"
  shows "wbit ((replicate (c div 64) 0 @ drop (c div 64) ws)
      [c div 64 := (replicate (c div 64) 0 @ drop (c div 64) ws) ! (c div 64) AND push_bit (c mod 64) (- 1)]) k \<longleftrightarrow>
    wbit ws k \<and> c \<le> k"
proof -
  define q r where "q = c div 64" and "r = c mod 64"
  define zs where "zs = replicate q 0 @ drop q ws"
  have c: "c = q * 64 + r" "r < 64" "q < length ws" using assms by (simp_all add: q_def r_def div_less_iff_less_mult)
  have len: "length zs = length ws" using c by (simp add: zs_def)
  have zq: "zs ! q = ws ! q" using c by (simp add: zs_def nth_append)
  have "wbit (zs[q := zs ! q AND push_bit r (- 1)]) k \<longleftrightarrow> wbit ws k \<and> c \<le> k"
  proof (cases "k div 64 = q")
    case True
    have "c \<le> k \<longleftrightarrow> r \<le> k mod 64" using True c by (metis add_le_cancel_left div_mult_mod_eq)
    then show ?thesis using True len c wbit_update [of q zs "zs ! q AND push_bit r (- 1)" k]
      by (auto simp: bit_high zq wbit_div_mod [of ws])
  next
    case False
    have "c \<le> k \<longleftrightarrow> q < k div 64"
      using False div_neq_less [of c 64 k] by (auto simp: q_def le_less)
    moreover have "wbit zs k \<longleftrightarrow> wbit ws k \<and> q \<le> k div 64"
      using len by (auto simp: wbit_div_mod zs_def nth_append)
    ultimately show ?thesis using False len c wbit_update [of q zs "zs ! q AND push_bit r (- 1)" k] by auto
  qed
  then show ?thesis by (simp add: zs_def q_def r_def)
qed

lemma bitset_window_rem:
  assumes inv: "bitset_cursor_inv s" and base: "base < TERMINATED"
  shows "\<exists>s' w. bitset_fill_doc_window s base = (s', w) \<and> bitset_cursor_inv s' \<and>
      bitset_cursor_rem s' = dropWhile (\<lambda>d. d < saturating_add base DOC_WINDOW_SIZE) (bitset_cursor_rem s) \<and>
      length w = DOC_WINDOW_WORDS \<and> {o'. wbit w o'} = window_of base (bitset_cursor_rem s)"
proof -
  let ?stop = "saturating_add base DOC_WINDOW_SIZE"
  let ?docs = "wpositions (bits (bc_bits s))"
  have mem: "d \<in> set (bitset_cursor_rem s) \<longleftrightarrow> wbit (bits (bc_bits s)) d \<and> bc_current s \<le> d" for d
    by (auto simp: bitset_cursor_rem_def set_dropWhile_less bits_simps)
  have bound: "wbit (bits (bc_bits s)) d \<Longrightarrow> d < TERMINATED" for d
    using inv by (simp add: bitset_cursor_inv_def bits_simps)
  have e: "base < ?stop" "?stop \<le> base + DOC_WINDOW_SIZE"
    using base by (auto simp: saturating_add_def DOC_WINDOW_SIZE_def DOC_WINDOW_WORDS_def)
  show ?thesis
  proof (cases "max base (bc_current s) \<ge> ?stop")
    case True
    then have ge: "?stop \<le> bc_current s" using e by auto
    have "dropWhile (\<lambda>d. d < ?stop) (bitset_cursor_rem s) = bitset_cursor_rem s"
      using ge inv by (cases "bitset_cursor_rem s") (auto simp: bitset_cursor_inv_def)
    moreover have "window_of base (bitset_cursor_rem s) = {}"
      using ge mem bound by (auto simp: window_of_def saturating_add_def min_def split: if_splits) fastforce
    ultimately show ?thesis using True inv by (simp add: bitset_fill_doc_window_def Let_def)
  next
    case False
    define c where "c = max base (bc_current s) - base"
    define w where "w = map (window_word (bc_bits s) base) [0..<DOC_WINDOW_WORDS]"
    define s' where "s' = s\<lparr>bc_current := next_or_terminated (bc_bits s) ?stop\<rparr>"
    let ?m = "(replicate (c div 64) 0 @ drop (c div 64) w)
      [c div 64 := (replicate (c div 64) 0 @ drop (c div 64) w) ! (c div 64) AND push_bit (c mod 64) (- 1)]"
    have cw: "c < length w * 64" using False e(2) by (auto simp: c_def w_def DOC_WINDOW_SIZE_def)
    have "wbit ?m k \<longleftrightarrow> k < DOC_WINDOW_SIZE \<and> wbit (bits (bc_bits s)) (base + k) \<and> c \<le> k" for k
      using wbit_clear_below [OF cw, of k] wbit_window [of "bc_bits s" base DOC_WINDOW_WORDS k]
      by (simp add: w_def DOC_WINDOW_SIZE_def)
    moreover have "c \<le> k \<longleftrightarrow> bc_current s \<le> base + k" for k by (auto simp: c_def)
    ultimately have "{o'. wbit ?m o'} = window_of base (bitset_cursor_rem s)"
      by (auto simp: window_of_def mem)
    moreover have "bitset_fill_doc_window s base = (s', ?m)"
      using False unfolding bitset_fill_doc_window_def Let_def c_def w_def s'_def by (simp only: if_False)
    moreover have "bitset_cursor_inv s' \<and> bitset_cursor_rem s' = dropWhile (\<lambda>d. d < ?stop) (bitset_cursor_rem s)"
      using bitset_cursor_moved [OF inv, of ?stop] False by (simp add: s'_def Let_def)
    moreover have "length ?m = DOC_WINDOW_WORDS" using cw by (simp add: w_def)
    ultimately show ?thesis by blast
  qed
qed

interpretation bitset_cursor: windowed_contract bitset_docset bitset_cursor_inv bitset_cursor_rem
proof
  fix s :: bitset_cursor and d t base :: docid
  assume inv: "bitset_cursor_inv s"
  have bound: "\<forall>d \<in> set (bitset_cursor_rem s). d < TERMINATED"
    using inv by (auto simp: bitset_cursor_inv_def bitset_cursor_rem_def dest: set_dropWhileD)
  show "strictly_sorted (bitset_cursor_rem s)" by (simp add: bitset_cursor_rem_def)
  show "d < TERMINATED" if "d \<in> set (bitset_cursor_rem s)" using bound that by simp
  show "doc bitset_docset s = head_doc (bitset_cursor_rem s)"
    using inv by (simp add: bitset_docset_def bitset_cursor_inv_def)
  have "dropWhile (\<lambda>d. d < saturating_add (bc_current s) 1) (bitset_cursor_rem s) = tl (bitset_cursor_rem s)"
  proof (cases "bitset_cursor_rem s")
    case (Cons x xs)
    then have x: "bc_current s = x" "x < TERMINATED" using inv bound by (auto simp: bitset_cursor_inv_def)
    have "strictly_sorted (x # xs)" using Cons by (metis bitset_cursor_rem_def sorted_wpositions strictly_sorted_dropWhile)
    then have "dropWhile (\<lambda>d. d < Suc x) xs = xs" by (cases xs) auto
    then show ?thesis using Cons x by (simp add: saturating_add_def min_def)
  qed simp
  then show "\<exists>s'. advance bitset_docset s = Some (s', head_doc (tl (bitset_cursor_rem s))) \<and>
      bitset_cursor_inv s' \<and> bitset_cursor_rem s' = tl (bitset_cursor_rem s)"
    using bitset_cursor_seek_rem [OF inv, of "saturating_add (bc_current s) 1"]
    by (auto simp: bitset_docset_def bitset_cursor_advance_def)
  show "\<exists>s'. seek bitset_docset s t = Some (s', head_doc (dropWhile (\<lambda>d. d < t) (bitset_cursor_rem s))) \<and>
      bitset_cursor_inv s' \<and> bitset_cursor_rem s' = dropWhile (\<lambda>d. d < t) (bitset_cursor_rem s)"
    using bitset_cursor_seek_rem [OF inv, of t] by (auto simp: bitset_docset_def)
  show "\<exists>s' w. fill_doc_window bitset_docset s base = Some (s', w) \<and> bitset_cursor_inv s' \<and>
      bitset_cursor_rem s' = dropWhile (\<lambda>d. d < saturating_add base DOC_WINDOW_SIZE) (bitset_cursor_rem s) \<and>
      length w = DOC_WINDOW_WORDS \<and> {o'. wbit w o'} = window_of base (bitset_cursor_rem s)" if "base < TERMINATED"
    using bitset_window_rem [OF inv that] by (auto simp: bitset_docset_def)
qed

lemma bitset_cursor_new_inv:
  assumes "bitset_wf n b"
  shows "bitset_cursor_inv (bitset_cursor_new b)"
    and "bitset_cursor_rem (bitset_cursor_new b) = wpositions (bits b)"
proof -
  have bound: "\<forall>d \<in> set (wpositions (bits b)). d < TERMINATED"
    using assms by (auto simp: bitset_wf_def)
  have z: "dropWhile (\<lambda>d. d < 0) (wpositions (bits b)) = wpositions (bits b)" by (cases "wpositions (bits b)") auto
  show r: "bitset_cursor_rem (bitset_cursor_new b) = wpositions (bits b)"
    using dropWhile_head_doc [OF sorted_wpositions bound, of 0] next_or_terminated_head [OF bitset_wf_words [OF assms], of 0] z
    by (simp add: bitset_cursor_rem_def bitset_cursor_new_def)
  show "bitset_cursor_inv (bitset_cursor_new b)"
    unfolding bitset_cursor_inv_def r
    using bitset_wf_words [OF assms] bound next_or_terminated_head [OF bitset_wf_words [OF assms], of 0] z
    by (simp add: bitset_cursor_new_def)
qed

section \<open>Intersection\<close>

record ('a, 'b) intersection =
  isect_a :: 'a
  isect_b :: 'b

partial_function (option) align ::
  "('a, 'x) docset_scheme \<Rightarrow> ('b, 'y) docset_scheme \<Rightarrow> 'a \<Rightarrow> 'b \<Rightarrow> docid \<Rightarrow> docid \<Rightarrow>
   ('a \<times> 'b \<times> docid) option" where
  "align A B a b da db =
     (if da = TERMINATED \<or> db = TERMINATED then Some (a, b, TERMINATED)
      else if da = db then Some (a, b, da)
      else if da < db then Option.bind (seek A a db) (\<lambda>(a', da'). align A B a' b da' db)
      else Option.bind (seek B b da) (\<lambda>(b', db'). align A B a b' da db'))"

definition intersection_new ::
  "('a, 'x) docset_scheme \<Rightarrow> ('b, 'y) docset_scheme \<Rightarrow> 'a \<Rightarrow> 'b \<Rightarrow> ('a, 'b) intersection option" where
  "intersection_new A B a b =
     Option.bind (align A B a b (doc A a) (doc B b)) (\<lambda>(a', b', _). Some \<lparr>isect_a = a', isect_b = b'\<rparr>)"

definition intersection_doc ::
  "('a, 'x) docset_scheme \<Rightarrow> ('b, 'y) docset_scheme \<Rightarrow> ('a, 'b) intersection \<Rightarrow> docid" where
  "intersection_doc A B s =
     (let da = doc A (isect_a s)
      in if da = TERMINATED \<or> doc B (isect_b s) = TERMINATED then TERMINATED else da)"

definition intersection_advance ::
  "('a, 'x) docset_scheme \<Rightarrow> ('b, 'y) docset_scheme \<Rightarrow> ('a, 'b) intersection \<Rightarrow>
   (('a, 'b) intersection \<times> docid) option" where
  "intersection_advance A B s =
     Option.bind (advance A (isect_a s)) (\<lambda>(a, da).
       let db = doc B (isect_b s)
       in Option.bind (align A B a (isect_b s) da db) (\<lambda>(a', b', d). Some (\<lparr>isect_a = a', isect_b = b'\<rparr>, d)))"

definition intersection_seek ::
  "('a, 'x) docset_scheme \<Rightarrow> ('b, 'y) docset_scheme \<Rightarrow> ('a, 'b) intersection \<Rightarrow> docid \<Rightarrow>
   (('a, 'b) intersection \<times> docid) option" where
  "intersection_seek A B s target =
     Option.bind (seek A (isect_a s) target) (\<lambda>(a, da).
     Option.bind (seek B (isect_b s) target) (\<lambda>(b, db).
     Option.bind (align A B a b da db) (\<lambda>(a', b', d). Some (\<lparr>isect_a = a', isect_b = b'\<rparr>, d))))"

definition intersection_size_hint :: "('a \<Rightarrow> nat) \<Rightarrow> ('b \<Rightarrow> nat) \<Rightarrow> ('a, 'b) intersection \<Rightarrow> nat" where
  "intersection_size_hint size_a size_b s = min (size_a (isect_a s)) (size_b (isect_b s))"

definition intersection_docset ::
  "('a, 'x) docset_scheme \<Rightarrow> ('b, 'y) docset_scheme \<Rightarrow> ('a, 'b) intersection docset" where
  "intersection_docset A B = \<lparr>doc = intersection_doc A B, advance = intersection_advance A B,
     seek = intersection_seek A B\<rparr>"

definition intersection_rem ::
  "('a \<Rightarrow> docid list) \<Rightarrow> ('b \<Rightarrow> docid list) \<Rightarrow> ('a, 'b) intersection \<Rightarrow> docid list" where
  "intersection_rem remA remB s = filter (\<lambda>d. d \<in> set (remB (isect_b s))) (remA (isect_a s))"

definition intersection_inv ::
  "('a \<Rightarrow> bool) \<Rightarrow> ('a \<Rightarrow> docid list) \<Rightarrow> ('b \<Rightarrow> bool) \<Rightarrow> ('b \<Rightarrow> docid list) \<Rightarrow> ('a, 'b) intersection \<Rightarrow> bool" where
  "intersection_inv invA remA invB remB s \<longleftrightarrow>
     invA (isect_a s) \<and> invB (isect_b s) \<and>
     (remA (isect_a s) = [] \<or> remB (isect_b s) = [] \<or> hd (remA (isect_a s)) = hd (remB (isect_b s)))"

lemma isect_eta [simp]: "\<lparr>isect_a = isect_a s, isect_b = isect_b s\<rparr> = s"
  by simp

locale two_docsets =
  A: docset_contract A invA remA + B: docset_contract B invB remB
  for A :: "('a, 'x) docset_scheme" and invA :: "'a \<Rightarrow> bool" and remA :: "'a \<Rightarrow> docid list"
    and B :: "('b, 'y) docset_scheme" and invB :: "'b \<Rightarrow> bool" and remB :: "'b \<Rightarrow> docid list"
begin

lemma align_rem:
  assumes "invA a" "invB b"
  shows "\<exists>s. align A B a b (head_doc (remA a)) (head_doc (remB b)) =
      Some (isect_a s, isect_b s, head_doc (filter (\<lambda>d. d \<in> set (remB b)) (remA a))) \<and>
    intersection_inv invA remA invB remB s \<and>
    intersection_rem remA remB s = filter (\<lambda>d. d \<in> set (remB b)) (remA a)"
  using assms
proof (induction "length (remA a) + length (remB b)" arbitrary: a b rule: less_induct)
  case less
  note sA = A.rem_sorted [OF less.prems(1)] and sB = B.rem_sorted [OF less.prems(2)]
  show ?case
  proof (cases "remA a = [] \<or> remB b = []")
    case True
    then show ?thesis using less.prems
      by (intro exI [of _ "\<lparr>isect_a = a, isect_b = b\<rparr>"])
        (auto simp: align.simps [of A B a b] intersection_inv_def intersection_rem_def)
  next
    case False
    then obtain x xs y ys where xy: "remA a = x # xs" "remB b = y # ys"
      by (cases "remA a"; cases "remB b") auto
    have bd: "x < TERMINATED" "y < TERMINATED"
      using A.rem_bound [OF less.prems(1), of x] B.rem_bound [OF less.prems(2), of y] xy by auto
    consider "x = y" | "x < y" | "y < x" by linarith
    then show ?thesis
    proof cases
      case 1
      then show ?thesis using less.prems xy bd
        by (intro exI [of _ "\<lparr>isect_a = a, isect_b = b\<rparr>"])
          (auto simp: align.simps [of A B a b] intersection_inv_def intersection_rem_def)
    next
      case 2
      obtain a' where a': "seek A a y = Some (a', head_doc (remA a'))" "invA a'" "remA a' = dropWhile (\<lambda>d. d < y) (remA a)"
        using A.seek_rem [OF less.prems(1), of y] bd by auto
      have "remA a' = dropWhile (\<lambda>d. d < y) xs" using a'(3) xy 2 by simp
      then have "length (remA a') < length (remA a)" using xy length_dropWhile_le [of _ xs] by (simp add: le_imp_less_Suc)
      then have dec: "length (remA a') + length (remB b) < length (remA a) + length (remB b)" by simp
      have "y \<le> d" if "d \<in> set (remB b)" for d using that sB xy by auto
      then have "filter (\<lambda>d. d \<in> set (remB b)) (remA a') = filter (\<lambda>d. d \<in> set (remB b)) (remA a)"
        unfolding a'(3) dropWhile_less_filter [OF sA] by (auto intro!: filter_cong)
      moreover have "align A B a b (head_doc (remA a)) (head_doc (remB b)) =
          align A B a' b (head_doc (remA a')) (head_doc (remB b))"
        using 2 bd xy a'(1) by (simp add: align.simps [of A B a b])
      ultimately show ?thesis using less.hyps [OF dec a'(2) less.prems(2)] by simp
    next
      case 3
      obtain b' where b': "seek B b x = Some (b', head_doc (remB b'))" "invB b'" "remB b' = dropWhile (\<lambda>d. d < x) (remB b)"
        using B.seek_rem [OF less.prems(2), of x] bd by auto
      have "remB b' = dropWhile (\<lambda>d. d < x) ys" using b'(3) xy 3 by simp
      then have "length (remB b') < length (remB b)" using xy length_dropWhile_le [of _ ys] by (simp add: le_imp_less_Suc)
      then have dec: "length (remA a) + length (remB b') < length (remA a) + length (remB b)" by simp
      have "x \<le> d" if "d \<in> set (remA a)" for d using that sA xy by auto
      then have "filter (\<lambda>d. d \<in> set (remB b')) (remA a) = filter (\<lambda>d. d \<in> set (remB b)) (remA a)"
        unfolding b'(3) by (auto simp: set_dropWhile_less [OF sB] intro!: filter_cong)
      moreover have "align A B a b (head_doc (remA a)) (head_doc (remB b)) =
          align A B a b' (head_doc (remA a)) (head_doc (remB b'))"
        using 3 bd xy b'(1) by (simp add: align.simps [of A B a b])
      ultimately show ?thesis using less.hyps [OF dec less.prems(1) b'(2)] by simp
    qed
  qed
qed

lemma intersection_head:
  assumes "intersection_inv invA remA invB remB s"
  shows "head_doc (intersection_rem remA remB s) =
      (if remA (isect_a s) = [] \<or> remB (isect_b s) = [] then TERMINATED else hd (remA (isect_a s)))"
    and "filter (\<lambda>d. d \<in> set (remB (isect_b s))) (tl (remA (isect_a s))) = tl (intersection_rem remA remB s)"
  using assms
  by (cases "remA (isect_a s)"; cases "remB (isect_b s)"; auto simp: intersection_inv_def intersection_rem_def)+

lemma intersection_new_rem:
  assumes "invA a" "invB b"
  shows "\<exists>s. intersection_new A B a b = Some s \<and> intersection_inv invA remA invB remB s \<and>
    intersection_rem remA remB s = filter (\<lambda>d. d \<in> set (remB b)) (remA a)"
  using align_rem [OF assms] assms by (auto simp: intersection_new_def A.doc_rem B.doc_rem)

lemma intersection_contract:
  "docset_contract (intersection_docset A B) (intersection_inv invA remA invB remB) (intersection_rem remA remB)"
proof
  fix s :: "('a, 'b) intersection" and d t :: docid
  assume inv: "intersection_inv invA remA invB remB s"
  let ?a = "isect_a s" and ?b = "isect_b s" and ?rem = "intersection_rem remA remB"
  have i: "invA ?a" "invB ?b" using inv by (simp_all add: intersection_inv_def)
  note sA = A.rem_sorted [OF i(1)] and sB = B.rem_sorted [OF i(2)]
  show "strictly_sorted (?rem s)" using sA by (simp add: intersection_rem_def sorted_wrt_filter)
  show "d < TERMINATED" if "d \<in> set (?rem s)" using that A.rem_bound [OF i(1)] by (simp add: intersection_rem_def)
  show "doc (intersection_docset A B) s = head_doc (?rem s)"
    using intersection_head(1) [OF inv] i A.head_terminated_iff [OF i(1)] B.head_terminated_iff [OF i(2)]
    by (cases "remA ?a") (auto simp: intersection_docset_def intersection_doc_def Let_def A.doc_rem B.doc_rem)
  show "\<exists>s'. advance (intersection_docset A B) s = Some (s', head_doc (tl (?rem s))) \<and>
      intersection_inv invA remA invB remB s' \<and> ?rem s' = tl (?rem s)"
  proof -
    obtain a1 where a1: "advance A ?a = Some (a1, head_doc (remA a1))" "invA a1" "remA a1 = tl (remA ?a)"
      using A.advance_rem [OF i(1)] by auto
    show ?thesis
      using align_rem [OF a1(2) i(2)] a1 intersection_head(2) [OF inv] i
      by (auto simp: intersection_docset_def intersection_advance_def B.doc_rem)
  qed
  show "\<exists>s'. seek (intersection_docset A B) s t = Some (s', head_doc (dropWhile (\<lambda>d. d < t) (?rem s))) \<and>
      intersection_inv invA remA invB remB s' \<and> ?rem s' = dropWhile (\<lambda>d. d < t) (?rem s)" if t: "t \<le> TERMINATED"
  proof -
    obtain a1 where a1: "seek A ?a t = Some (a1, head_doc (remA a1))" "invA a1" "remA a1 = dropWhile (\<lambda>d. d < t) (remA ?a)"
      using A.seek_rem [OF i(1) t] by auto
    obtain b1 where b1: "seek B ?b t = Some (b1, head_doc (remB b1))" "invB b1" "remB b1 = dropWhile (\<lambda>d. d < t) (remB ?b)"
      using B.seek_rem [OF i(2) t] by auto
    have "filter (\<lambda>d. d \<in> set (remB b1)) (remA a1) = dropWhile (\<lambda>d. d < t) (?rem s)"
      unfolding a1(3) b1(3) intersection_rem_def
      using sA sB by (auto simp: dropWhile_less_filter sorted_wrt_filter intro!: filter_cong)
    then show ?thesis using align_rem [OF a1(2) b1(2)] a1(1) b1(1)
      by (auto simp: intersection_docset_def intersection_seek_def)
  qed
qed

end

interpretation sorted_vec_bitset:
  two_docsets sorted_vec_docset sorted_vec_inv sorted_vec_rem bitset_docset bitset_cursor_inv bitset_cursor_rem ..

section \<open>Properties\<close>

text \<open>
  C19. The intersection of any two cursors that keep the \<open>DocSet\<close> contract keeps it
  too: \<open>new\<close>, \<open>advance\<close> and \<open>seek\<close> terminate, and the cursor yields exactly the
  documents both inputs still had, in ascending order, each once.
\<close>

theorem intersection_docset_correct:
  assumes "docset_contract A invA remA" "docset_contract B invB remB"
  shows "docset_contract (intersection_docset A B) (intersection_inv invA remA invB remB) (intersection_rem remA remB) \<and>
    (\<forall>a b. invA a \<and> invB b \<longrightarrow>
      (\<exists>s. intersection_new A B a b = Some s \<and> intersection_inv invA remA invB remB s \<and>
        intersection_rem remA remB s = filter (\<lambda>d. d \<in> set (remB b)) (remA a)))"
proof -
  note two = two_docsets.intro [OF assms]
  show ?thesis
    using two_docsets.intersection_contract [OF two] two_docsets.intersection_new_rem [OF two] by blast
qed

theorem intersection_docset_correct_witness:
  "\<exists>s. intersection_new sorted_vec_docset bitset_docset (sorted_vec_new [3, 64, 90]) (bitset_cursor_new (bitset_all 70)) = Some s \<and>
     intersection_rem sorted_vec_rem bitset_cursor_rem s = [3, 64] \<and>
     doc (intersection_docset sorted_vec_docset bitset_docset) s = 3"
proof -
  have wf: "bitset_wf 70 (bitset_all 70)" by (simp add: bitset_wf_iff bitset_all_docs TERMINATED_def)
  have a: "sorted_vec_inv (sorted_vec_new [3, 64, 90])"
    by (simp add: sorted_vec_inv_def sorted_vec_new_def TERMINATED_def)
  note c = intersection_docset_correct [OF sorted_vec.docset_contract_axioms bitset_cursor.docset_contract_axioms]
  obtain s where s: "intersection_new sorted_vec_docset bitset_docset (sorted_vec_new [3, 64, 90]) (bitset_cursor_new (bitset_all 70)) = Some s"
      "intersection_inv sorted_vec_inv sorted_vec_rem bitset_cursor_inv bitset_cursor_rem s"
      "intersection_rem sorted_vec_rem bitset_cursor_rem s =
        filter (\<lambda>d. d \<in> set (bitset_cursor_rem (bitset_cursor_new (bitset_all 70)))) (sorted_vec_rem (sorted_vec_new [3, 64, 90]))"
    using c a bitset_cursor_new_inv(1) [OF wf] by blast
  have r: "intersection_rem sorted_vec_rem bitset_cursor_rem s = [3, 64]"
    unfolding s(3) using bitset_cursor_new_inv(2) [OF wf]
    by (simp add: set_wpositions_docs bitset_all_docs sorted_vec_rem_def sorted_vec_new_def)
  then show ?thesis
    using s(1) c docset_contract.axioms(1) doc_cursor.doc_rem s(2) by fastforce
qed

text \<open>
  C30. Each concrete cursor keeps the contract over the documents it was built from:
  the vector, the bitmap, the range \<open>0..num_docs\<close>, and nothing for the empty
  cursor.
\<close>

theorem concrete_cursors_correct:
  "docset_contract sorted_vec_docset sorted_vec_inv sorted_vec_rem \<and>
   windowed_contract bitset_docset bitset_cursor_inv bitset_cursor_rem \<and>
   docset_contract all_docset all_inv all_rem \<and>
   docset_contract empty_docset (\<lambda>_. True) (\<lambda>_. []) \<and>
   sorted_vec_rem (sorted_vec_new ds) = ds \<and> all_rem (all_new n) = [0..<n] \<and>
   (bitset_wf n b \<longrightarrow> bitset_cursor_inv (bitset_cursor_new b) \<and>
     set (bitset_cursor_rem (bitset_cursor_new b)) = bitset_docs b)"
  using sorted_vec.docset_contract_axioms bitset_cursor.windowed_contract_axioms
    all_docs.docset_contract_axioms empty.docset_contract_axioms
    bitset_cursor_new_inv [of n b]
  by (simp add: sorted_vec_rem_def sorted_vec_new_def all_rem_def all_new_def set_wpositions_docs)

theorem concrete_cursors_correct_witness:
  "set (bitset_cursor_rem (bitset_cursor_new (bitset_all 3))) = {0, 1, 2}"
proof -
  have "bitset_wf 3 (bitset_all 3)" by (simp add: bitset_wf_iff bitset_all_docs TERMINATED_def)
  then have "set (bitset_cursor_rem (bitset_cursor_new (bitset_all 3))) = {..<3}"
    using concrete_cursors_correct [of "[]" 3 "bitset_all 3"] by (simp add: bitset_all_docs)
  also have "{..<3 :: nat} = {0, 1, 2}" by auto
  finally show ?thesis .
qed

text \<open>
  On every cursor that keeps the contract, an implementation's own \<open>seek\<close>
  (binary search, bitmap scan, two-way alignment) stops on the same document, with
  the same documents left, as the trait's default loop over \<open>advance\<close>, and both
  return.
\<close>

lemma seek_equals_default_seek:
  assumes "docset_contract D I R" "I s" "t \<le> TERMINATED"
  shows "\<exists>s1 s2 d. seek D s t = Some (s1, d) \<and> default_seek D s t = Some (s2, d) \<and>
    I s1 \<and> I s2 \<and> R s1 = R s2 \<and> R s1 = dropWhile (\<lambda>d. d < t) (R s)"
  using docset_contract.seek_rem [OF assms(1,2,3)]
    doc_cursor.default_seek_rem [OF docset_contract.axioms(1) [OF assms(1)] assms(2,3)]
  by auto

text \<open>
  \<open>BitsetDocSet\<close> extracts a window by shifting words, yet the window holds
  exactly the documents that the cursor loop of \<open>fill_window\<close> would have set, and
  both leave the same documents, for every base below the sentinel.
\<close>

lemma bitset_window_equals_fill_window:
  assumes "bitset_cursor_inv s" "base < TERMINATED"
  shows "\<exists>s1 w1 s2 w2. bitset_fill_doc_window s base = (s1, w1) \<and> fill_window bitset_docset s base = Some (s2, w2) \<and>
    {o'. wbit w1 o'} = {o'. wbit w2 o'} \<and> length w1 = length w2 \<and>
    bitset_cursor_rem s1 = bitset_cursor_rem s2"
  using bitset_window_rem [OF assms] bitset_cursor.fill_window_rem [OF assms(1), of base] assms(2) by auto

text \<open>
  Over any cursor that keeps the contract, \<open>fill_batch\<close> delivers the next
  documents in order up to the batch size and leaves the rest, and the bulk copy
  of \<open>SortedVecDocSet\<close> delivers the same; \<open>retain_batch\<close> compacts a sorted batch
  in place to exactly the documents the cursor has.
\<close>

lemma batches_correct:
  assumes "docset_contract D I R" "I s" "sorted_vec_inv v"
    "strictly_sorted (take len probes)" "\<forall>d \<in> set (take len probes). d < TERMINATED" "len \<le> length probes"
  shows "(\<exists>s' docs'. fill_batch D s batch = Some (s', docs', min (length batch) (length (R s))) \<and>
      take (min (length batch) (length (R s))) docs' = take (length batch) (R s) \<and>
      I s' \<and> R s' = drop (length batch) (R s)) \<and>
    (\<exists>v' docs'. sorted_vec_fill_doc_batch v batch = (v', docs', min (length batch) (length (sorted_vec_rem v))) \<and>
      take (min (length batch) (length (sorted_vec_rem v))) docs' = take (length batch) (sorted_vec_rem v) \<and>
      sorted_vec_rem v' = drop (length batch) (sorted_vec_rem v)) \<and>
    (\<exists>s' docs' kept. retain_batch D s probes len = Some (s', docs', kept) \<and> I s' \<and>
      take kept docs' = filter (\<lambda>d. d \<in> set (R s)) (take len probes))"
  using doc_cursor.fill_batch_rem [OF docset_contract.axioms(1) [OF assms(1)] assms(2), of batch]
    sorted_vec_fill_doc_batch_rem [OF assms(3), of batch]
    docset_contract.retain_batch_rem [OF assms(1,2,6,4,5)]
  by blast

end
