(* ===== verification/PredicatedScorer.thy ===== *)
theory PredicatedScorer
  imports DocSetCursors
begin

text \<open>
  This theory models \<open>PredicatedScorer\<close> of \<open>src/summa-core/src/query/docset.rs\<close>: a driving
  scorer whose documents are checked against predicates, against required verifier
  scorers and against excluded ones. Verifiers are cursors that only move forward,
  so the order of the checks matters; the lemmas show that the scorer yields
  exactly the driver's documents that pass. Scores are values of an unspecified type
  with an unspecified addition, so nothing is assumed about floating point.
\<close>

section \<open>Model\<close>

record ('s, 'f, 'p) scorer = "'s windowed" +
  score :: "'s \<Rightarrow> 'f"
  fill_score_window :: "'s \<Rightarrow> docid \<Rightarrow> ('s \<times> 'f list \<times> doc_window) option"
  matched_positions :: "'s \<Rightarrow> 'p list option"

record ('d, 'v, 'n) predicated =
  driver :: 'd
  predicates :: "(docid \<Rightarrow> bool) list"
  must_verifiers :: "'v list"
  must_not_verifiers :: "'n list"

text \<open>
  \<open>iter_mut().all(..)\<close> over verifiers, which stops at the first failure and leaves
  the verifiers behind it where they were.
\<close>

fun all_land :: "('v, 'x) docset_scheme \<Rightarrow> bool \<Rightarrow> docid \<Rightarrow> 'v list \<Rightarrow> ('v list \<times> bool) option" where
  "all_land V expected d [] = Some ([], True)"
| "all_land V expected d (v # vs) =
     (case seek V v d of
        None \<Rightarrow> None
      | Some (v', d') \<Rightarrow>
          if (d' = d) = expected
          then (case all_land V expected d vs of
                  None \<Rightarrow> None
                | Some (vs', ok) \<Rightarrow> Some (v' # vs', ok))
          else Some (v' # vs, False))"

definition check_filters ::
  "('v, 'x) docset_scheme \<Rightarrow> ('n, 'y) docset_scheme \<Rightarrow> ('d, 'v, 'n) predicated \<Rightarrow> docid \<Rightarrow>
   (('d, 'v, 'n) predicated \<times> bool) option" where
  "check_filters V N ps d =
     (if \<not> list_all (\<lambda>p. p d) (predicates ps) then Some (ps, False)
      else case all_land V True d (must_verifiers ps) of
             None \<Rightarrow> None
           | Some (ms, ok) \<Rightarrow>
               if \<not> ok then Some (ps\<lparr>must_verifiers := ms\<rparr>, False)
               else case all_land N False d (must_not_verifiers ps) of
                      None \<Rightarrow> None
                    | Some (ns, ok') \<Rightarrow> Some (ps\<lparr>must_verifiers := ms, must_not_verifiers := ns\<rparr>, ok'))"

partial_function (option) skip_loop ::
  "('d, 'z) docset_scheme \<Rightarrow> ('v, 'x) docset_scheme \<Rightarrow> ('n, 'y) docset_scheme \<Rightarrow>
   ('d, 'v, 'n) predicated \<Rightarrow> docid \<Rightarrow> (('d, 'v, 'n) predicated \<times> docid) option" where
  "skip_loop D V N ps d =
     (if d \<noteq> TERMINATED
      then Option.bind (check_filters V N ps d) (\<lambda>(ps', ok).
             if ok then Some (ps', d)
             else Option.bind (advance D (driver ps')) (\<lambda>(dr, d'). skip_loop D V N (ps'\<lparr>driver := dr\<rparr>) d'))
      else Some (ps, d))"

definition skip_non_matching ::
  "('d, 'z) docset_scheme \<Rightarrow> ('v, 'x) docset_scheme \<Rightarrow> ('n, 'y) docset_scheme \<Rightarrow>
   ('d, 'v, 'n) predicated \<Rightarrow> (('d, 'v, 'n) predicated \<times> docid) option" where
  "skip_non_matching D V N ps = skip_loop D V N ps (doc D (driver ps))"

definition predicated_new ::
  "('d, 'z) docset_scheme \<Rightarrow> ('v, 'x) docset_scheme \<Rightarrow> ('n, 'y) docset_scheme \<Rightarrow>
   'd \<Rightarrow> (docid \<Rightarrow> bool) list \<Rightarrow> 'v list \<Rightarrow> 'n list \<Rightarrow> ('d, 'v, 'n) predicated option" where
  "predicated_new D V N dr preds musts must_nots =
     map_option fst (skip_non_matching D V N
       \<lparr>driver = dr, predicates = preds, must_verifiers = musts, must_not_verifiers = must_nots\<rparr>)"

text \<open>\<open>scores[offset] += verifier.score()\<close> for each required verifier.\<close>

definition add_must_scores ::
  "('f \<Rightarrow> 'f \<Rightarrow> 'f) \<Rightarrow> ('v \<Rightarrow> 'f) \<Rightarrow> 'v list \<Rightarrow> nat \<Rightarrow> 'f list \<Rightarrow> 'f list" where
  "add_must_scores fadd sc ms offset scores = foldl (\<lambda>xs v. xs[offset := fadd (xs ! offset) (sc v)]) scores ms"

function filter_word ::
  "('v, 'f, 'p) scorer \<Rightarrow> ('n, 'y) docset_scheme \<Rightarrow> ('f \<Rightarrow> 'f \<Rightarrow> 'f) \<Rightarrow> docid \<Rightarrow> nat \<Rightarrow>
   ('d, 'v, 'n) predicated \<Rightarrow> u64 \<Rightarrow> u64 \<Rightarrow> 'f list option \<Rightarrow>
   (('d, 'v, 'n) predicated \<times> u64 \<times> 'f list option) option" where
  "filter_word V N fadd base word_index ps word remaining scores =
     (if remaining = 0 then Some (ps, word, scores)
      else let b = trailing_zeros remaining; offset = word_index * 64 + b
           in case check_filters V N ps (as_u32 (base + offset)) of
                None \<Rightarrow> None
              | Some (ps', ok) \<Rightarrow>
                  filter_word V N fadd base word_index ps'
                    (if ok then word else word AND NOT (push_bit b 1))
                    (remaining AND (remaining - 1))
                    (if ok then map_option (add_must_scores fadd (score V) (must_verifiers ps') offset) scores
                     else scores))"
  by pat_completeness auto
termination
  by (relation "measure (\<lambda>(V, N, fadd, base, word_index, ps, word, remaining, scores). unat remaining)")
    (simp_all add: clear_lowest_less)

fun filter_words ::
  "('v, 'f, 'p) scorer \<Rightarrow> ('n, 'y) docset_scheme \<Rightarrow> ('f \<Rightarrow> 'f \<Rightarrow> 'f) \<Rightarrow> docid \<Rightarrow> nat \<Rightarrow>
   ('d, 'v, 'n) predicated \<Rightarrow> doc_window \<Rightarrow> 'f list option \<Rightarrow>
   (('d, 'v, 'n) predicated \<times> doc_window \<times> 'f list option) option" where
  "filter_words V N fadd base word_index ps [] scores = Some (ps, [], scores)"
| "filter_words V N fadd base word_index ps (w # ws) scores =
     (case filter_word V N fadd base word_index ps w w scores of
        None \<Rightarrow> None
      | Some (ps', w', scores') \<Rightarrow>
          (case filter_words V N fadd base (word_index + 1) ps' ws scores' of
             None \<Rightarrow> None
           | Some (ps'', ws', scores'') \<Rightarrow> Some (ps'', w' # ws', scores'')))"

definition filter_window ::
  "('d, 'z) docset_scheme \<Rightarrow> ('v, 'f, 'p) scorer \<Rightarrow> ('n, 'y) docset_scheme \<Rightarrow> ('f \<Rightarrow> 'f \<Rightarrow> 'f) \<Rightarrow>
   ('d, 'v, 'n) predicated \<Rightarrow> docid \<Rightarrow> doc_window \<Rightarrow> 'f list option \<Rightarrow>
   (('d, 'v, 'n) predicated \<times> doc_window \<times> 'f list option) option" where
  "filter_window D V N fadd ps base window scores =
     Option.bind (filter_words V N fadd base 0 ps window scores) (\<lambda>(ps', window', scores').
     Option.bind (skip_non_matching D V N ps') (\<lambda>(ps'', _). Some (ps'', window', scores')))"

definition predicated_doc :: "('d, 'z) docset_scheme \<Rightarrow> ('d, 'v, 'n) predicated \<Rightarrow> docid" where
  "predicated_doc D ps = doc D (driver ps)"

definition predicated_advance ::
  "('d, 'z) docset_scheme \<Rightarrow> ('v, 'x) docset_scheme \<Rightarrow> ('n, 'y) docset_scheme \<Rightarrow>
   ('d, 'v, 'n) predicated \<Rightarrow> (('d, 'v, 'n) predicated \<times> docid) option" where
  "predicated_advance D V N ps =
     Option.bind (advance D (driver ps)) (\<lambda>(dr, _). skip_non_matching D V N (ps\<lparr>driver := dr\<rparr>))"

definition predicated_seek ::
  "('d, 'z) docset_scheme \<Rightarrow> ('v, 'x) docset_scheme \<Rightarrow> ('n, 'y) docset_scheme \<Rightarrow>
   ('d, 'v, 'n) predicated \<Rightarrow> docid \<Rightarrow> (('d, 'v, 'n) predicated \<times> docid) option" where
  "predicated_seek D V N ps target =
     Option.bind (seek D (driver ps) target) (\<lambda>(dr, _). skip_non_matching D V N (ps\<lparr>driver := dr\<rparr>))"

definition predicated_fill_doc_window ::
  "('d, 'z) windowed_scheme \<Rightarrow> ('v, 'f, 'p) scorer \<Rightarrow> ('n, 'y) docset_scheme \<Rightarrow> ('f \<Rightarrow> 'f \<Rightarrow> 'f) \<Rightarrow>
   ('d, 'v, 'n) predicated \<Rightarrow> docid \<Rightarrow> (('d, 'v, 'n) predicated \<times> doc_window) option" where
  "predicated_fill_doc_window D V N fadd ps base =
     Option.bind (fill_doc_window D (driver ps) base) (\<lambda>(dr, window).
     Option.bind (filter_window D V N fadd (ps\<lparr>driver := dr\<rparr>) base window None) (\<lambda>(ps', window', _).
       Some (ps', window')))"

definition predicated_fill_score_window ::
  "('d, 'f, 'p) scorer \<Rightarrow> ('v, 'f, 'p) scorer \<Rightarrow> ('n, 'y) docset_scheme \<Rightarrow> ('f \<Rightarrow> 'f \<Rightarrow> 'f) \<Rightarrow>
   ('d, 'v, 'n) predicated \<Rightarrow> docid \<Rightarrow> (('d, 'v, 'n) predicated \<times> 'f list option \<times> doc_window) option" where
  "predicated_fill_score_window D V N fadd ps base =
     Option.bind (fill_score_window D (driver ps) base) (\<lambda>(dr, scores, window).
     Option.bind (filter_window D V N fadd (ps\<lparr>driver := dr\<rparr>) base window (Some scores)) (\<lambda>(ps', window', scores').
       Some (ps', scores', window')))"

definition predicated_score ::
  "('d, 'f, 'p) scorer \<Rightarrow> ('v, 'f, 'p) scorer \<Rightarrow> ('f \<Rightarrow> 'f \<Rightarrow> 'f) \<Rightarrow> ('d, 'v, 'n) predicated \<Rightarrow> 'f" where
  "predicated_score D V fadd ps =
     foldl (\<lambda>total v. fadd total (score V v)) (score D (driver ps)) (must_verifiers ps)"

definition predicated_matched_positions ::
  "('d, 'f, 'p) scorer \<Rightarrow> ('v, 'f, 'p) scorer \<Rightarrow> ('d, 'v, 'n) predicated \<Rightarrow> 'p list option" where
  "predicated_matched_positions D V ps =
     (let of_driver = (case matched_positions D (driver ps) of Some p \<Rightarrow> p | None \<Rightarrow> []);
          positions = foldl (\<lambda>acc v. case matched_positions V v of Some p \<Rightarrow> acc @ p | None \<Rightarrow> acc)
            of_driver (must_verifiers ps)
      in if positions = [] then None else Some positions)"

definition predicated_docset ::
  "('d, 'z) windowed_scheme \<Rightarrow> ('v, 'f, 'p) scorer \<Rightarrow> ('n, 'y) docset_scheme \<Rightarrow> ('f \<Rightarrow> 'f \<Rightarrow> 'f) \<Rightarrow>
   ('d, 'v, 'n) predicated windowed" where
  "predicated_docset D V N fadd =
     \<lparr>doc = predicated_doc D, advance = predicated_advance D V N, seek = predicated_seek D V N,
      fill_doc_window = predicated_fill_doc_window D V N fadd\<rparr>"

text \<open>A windowed cursor with the scoring methods of a \<open>Scorer\<close>.\<close>

definition as_scorer ::
  "'s windowed \<Rightarrow> ('s \<Rightarrow> 'f) \<Rightarrow> ('s \<Rightarrow> docid \<Rightarrow> ('s \<times> 'f list \<times> doc_window) option) \<Rightarrow>
   ('s \<Rightarrow> 'p list option) \<Rightarrow> ('s, 'f, 'p) scorer" where
  "as_scorer W sc sw mp = windowed.extend W (scorer.fields sc sw mp)"

declare filter_word.simps [simp del]


section \<open>Correctness over the contract\<close>

definition passes ::
  "('v \<Rightarrow> docid list) \<Rightarrow> ('n \<Rightarrow> docid list) \<Rightarrow> ('d, 'v, 'n) predicated \<Rightarrow> docid \<Rightarrow> bool" where
  "passes remV remN ps d \<longleftrightarrow> (\<forall>p \<in> set (predicates ps). p d) \<and>
     (\<forall>v \<in> set (must_verifiers ps). d \<in> set (remV v)) \<and>
     (\<forall>n \<in> set (must_not_verifiers ps). d \<notin> set (remN n))"

definition predicated_rem ::
  "('d \<Rightarrow> docid list) \<Rightarrow> ('v \<Rightarrow> docid list) \<Rightarrow> ('n \<Rightarrow> docid list) \<Rightarrow> ('d, 'v, 'n) predicated \<Rightarrow> docid list" where
  "predicated_rem remD remV remN ps = filter (passes remV remN ps) (remD (driver ps))"

definition parts_inv ::
  "('d \<Rightarrow> bool) \<Rightarrow> ('v \<Rightarrow> bool) \<Rightarrow> ('n \<Rightarrow> bool) \<Rightarrow> ('d, 'v, 'n) predicated \<Rightarrow> bool" where
  "parts_inv invD invV invN ps \<longleftrightarrow> invD (driver ps) \<and>
     (\<forall>v \<in> set (must_verifiers ps). invV v) \<and> (\<forall>n \<in> set (must_not_verifiers ps). invN n)"

definition predicated_inv ::
  "('d \<Rightarrow> bool) \<Rightarrow> ('d \<Rightarrow> docid list) \<Rightarrow> ('v \<Rightarrow> bool) \<Rightarrow> ('v \<Rightarrow> docid list) \<Rightarrow>
   ('n \<Rightarrow> bool) \<Rightarrow> ('n \<Rightarrow> docid list) \<Rightarrow> ('d, 'v, 'n) predicated \<Rightarrow> bool" where
  "predicated_inv invD remD invV remV invN remN ps \<longleftrightarrow> parts_inv invD invV invN ps \<and>
     (remD (driver ps) = [] \<or> passes remV remN ps (hd (remD (driver ps))))"

text \<open>Verifiers that agree on every document from \<open>d\<close> on.\<close>

definition agree_from :: "('v \<Rightarrow> docid list) \<Rightarrow> docid \<Rightarrow> 'v list \<Rightarrow> 'v list \<Rightarrow> bool" where
  "agree_from remV d = list_all2 (\<lambda>v v'. \<forall>e \<ge> d. e \<in> set (remV v') \<longleftrightarrow> e \<in> set (remV v))"

lemma agree_from_refl [simp]: "agree_from remV d vs vs"
  by (simp add: agree_from_def list_all2_refl)

lemma agree_from_all:
  "agree_from remV d vs vs' \<Longrightarrow> d \<le> e \<Longrightarrow>
   (\<forall>v \<in> set vs'. (e \<in> set (remV v)) = w) \<longleftrightarrow> (\<forall>v \<in> set vs. (e \<in> set (remV v)) = w)"
  unfolding agree_from_def by (induction vs vs' rule: list_all2_induct) auto

context docset_contract
begin

lemma all_land_rem:
  assumes "\<forall>v \<in> set vs. inv v" "d < TERMINATED"
  shows "\<exists>vs'. all_land D expected d vs = Some (vs', \<forall>v \<in> set vs. (d \<in> set (rem v)) = expected) \<and>
    (\<forall>v \<in> set vs'. inv v) \<and> agree_from rem d vs vs'"
  using assms(1)
proof (induction vs)
  case (Cons v vs)
  obtain v' d' where v': "seek D v d = Some (v', d')" "d' = d \<longleftrightarrow> d \<in> set (rem v)" "inv v'"
      "rem v' = dropWhile (\<lambda>x. x < d) (rem v)"
    using seek_hit [of v d] Cons.prems assms(2) by auto
  have same: "\<forall>e \<ge> d. e \<in> set (rem v') \<longleftrightarrow> e \<in> set (rem v)"
    using mem_after_seek [of v d] Cons.prems v'(4) by auto
  have IH: "\<exists>vs'. all_land D expected d vs = Some (vs', \<forall>v \<in> set vs. (d \<in> set (rem v)) = expected) \<and>
      (\<forall>v \<in> set vs'. inv v) \<and> agree_from rem d vs vs'"
    using Cons by simp
  show ?case
  proof (cases "(d' = d) = expected")
    case True
    then show ?thesis using IH v' same by (auto simp: agree_from_def)
  next
    case False
    then have "all_land D expected d (v # vs) = Some (v' # vs, False)" using v'(1) by simp
    moreover have "agree_from rem d (v # vs) (v' # vs)"
      using same by (simp add: agree_from_def list_all2_refl)
    ultimately show ?thesis using False v' Cons.prems by auto
  qed
qed simp

end

locale predicated_scorer =
  D: docset_contract D invD remD + V: docset_contract V invV remV + N: docset_contract N invN remN
  for D :: "('d, 'z) docset_scheme" and invD :: "'d \<Rightarrow> bool" and remD :: "'d \<Rightarrow> docid list"
    and V :: "('v, 'x) docset_scheme" and invV :: "'v \<Rightarrow> bool" and remV :: "'v \<Rightarrow> docid list"
    and N :: "('n, 'y) docset_scheme" and invN :: "'n \<Rightarrow> bool" and remN :: "'n \<Rightarrow> docid list"
begin

lemma check_filters_rem:
  assumes "parts_inv invD invV invN ps" "d < TERMINATED"
  shows "\<exists>ps'. check_filters V N ps d = Some (ps', passes remV remN ps d) \<and>
    parts_inv invD invV invN ps' \<and> driver ps' = driver ps \<and>
    (\<forall>e \<ge> d. passes remV remN ps' e = passes remV remN ps e)"
proof -
  obtain ms where ms: "all_land V True d (must_verifiers ps) =
        Some (ms, \<forall>v \<in> set (must_verifiers ps). d \<in> set (remV v))"
      "\<forall>v \<in> set ms. invV v" "agree_from remV d (must_verifiers ps) ms"
    using V.all_land_rem [of "must_verifiers ps" d True] assms by (auto simp: parts_inv_def)
  obtain ns where ns: "all_land N False d (must_not_verifiers ps) =
        Some (ns, \<forall>n \<in> set (must_not_verifiers ps). d \<notin> set (remN n))"
      "\<forall>n \<in> set ns. invN n" "agree_from remN d (must_not_verifiers ps) ns"
    using N.all_land_rem [of "must_not_verifiers ps" d False] assms by (auto simp: parts_inv_def)
  have m: "(\<forall>v \<in> set ms. e \<in> set (remV v)) \<longleftrightarrow> (\<forall>v \<in> set (must_verifiers ps). e \<in> set (remV v))" if "d \<le> e" for e
    using agree_from_all [OF ms(3) that, of True] by simp
  have n: "(\<forall>n \<in> set ns. e \<notin> set (remN n)) \<longleftrightarrow> (\<forall>n \<in> set (must_not_verifiers ps). e \<notin> set (remN n))" if "d \<le> e" for e
    using agree_from_all [OF ns(3) that, of False] by simp
  show ?thesis
  proof (cases "\<forall>p \<in> set (predicates ps). p d")
    case False
    then show ?thesis using assms(1) by (auto simp: check_filters_def list_all_iff passes_def)
  next
    case True
    then have "list_all (\<lambda>p. p d) (predicates ps)" by (simp add: list_all_iff)
    then show ?thesis using True ms ns m n assms(1)
      by (cases "\<forall>v \<in> set (must_verifiers ps). d \<in> set (remV v)")
        (auto simp: check_filters_def passes_def parts_inv_def)
  qed
qed

lemma skip_loop_rem:
  assumes "parts_inv invD invV invN ps"
  shows "\<exists>ps'. skip_loop D V N ps (head_doc (remD (driver ps))) =
      Some (ps', head_doc (predicated_rem remD remV remN ps)) \<and>
    predicated_inv invD remD invV remV invN remN ps' \<and>
    predicated_rem remD remV remN ps' = predicated_rem remD remV remN ps"
  using assms
proof (induction "length (remD (driver ps))" arbitrary: ps)
  case 0
  then show ?case
    by (auto simp: skip_loop.simps [of D V N ps] predicated_rem_def predicated_inv_def)
next
  case (Suc k)
  then obtain x xs where r: "remD (driver ps) = x # xs" by (cases "remD (driver ps)") auto
  have iD: "invD (driver ps)" using Suc.prems by (simp add: parts_inv_def)
  have xT: "x < TERMINATED" using D.rem_bound [OF iD, of x] r by simp
  have later: "\<forall>e \<in> set xs. x < e" using D.rem_sorted [OF iD] r by auto
  obtain ps1 where ps1: "check_filters V N ps x = Some (ps1, passes remV remN ps x)"
      "parts_inv invD invV invN ps1" "driver ps1 = driver ps"
      "\<forall>e \<ge> x. passes remV remN ps1 e = passes remV remN ps e"
    using check_filters_rem [OF Suc.prems xT] by auto
  have same: "filter (passes remV remN ps1) xs = filter (passes remV remN ps) xs"
    using ps1(4) later by (auto intro!: filter_cong)
  show ?case
  proof (cases "passes remV remN ps x")
    case True
    then have "skip_loop D V N ps x = Some (ps1, x)"
      using ps1(1) xT by (simp add: skip_loop.simps [of D V N ps])
    then show ?thesis using True ps1 r same by (auto simp: predicated_inv_def predicated_rem_def)
  next
    case False
    obtain dr where dr: "advance D (driver ps) = Some (dr, head_doc xs)" "invD dr" "remD dr = xs"
      using D.advance_rem [OF iD] r by auto
    define ps2 where "ps2 = ps1\<lparr>driver := dr\<rparr>"
    have p2: "parts_inv invD invV invN ps2" "k = length (remD (driver ps2))"
      using ps1(2) dr Suc.hyps(2) r by (auto simp: ps2_def parts_inv_def)
    have "passes remV remN ps2 = passes remV remN ps1" by (simp add: passes_def ps2_def fun_eq_iff)
    then have rem2: "predicated_rem remD remV remN ps2 = predicated_rem remD remV remN ps"
      using same False r dr(3) by (simp add: predicated_rem_def ps2_def)
    have "skip_loop D V N ps x = skip_loop D V N ps2 (head_doc (remD (driver ps2)))"
      using ps1(1,3) xT False dr by (simp add: skip_loop.simps [of D V N ps] ps2_def)
    then show ?thesis using Suc.hyps(1) [OF p2(2,1)] rem2 r by simp
  qed
qed

lemma skip_non_matching_rem:
  assumes "parts_inv invD invV invN ps"
  shows "\<exists>ps'. skip_non_matching D V N ps = Some (ps', head_doc (predicated_rem remD remV remN ps)) \<and>
    predicated_inv invD remD invV remV invN remN ps' \<and>
    predicated_rem remD remV remN ps' = predicated_rem remD remV remN ps"
  using skip_loop_rem [OF assms] assms by (simp add: skip_non_matching_def D.doc_rem parts_inv_def)

end

locale windowed_predicated_scorer =
  predicated_scorer D invD remD V invV remV N invN remN + W: windowed_contract D invD remD
  for D :: "('d, 'z) windowed_scheme" and invD :: "'d \<Rightarrow> bool" and remD :: "'d \<Rightarrow> docid list"
    and V :: "('v, 'f, 'p) scorer" and invV :: "'v \<Rightarrow> bool" and remV :: "'v \<Rightarrow> docid list"
    and N :: "('n, 'y) docset_scheme" and invN :: "'n \<Rightarrow> bool" and remN :: "'n \<Rightarrow> docid list"
begin

lemma filter_word_rem:
  assumes "parts_inv invD invV invN ps" "\<forall>j. bit remaining j \<longrightarrow> base + (wi * 64 + j) < TERMINATED"
  shows "\<exists>ps' word' sc'. filter_word V N fadd base wi ps word remaining scores = Some (ps', word', sc') \<and>
    parts_inv invD invV invN ps' \<and> driver ps' = driver ps \<and>
    (\<forall>e \<ge> base + (wi + 1) * 64. passes remV remN ps' e = passes remV remN ps e) \<and>
    (\<forall>j < 64. bit word' j \<longleftrightarrow> bit word j \<and> (bit remaining j \<longrightarrow> passes remV remN ps (base + (wi * 64 + j))))"
  using assms
proof (induction "unat remaining" arbitrary: ps word remaining scores rule: less_induct)
  case less
  show ?case
  proof (cases "remaining = 0")
    case True
    then show ?thesis using less.prems by (simp add: filter_word.simps [of V N fadd base wi ps word 0])
  next
    case False
    define b where "b = trailing_zeros remaining"
    define d where "d = base + (wi * 64 + b)"
    define rest where "rest = remaining AND (remaining - 1)"
    note tz = trailing_zeros_bit [OF False, folded b_def]
    have rest: "bit rest j \<longleftrightarrow> bit remaining j \<and> j \<noteq> b" for j
      unfolding rest_def b_def by (rule bit_clear_lowest [OF False])
    have dT: "d < TERMINATED" using less.prems(2) tz(1) by (simp add: d_def)
    obtain ps1 where ps1: "check_filters V N ps d = Some (ps1, passes remV remN ps d)"
        "parts_inv invD invV invN ps1" "driver ps1 = driver ps"
        "\<forall>e \<ge> d. passes remV remN ps1 e = passes remV remN ps e"
      using check_filters_rem [OF less.prems(1) dT] by auto
    define word1 where "word1 = (if passes remV remN ps d then word else word AND NOT (push_bit b 1))"
    have w1: "bit word1 j \<longleftrightarrow> bit word j \<and> (j = b \<longrightarrow> passes remV remN ps d)" if "j < 64" for j
      using that by (auto simp: word1_def bit_and_iff bit_not_iff bit_exp_iff)
    obtain sc1 where step: "filter_word V N fadd base wi ps word remaining scores =
        filter_word V N fadd base wi ps1 word1 rest sc1"
      using ps1(1) False dT
      by (simp add: filter_word.simps [of V N fadd base wi ps word remaining] Let_def b_def [symmetric]
          d_def [symmetric] rest_def word1_def)
    have "unat rest < unat remaining" unfolding rest_def by (rule clear_lowest_less [OF False])
    moreover have "\<forall>j. bit rest j \<longrightarrow> base + (wi * 64 + j) < TERMINATED" using less.prems(2) rest by simp
    ultimately obtain ps2 word2 sc2 where
      IH: "filter_word V N fadd base wi ps1 word1 rest sc1 = Some (ps2, word2, sc2)"
        "parts_inv invD invV invN ps2" "driver ps2 = driver ps1"
        "\<forall>e \<ge> base + (wi + 1) * 64. passes remV remN ps2 e = passes remV remN ps1 e"
        "\<forall>j < 64. bit word2 j \<longleftrightarrow> bit word1 j \<and> (bit rest j \<longrightarrow> passes remV remN ps1 (base + (wi * 64 + j)))"
      using less.hyps [OF _ ps1(2), of rest word1 sc1] by blast
    have "d \<le> base + (wi + 1) * 64" using tz(3) by (simp add: d_def)
    then have "\<forall>e \<ge> base + (wi + 1) * 64. passes remV remN ps2 e = passes remV remN ps e"
      using IH(4) ps1(4) by auto
    moreover have "bit word2 j \<longleftrightarrow> bit word j \<and> (bit remaining j \<longrightarrow> passes remV remN ps (base + (wi * 64 + j)))"
      if "j < 64" for j
    proof (cases "bit remaining j")
      case True
      then have "b \<le> j" using tz(2) [of j] by (meson not_less)
      then have "passes remV remN ps1 (base + (wi * 64 + j)) = passes remV remN ps (base + (wi * 64 + j))"
        using ps1(4) by (simp add: d_def)
      then show ?thesis using IH(5) w1 rest that True by (auto simp: d_def)
    next
      case False
      then show ?thesis using IH(5) w1 rest that tz(1) by auto
    qed
    ultimately show ?thesis using step IH(1,2,3) ps1(3) by auto
  qed
qed

lemma filter_words_rem:
  assumes "parts_inv invD invV invN ps" "\<forall>k. wbit ws k \<longrightarrow> base + (wi * 64 + k) < TERMINATED"
  shows "\<exists>ps' ws' sc'. filter_words V N fadd base wi ps ws scores = Some (ps', ws', sc') \<and>
    parts_inv invD invV invN ps' \<and> driver ps' = driver ps \<and> length ws' = length ws \<and>
    (\<forall>e \<ge> base + (wi + length ws) * 64. passes remV remN ps' e = passes remV remN ps e) \<and>
    (\<forall>k. wbit ws' k \<longleftrightarrow> wbit ws k \<and> passes remV remN ps (base + (wi * 64 + k)))"
  using assms
proof (induction ws arbitrary: wi ps scores)
  case Nil
  then show ?case by (simp add: wbit_def)
next
  case (Cons w ws)
  have b0: "\<forall>j. bit w j \<longrightarrow> base + (wi * 64 + j) < TERMINATED"
    using Cons.prems(2) bit_imp_le_length [of w] by (auto simp: wbit_Cons)
  obtain ps1 w1 sc1 where
    one: "filter_word V N fadd base wi ps w w scores = Some (ps1, w1, sc1)"
      "parts_inv invD invV invN ps1" "driver ps1 = driver ps"
      "\<forall>e \<ge> base + (wi + 1) * 64. passes remV remN ps1 e = passes remV remN ps e"
      "\<forall>j < 64. bit w1 j \<longleftrightarrow> bit w j \<and> (bit w j \<longrightarrow> passes remV remN ps (base + (wi * 64 + j)))"
    using filter_word_rem [OF Cons.prems(1) b0] by blast
  have "\<forall>k. wbit ws k \<longrightarrow> base + ((wi + 1) * 64 + k) < TERMINATED"
  proof (intro allI impI)
    fix k assume "wbit ws k"
    then have "wbit (w # ws) (k + 64)" by (simp add: wbit_Cons)
    then have "base + (wi * 64 + (k + 64)) < TERMINATED" using Cons.prems(2) by blast
    then show "base + ((wi + 1) * 64 + k) < TERMINATED" by (simp add: algebra_simps)
  qed
  from Cons.IH [OF one(2) this, of sc1] obtain ps2 ws2 sc2 where
    rest: "filter_words V N fadd base (wi + 1) ps1 ws sc1 = Some (ps2, ws2, sc2)"
      "parts_inv invD invV invN ps2" "driver ps2 = driver ps1" "length ws2 = length ws"
      "\<forall>e \<ge> base + (wi + 1 + length ws) * 64. passes remV remN ps2 e = passes remV remN ps1 e"
      "\<forall>k. wbit ws2 k \<longleftrightarrow> wbit ws k \<and> passes remV remN ps1 (base + ((wi + 1) * 64 + k))"
    by blast
  have "wbit (w1 # ws2) k \<longleftrightarrow> wbit (w # ws) k \<and> passes remV remN ps (base + (wi * 64 + k))" for k
  proof (cases "k < 64")
    case True
    then show ?thesis using one(5) by (auto simp: wbit_Cons)
  next
    case False
    then have k: "base + ((wi + 1) * 64 + (k - 64)) = base + (wi * 64 + k)" by simp
    moreover have "base + (wi + 1) * 64 \<le> base + (wi * 64 + k)" using False by simp
    ultimately show ?thesis using False rest(6) one(4) by (simp add: wbit_Cons)
  qed
  moreover have "\<forall>e \<ge> base + (wi + length (w # ws)) * 64. passes remV remN ps2 e = passes remV remN ps e"
    using rest(5) one(4) by (auto simp: algebra_simps)
  ultimately show ?case using one(1,3) rest(1,2,3,4) by auto
qed

lemma passes_driver: "passes remV remN (ps\<lparr>driver := dr\<rparr>) = passes remV remN ps"
  by (simp add: passes_def fun_eq_iff)

lemma predicated_window_rem:
  assumes "predicated_inv invD remD invV remV invN remN ps" "base < TERMINATED"
  shows "\<exists>ps' w. predicated_fill_doc_window D V N fadd ps base = Some (ps', w) \<and>
    predicated_inv invD remD invV remV invN remN ps' \<and>
    predicated_rem remD remV remN ps' =
      dropWhile (\<lambda>d. d < saturating_add base DOC_WINDOW_SIZE) (predicated_rem remD remV remN ps) \<and>
    length w = DOC_WINDOW_WORDS \<and> {o'. wbit w o'} = window_of base (predicated_rem remD remV remN ps)"
proof -
  let ?stop = "saturating_add base DOC_WINDOW_SIZE"
  have parts: "parts_inv invD invV invN ps" and iD: "invD (driver ps)"
    using assms by (auto simp: predicated_inv_def parts_inv_def)
  obtain dr w where dw: "fill_doc_window D (driver ps) base = Some (dr, w)" "invD dr"
      "remD dr = dropWhile (\<lambda>d. d < ?stop) (remD (driver ps))" "length w = DOC_WINDOW_WORDS"
      "{o'. wbit w o'} = window_of base (remD (driver ps))"
    using W.window_rem [OF iD assms(2)] by blast
  define ps0 where "ps0 = ps\<lparr>driver := dr\<rparr>"
  have p0: "parts_inv invD invV invN ps0" using parts dw(2) by (simp add: ps0_def parts_inv_def)
  have pass0: "passes remV remN ps0 = passes remV remN ps" by (simp add: ps0_def passes_driver)
  have wk: "wbit w k \<longleftrightarrow> k < DOC_WINDOW_SIZE \<and> base + k \<in> set (remD (driver ps))" for k
    using dw(5) by (auto simp: window_of_def set_eq_iff)
  have "\<forall>k. wbit w k \<longrightarrow> base + (0 * 64 + k) < TERMINATED"
    using wk D.rem_bound [OF iD] by auto
  from filter_words_rem [OF p0 this, of fadd None] obtain ps1 w1 sc1 where
    fw: "filter_words V N fadd base 0 ps0 w None = Some (ps1, w1, sc1)" "parts_inv invD invV invN ps1"
      "driver ps1 = dr" "length w1 = length w"
      "\<forall>e \<ge> base + (0 + length w) * 64. passes remV remN ps1 e = passes remV remN ps e"
      "\<forall>k. wbit w1 k \<longleftrightarrow> wbit w k \<and> passes remV remN ps (base + (0 * 64 + k))"
    unfolding pass0 by (auto simp: ps0_def)
  obtain ps2 where sk: "skip_non_matching D V N ps1 = Some (ps2, head_doc (predicated_rem remD remV remN ps1))"
      "predicated_inv invD remD invV remV invN remN ps2"
      "predicated_rem remD remV remN ps2 = predicated_rem remD remV remN ps1"
    using skip_non_matching_rem [OF fw(2)] by blast
  have sD: "strictly_sorted (remD (driver ps))" by (rule D.rem_sorted [OF iD])
  have "passes remV remN ps1 e = passes remV remN ps e" if "e \<in> set (remD dr)" for e
  proof -
    have "?stop \<le> e" "e < TERMINATED"
      using that D.rem_bound [OF iD, of e] by (auto simp: dw(3) set_dropWhile_less [OF sD])
    then have "base + DOC_WINDOW_SIZE \<le> e" by (auto simp: saturating_add_def min_def split: if_splits)
    then show ?thesis using fw(5) dw(4) by (simp add: DOC_WINDOW_SIZE_def)
  qed
  then have "predicated_rem remD remV remN ps1 = filter (passes remV remN ps) (remD dr)"
    by (auto simp: predicated_rem_def fw(3) intro!: filter_cong)
  also have "\<dots> = dropWhile (\<lambda>d. d < ?stop) (predicated_rem remD remV remN ps)"
    unfolding dw(3) predicated_rem_def
    by (simp add: dropWhile_less_filter sD sorted_wrt_filter conj_commute)
  finally have "predicated_rem remD remV remN ps2 = dropWhile (\<lambda>d. d < ?stop) (predicated_rem remD remV remN ps)"
    using sk(3) by simp
  moreover have "{o'. wbit w1 o'} = window_of base (predicated_rem remD remV remN ps)"
    using fw(6) wk by (auto simp: window_of_def predicated_rem_def)
  moreover have "predicated_fill_doc_window D V N fadd ps base = Some (ps2, w1)"
    using dw(1) fw(1) sk(1) by (simp add: predicated_fill_doc_window_def filter_window_def ps0_def)
  ultimately show ?thesis using sk(2) fw(4) dw(4) by auto
qed

lemma predicated_contract:
  "windowed_contract (predicated_docset D V N fadd)
     (predicated_inv invD remD invV remV invN remN) (predicated_rem remD remV remN)"
proof
  fix ps :: "('d, 'v, 'n) predicated" and d t base :: docid
  let ?inv = "predicated_inv invD remD invV remV invN remN" and ?rem = "predicated_rem remD remV remN"
  assume inv: "?inv ps"
  have parts: "parts_inv invD invV invN ps" and iD: "invD (driver ps)"
    using inv by (auto simp: predicated_inv_def parts_inv_def)
  have sD: "strictly_sorted (remD (driver ps))" by (rule D.rem_sorted [OF iD])
  show "strictly_sorted (?rem ps)" using sD by (simp add: predicated_rem_def sorted_wrt_filter)
  show "d < TERMINATED" if "d \<in> set (?rem ps)" using that D.rem_bound [OF iD] by (simp add: predicated_rem_def)
  show "doc (predicated_docset D V N fadd) ps = head_doc (?rem ps)"
    using inv iD by (cases "remD (driver ps)")
      (auto simp: predicated_docset_def predicated_doc_def predicated_rem_def predicated_inv_def D.doc_rem)
  have moved: "\<exists>ps'. skip_non_matching D V N (ps\<lparr>driver := dr\<rparr>) = Some (ps', head_doc (filter (passes remV remN ps) (remD dr))) \<and>
      ?inv ps' \<and> ?rem ps' = filter (passes remV remN ps) (remD dr)" if "invD dr" for dr
    using skip_non_matching_rem [of "ps\<lparr>driver := dr\<rparr>"] parts that
    by (simp add: parts_inv_def predicated_rem_def passes_driver)
  show "\<exists>ps'. advance (predicated_docset D V N fadd) ps = Some (ps', head_doc (tl (?rem ps))) \<and>
      ?inv ps' \<and> ?rem ps' = tl (?rem ps)"
  proof -
    obtain dr where dr: "advance D (driver ps) = Some (dr, head_doc (remD dr))" "invD dr" "remD dr = tl (remD (driver ps))"
      using D.advance_rem [OF iD] by auto
    have "filter (passes remV remN ps) (remD dr) = tl (?rem ps)"
      using inv dr(3) by (cases "remD (driver ps)") (auto simp: predicated_rem_def predicated_inv_def)
    then show ?thesis using moved [OF dr(2)] dr(1)
      by (auto simp: predicated_docset_def predicated_advance_def)
  qed
  show "\<exists>ps'. seek (predicated_docset D V N fadd) ps t = Some (ps', head_doc (dropWhile (\<lambda>d. d < t) (?rem ps))) \<and>
      ?inv ps' \<and> ?rem ps' = dropWhile (\<lambda>d. d < t) (?rem ps)" if t: "t \<le> TERMINATED"
  proof -
    obtain dr where dr: "seek D (driver ps) t = Some (dr, head_doc (remD dr))" "invD dr"
        "remD dr = dropWhile (\<lambda>d. d < t) (remD (driver ps))"
      using D.seek_rem [OF iD t] by auto
    have "filter (passes remV remN ps) (remD dr) = dropWhile (\<lambda>d. d < t) (?rem ps)"
      unfolding dr(3) predicated_rem_def by (simp add: dropWhile_less_filter sD sorted_wrt_filter conj_commute)
    then show ?thesis using moved [OF dr(2)] dr(1)
      by (auto simp: predicated_docset_def predicated_seek_def)
  qed
  show "\<exists>ps' w. fill_doc_window (predicated_docset D V N fadd) ps base = Some (ps', w) \<and> ?inv ps' \<and>
      ?rem ps' = dropWhile (\<lambda>d. d < saturating_add base DOC_WINDOW_SIZE) (?rem ps) \<and>
      length w = DOC_WINDOW_WORDS \<and> {o'. wbit w o'} = window_of base (?rem ps)" if "base < TERMINATED"
    using predicated_window_rem [OF inv that] by (simp add: predicated_docset_def)
qed

lemma predicated_new_rem:
  assumes "invD dr" "\<forall>v \<in> set musts. invV v" "\<forall>n \<in> set must_nots. invN n"
  shows "\<exists>ps. predicated_new D V N dr preds musts must_nots = Some ps \<and>
    predicated_inv invD remD invV remV invN remN ps \<and>
    predicated_rem remD remV remN ps =
      filter (\<lambda>d. (\<forall>p \<in> set preds. p d) \<and> (\<forall>v \<in> set musts. d \<in> set (remV v)) \<and>
        (\<forall>n \<in> set must_nots. d \<notin> set (remN n))) (remD dr)"
proof -
  define ps where "ps = \<lparr>driver = dr, predicates = preds, must_verifiers = musts, must_not_verifiers = must_nots\<rparr>"
  have "parts_inv invD invV invN ps" using assms by (simp add: ps_def parts_inv_def)
  moreover have "predicated_rem remD remV remN ps =
      filter (\<lambda>d. (\<forall>p \<in> set preds. p d) \<and> (\<forall>v \<in> set musts. d \<in> set (remV v)) \<and>
        (\<forall>n \<in> set must_nots. d \<notin> set (remN n))) (remD dr)"
    by (auto simp: predicated_rem_def passes_def ps_def intro!: filter_cong)
  moreover have "predicated_new D V N dr preds musts must_nots = map_option fst (skip_non_matching D V N ps)"
    by (simp add: predicated_new_def ps_def)
  ultimately show ?thesis using skip_non_matching_rem [of ps] by auto
qed

end

lemma as_scorer_simps [simp]:
  "doc (as_scorer W sc sw mp) = doc W" "advance (as_scorer W sc sw mp) = advance W"
  "seek (as_scorer W sc sw mp) = seek W"
  by (simp_all add: as_scorer_def windowed.defs scorer.defs)

lemma as_scorer_contract:
  "docset_contract W I R \<Longrightarrow> docset_contract (as_scorer W sc sw mp) I R"
  by (simp add: docset_contract_def doc_cursor_def docset_contract_axioms_def)

interpretation filtered_bitmap: windowed_predicated_scorer
  bitset_docset bitset_cursor_inv bitset_cursor_rem
  "as_scorer (with_default_window sorted_vec_docset) sc sw mp" sorted_vec_inv sorted_vec_rem
  bitset_docset bitset_cursor_inv bitset_cursor_rem
  for sc sw mp
  by (intro windowed_predicated_scorer.intro predicated_scorer.intro as_scorer_contract
      bitset_cursor.docset_contract_axioms bitset_cursor.windowed_contract_axioms
      windowed_contract.axioms(1) [OF default_window_contract [OF sorted_vec.docset_contract_axioms]])

section \<open>Properties\<close>

text \<open>
  C22. A \<open>PredicatedScorer\<close> over cursors that keep the \<open>DocSet\<close> contract keeps it: it
  terminates and yields exactly the driver's documents that satisfy every
  predicate, that every required verifier has and that no excluded verifier has,
  although each verifier is only ever moved forward. The windowed path returns the
  same documents as the scalar path.
\<close>

theorem predicated_scorer_correct:
  assumes "windowed_contract D invD remD" "docset_contract V invV remV" "docset_contract N invN remN"
    "invD dr" "\<forall>v \<in> set musts. invV v" "\<forall>n \<in> set must_nots. invN n"
  shows "windowed_contract (predicated_docset D V N fadd)
      (predicated_inv invD remD invV remV invN remN) (predicated_rem remD remV remN) \<and>
    (\<exists>ps. predicated_new D V N dr preds musts must_nots = Some ps \<and>
      predicated_inv invD remD invV remV invN remN ps \<and>
      predicated_rem remD remV remN ps =
        filter (\<lambda>d. (\<forall>p \<in> set preds. p d) \<and> (\<forall>v \<in> set musts. d \<in> set (remV v)) \<and>
          (\<forall>n \<in> set must_nots. d \<notin> set (remN n))) (remD dr))"
proof -
  have w: "windowed_predicated_scorer D invD remD V invV remV N invN remN"
    using windowed_contract.axioms(1) [OF assms(1)] assms(1-3)
    by (intro windowed_predicated_scorer.intro predicated_scorer.intro)
  show ?thesis
    using windowed_predicated_scorer.predicated_contract [OF w]
      windowed_predicated_scorer.predicated_new_rem [OF w assms(4-6)] by blast
qed

theorem predicated_scorer_correct_witness:
  "\<exists>ps. predicated_new bitset_docset (as_scorer (with_default_window sorted_vec_docset) (\<lambda>_. 0 :: nat) (\<lambda>_ _. None) (\<lambda>_. None :: unit list option))
      bitset_docset (bitset_cursor_new (bitset_all 100)) [\<lambda>d. d \<noteq> 7] [sorted_vec_new [2, 7, 64, 99]]
      [bitset_cursor_new (bitset_all 50)] = Some ps \<and>
    predicated_rem bitset_cursor_rem sorted_vec_rem bitset_cursor_rem ps = [64, 99]"
proof -
  let ?V = "as_scorer (with_default_window sorted_vec_docset) (\<lambda>_. 0 :: nat) (\<lambda>_ _. None) (\<lambda>_. None :: unit list option)"
  have wf: "bitset_wf 100 (bitset_all 100)" "bitset_wf 50 (bitset_all 50)"
    by (simp_all add: bitset_wf_iff bitset_all_docs TERMINATED_def)
  have V: "docset_contract ?V sorted_vec_inv sorted_vec_rem"
    by (rule filtered_bitmap.V.docset_contract_axioms)
  have v: "sorted_vec_inv (sorted_vec_new [2, 7, 64, 99])"
    by (simp add: sorted_vec_inv_def sorted_vec_new_def TERMINATED_def)
  obtain ps where ps: "predicated_new bitset_docset ?V bitset_docset (bitset_cursor_new (bitset_all 100)) [\<lambda>d. d \<noteq> 7]
        [sorted_vec_new [2, 7, 64, 99]] [bitset_cursor_new (bitset_all 50)] = Some ps"
      "predicated_rem bitset_cursor_rem sorted_vec_rem bitset_cursor_rem ps =
        filter (\<lambda>d. d \<noteq> 7 \<and> d \<in> set (sorted_vec_rem (sorted_vec_new [2, 7, 64, 99])) \<and>
          d \<notin> set (bitset_cursor_rem (bitset_cursor_new (bitset_all 50))))
          (bitset_cursor_rem (bitset_cursor_new (bitset_all 100)))"
    using predicated_scorer_correct [OF bitset_cursor.windowed_contract_axioms V bitset_cursor.docset_contract_axioms
        bitset_cursor_new_inv(1) [OF wf(1)], of "[sorted_vec_new [2, 7, 64, 99]]" "[bitset_cursor_new (bitset_all 50)]"
        "(+)" "[\<lambda>d. d \<noteq> 7]"]
      v bitset_cursor_new_inv(1) [OF wf(2)] by auto
  have all: "wpositions (bits (bitset_all 100)) = [0..<100]"
    by (rule strict_sorted_equal) (auto simp: set_wpositions_docs bitset_all_docs atLeast0LessThan)
  have "predicated_rem bitset_cursor_rem sorted_vec_rem bitset_cursor_rem ps =
      filter (\<lambda>d. d \<noteq> 7 \<and> d \<in> {2, 7, 64, 99} \<and> \<not> d < 50) [0..<100]"
    unfolding ps(2) bitset_cursor_new_inv(2) [OF wf(1)] bitset_cursor_new_inv(2) [OF wf(2)] all
      set_wpositions_docs bitset_all_docs
    by (intro filter_cong) (auto simp: sorted_vec_rem_def sorted_vec_new_def)
  also have "\<dots> = [64, 99]" by code_simp
  finally show ?thesis using ps(1) by blast
qed

end
