(* ===== verification/Bitpack.thy ===== *)
theory Bitpack
  imports Summa_Bits
begin

text \<open>
  This theory models the encoding helpers of
  \<open>src/summa-core/src/structures/fast_field/mod.rs\<close>: zigzag and order-preserving
  encodings, bit packing, and the table-of-contents and block-index records. Floats
  are their 64 bits, as \<open>to_bits\<close> gives them. Indexing past a buffer is \<open>None\<close>. A bit width
  is the natural number its byte holds; the code's shifts are by less than 64 for the
  widths up to 64 that every caller uses.
\<close>

section \<open>Model\<close>

definition FAST_FIELD_MAGIC :: u32 where "FAST_FIELD_MAGIC = 0x32545346"
definition FAST_FIELD_FOOTER_SIZE :: nat where "FAST_FIELD_FOOTER_SIZE = 16"
definition FAST_FIELD_MISSING :: u64 where "FAST_FIELD_MISSING = - 1"

datatype fast_field_column_type = ColU64 | ColI64 | ColF64 | ColTextOrdinal

fun column_type_code :: "fast_field_column_type \<Rightarrow> u8" where
  "column_type_code ColU64 = 0"
| "column_type_code ColI64 = 1"
| "column_type_code ColF64 = 2"
| "column_type_code ColTextOrdinal = 3"

definition column_type_from_u8 :: "u8 \<Rightarrow> fast_field_column_type option" where
  "column_type_from_u8 v =
     (if v = 0 then Some ColU64 else if v = 1 then Some ColI64 else if v = 2 then Some ColF64
      else if v = 3 then Some ColTextOrdinal else None)"

definition zigzag_encode :: "64 word \<Rightarrow> u64" where
  "zigzag_encode v = push_bit 1 v XOR signed_drop_bit 63 v"

definition zigzag_decode :: "u64 \<Rightarrow> 64 word" where
  "zigzag_decode v = drop_bit 1 v XOR - (v AND 1)"

definition f64_to_sortable_u64 :: "u64 \<Rightarrow> u64" where
  "f64_to_sortable_u64 fbits = (if drop_bit 63 fbits = 0 then fbits XOR push_bit 63 1 else NOT fbits)"

definition sortable_u64_to_f64 :: "u64 \<Rightarrow> u64" where
  "sortable_u64_to_f64 v = (if drop_bit 63 v \<noteq> 0 then v XOR push_bit 63 1 else NOT v)"

definition bits_needed_u64 :: "u64 \<Rightarrow> nat" where
  "bits_needed_u64 val = (if val = 0 then 0 else 64 - leading_zeros val)"

function write_value_bits :: "bytes \<Rightarrow> u64 \<Rightarrow> nat \<Rightarrow> nat \<Rightarrow> nat \<Rightarrow> bytes option" where
  "write_value_bits buf v bo bs remaining =
     (if remaining > 0 \<and> bs < 8 then
        let can_write = min (8 - bs) remaining;
            m = push_bit can_write 1 - 1 :: u64
        in if bo < length buf
           then write_value_bits (buf[bo := buf ! bo OR ucast (push_bit bs (v AND m))])
                  (drop_bit can_write v) (bo + 1) 0 (remaining - can_write)
           else None
      else Some buf)"
  by pat_completeness auto
termination
  by (relation "measure (\<lambda>(buf, v, bo, bs, remaining). remaining)") auto

fun pack_values :: "nat \<Rightarrow> (nat \<times> u64) list \<Rightarrow> bytes \<Rightarrow> bytes option" where
  "pack_values bpv [] buf = Some buf"
| "pack_values bpv ((i, val) # rest) buf =
     (let bit_offset = i * bpv
      in case write_value_bits buf val (bit_offset div 8) (bit_offset mod 8) bpv of
           None \<Rightarrow> None
         | Some buf' \<Rightarrow> pack_values bpv rest buf')"

definition bitpack_write :: "u64 list \<Rightarrow> nat \<Rightarrow> bytes \<Rightarrow> bytes option" where
  "bitpack_write vs bpv out =
     (if bpv = 0 then Some out
      else map_option (\<lambda>buf. out @ buf)
             (pack_values bpv (enumerate 0 vs) (replicate (div_ceil (length vs * bpv) 8) 0)))"

function read_value_bits :: "bytes \<Rightarrow> nat \<Rightarrow> nat \<Rightarrow> nat \<Rightarrow> nat \<Rightarrow> u64 \<Rightarrow> u64" where
  "read_value_bits data bo bs out_shift remaining result =
     (if remaining > 0 \<and> bs < 8 then
        let can_read = min (8 - bs) remaining;
            m = ucast (push_bit can_read 1 - 1 :: u64) :: u8;
            byte_val = (if bo < length data then data ! bo else 0)
        in read_value_bits data (bo + 1) 0 (out_shift + can_read) (remaining - can_read)
             (result OR push_bit out_shift (ucast (drop_bit bs byte_val AND m)))
      else result)"
  by pat_completeness auto
termination
  by (relation "measure (\<lambda>(data, bo, bs, out_shift, remaining, result). remaining)") auto

definition bitpack_read :: "bytes \<Rightarrow> nat \<Rightarrow> nat \<Rightarrow> u64" where
  "bitpack_read data bpv index =
     (if bpv = 0 then 0
      else let bit_offset = index * bpv; byte_offset = bit_offset div 8; bit_shift = bit_offset mod 8
           in if bit_shift + bpv \<le> 64 \<and> byte_offset + 8 \<le> length data
              then let raw = of_le (take 8 (drop byte_offset data)) :: u64;
                       m = (if bpv \<ge> 64 then - 1 else push_bit bpv 1 - 1)
                   in drop_bit bit_shift raw AND m
              else read_value_bits data byte_offset bit_shift 0 bpv 0)"

record fast_field_toc_entry =
  toc_field_id :: u32
  toc_column_type :: fast_field_column_type
  toc_multi :: bool
  toc_data_offset :: u64
  toc_data_len :: u64
  toc_num_docs :: u32
  toc_dict_offset :: u64
  toc_dict_count :: u32

definition FAST_FIELD_TOC_ENTRY_SIZE :: nat where
  "FAST_FIELD_TOC_ENTRY_SIZE = 4 + 1 + 1 + 8 + 8 + 4 + 8 + 4"

record block_index_entry =
  bie_num_docs :: u32
  bie_data_len :: u32
  bie_dict_count :: u32
  bie_dict_len :: u32

definition BLOCK_INDEX_ENTRY_SIZE :: nat where
  "BLOCK_INDEX_ENTRY_SIZE = 16"

definition block_index_write_to :: "block_index_entry \<Rightarrow> bytes" where
  "block_index_write_to e =
     u32_le (bie_num_docs e) @ u32_le (bie_data_len e) @ u32_le (bie_dict_count e) @ u32_le (bie_dict_len e)"

definition block_index_read_from :: "block_index_entry reader" where
  "block_index_read_from =
     rbind read_u32 (\<lambda>num_docs. rbind read_u32 (\<lambda>data_len.
     rbind read_u32 (\<lambda>dict_count. rbind read_u32 (\<lambda>dict_len.
       rreturn \<lparr>bie_num_docs = num_docs, bie_data_len = data_len,
                bie_dict_count = dict_count, bie_dict_len = dict_len\<rparr>))))"

definition toc_write_to :: "fast_field_toc_entry \<Rightarrow> bytes" where
  "toc_write_to e =
     u32_le (toc_field_id e) @ [column_type_code (toc_column_type e)] @
     [if toc_multi e then 1 else 0] @
     u64_le (toc_data_offset e) @ u64_le (toc_data_len e) @ u32_le (toc_num_docs e) @
     u64_le (toc_dict_offset e) @ u32_le (toc_dict_count e)"

definition toc_read_from :: "fast_field_toc_entry reader" where
  "toc_read_from =
     rbind read_u32 (\<lambda>field_id. rbind read_u8 (\<lambda>ct.
       case column_type_from_u8 ct of
         None \<Rightarrow> rfail (IoError InvalidData ''bad column type'')
       | Some column_type \<Rightarrow>
           rbind read_u8 (\<lambda>flags.
             if flags AND NOT 1 \<noteq> 0 then rfail (IoError InvalidData ''unknown fast field flags'')
             else rbind read_u64 (\<lambda>data_offset. rbind read_u64 (\<lambda>data_len.
                  rbind read_u32 (\<lambda>num_docs. rbind read_u64 (\<lambda>dict_offset.
                  rbind read_u32 (\<lambda>dict_count.
                    rreturn \<lparr>toc_field_id = field_id, toc_column_type = column_type,
                      toc_multi = (flags AND 1 \<noteq> 0), toc_data_offset = data_offset,
                      toc_data_len = data_len, toc_num_docs = num_docs,
                      toc_dict_offset = dict_offset, toc_dict_count = dict_count\<rparr>))))))))"

declare write_value_bits.simps [simp del] read_value_bits.simps [simp del]

section \<open>Order-preserving encodings\<close>

lemma top_bit_clear: "drop_bit 63 (w :: u64) = 0 \<longleftrightarrow> \<not> bit w 63"
proof -
  have *: "bit (drop_bit 63 w) n \<longleftrightarrow> n = 0 \<and> bit w 63" for n
    using bit_imp_le_length [of w "63 + n"] by (cases n) (auto simp: bit_drop_bit_eq)
  show ?thesis
  proof
    assume "drop_bit 63 w = 0"
    then show "\<not> bit w 63" using * [of 0] by simp
  next
    assume "\<not> bit w 63"
    then show "drop_bit 63 w = 0" using * by (intro bit_word_eqI) simp
  qed
qed

lemma sortable_round_trip: "sortable_u64_to_f64 (f64_to_sortable_u64 f) = f"
  unfolding sortable_u64_to_f64_def f64_to_sortable_u64_def top_bit_clear
  by (auto simp: bit_xor_iff bit_not_iff bit_push_bit_iff bit_exp_iff xor.assoc intro!: bit_word_eqI)

lemma sortable_surj: "f64_to_sortable_u64 (sortable_u64_to_f64 v) = v"
  unfolding sortable_u64_to_f64_def f64_to_sortable_u64_def top_bit_clear
  by (auto simp: bit_xor_iff bit_not_iff bit_push_bit_iff bit_exp_iff intro!: bit_word_eqI)

text \<open>
  The order IEEE 754 calls \<open>totalOrder\<close>, read off the bits: magnitudes ascend for a
  clear sign bit and descend, below zero, for a set one.
\<close>

definition total_order_key :: "u64 \<Rightarrow> int" where
  "total_order_key fbits =
     (if bit fbits 63 then - uint (take_bit 63 fbits) - 1 else uint (take_bit 63 fbits))"

lemma sign_split: "uint (w :: u64) = (if bit w 63 then 2 ^ 63 else 0) + uint (take_bit 63 w)"
proof -
  have "take_bit 64 (uint w) = uint (take_bit 63 w) + (if bit w 63 then 2 ^ 63 else 0)"
    using take_bit_Suc_from_most [of 63 "uint w"]
    by (simp add: bit_uint_iff unsigned_take_bit_eq of_bool_def)
  moreover have "take_bit 64 (uint w) = uint w"
    using unsigned_less [of w, where ?'a = int] by (simp add: take_bit_int_eq_self_iff)
  ultimately show ?thesis by simp
qed

lemma uint_not: "uint (NOT (w :: u64)) = 2 ^ 64 - 1 - uint w"
proof -
  have "uint (NOT w) = (- uint w - 1) mod 2 ^ 64"
    by (simp add: unsigned_not_eq take_bit_eq_mod not_int_def)
  also have "\<dots> = (- uint w - 1 + 2 ^ 64) mod 2 ^ 64" by (simp only: mod_add_self2)
  also have "\<dots> = 2 ^ 64 - 1 - uint w"
  proof -
    have "0 \<le> uint w" "uint w < 2 ^ 64" using unsigned_less [of w, where ?'a = int] by simp_all
    then have "0 \<le> - uint w - 1 + 2 ^ 64" "- uint w - 1 + 2 ^ 64 < 2 ^ 64" by linarith+
    then show ?thesis by (subst mod_pos_pos_trivial) auto
  qed
  finally show ?thesis .
qed

lemma sortable_key: "uint (f64_to_sortable_u64 f) = total_order_key f + 2 ^ 63"
proof (cases "bit f 63")
  case True
  then show ?thesis using sign_split [of f] uint_not [of f]
    by (simp add: f64_to_sortable_u64_def top_bit_clear total_order_key_def)
next
  case False
  let ?s = "f XOR push_bit 63 1"
  have "bit ?s 63" using False by (simp add: bit_xor_iff bit_exp_iff)
  moreover have "take_bit 63 ?s = take_bit 63 f"
    by (auto intro!: bit_word_eqI simp: bit_take_bit_iff bit_xor_iff bit_exp_iff)
  ultimately have "uint ?s = 2 ^ 63 + uint (take_bit 63 f)" using sign_split [of ?s] by simp
  then show ?thesis using False by (simp add: f64_to_sortable_u64_def top_bit_clear total_order_key_def)
qed

lemma zigzag_round_trip: "zigzag_decode (zigzag_encode v) = v"
proof (rule bit_word_eqI)
  fix n assume n: "n < LENGTH(64)"
  have s: "bit (signed_drop_bit 63 v) k \<longleftrightarrow> k < 64 \<and> bit v 63" for k
    using bit_imp_le_length [of v "63 + k"] bit_imp_le_length [of "signed_drop_bit 63 v" k]
    by (cases "k = 0"; cases "k < 64") (auto simp: bit_signed_drop_bit_iff)
  have e: "bit (zigzag_encode v) k \<longleftrightarrow> k < 64 \<and> ((k > 0 \<and> bit v (k - 1)) \<noteq> bit v 63)" for k
  proof -
    have "bit (push_bit 1 v) k \<longleftrightarrow> k < 64 \<and> 0 < k \<and> bit v (k - 1)"
      by (simp only: bit_push_bit_iff) auto
    then show ?thesis unfolding zigzag_encode_def bit_xor_iff s by auto
  qed
  have "zigzag_encode v AND 1 = (if bit v 63 then 1 else 0)"
    using e [of 0] by (cases "bit v 63") (auto simp: and_one_eq bit_0 even_iff_mod_2_eq_zero odd_iff_mod_2_eq_one)
  then have "bit (- (zigzag_encode v AND 1)) n \<longleftrightarrow> bit v 63" using n by auto
  moreover have "bit (drop_bit 1 (zigzag_encode v)) n \<longleftrightarrow> n + 1 < 64 \<and> bit v n \<noteq> bit v 63"
    using e [of "1 + n"] by (simp add: bit_drop_bit_eq)
  ultimately show "bit (zigzag_decode (zigzag_encode v)) n = bit v n"
    using n by (cases "n = 63") (auto simp: zigzag_decode_def bit_xor_iff)
qed

section \<open>Bit widths\<close>

lemma unat_less_power_bits: "unat (v :: u64) < 2 ^ n \<longleftrightarrow> (\<forall>j \<ge> n. \<not> bit v j)"
proof -
  have "unat v < 2 ^ n \<longleftrightarrow> take_bit n (unat v) = unat v" by (simp add: take_bit_nat_eq_self_iff)
  also have "\<dots> \<longleftrightarrow> take_bit n v = v"
    by (metis unsigned_take_bit_eq unsigned_word_eqI)
  also have "\<dots> \<longleftrightarrow> (\<forall>j \<ge> n. \<not> bit v j)"
  proof
    assume "take_bit n v = v"
    then show "\<forall>j \<ge> n. \<not> bit v j" by (metis bit_take_bit_iff not_less)
  next
    assume "\<forall>j \<ge> n. \<not> bit v j"
    then show "take_bit n v = v" by (intro bit_word_eqI) (metis bit_take_bit_iff not_less)
  qed
  finally show ?thesis .
qed

lemma bits_needed_le_iff: "bits_needed_u64 v \<le> n \<longleftrightarrow> unat v < 2 ^ n"
proof (cases "v = 0")
  case True
  then show ?thesis by (simp add: bits_needed_u64_def)
next
  case False
  then obtain i js where ij: "rev (bit_positions v) = i # js"
    using bit_positions_Nil_iff [of v] by (cases "rev (bit_positions v)") auto
  then have r: "bit_positions v = rev js @ [i]" by (metis rev.simps(2) rev_rev_ident)
  have i: "bit v i" "i < 64"
    using r set_bit_positions [of v] bit_imp_le_length [of v i] by (auto simp: set_eq_iff)
  have top: "j \<le> i" if "bit v j" for j
  proof -
    have "j \<in> set (rev js @ [i])" using that set_bit_positions [of v] r by auto
    moreover have "strictly_sorted (rev js @ [i])" using r sorted_bit_positions by metis
    ultimately show ?thesis by (auto simp: sorted_wrt_append intro: less_imp_le)
  qed
  have "bits_needed_u64 v = Suc i"
    using False ij i(2) by (simp add: bits_needed_u64_def leading_zeros_def)
  also have "Suc i \<le> n \<longleftrightarrow> (\<forall>j \<ge> n. \<not> bit v j)"
  proof
    assume "Suc i \<le> n"
    then show "\<forall>j \<ge> n. \<not> bit v j" using top by fastforce
  next
    assume "\<forall>j \<ge> n. \<not> bit v j"
    then show "Suc i \<le> n" using i(1) by (meson not_less_eq_eq)
  qed
  finally show ?thesis by (simp add: unat_less_power_bits)
qed

lemma bits_needed_le_64 [simp]: "bits_needed_u64 v \<le> 64"
  using unsigned_less [of v, where ?'a = nat] by (simp add: bits_needed_le_iff)

lemma unat_less_bits_needed: "unat v < 2 ^ bits_needed_u64 v"
  using bits_needed_le_iff by blast

lemma bits_needed_mono: "v \<le> w \<Longrightarrow> bits_needed_u64 v \<le> bits_needed_u64 w"
  unfolding bits_needed_le_iff using unat_less_bits_needed [of w]
  by (simp add: word_le_nat_alt)

lemma bits_needed_0_iff: "bits_needed_u64 v = 0 \<longleftrightarrow> v = 0"
  using bits_needed_le_iff [of v 0] by (simp add: unat_eq_zero)

section \<open>Packing and reading\<close>

lemma wbit_u8: "wbit (buf :: bytes) k \<longleftrightarrow> k div 8 < length buf \<and> bit (buf ! (k div 8)) (k mod 8)"
  by (simp add: wbit_def)

lemma bit_low_mask:
  "bit (push_bit n 1 - 1 :: u64) j \<longleftrightarrow> j < n \<and> j < 64"
  "bit (2 ^ n - 1 :: u64) j \<longleftrightarrow> j < n \<and> j < 64"
proof -
  have "2 ^ n - 1 = (mask n :: u64)" by (simp add: mask_eq_exp_minus_1)
  then show "bit (2 ^ n - 1 :: u64) j \<longleftrightarrow> j < n \<and> j < 64" by (simp only: bit_mask_iff) auto
  then show "bit (push_bit n 1 - 1 :: u64) j \<longleftrightarrow> j < n \<and> j < 64" by simp
qed

text \<open>Writing \<open>remaining\<close> bits of a value at bit position \<open>bo * 8 + bs\<close>.\<close>

lemma write_value_bits_wbit:
  assumes "bs < 8" "bo * 8 + bs + remaining \<le> length buf * 8"
  shows "\<exists>buf'. write_value_bits buf v bo bs remaining = Some buf' \<and> length buf' = length buf \<and>
    (\<forall>k. wbit buf' k \<longleftrightarrow> wbit buf k \<or>
      bo * 8 + bs \<le> k \<and> k < bo * 8 + bs + remaining \<and> bit v (k - (bo * 8 + bs)))"
  using assms
proof (induction buf v bo bs remaining rule: write_value_bits.induct)
  case (1 buf v bo bs remaining)
  show ?case
  proof (cases "remaining = 0")
    case True
    then show ?thesis by (auto simp: write_value_bits.simps [of buf v bo bs 0])
  next
    case False
    define c where "c = min (8 - bs) remaining"
    define m where "m = (push_bit c 1 - 1 :: u64)"
    define b where "b = (ucast (push_bit bs (v AND m)) :: u8)"
    define buf1 where "buf1 = buf[bo := buf ! bo OR b]"
    have cond: "0 < remaining \<and> bs < 8" using False "1.prems"(1) by simp
    have c: "0 < c" "c \<le> 8 - bs" "c \<le> remaining" using False "1.prems" by (auto simp: c_def)
    have "bo * 8 < length buf * 8" using False "1.prems" by linarith
    then have bo: "bo < length buf" by simp
    have step: "write_value_bits buf v bo bs remaining =
        write_value_bits buf1 (drop_bit c v) (bo + 1) 0 (remaining - c)"
      using False bo "1.prems"(1)
      by (simp add: write_value_bits.simps [of buf v bo bs remaining] Let_def c_def m_def b_def buf1_def)
    have room: "(bo + 1) * 8 + 0 + (remaining - c) \<le> length buf1 * 8"
    proof (cases "remaining \<le> 8 - bs")
      case True
      then have "remaining - c = 0" by (simp add: c_def)
      then show ?thesis using bo by (simp add: buf1_def)
    next
      case False
      then have "c = 8 - bs" by (simp add: c_def)
      then show ?thesis using "1.prems" False by (simp add: buf1_def)
    qed
    obtain buf2 where IH: "write_value_bits buf1 (drop_bit c v) (bo + 1) 0 (remaining - c) = Some buf2"
        "length buf2 = length buf1"
        "\<forall>k. wbit buf2 k \<longleftrightarrow> wbit buf1 k \<or>
          (bo + 1) * 8 + 0 \<le> k \<and> k < (bo + 1) * 8 + 0 + (remaining - c) \<and> bit (drop_bit c v) (k - ((bo + 1) * 8 + 0))"
      using "1.IH" [OF cond c_def m_def bo zero_less_numeral room [unfolded buf1_def b_def]]
      unfolding buf1_def b_def by blast
    have bit_b: "bit b j \<longleftrightarrow> bs \<le> j \<and> j < bs + c \<and> bit v (j - bs)" if "j < 8" for j
      using that c(2) by (auto simp: b_def m_def bit_unsigned_iff bit_push_bit_iff bit_and_iff bit_low_mask)
    have one: "wbit buf1 k \<longleftrightarrow> wbit buf k \<or>
        bo * 8 + bs \<le> k \<and> k < bo * 8 + bs + c \<and> bit v (k - (bo * 8 + bs))" for k
    proof (cases "k div 8 = bo")
      case True
      then have k: "k = bo * 8 + k mod 8" by (metis div_mult_mod_eq)
      have "k - (bo * 8 + bs) = k mod 8 - bs" "bo * 8 + bs \<le> k \<longleftrightarrow> bs \<le> k mod 8"
          "k < bo * 8 + bs + c \<longleftrightarrow> k mod 8 < bs + c"
        using k by linarith+
      moreover have "wbit buf1 k \<longleftrightarrow> bit (buf ! bo OR b) (k mod 8)"
        using True bo by (simp add: wbit_u8 buf1_def)
      ultimately show ?thesis using bit_b [of "k mod 8"] True bo by (auto simp: wbit_u8 bit_or_iff)
    next
      case False
      have "\<not> (bo * 8 + bs \<le> k \<and> k < bo * 8 + bs + c)"
      proof
        assume "bo * 8 + bs \<le> k \<and> k < bo * 8 + bs + c"
        then have "bo * 8 \<le> k" "k < (bo + 1) * 8" using c(2) "1.prems"(1) by auto
        then have "k div 8 = bo" by (simp add: div_nat_eqI mult.commute)
        then show False using False by simp
      qed
      moreover have "wbit buf1 k \<longleftrightarrow> wbit buf k" using False by (auto simp: wbit_u8 buf1_def)
      ultimately show ?thesis by blast
    qed
    have "wbit buf2 k \<longleftrightarrow> wbit buf k \<or>
        bo * 8 + bs \<le> k \<and> k < bo * 8 + bs + remaining \<and> bit v (k - (bo * 8 + bs))" for k
    proof (cases "remaining \<le> 8 - bs")
      case True
      then have "c = remaining" by (simp add: c_def)
      then have "wbit buf2 k \<longleftrightarrow> wbit buf1 k" using IH(3) [rule_format, of k] by auto
      then show ?thesis using one [of k] \<open>c = remaining\<close> by simp
    next
      case False
      then have c8: "c = 8 - bs" "bo * 8 + bs + c = (bo + 1) * 8" using "1.prems"(1) by (auto simp: c_def)
      define P where "P = (bo + 1) * 8"
      define q where "q = bo * 8 + bs"
      have Pq: "q + c = P" "P + (remaining - c) = q + remaining" "P \<le> q + remaining"
        using c8(2) c(3) by (simp_all add: P_def q_def)
      have "bit (drop_bit c v) (k - P) \<longleftrightarrow> bit v (k - q)" if "P \<le> k"
      proof -
        have "c + (k - P) = k - q" using that Pq(1) by arith
        then show ?thesis by (simp add: bit_drop_bit_eq)
      qed
      moreover have "wbit buf2 k \<longleftrightarrow> wbit buf1 k \<or> P \<le> k \<and> k < P + (remaining - c) \<and> bit (drop_bit c v) (k - P)"
        using IH(3) unfolding P_def add_0_right by blast
      moreover have "wbit buf1 k \<longleftrightarrow> wbit buf k \<or> q \<le> k \<and> k < q + c \<and> bit v (k - q)"
        using one [of k] unfolding q_def .
      ultimately have "wbit buf2 k \<longleftrightarrow> wbit buf k \<or> q \<le> k \<and> k < q + remaining \<and> bit v (k - q)"
        using Pq by (cases "P \<le> k") auto
      then show ?thesis unfolding q_def .
    qed
    then show ?thesis using step IH(1,2) by (auto simp: buf1_def)
  qed
qed

lemma pack_values_wbit:
  assumes bpv: "0 < bpv" "bpv \<le> 64" and "(n + length vs) * bpv \<le> length buf * 8"
  shows "\<exists>buf'. pack_values bpv (enumerate n vs) buf = Some buf' \<and> length buf' = length buf \<and>
    (\<forall>k. wbit buf' k \<longleftrightarrow> wbit buf k \<or>
      n * bpv \<le> k \<and> k < (n + length vs) * bpv \<and> bit (vs ! (k div bpv - n)) (k mod bpv))"
  using assms(3)
proof (induction vs arbitrary: n buf)
  case Nil
  then show ?case by (auto simp: not_less)
next
  case (Cons v vs)
  have "n * bpv div 8 * 8 + n * bpv mod 8 + bpv \<le> length buf * 8"
    using Cons.prems by (simp add: algebra_simps)
  then obtain buf1 where b1: "write_value_bits buf v (n * bpv div 8) (n * bpv mod 8) bpv = Some buf1"
      "length buf1 = length buf"
      "\<forall>k. wbit buf1 k \<longleftrightarrow> wbit buf k \<or> n * bpv \<le> k \<and> k < n * bpv + bpv \<and> bit v (k - n * bpv)"
    using write_value_bits_wbit [of "n * bpv mod 8" "n * bpv div 8" bpv buf v] by auto
  have "(Suc n + length vs) * bpv \<le> length buf1 * 8" using Cons.prems b1(2) by simp
  from Cons.IH [OF this] obtain buf2 where
    b2: "pack_values bpv (enumerate (Suc n) vs) buf1 = Some buf2" "length buf2 = length buf1"
      "\<forall>k. wbit buf2 k \<longleftrightarrow> wbit buf1 k \<or>
        Suc n * bpv \<le> k \<and> k < (Suc n + length vs) * bpv \<and> bit (vs ! (k div bpv - Suc n)) (k mod bpv)"
    by blast
  have "wbit buf2 k \<longleftrightarrow> wbit buf k \<or>
      n * bpv \<le> k \<and> k < (n + length (v # vs)) * bpv \<and> bit ((v # vs) ! (k div bpv - n)) (k mod bpv)" for k
  proof (cases "k < Suc n * bpv")
    case True
    have "k div bpv = n" "k mod bpv = k - n * bpv" if "n * bpv \<le> k"
    proof -
      show "k div bpv = n" using that True bpv(1) by (simp add: div_nat_eqI mult.commute)
      then show "k mod bpv = k - n * bpv" by (metis minus_div_mult_eq_mod)
    qed
    moreover have "k < (n + length (v # vs)) * bpv" using True by (simp add: algebra_simps trans_less_add1)
    ultimately show ?thesis using b1(3) b2(3) True by (auto simp: algebra_simps)
  next
    case False
    then have "Suc n \<le> k div bpv" using bpv(1) by (simp add: less_eq_div_iff_mult_less_eq)
    then have "(v # vs) ! (k div bpv - n) = vs ! (k div bpv - Suc n)" by (simp add: nth_Cons')
    moreover have "n * bpv \<le> k" using False by simp
    ultimately show ?thesis using b1(3) b2(3) False by (auto simp: algebra_simps)
  qed
  then show ?case using b1 b2 by (auto simp: Let_def)
qed

lemma bitpack_write_wbit:
  assumes "0 < bpv" "bpv \<le> 64"
  shows "\<exists>buf. bitpack_write vs bpv out = Some (out @ buf) \<and> length buf = div_ceil (length vs * bpv) 8 \<and>
    (\<forall>i < length vs. \<forall>j < bpv. wbit buf (i * bpv + j) \<longleftrightarrow> bit (vs ! i) j)"
proof -
  let ?z = "replicate (div_ceil (length vs * bpv) 8) (0 :: u8)"
  have "(0 + length vs) * bpv \<le> length ?z * 8" using div_ceil_mult_ge [of 8 "length vs * bpv"] by simp
  from pack_values_wbit [OF assms this] obtain buf where
    b: "pack_values bpv (enumerate 0 vs) ?z = Some buf" "length buf = length ?z"
      "\<forall>k. wbit buf k \<longleftrightarrow> k < length vs * bpv \<and> bit (vs ! (k div bpv)) (k mod bpv)"
    by auto
  have "wbit buf (i * bpv + j) \<longleftrightarrow> bit (vs ! i) j" if "i < length vs" "j < bpv" for i j
  proof -
    have "i * bpv + j < Suc i * bpv" using that by simp
    also have "\<dots> \<le> length vs * bpv" using that by (intro mult_le_mono1) simp
    finally show ?thesis using b(3) that by simp
  qed
  then show ?thesis using b assms by (auto simp: bitpack_write_def)
qed

lemma read_value_bits_bit:
  assumes "bs < 8" "out_shift + remaining \<le> 64"
  shows "bit (read_value_bits data bo bs out_shift remaining result) j \<longleftrightarrow> bit result j \<or>
    out_shift \<le> j \<and> j < out_shift + remaining \<and> wbit data (bo * 8 + bs + (j - out_shift))"
  using assms
proof (induction data bo bs out_shift remaining result rule: read_value_bits.induct)
  case (1 data bo bs out_shift remaining result)
  show ?case
  proof (cases "remaining = 0")
    case True
    then show ?thesis by (auto simp: read_value_bits.simps [of data bo bs out_shift 0])
  next
    case False
    define c where "c = min (8 - bs) remaining"
    define m where "m = (ucast (push_bit c 1 - 1 :: u64) :: u8)"
    define byte where "byte = (if bo < length data then data ! bo else 0)"
    define r1 where "r1 = result OR push_bit out_shift (ucast (drop_bit bs byte AND m))"
    have cond: "0 < remaining \<and> bs < 8" using False "1.prems"(1) by simp
    have c: "c \<le> 8 - bs" "c \<le> remaining" "c \<le> 8" by (auto simp: c_def)
    have step: "read_value_bits data bo bs out_shift remaining result =
        read_value_bits data (bo + 1) 0 (out_shift + c) (remaining - c) r1"
      using cond by (simp add: read_value_bits.simps [of data bo bs out_shift remaining result] Let_def c_def m_def byte_def r1_def)
    have room: "out_shift + c + (remaining - c) \<le> 64" using "1.prems"(2) c by simp
    have IH: "bit (read_value_bits data (bo + 1) 0 (out_shift + c) (remaining - c) r1) j \<longleftrightarrow> bit r1 j \<or>
        out_shift + c \<le> j \<and> j < out_shift + c + (remaining - c) \<and> wbit data ((bo + 1) * 8 + 0 + (j - (out_shift + c)))"
      using "1.IH" [OF cond c_def m_def byte_def zero_less_numeral room] unfolding r1_def .
    have mb: "bit m i \<longleftrightarrow> i < c" for i
      using c(3) by (auto simp: m_def bit_unsigned_iff bit_low_mask)
    have bb: "bit (drop_bit bs byte AND m) i \<longleftrightarrow> i < c \<and> wbit data (bo * 8 + bs + i)" for i
    proof (cases "i < c")
      case True
      then have "bs + i < 8" using c(1) "1.prems"(1) by linarith
      then have "(bo * 8 + (bs + i)) div 8 = bo" "(bo * 8 + (bs + i)) mod 8 = bs + i" by simp_all
      then show ?thesis using True mb by (simp add: bit_and_iff bit_drop_bit_eq wbit_u8 byte_def add.assoc)
    qed (simp add: bit_and_iff mb)
    have one: "bit r1 j \<longleftrightarrow> bit result j \<or> out_shift \<le> j \<and> j < out_shift + c \<and> wbit data (bo * 8 + bs + (j - out_shift))"
      using bb [of "j - out_shift"] c(2) "1.prems"(2)
      by (auto simp: r1_def bit_or_iff bit_push_bit_iff bit_unsigned_iff)
    show ?thesis
    proof (cases "remaining \<le> 8 - bs")
      case True
      then have "c = remaining" by (simp add: c_def)
      then have "bit (read_value_bits data bo bs out_shift remaining result) j \<longleftrightarrow> bit r1 j"
        using step IH by auto
      then show ?thesis using one \<open>c = remaining\<close> by simp
    next
      case False
      then have "c = 8 - bs" by (simp add: c_def)
      then have "(bo + 1) * 8 + 0 + (j - (out_shift + c)) = bo * 8 + bs + (j - out_shift)" if "out_shift + c \<le> j"
        using that "1.prems"(1) by simp
      then show ?thesis using step IH one c(2) by (cases "out_shift + c \<le> j") auto
    qed
  qed
qed

lemma bit_of_le_wbit: "length bs = 8 \<Longrightarrow> bit (of_le bs :: u64) j \<longleftrightarrow> wbit bs j"
  by (auto simp: bit_of_le wbit_u8 dest: bit_imp_le_length)

lemma bitpack_read_bit:
  assumes "bpv \<le> 64"
  shows "bit (bitpack_read data bpv index) j \<longleftrightarrow> j < bpv \<and> wbit data (index * bpv + j)"
proof (cases "bpv = 0")
  case False
  define p where "p = index * bpv"
  have p: "p div 8 * 8 + p mod 8 = p" by simp
  show ?thesis
  proof (cases "p mod 8 + bpv \<le> 64 \<and> p div 8 + 8 \<le> length data")
    case True
    let ?raw = "of_le (take 8 (drop (p div 8) data)) :: u64"
    let ?m = "if bpv \<ge> 64 then - 1 else push_bit bpv 1 - 1 :: u64"
    have m: "bit ?m j \<longleftrightarrow> j < bpv \<and> j < 64" using assms by (auto simp: bit_low_mask simp del: push_bit_of_1)
    have raw: "bit ?raw i \<longleftrightarrow> i < 64 \<and> wbit data (p div 8 * 8 + i)" for i
    proof -
      have "bit ?raw i \<longleftrightarrow> wbit (take 8 (drop (p div 8) data)) i" using True by (intro bit_of_le_wbit) auto
      then show ?thesis using True by (auto simp: wbit_u8 div_less_iff_less_mult)
    qed
    have "bitpack_read data bpv index = drop_bit (p mod 8) ?raw AND ?m"
      using True False unfolding bitpack_read_def Let_def p_def by (simp only: if_True if_False simp_thms)
    then have "bit (bitpack_read data bpv index) j \<longleftrightarrow> bit ?raw (p mod 8 + j) \<and> j < bpv \<and> j < 64"
      by (simp only: bit_and_iff bit_drop_bit_eq m o_def)
    also have "\<dots> \<longleftrightarrow> j < bpv \<and> wbit data (p + j)"
      unfolding raw using True assms p by (auto simp: add.assoc [symmetric])
    finally show ?thesis by (simp add: p_def)
  next
    case slow: False
    then have "bitpack_read data bpv index = read_value_bits data (p div 8) (p mod 8) 0 bpv 0"
      using False unfolding bitpack_read_def Let_def p_def by (simp only: if_False)
    then show ?thesis using read_value_bits_bit [of "p mod 8" 0 bpv data "p div 8" 0 j] assms
      by (simp add: p_def)
  qed
qed (simp add: bitpack_read_def)

lemma bitpack_read_back:
  assumes "bpv \<le> 64" "\<forall>i < length vs. unat (vs ! i) < 2 ^ bpv"
    "\<forall>i < length vs. \<forall>j < bpv. wbit buf (i * bpv + j) \<longleftrightarrow> bit (vs ! i) j" "i < length vs"
  shows "bitpack_read buf bpv i = vs ! i"
proof (rule bit_word_eqI)
  fix j assume "j < LENGTH(64)"
  have "\<not> bit (vs ! i) j" if "bpv \<le> j" using assms(2,4) that by (simp add: unat_less_power_bits)
  then show "bit (bitpack_read buf bpv i) j = bit (vs ! i) j"
    using assms(3,4) bitpack_read_bit [OF assms(1), of buf i j] by (cases "j < bpv") auto
qed

lemma wbit_append: "wbit (xs @ ys :: 'a::len word list) k \<longleftrightarrow>
    (if k < length xs * LENGTH('a) then wbit xs k else wbit ys (k - length xs * LENGTH('a)))"
proof (induction xs arbitrary: k)
  case (Cons x xs)
  show ?case
  proof (cases "k < LENGTH('a)")
    case True
    then show ?thesis by (simp add: wbit_Cons trans_less_add1)
  next
    case False
    then have "k - LENGTH('a) < length xs * LENGTH('a) \<longleftrightarrow> k < length (x # xs) * LENGTH('a)" by auto
    then show ?thesis using False Cons [of "k - LENGTH('a)"] by (simp add: wbit_Cons)
  qed
qed simp

text \<open>A packed run is read back whatever follows it.\<close>

lemma bitpack_round_trip_append:
  assumes "bpv \<le> 64" "\<forall>v \<in> set vs. unat v < 2 ^ bpv"
  shows "\<exists>buf. bitpack_write vs bpv out = Some (out @ buf) \<and> length buf = div_ceil (length vs * bpv) 8 \<and>
    (\<forall>rest. \<forall>i < length vs. bitpack_read (buf @ rest) bpv i = vs ! i)"
proof (cases "bpv = 0")
  case True
  then have "\<forall>i < length vs. vs ! i = 0" using assms(2) by (auto simp: unat_eq_zero)
  then show ?thesis using True by (simp add: bitpack_write_def bitpack_read_def div_ceil_def)
next
  case False
  obtain buf where b: "bitpack_write vs bpv out = Some (out @ buf)" "length buf = div_ceil (length vs * bpv) 8"
      "\<forall>i < length vs. \<forall>j < bpv. wbit buf (i * bpv + j) \<longleftrightarrow> bit (vs ! i) j"
    using bitpack_write_wbit [of bpv vs out] False assms(1) by auto
  have "i * bpv + j < length buf * 8" if "i < length vs" "j < bpv" for i j
  proof -
    have "i * bpv + j < Suc i * bpv" using that by simp
    also have "\<dots> \<le> length vs * bpv" using that by (intro mult_le_mono1) simp
    also have "\<dots> \<le> length buf * 8" using div_ceil_mult_ge [of 8 "length vs * bpv"] b(2) by simp
    finally show ?thesis .
  qed
  then have "\<forall>i < length vs. \<forall>j < bpv. wbit (buf @ rest) (i * bpv + j) \<longleftrightarrow> bit (vs ! i) j" for rest
    using b(3) by (simp add: wbit_append)
  then have "\<forall>i < length vs. bitpack_read (buf @ rest) bpv i = vs ! i" for rest
    using bitpack_read_back [of bpv vs "buf @ rest"] assms by (auto simp: all_set_conv_all_nth)
  then show ?thesis using b by blast
qed

section \<open>Properties\<close>

text \<open>
  Packing values that fit the bit width never writes out of bounds, takes
  \<open>ceil(n * width / 8)\<close> bytes, and reads back every value, by the one-load fast path
  and by the byte loop alike, whatever bytes follow.
\<close>

lemma bitpack_round_trip:
  assumes "bpv \<le> 64" "\<forall>v \<in> set vs. unat v < 2 ^ bpv"
  shows "\<exists>buf. bitpack_write vs bpv out = Some (out @ buf) \<and> length buf = div_ceil (length vs * bpv) 8 \<and>
    (\<forall>rest. \<forall>i < length vs. bitpack_read (buf @ rest) bpv i = vs ! i)"
  by (rule bitpack_round_trip_append [OF assms])

text \<open>
  The float encoding is a bijection on 64-bit patterns under which unsigned
  order is the IEEE total order of the floats, and zigzag is a bijection between
  signed and unsigned 64-bit integers.
\<close>

lemma order_preserving_encodings:
  "sortable_u64_to_f64 (f64_to_sortable_u64 f) = f \<and> f64_to_sortable_u64 (sortable_u64_to_f64 v) = v \<and>
   (f64_to_sortable_u64 f < f64_to_sortable_u64 g \<longleftrightarrow> total_order_key f < total_order_key g) \<and>
   zigzag_decode (zigzag_encode w) = w \<and> zigzag_encode (zigzag_decode v) = v"
proof -
  have "inj zigzag_encode" using zigzag_round_trip by (metis injI)
  then have "surj zigzag_encode" by (rule finite_UNIV_inj_surj [OF finite])
  then obtain x where "v = zigzag_encode x" by (metis surjD)
  then have "zigzag_encode (zigzag_decode v) = v" by (simp add: zigzag_round_trip)
  then show ?thesis
    by (simp add: sortable_round_trip sortable_surj zigzag_round_trip word_less_def sortable_key)
qed

lemma column_type_round_trip [simp]: "column_type_from_u8 (column_type_code c) = Some c"
  by (cases c) (simp_all add: column_type_from_u8_def)

text \<open>Entries of the table of contents and of the block index are read back unchanged.\<close>

lemma toc_entry_round: "toc_read_from (toc_write_to e @ rest) = Inr (e, rest)"
  by (auto simp: toc_read_from_def toc_write_to_def rbind_def rreturn_def le_simps)

lemma block_index_round: "block_index_read_from (block_index_write_to i @ rest) = Inr (i, rest)"
  by (auto simp: block_index_read_from_def block_index_write_to_def rbind_def rreturn_def le_simps)

lemma length_toc_entry [simp]: "length (toc_write_to e) = FAST_FIELD_TOC_ENTRY_SIZE"
  by (simp add: toc_write_to_def FAST_FIELD_TOC_ENTRY_SIZE_def)

lemma length_block_index [simp]: "length (block_index_write_to i) = BLOCK_INDEX_ENTRY_SIZE"
  by (simp add: block_index_write_to_def BLOCK_INDEX_ENTRY_SIZE_def)

end
