(* ===== verification/FastFieldCodec.thy ===== *)
theory FastFieldCodec
  imports Bitpack "HOL-Library.Monad_Syntax" "HOL-Library.Signed_Division"
begin

text \<open>
  This theory models \<open>src/summa-core/src/structures/fast_field/codec.rs\<close>: the four
  fast-field codecs (constant, bit-packed, linear, block-wise linear), their size
  estimators, the automatic choice between them, the single-value readers and the
  validation of untrusted payloads.

  A slice that would be out of bounds is \<open>None\<close>, so a theorem with \<open>Some\<close> says that
  the code does not panic; an \<open>io::Error\<close> is \<open>Inl\<close>. The code's \<open>i128\<close> intermediate
  values are integers, and \<open>as u64\<close> of one is \<open>word_of_int\<close>. Byte counts are natural numbers.
\<close>

section \<open>Slices\<close>

definition slice_from :: "bytes \<Rightarrow> nat \<Rightarrow> bytes option" where
  "slice_from data pos = (if pos \<le> length data then Some (drop pos data) else None)"

definition le_u64 :: "bytes \<Rightarrow> nat \<Rightarrow> u64 option" where
  "le_u64 data pos = (if pos + 8 \<le> length data then Some (of_le (take 8 (drop pos data))) else None)"

definition le_u32 :: "bytes \<Rightarrow> nat \<Rightarrow> nat option" where
  "le_u32 data pos =
     (if pos + 4 \<le> length data then Some (unat (of_le (take 4 (drop pos data)) :: u32)) else None)"

definition le_i64 :: "bytes \<Rightarrow> nat \<Rightarrow> int option" where
  "le_i64 data pos = map_option sint (le_u64 data pos)"

definition byte_at :: "bytes \<Rightarrow> nat \<Rightarrow> nat option" where
  "byte_at data i = (if i < length data then Some (unat (data ! i)) else None)"

section \<open>Codec tags and bounds\<close>

datatype codec_type = Constant | Bitpacked | Linear | BlockwiseLinear

fun codec_code :: "codec_type \<Rightarrow> u8" where
  "codec_code Constant = 0"
| "codec_code Bitpacked = 1"
| "codec_code Linear = 2"
| "codec_code BlockwiseLinear = 3"

definition codec_from_u8 :: "u8 \<Rightarrow> codec_type option" where
  "codec_from_u8 v =
     (if v = 0 then Some Constant else if v = 1 then Some Bitpacked
      else if v = 2 then Some Linear else if v = 3 then Some BlockwiseLinear else None)"

definition BLOCKWISE_LINEAR_BLOCK_SIZE :: nat where
  "BLOCKWISE_LINEAR_BLOCK_SIZE = 512"

text \<open>\<open>64 - bits\<close> underflows, a panic, for a width byte above 64.\<close>

definition width_max :: "nat \<Rightarrow> u64 option" where
  "width_max w =
     (if 64 < w then None
      else let shift = 64 - w in Some (if shift \<ge> 64 then 0 else drop_bit shift (- 1)))"

text \<open>The outer option is a slice out of bounds or an underflow, the inner one is the function's own \<open>None\<close>.\<close>

definition to_u64 :: "int \<Rightarrow> u64 option" where
  "to_u64 x = (if 0 \<le> x \<and> x < 2 ^ 64 then Some (word_of_int x) else None)"

definition value_bounds :: "bytes \<Rightarrow> (u64 \<times> u64) option option" where
  "value_bounds payload =
     (case payload of
        [] \<Rightarrow> Some None
      | tag # data \<Rightarrow>
          (case codec_from_u8 tag of
             None \<Rightarrow> Some None
           | Some Constant \<Rightarrow> do { v \<leftarrow> le_u64 data 0; Some (Some (v, v)) }
           | Some Bitpacked \<Rightarrow> do {
               mn \<leftarrow> le_u64 data 0;
               w \<leftarrow> byte_at data 8;
               wm \<leftarrow> width_max w;
               Some (map_option (\<lambda>mx. (mn, mx)) (to_u64 (uint mn + uint wm))) }
           | Some Linear \<Rightarrow> do {
               fst_v \<leftarrow> le_u64 data 0;
               lst_v \<leftarrow> le_u64 data 8;
               offset \<leftarrow> le_i64 data 20;
               w \<leftarrow> byte_at data 28;
               wm \<leftarrow> width_max w;
               let mn = uint (min fst_v lst_v) + offset;
               let mx = uint (max fst_v lst_v) + offset + uint wm;
               Some (do { lo \<leftarrow> to_u64 mn; hi \<leftarrow> to_u64 mx; Some (lo, hi) }) }
           | Some BlockwiseLinear \<Rightarrow> Some None))"

section \<open>Validation\<close>

definition invalid :: "string \<Rightarrow> io_error + 'a" where
  "invalid msg = Inl (IoError InvalidData msg)"

definition truncated :: "string \<Rightarrow> io_error + 'a" where
  "truncated msg = Inl (IoError UnexpectedEof msg)"

definition usize_fits :: "nat \<Rightarrow> bool" where
  "usize_fits n \<longleftrightarrow> n < 2 ^ 64"

definition packed_len :: "nat \<Rightarrow> nat \<Rightarrow> io_error + nat" where
  "packed_len count bpv =
     (if bpv > 64 then invalid ''fast field bit width exceeds 64''
      else if usize_fits (count * bpv) \<and> usize_fits (count * bpv + 7) then Inr ((count * bpv + 7) div 8)
      else invalid ''fast field size overflow'')"

definition u32_at :: "bytes \<Rightarrow> nat \<Rightarrow> nat" where
  "u32_at rest pos = unat (of_le (take 4 (drop pos rest)) :: u32)"

fun validate_blocks :: "bytes \<Rightarrow> nat \<Rightarrow> nat list \<Rightarrow> nat \<Rightarrow> io_error + nat" where
  "validate_blocks rest count [] pos = Inr pos"
| "validate_blocks rest count (block_idx # idxs) pos =
     (let header_end = pos + 29
      in if \<not> usize_fits header_end then invalid ''fast field offset overflow''
         else if header_end > length rest then truncated ''blockwise fast field block header is truncated''
         else let bpv = unat (rest ! (pos + 24));
                  declared = u32_at rest (pos + 25);
                  block_start = block_idx * BLOCKWISE_LINEAR_BLOCK_SIZE;
                  block_count = min (count - block_start) BLOCKWISE_LINEAR_BLOCK_SIZE
              in case packed_len block_count bpv of
                   Inl e \<Rightarrow> Inl e
                 | Inr expected \<Rightarrow>
                     if declared \<noteq> expected
                     then invalid ''blockwise fast field packed length is inconsistent''
                     else if \<not> usize_fits (header_end + declared) then invalid ''fast field offset overflow''
                     else if header_end + declared > length rest
                     then truncated ''blockwise fast field data is truncated''
                     else validate_blocks rest count idxs (header_end + declared))"

definition validate_auto :: "bytes \<Rightarrow> nat \<Rightarrow> io_error + unit" where
  "validate_auto data expected_values =
     (case data of
        [] \<Rightarrow> truncated ''fast field codec is missing''
      | codec_id # rest \<Rightarrow>
          (case codec_from_u8 codec_id of
             Some Constant \<Rightarrow>
               if length rest \<noteq> 8 then invalid ''invalid constant fast field length'' else Inr ()
           | Some Bitpacked \<Rightarrow>
               if length rest < 9 then truncated ''bitpacked fast field header is truncated''
               else (case packed_len expected_values (unat (rest ! 8)) of
                       Inl e \<Rightarrow> Inl e
                     | Inr p \<Rightarrow>
                         if \<not> usize_fits (9 + p) then invalid ''fast field size overflow''
                         else if length rest \<noteq> 9 + p then invalid ''bitpacked fast field length is inconsistent''
                         else Inr ())
           | Some Linear \<Rightarrow>
               if length rest < 29 then truncated ''linear fast field header is truncated''
               else let count = u32_at rest 16
                    in if count \<noteq> expected_values \<or> count < 2
                       then invalid ''linear fast field value count is inconsistent''
                       else (case packed_len count (unat (rest ! 28)) of
                               Inl e \<Rightarrow> Inl e
                             | Inr p \<Rightarrow>
                                 if \<not> usize_fits (29 + p) then invalid ''fast field size overflow''
                                 else if length rest \<noteq> 29 + p then invalid ''linear fast field length is inconsistent''
                                 else Inr ())
           | Some BlockwiseLinear \<Rightarrow>
               if length rest < 8 then truncated ''blockwise fast field header is truncated''
               else let count = u32_at rest 0; num_blocks = u32_at rest 4
                    in if count \<noteq> expected_values \<or> num_blocks \<noteq> div_ceil count BLOCKWISE_LINEAR_BLOCK_SIZE
                       then invalid ''blockwise fast field counts are inconsistent''
                       else (case validate_blocks rest count [0..<num_blocks] 8 of
                               Inl e \<Rightarrow> Inl e
                             | Inr pos \<Rightarrow>
                                 if pos \<noteq> length rest
                                 then invalid ''blockwise fast field contains trailing data''
                                 else Inr ())
           | None \<Rightarrow> invalid ''unknown fast field codec''))"

section \<open>Constant codec\<close>

record constant_estimator =
  ce_first :: "u64 option"
  ce_all_same :: bool

definition constant_default :: constant_estimator where
  "constant_default = \<lparr>ce_first = None, ce_all_same = False\<rparr>"

definition constant_collect :: "constant_estimator \<Rightarrow> u64 \<Rightarrow> constant_estimator" where
  "constant_collect e v =
     (case ce_first e of
        None \<Rightarrow> e\<lparr>ce_first := Some v, ce_all_same := True\<rparr>
      | Some f \<Rightarrow> if v \<noteq> f then e\<lparr>ce_all_same := False\<rparr> else e)"

definition constant_estimate :: "constant_estimator \<Rightarrow> nat option" where
  "constant_estimate e = (if ce_all_same e then Some 9 else None)"

type_synonym serialized = "(io_error + bytes \<times> nat) option"

definition constant_serialize :: "u64 list \<Rightarrow> serialized" where
  "constant_serialize vs =
     (let val = (if vs = [] then 0 else vs ! 0)
      in Some (Inr ([codec_code Constant] @ u64_le val, 9)))"

section \<open>Bit-packed codec\<close>

record bitpacked_estimator =
  be_min :: u64
  be_max :: u64
  be_count :: nat
  be_initialized :: bool

definition bitpacked_default :: bitpacked_estimator where
  "bitpacked_default = \<lparr>be_min = 0, be_max = 0, be_count = 0, be_initialized = False\<rparr>"

definition bitpacked_collect :: "bitpacked_estimator \<Rightarrow> u64 \<Rightarrow> bitpacked_estimator" where
  "bitpacked_collect e v =
     (let e' = (if \<not> be_initialized e then e\<lparr>be_min := v, be_max := v, be_initialized := True\<rparr>
                else e\<lparr>be_min := min (be_min e) v, be_max := max (be_max e) v\<rparr>)
      in e'\<lparr>be_count := be_count e' + 1\<rparr>)"

definition bitpacked_estimate :: "bitpacked_estimator \<Rightarrow> nat option" where
  "bitpacked_estimate e =
     (if be_count e = 0 then Some 0
      else Some (1 + 8 + 1 + div_ceil (be_count e * bits_needed_u64 (be_max e - be_min e)) 8))"

definition iter_min :: "u64 list \<Rightarrow> u64" where
  "iter_min vs = fold min (tl vs) (hd vs)"

definition iter_max :: "u64 list \<Rightarrow> u64" where
  "iter_max vs = fold max (tl vs) (hd vs)"

definition bitpacked_serialize :: "u64 list \<Rightarrow> serialized" where
  "bitpacked_serialize vs =
     (let (min_value, bpv) =
            (if vs = [] then (0, 0) else (iter_min vs, bits_needed_u64 (iter_max vs - iter_min vs)));
          header = [codec_code Bitpacked] @ u64_le min_value @ [word_of_nat bpv]
      in if bpv > 0 \<and> vs \<noteq> []
         then do { packed \<leftarrow> bitpack_write (map (\<lambda>v. v - min_value) vs) bpv [];
                   Some (Inr (header @ packed, 10 + length packed)) }
         else Some (Inr (header, 10)))"

definition bitpacked_read :: "bytes \<Rightarrow> nat \<Rightarrow> u64 option" where
  "bitpacked_read data index = do {
     min_value \<leftarrow> le_u64 data 0;
     bpv \<leftarrow> byte_at data 8;
     if bpv = 0 then Some min_value
     else do { packed \<leftarrow> slice_from data 9;
               Some (bitpack_read packed bpv index + min_value) } }"

section \<open>Linear codec\<close>

definition interpolate :: "u64 \<Rightarrow> u64 \<Rightarrow> nat \<Rightarrow> nat \<Rightarrow> u64" where
  "interpolate f l n i =
     (if n \<le> 1 then f
      else word_of_int (uint f + ((uint l - uint f) * int i) sdiv (int n - 1)))"

definition residual :: "u64 \<Rightarrow> u64 \<Rightarrow> int" where
  "residual val predicted = uint val - uint predicted"

record linear_estimator =
  lin_count :: nat
  lin_first :: u64
  lin_last :: u64
  lin_min_val :: u64
  lin_max_val :: u64
  lin_min_residual :: int
  lin_max_residual :: int
  lin_values_collected :: bool
  lin_overflow :: bool

definition linear_default :: linear_estimator where
  "linear_default = \<lparr>lin_count = 0, lin_first = 0, lin_last = 0, lin_min_val = 0, lin_max_val = 0,
     lin_min_residual = 0, lin_max_residual = 0, lin_values_collected = False, lin_overflow = False\<rparr>"

definition linear_collect :: "linear_estimator \<Rightarrow> u64 \<Rightarrow> linear_estimator" where
  "linear_collect e v =
     (let e' = (if \<not> lin_values_collected e
                then e\<lparr>lin_first := v, lin_min_val := v, lin_max_val := v, lin_values_collected := True\<rparr>
                else e\<lparr>lin_min_val := min (lin_min_val e) v, lin_max_val := max (lin_max_val e) v\<rparr>)
      in e'\<lparr>lin_last := v, lin_count := lin_count e' + 1\<rparr>)"

definition I64_MIN :: int where "I64_MIN = - (2 ^ 63)"
definition I64_MAX :: int where "I64_MAX = 2 ^ 63 - 1"

definition linear_finalize :: "linear_estimator \<Rightarrow> linear_estimator" where
  "linear_finalize e =
     (if lin_count e < 2 then e
      else let pred_min = uint (min (lin_first e) (lin_last e));
               pred_max = uint (max (lin_first e) (lin_last e));
               min_res = uint (lin_min_val e) - pred_max;
               max_res = uint (lin_max_val e) - pred_min
           in if min_res < I64_MIN \<or> max_res > I64_MAX then e\<lparr>lin_overflow := True\<rparr>
              else e\<lparr>lin_min_residual := min_res, lin_max_residual := max_res\<rparr>)"

definition linear_estimate :: "linear_estimator \<Rightarrow> nat option" where
  "linear_estimate e =
     (if lin_count e < 2 \<or> lin_overflow e then None
      else let bpv = bits_needed_u64 (word_of_int (lin_max_residual e - lin_min_residual e))
           in Some (1 + 8 + 8 + 4 + 8 + 1 + div_ceil (lin_count e * bpv) 8))"

definition residuals :: "u64 list \<Rightarrow> int list" where
  "residuals vs =
     map (\<lambda>(i, v). residual v (interpolate (vs ! 0) (vs ! (length vs - 1)) (length vs) i)) (enumerate 0 vs)"

definition list_min :: "int list \<Rightarrow> int" where
  "list_min xs = fold min (tl xs) (hd xs)"

definition list_max :: "int list \<Rightarrow> int" where
  "list_max xs = fold max (tl xs) (hd xs)"

definition linear_serialize :: "u64 list \<Rightarrow> serialized" where
  "linear_serialize vs =
     (let n = length vs
      in if n < 2 then Some (Inl (IoError InvalidInput ''linear needs >= 2 values''))
         else let min_residual = list_min (residuals vs)
              in if min_residual < I64_MIN \<or> min_residual > I64_MAX
                 then Some (Inl (IoError InvalidInput ''linear codec: residual offset exceeds i64 range''))
                 else let shifted = map (\<lambda>r. word_of_int (r - min_residual)) (residuals vs);
                          bpv = bits_needed_u64 (iter_max shifted);
                          header = [codec_code Linear] @ u64_le (vs ! 0) @ u64_le (vs ! (n - 1)) @
                            u32_le (word_of_nat n) @ u64_le (word_of_int min_residual) @ [word_of_nat bpv]
                      in if bpv > 0
                         then do { packed \<leftarrow> bitpack_write shifted bpv [];
                                   Some (Inr (header @ packed, 30 + length packed)) }
                         else Some (Inr (header, 30)))"

definition linear_read :: "bytes \<Rightarrow> nat \<Rightarrow> u64 option" where
  "linear_read data index = do {
     f \<leftarrow> le_u64 data 0;
     l \<leftarrow> le_u64 data 8;
     n \<leftarrow> le_u32 data 16;
     offset \<leftarrow> le_i64 data 20;
     bpv \<leftarrow> byte_at data 28;
     res \<leftarrow> (if bpv = 0 then Some 0 else do { packed \<leftarrow> slice_from data 29; Some (bitpack_read packed bpv index) });
     Some (word_of_int (uint (interpolate f l n index) + offset + uint res)) }"

section \<open>Block-wise linear codec\<close>

record block_estimate =
  min_residual :: int
  bits_per_value :: nat
  serialized_size :: nat

record blockwise_estimator =
  bw_count :: nat
  bw_completed_size :: nat
  bw_current_block :: "u64 list"
  bw_completed_blocks :: "block_estimate list"
  bw_tail_estimate :: "block_estimate option"
  bw_overflow :: bool

definition blockwise_default :: blockwise_estimator where
  "blockwise_default = \<lparr>bw_count = 0, bw_completed_size = 0, bw_current_block = [],
     bw_completed_blocks = [], bw_tail_estimate = None, bw_overflow = False\<rparr>"

definition estimate_blockwise_linear_block :: "u64 list \<Rightarrow> block_estimate option" where
  "estimate_blockwise_linear_block block =
     (if length block < 2 then Some \<lparr>min_residual = 0, bits_per_value = 0, serialized_size = 29\<rparr>
      else let min_res = list_min (residuals block); max_res = list_max (residuals block)
           in if min_res < I64_MIN \<or> max_res > I64_MAX then None
              else let bpv = bits_needed_u64 (word_of_int (max_res - min_res))
                   in Some \<lparr>min_residual = min_res, bits_per_value = bpv,
                            serialized_size = 29 + div_ceil (length block * bpv) 8\<rparr>)"

definition complete_block :: "blockwise_estimator \<Rightarrow> block_estimate \<Rightarrow> blockwise_estimator" where
  "complete_block e est =
     e\<lparr>bw_completed_size := bw_completed_size e + serialized_size est,
       bw_completed_blocks := bw_completed_blocks e @ [est]\<rparr>"

text \<open>\<open>Inl\<close> is the early return of \<open>collect_values\<close> when a block cannot be encoded.\<close>

fun collect_blocks :: "blockwise_estimator \<Rightarrow> u64 list list \<Rightarrow> blockwise_estimator + blockwise_estimator" where
  "collect_blocks e [] = Inr e"
| "collect_blocks e (block # blocks) =
     (case estimate_blockwise_linear_block block of
        Some est \<Rightarrow> collect_blocks (complete_block e est) blocks
      | None \<Rightarrow> Inl (e\<lparr>bw_overflow := True\<rparr>))"

definition chunks_exact :: "nat \<Rightarrow> 'a list \<Rightarrow> 'a list list" where
  "chunks_exact n xs = filter (\<lambda>c. length c = n) (chunks n xs)"

definition chunks_remainder :: "nat \<Rightarrow> 'a list \<Rightarrow> 'a list" where
  "chunks_remainder n xs = drop (length xs div n * n) xs"

definition blockwise_collect_values :: "blockwise_estimator \<Rightarrow> u64 list \<Rightarrow> blockwise_estimator" where
  "blockwise_collect_values e vs =
     (case collect_blocks (e\<lparr>bw_count := length vs\<rparr>) (chunks_exact BLOCKWISE_LINEAR_BLOCK_SIZE vs) of
        Inl e' \<Rightarrow> e'
      | Inr e' \<Rightarrow> e'\<lparr>bw_current_block := bw_current_block e' @ chunks_remainder BLOCKWISE_LINEAR_BLOCK_SIZE vs\<rparr>)"

definition blockwise_collect :: "blockwise_estimator \<Rightarrow> u64 \<Rightarrow> blockwise_estimator" where
  "blockwise_collect e v =
     (let e1 = e\<lparr>bw_count := bw_count e + 1, bw_tail_estimate := None\<rparr>
      in if bw_overflow e1 then e1
         else let e2 = e1\<lparr>bw_current_block := bw_current_block e1 @ [v]\<rparr>
              in if length (bw_current_block e2) = BLOCKWISE_LINEAR_BLOCK_SIZE
                 then let e3 = (case estimate_blockwise_linear_block (bw_current_block e2) of
                                  Some est \<Rightarrow> complete_block e2 est
                                | None \<Rightarrow> e2\<lparr>bw_overflow := True\<rparr>)
                      in e3\<lparr>bw_current_block := []\<rparr>
                 else e2)"

definition blockwise_finalize :: "blockwise_estimator \<Rightarrow> blockwise_estimator" where
  "blockwise_finalize e =
     (let e' = e\<lparr>bw_tail_estimate :=
            (if bw_current_block e = [] \<or> bw_overflow e then None
             else estimate_blockwise_linear_block (bw_current_block e))\<rparr>
      in if bw_current_block e' \<noteq> [] \<and> bw_tail_estimate e' = None then e'\<lparr>bw_overflow := True\<rparr> else e')"

definition blockwise_estimate :: "blockwise_estimator \<Rightarrow> nat option" where
  "blockwise_estimate e =
     (if bw_count e < 2 * BLOCKWISE_LINEAR_BLOCK_SIZE \<or> bw_overflow e then None
      else let total = 9 + bw_completed_size e
           in if bw_current_block e \<noteq> []
              then (case (case bw_tail_estimate e of
                            Some est \<Rightarrow> Some est
                          | None \<Rightarrow> estimate_blockwise_linear_block (bw_current_block e)) of
                      None \<Rightarrow> None
                    | Some est \<Rightarrow> Some (total + serialized_size est))
              else Some total)"

definition estimates_match :: "blockwise_estimator \<Rightarrow> nat \<Rightarrow> bool" where
  "estimates_match e n \<longleftrightarrow> bw_count e = n \<and>
     length (bw_completed_blocks e) = n div BLOCKWISE_LINEAR_BLOCK_SIZE \<and>
     (n mod BLOCKWISE_LINEAR_BLOCK_SIZE = 0 \<or> bw_tail_estimate e \<noteq> None)"

definition stored_estimate :: "blockwise_estimator \<Rightarrow> nat \<Rightarrow> nat \<Rightarrow> block_estimate option" where
  "stored_estimate e n b =
     (if estimates_match e n
      then if b < length (bw_completed_blocks e) then Some (bw_completed_blocks e ! b) else bw_tail_estimate e
      else None)"

definition block_residuals :: "u64 list \<Rightarrow> int \<Rightarrow> u64 list" where
  "block_residuals block min_res =
     map (\<lambda>(i, val). if length block < 2 then 0
            else word_of_int (residual val (interpolate (block ! 0) (block ! (length block - 1)) (length block) i) - min_res))
       (enumerate 0 block)"

definition serialize_block :: "block_estimate \<Rightarrow> u64 list \<Rightarrow> bytes option" where
  "serialize_block est block =
     (let f = block ! 0;
          l = (if length block > 1 then block ! (length block - 1) else f);
          shifted = block_residuals block (min_residual est)
      in do {
        packed \<leftarrow> (if bits_per_value est > 0 then bitpack_write shifted (bits_per_value est) [] else Some []);
        Some (u64_le f @ u64_le l @ u64_le (word_of_int (min_residual est)) @ [word_of_nat (bits_per_value est)] @
          u32_le (word_of_nat (length packed)) @ packed) })"

fun serialize_blocks ::
  "blockwise_estimator \<Rightarrow> u64 list \<Rightarrow> nat list \<Rightarrow> bytes \<times> nat \<Rightarrow> serialized" where
  "serialize_blocks e vs [] acc = Some (Inr acc)"
| "serialize_blocks e vs (b # bs) (out, written) =
     (let start = b * BLOCKWISE_LINEAR_BLOCK_SIZE;
          stop = min (start + BLOCKWISE_LINEAR_BLOCK_SIZE) (length vs);
          block = take (stop - start) (drop start vs);
          est = (case stored_estimate e (length vs) b of
                   Some s \<Rightarrow> Some s
                 | None \<Rightarrow> estimate_blockwise_linear_block block)
      in case est of
           None \<Rightarrow> Some (Inl (IoError InvalidInput
             ''blockwise linear codec: per-block residual offset exceeds i64 range''))
         | Some s \<Rightarrow> do {
             record_bytes \<leftarrow> serialize_block s block;
             serialize_blocks e vs bs (out @ record_bytes, written + length record_bytes) })"

definition blockwise_serialize :: "blockwise_estimator \<Rightarrow> u64 list \<Rightarrow> serialized" where
  "blockwise_serialize e vs =
     (let n = length vs; num_blocks = div_ceil n BLOCKWISE_LINEAR_BLOCK_SIZE
      in serialize_blocks e vs [0..<num_blocks]
           ([codec_code BlockwiseLinear] @ u32_le (word_of_nat n) @ u32_le (word_of_nat num_blocks), 9))"

fun blockwise_read_loop :: "bytes \<Rightarrow> nat \<Rightarrow> nat \<Rightarrow> nat list \<Rightarrow> nat \<Rightarrow> u64 option" where
  "blockwise_read_loop data num_values index [] pos = Some 0"
| "blockwise_read_loop data num_values index (b # bs) pos = do {
     f \<leftarrow> le_u64 data pos;
     l \<leftarrow> le_u64 data (pos + 8);
     offset \<leftarrow> le_i64 data (pos + 16);
     bpv \<leftarrow> byte_at data (pos + 24);
     packed_len \<leftarrow> le_u32 data (pos + 25);
     if b = index div BLOCKWISE_LINEAR_BLOCK_SIZE
     then do {
       let block_start = b * BLOCKWISE_LINEAR_BLOCK_SIZE;
       let block_end = min ((b + 1) * BLOCKWISE_LINEAR_BLOCK_SIZE) num_values;
       if block_end < block_start then None
       else do {
         let block_len = block_end - block_start;
         let index_in_block = index mod BLOCKWISE_LINEAR_BLOCK_SIZE;
         res \<leftarrow> (if bpv = 0 then Some 0
                else do { packed \<leftarrow> slice_from data (pos + 29); Some (bitpack_read packed bpv index_in_block) });
         Some (word_of_int (uint (interpolate f l block_len index_in_block) + offset + uint res)) } }
     else blockwise_read_loop data num_values index bs (pos + (29 + packed_len)) }"

definition blockwise_linear_read_from :: "bytes \<Rightarrow> nat \<Rightarrow> nat \<Rightarrow> nat \<Rightarrow> u64 option" where
  "blockwise_linear_read_from data index first_block pos = do {
     num_values \<leftarrow> le_u32 data 0;
     num_blocks \<leftarrow> le_u32 data 4;
     blockwise_read_loop data num_values index [first_block..<num_blocks] pos }"

definition blockwise_linear_read :: "bytes \<Rightarrow> nat \<Rightarrow> u64 option" where
  "blockwise_linear_read data index = blockwise_linear_read_from data index 0 8"

section \<open>Automatic choice\<close>

text \<open>\<open>min_by_key\<close> keeps the first of equally small candidates.\<close>

definition min_candidate :: "(codec_type \<times> nat) list \<Rightarrow> codec_type option" where
  "min_candidate cs =
     map_option fst (foldl (\<lambda>best (c, s).
       case best of None \<Rightarrow> Some (c, s) | Some (d, t) \<Rightarrow> if s < t then Some (c, s) else Some (d, t)) None cs)"

definition serialize_auto :: "u64 list \<Rightarrow> serialized" where
  "serialize_auto vs =
     (let constant = foldl constant_collect constant_default vs;
          bitpacked = foldl bitpacked_collect bitpacked_default vs;
          linear = linear_finalize (foldl linear_collect linear_default vs);
          blockwise = blockwise_finalize (blockwise_collect_values blockwise_default vs);
          candidates = List.map_filter (\<lambda>(c, s). map_option (\<lambda>x. (c, x)) s)
            [(Constant, constant_estimate constant), (Bitpacked, bitpacked_estimate bitpacked),
             (Linear, linear_estimate linear), (BlockwiseLinear, blockwise_estimate blockwise)]
      in case min_candidate candidates of
           Some Constant \<Rightarrow> constant_serialize vs
         | Some Linear \<Rightarrow> linear_serialize vs
         | Some BlockwiseLinear \<Rightarrow> blockwise_serialize blockwise vs
         | _ \<Rightarrow> bitpacked_serialize vs)"

definition auto_read :: "bytes \<Rightarrow> nat \<Rightarrow> u64 option" where
  "auto_read data index =
     (case data of
        [] \<Rightarrow> Some 0
      | codec_id # rest \<Rightarrow>
          (case codec_from_u8 codec_id of
             Some Constant \<Rightarrow> le_u64 rest 0
           | Some Bitpacked \<Rightarrow> bitpacked_read rest index
           | Some Linear \<Rightarrow> linear_read rest index
           | Some BlockwiseLinear \<Rightarrow> blockwise_linear_read rest index
           | None \<Rightarrow> Some 0))"

section \<open>Reading headers back\<close>

named_theorems slice_simps \<open>slices of a payload at the offsets the writers use\<close>

lemma le_u64_skip [slice_simps]: "length xs \<le> pos \<Longrightarrow> le_u64 (xs @ ys) pos = le_u64 ys (pos - length xs)"
  by (auto simp: le_u64_def)

lemma le_u64_Cons [slice_simps]: "0 < pos \<Longrightarrow> le_u64 (x # ys) pos = le_u64 ys (pos - 1)"
  by (cases pos) (auto simp: le_u64_def)

lemma le_u64_here [slice_simps]: "le_u64 (u64_le x @ ys) 0 = Some x"
  by (simp add: le_u64_def)

lemma le_u64_whole [slice_simps]: "le_u64 (u64_le x) 0 = Some x"
  using le_u64_here [of x "[]"] by simp

lemma le_u32_skip [slice_simps]: "length xs \<le> pos \<Longrightarrow> le_u32 (xs @ ys) pos = le_u32 ys (pos - length xs)"
  by (auto simp: le_u32_def)

lemma le_u32_Cons [slice_simps]: "0 < pos \<Longrightarrow> le_u32 (x # ys) pos = le_u32 ys (pos - 1)"
  by (cases pos) (auto simp: le_u32_def)

lemma le_u32_here [slice_simps]: "le_u32 (u32_le x @ ys) 0 = Some (unat x)"
  by (simp add: le_u32_def)

lemma le_i64_skip [slice_simps]: "length xs \<le> pos \<Longrightarrow> le_i64 (xs @ ys) pos = le_i64 ys (pos - length xs)"
  by (simp add: le_i64_def slice_simps)

lemma le_i64_here [slice_simps]: "le_i64 (u64_le x @ ys) 0 = Some (sint x)"
  by (simp add: le_i64_def slice_simps)

lemma byte_at_skip [slice_simps]: "length xs \<le> pos \<Longrightarrow> byte_at (xs @ ys) pos = byte_at ys (pos - length xs)"
  by (auto simp: byte_at_def nth_append)

lemma byte_at_Cons [slice_simps]: "byte_at (x # ys) pos = (if pos = 0 then Some (unat x) else byte_at ys (pos - 1))"
  by (cases pos) (auto simp: byte_at_def)

lemma slice_from_skip [slice_simps]: "length xs \<le> pos \<Longrightarrow> slice_from (xs @ ys) pos = slice_from ys (pos - length xs)"
  by (auto simp: slice_from_def)

lemma slice_from_Cons [slice_simps]: "0 < pos \<Longrightarrow> slice_from (x # ys) pos = slice_from ys (pos - 1)"
  by (cases pos) (auto simp: slice_from_def)

lemma slice_from_0 [slice_simps]: "slice_from ys 0 = Some ys"
  by (simp add: slice_from_def)

lemma u32_at_le: "pos + 4 \<le> length data \<Longrightarrow> le_u32 data pos = Some (u32_at data pos)"
  by (simp add: le_u32_def u32_at_def)

lemma unat_bpv: "w \<le> 64 \<Longrightarrow> unat (word_of_nat w :: u8) = w"
  by (simp add: unat_of_nat)

lemma word_bpv_0_iff: "w \<le> 64 \<Longrightarrow> (word_of_nat w :: u8) = 0 \<longleftrightarrow> w = 0"
  using unat_bpv [of w] by (simp only: word_unat_eq_iff unat_0)

lemma codec_round_trip [simp]: "codec_from_u8 (codec_code c) = Some c"
  by (cases c) (simp_all add: codec_from_u8_def)

lemma packed_len_ok:
  assumes "count < 2 ^ 32" "bpv \<le> 64"
  shows "packed_len count bpv = Inr (div_ceil (count * bpv) 8)"
    and "div_ceil (count * bpv) 8 \<le> 2 ^ 36"
proof -
  have "count * bpv \<le> 2 ^ 32 * 64" using assms by (intro mult_le_mono) auto
  then show "packed_len count bpv = Inr (div_ceil (count * bpv) 8)" "div_ceil (count * bpv) 8 \<le> 2 ^ 36"
    using assms by (auto simp: packed_len_def usize_fits_def div_ceil_def div_le_mono2)
qed

section \<open>Extremes\<close>

lemma extremes_eq:
  "vs \<noteq> [] \<Longrightarrow> iter_min vs = Min (set vs)" "vs \<noteq> [] \<Longrightarrow> iter_max vs = Max (set vs)"
  "xs \<noteq> [] \<Longrightarrow> list_min xs = Min (set xs)" "xs \<noteq> [] \<Longrightarrow> list_max xs = Max (set xs)"
  by (cases vs; cases xs; simp add: iter_min_def iter_max_def list_min_def list_max_def
      Min.set_eq_fold [symmetric] Max.set_eq_fold [symmetric] del: set_simps)+

lemma iter_min_le: "v \<in> set vs \<Longrightarrow> iter_min vs \<le> v"
  using extremes_eq(1) [of vs] by (cases "vs = []") auto

lemma iter_max_ge: "v \<in> set vs \<Longrightarrow> v \<le> iter_max vs"
  using extremes_eq(2) [of vs] by (cases "vs = []") auto

lemma list_min_le: "x \<in> set xs \<Longrightarrow> list_min xs \<le> x"
  using extremes_eq(3) [of xs] by (cases "xs = []") auto

lemma list_max_ge: "x \<in> set xs \<Longrightarrow> x \<le> list_max xs"
  using extremes_eq(4) [of xs] by (cases "xs = []") auto

lemma extremes_in:
  "vs \<noteq> [] \<Longrightarrow> iter_min vs \<in> set vs" "vs \<noteq> [] \<Longrightarrow> iter_max vs \<in> set vs"
  "xs \<noteq> [] \<Longrightarrow> list_min xs \<in> set xs" "xs \<noteq> [] \<Longrightarrow> list_max xs \<in> set xs"
  by (simp_all add: extremes_eq)

section \<open>The contract of a codec\<close>

text \<open>
  What \<open>CodecEstimator\<close> promises the automatic choice: when the estimator that has
  seen the values offers a size, serializing them succeeds within it, the payload
  passes validation, and every value is read back.
\<close>

locale column_codec =
  fixes size_of :: "u64 list \<Rightarrow> nat option"
    and encode :: "u64 list \<Rightarrow> serialized"
  assumes encode_ok: "size_of vs = Some n \<Longrightarrow> length vs < 2 ^ 32 \<Longrightarrow>
    \<exists>payload. encode vs = Some (Inr (payload, length payload)) \<and>
      (\<forall>i < length vs. auto_read payload i = Some (vs ! i)) \<and>
      validate_auto payload (length vs) = Inr () \<and> (vs \<noteq> [] \<longrightarrow> length payload \<le> n)"
begin

lemma decode_all:
  assumes "size_of vs = Some n" "length vs < 2 ^ 32"
  shows "\<exists>payload. encode vs = Some (Inr (payload, length payload)) \<and>
    map (auto_read payload) [0..<length vs] = map Some vs"
  using encode_ok [OF assms] by (auto intro!: nth_equalityI)

end

section \<open>Constant\<close>

definition constant_size :: "u64 list \<Rightarrow> nat option" where
  "constant_size vs = constant_estimate (foldl constant_collect constant_default vs)"

lemma constant_collect_all:
  assumes "ce_first e = Some f"
  shows "ce_first (foldl constant_collect e vs) = Some f"
    and "ce_all_same (foldl constant_collect e vs) \<longleftrightarrow> ce_all_same e \<and> (\<forall>v \<in> set vs. v = f)"
  using assms by (induction vs arbitrary: e) (auto simp: constant_collect_def)

lemma constant_size_Some: "constant_size vs = Some n \<longleftrightarrow> vs \<noteq> [] \<and> n = 9 \<and> (\<forall>v \<in> set vs. v = hd vs)"
proof (cases vs)
  case Nil
  then show ?thesis by (simp add: constant_size_def constant_estimate_def constant_default_def)
next
  case (Cons v rest)
  have "ce_first (constant_collect constant_default v) = Some v"
    by (simp add: constant_collect_def constant_default_def)
  moreover have "ce_all_same (constant_collect constant_default v)"
    by (simp add: constant_collect_def constant_default_def)
  ultimately show ?thesis using Cons constant_collect_all [of "constant_collect constant_default v" v rest]
    by (auto simp: constant_size_def constant_estimate_def)
qed

interpretation constant_codec: column_codec constant_size constant_serialize
proof
  fix vs n
  assume "constant_size vs = Some n" "length vs < 2 ^ 32"
  then have vs: "vs \<noteq> []" "n = 9" "\<forall>v \<in> set vs. v = hd vs" by (auto simp: constant_size_Some)
  define payload where "payload = [codec_code Constant] @ u64_le (vs ! 0)"
  have "auto_read payload i = Some (vs ! i)" if "i < length vs" for i
  proof -
    have "vs ! i = vs ! 0" using vs(1,3) that by (metis hd_conv_nth nth_mem)
    moreover have "auto_read payload i = Some (vs ! 0)"
      by (simp add: payload_def auto_read_def codec_from_u8_def slice_simps)
    ultimately show ?thesis by (simp only:)
  qed
  moreover have "constant_serialize vs = Some (Inr (payload, length payload))"
    using vs(1) by (simp add: constant_serialize_def payload_def)
  moreover have "validate_auto payload (length vs) = Inr ()"
    by (simp add: payload_def validate_auto_def codec_from_u8_def)
  ultimately show "\<exists>payload. constant_serialize vs = Some (Inr (payload, length payload)) \<and>
      (\<forall>i < length vs. auto_read payload i = Some (vs ! i)) \<and>
      validate_auto payload (length vs) = Inr () \<and> (vs \<noteq> [] \<longrightarrow> length payload \<le> n)"
    using vs(2) by (auto simp: payload_def)
qed

section \<open>Bit-packed\<close>

definition bitpacked_size :: "u64 list \<Rightarrow> nat option" where
  "bitpacked_size vs = bitpacked_estimate (foldl bitpacked_collect bitpacked_default vs)"

lemma bitpacked_collect_all:
  assumes "be_initialized e"
  shows "be_min (foldl bitpacked_collect e vs) = fold min vs (be_min e)"
    and "be_max (foldl bitpacked_collect e vs) = fold max vs (be_max e)"
    and "be_count (foldl bitpacked_collect e vs) = be_count e + length vs"
  using assms by (induction vs arbitrary: e) (auto simp: bitpacked_collect_def Let_def min.commute max.commute)

lemma bitpacked_size_eq:
  "bitpacked_size vs = Some (if vs = [] then 0
     else 10 + div_ceil (length vs * bits_needed_u64 (iter_max vs - iter_min vs)) 8)"
proof (cases vs)
  case Nil
  then show ?thesis by (simp add: bitpacked_size_def bitpacked_estimate_def bitpacked_default_def)
next
  case (Cons v rest)
  define e where "e = bitpacked_collect bitpacked_default v"
  have e: "be_initialized e" "be_min e = v" "be_max e = v" "be_count e = 1"
    by (simp_all add: e_def bitpacked_collect_def bitpacked_default_def)
  have "iter_min vs = fold min rest v" "iter_max vs = fold max rest v" using Cons by (simp_all add: iter_min_def iter_max_def)
  then show ?thesis using Cons bitpacked_collect_all [OF e(1), of rest] e
    by (simp add: bitpacked_size_def bitpacked_estimate_def e_def [symmetric])
qed

lemma bitpacked_payload:
  assumes "vs \<noteq> []" "length vs < 2 ^ 32"
  shows "\<exists>payload. bitpacked_serialize vs = Some (Inr (payload, length payload)) \<and>
    (\<forall>i < length vs. auto_read payload i = Some (vs ! i)) \<and>
    validate_auto payload (length vs) = Inr () \<and>
    length payload = 10 + div_ceil (length vs * bits_needed_u64 (iter_max vs - iter_min vs)) 8"
proof -
  define mn where "mn = iter_min vs"
  define bpv where "bpv = bits_needed_u64 (iter_max vs - mn)"
  define shifted where "shifted = map (\<lambda>v. v - mn) vs"
  define header where "header = u64_le mn @ [word_of_nat bpv :: u8]"
  have bpv: "bpv \<le> 64" by (simp add: bpv_def)
  have "unat (v - mn) < 2 ^ bpv" if "v \<in> set vs" for v
  proof -
    have le: "mn \<le> v" "v \<le> iter_max vs" using that by (auto simp: mn_def iter_min_le iter_max_ge)
    then have "unat (v - mn) \<le> unat (iter_max vs - mn)"
      using unat_sub [OF le(1)] unat_sub [OF order_trans [OF le]] by (simp add: word_le_nat_alt diff_le_mono)
    also have "\<dots> < 2 ^ bpv" unfolding bpv_def by (rule unat_less_bits_needed)
    finally show ?thesis .
  qed
  then have "\<forall>v \<in> set shifted. unat v < 2 ^ bpv" by (auto simp: shifted_def)
  from bitpack_round_trip_append [OF bpv this, of "[]"] obtain packed where
    packed: "bitpack_write shifted bpv [] = Some packed" "length packed = div_ceil (length vs * bpv) 8"
      "\<forall>rest. \<forall>i < length vs. bitpack_read (packed @ rest) bpv i = vs ! i - mn"
    by (auto simp: shifted_def)
  define payload where "payload = codec_code Bitpacked # header @ packed"
  have z: "packed = []" if "bpv = 0" using packed(1) that by (simp add: bitpack_write_def)
  have "bitpacked_serialize vs = Some (Inr (payload, length payload))"
    using assms(1) packed(1) z
    by (auto simp: bitpacked_serialize_def Let_def payload_def header_def bpv_def mn_def shifted_def)
  moreover have "auto_read payload i = Some (vs ! i)" if "i < length vs" for i
  proof (cases "bpv = 0")
    case True
    then have "vs ! i = mn" using packed(3) [rule_format, OF that, of "[]"] by (simp add: bitpack_read_def)
    then show ?thesis using True
      by (simp add: auto_read_def payload_def codec_from_u8_def bitpacked_read_def header_def slice_simps)
  next
    case False
    then show ?thesis using packed(3) [rule_format, OF that, of "[]"] bpv
      by (simp add: auto_read_def payload_def codec_from_u8_def bitpacked_read_def header_def slice_simps unat_bpv
          del: unat_of_nat)
  qed
  moreover have "validate_auto payload (length vs) = Inr ()"
    using packed(2) packed_len_ok [OF assms(2) bpv] unat_bpv [OF bpv]
    by (simp add: validate_auto_def payload_def codec_from_u8_def header_def nth_append usize_fits_def del: unat_of_nat)
  moreover have "length payload = 10 + div_ceil (length vs * bits_needed_u64 (iter_max vs - iter_min vs)) 8"
    using packed(2) by (simp add: payload_def header_def bpv_def mn_def)
  ultimately show ?thesis by blast
qed

lemma bitpacked_empty:
  "bitpacked_serialize [] = Some (Inr (codec_code Bitpacked # u64_le 0 @ [0], 10))"
  "validate_auto (codec_code Bitpacked # u64_le 0 @ [0]) 0 = Inr ()"
  using packed_len_ok [of 0 0]
  by (simp_all add: bitpacked_serialize_def validate_auto_def codec_from_u8_def nth_append usize_fits_def div_ceil_def)

interpretation bitpacked_codec: column_codec bitpacked_size bitpacked_serialize
proof
  fix vs n
  assume s: "bitpacked_size vs = Some n" "length vs < 2 ^ 32"
  show "\<exists>payload. bitpacked_serialize vs = Some (Inr (payload, length payload)) \<and>
      (\<forall>i < length vs. auto_read payload i = Some (vs ! i)) \<and>
      validate_auto payload (length vs) = Inr () \<and> (vs \<noteq> [] \<longrightarrow> length payload \<le> n)"
  proof (cases "vs = []")
    case True
    then show ?thesis using bitpacked_empty by simp
  next
    case False
    then show ?thesis using bitpacked_payload [OF False s(2)] s(1) by (auto simp: bitpacked_size_eq)
  qed
qed


section \<open>Linear\<close>

lemma sdiv_between:
  fixes a d i :: int
  assumes "0 < d" "0 \<le> i" "i \<le> d"
  shows "0 \<le> a \<Longrightarrow> 0 \<le> (a * i) sdiv d \<and> (a * i) sdiv d \<le> a"
    and "a \<le> 0 \<Longrightarrow> a \<le> (a * i) sdiv d \<and> (a * i) sdiv d \<le> 0"
proof -
  have q: "0 \<le> \<bar>a * i\<bar> div d" "\<bar>a * i\<bar> div d \<le> \<bar>a\<bar>"
  proof -
    show "0 \<le> \<bar>a * i\<bar> div d" using assms(1) by (simp add: pos_imp_zdiv_nonneg_iff)
    have "\<bar>a * i\<bar> \<le> \<bar>a\<bar> * d" using assms(2,3) by (simp add: abs_mult mult_left_mono)
    then have "\<bar>a * i\<bar> div d \<le> \<bar>a\<bar> * d div d" using assms(1) by (intro zdiv_mono1)
    then show "\<bar>a * i\<bar> div d \<le> \<bar>a\<bar>" using assms(1) by simp
  qed
  have s: "(a * i) sdiv d = sgn (a * i) * (\<bar>a * i\<bar> div d)"
    using assms(1) by (simp add: signed_divide_int_def)
  show "0 \<le> (a * i) sdiv d \<and> (a * i) sdiv d \<le> a" if "0 \<le> a"
    using q that assms(2) unfolding s by (cases "a * i = 0") (auto simp: sgn_mult)
  show "a \<le> (a * i) sdiv d \<and> (a * i) sdiv d \<le> 0" if "a \<le> 0"
    using q that assms(2) unfolding s by (cases "a * i = 0") (auto simp: sgn_mult)
qed

lemma uint_word_of_int_u64: "0 \<le> x \<Longrightarrow> x < 2 ^ 64 \<Longrightarrow> uint (word_of_int x :: u64) = x"
  by (simp add: take_bit_int_eq_self unsigned_of_int)

lemma uint_interpolate:
  assumes "2 \<le> n" "i < n"
  shows "uint (interpolate f l n i) = uint f + ((uint l - uint f) * int i) sdiv (int n - 1)"
    and "uint (min f l) \<le> uint (interpolate f l n i)" and "uint (interpolate f l n i) \<le> uint (max f l)"
proof -
  let ?x = "uint f + ((uint l - uint f) * int i) sdiv (int n - 1)"
  have b: "uint (min f l) \<le> ?x \<and> ?x \<le> uint (max f l)"
  proof (cases "uint f \<le> uint l")
    case True
    then have "min f l = f" "max f l = l" by (auto simp: word_le_def min_def max_def)
    then show ?thesis using sdiv_between(1) [of "int n - 1" "int i" "uint l - uint f"] assms True by auto
  next
    case False
    then have "min f l = l" "max f l = f" by (auto simp: word_le_def min_def max_def)
    then show ?thesis using sdiv_between(2) [of "int n - 1" "int i" "uint l - uint f"] assms False by auto
  qed
  have "0 \<le> uint (min f l)" "uint (max f l) < 2 ^ 64"
    using unsigned_less [of "max f l", where ?'a = int] by simp_all
  then have "0 \<le> ?x" "?x < 2 ^ 64" using b by linarith+
  then have u: "uint (word_of_int ?x :: u64) = ?x" by (rule uint_word_of_int_u64)
  show "uint (interpolate f l n i) = ?x" using u assms by (simp add: interpolate_def)
  then show "uint (min f l) \<le> uint (interpolate f l n i)" "uint (interpolate f l n i) \<le> uint (max f l)"
    using b by simp_all
qed

text \<open>The reader undoes the subtraction of prediction and offset modulo \<open>2 ^ 64\<close>.\<close>

lemma residual_back:
  "word_of_int (uint p + sint (word_of_int m :: u64) + uint (word_of_int (residual v p - m) :: u64)) = (v :: u64)"
  by (simp add: residual_def)

lemma length_residuals [simp]: "length (residuals vs) = length vs"
  by (simp add: residuals_def)

lemma nth_residuals:
  "i < length vs \<Longrightarrow>
   residuals vs ! i = residual (vs ! i) (interpolate (vs ! 0) (vs ! (length vs - 1)) (length vs) i)"
  by (simp add: residuals_def nth_enumerate_eq)

definition linear_size :: "u64 list \<Rightarrow> nat option" where
  "linear_size vs = linear_estimate (linear_finalize (foldl linear_collect linear_default vs))"

lemma linear_collect_all:
  assumes "lin_values_collected e"
  shows "lin_first (foldl linear_collect e vs) = lin_first e"
    and "lin_last (foldl linear_collect e vs) = (if vs = [] then lin_last e else last vs)"
    and "lin_min_val (foldl linear_collect e vs) = fold min vs (lin_min_val e)"
    and "lin_max_val (foldl linear_collect e vs) = fold max vs (lin_max_val e)"
    and "lin_count (foldl linear_collect e vs) = lin_count e + length vs"
    and "lin_overflow (foldl linear_collect e vs) = lin_overflow e"
  using assms by (induction vs arbitrary: e) (auto simp: linear_collect_def Let_def min.commute max.commute)

lemma linear_collected:
  assumes "vs \<noteq> []"
  defines "e \<equiv> foldl linear_collect linear_default vs"
  shows "lin_first e = vs ! 0" "lin_last e = vs ! (length vs - 1)"
    "lin_min_val e = iter_min vs" "lin_max_val e = iter_max vs" "lin_count e = length vs" "\<not> lin_overflow e"
proof -
  obtain v rest where vs: "vs = v # rest" using assms(1) by (cases vs) auto
  define e1 where "e1 = linear_collect linear_default v"
  have e1: "lin_values_collected e1" "lin_first e1 = v" "lin_last e1 = v" "lin_min_val e1 = v"
      "lin_max_val e1 = v" "lin_count e1 = 1" "\<not> lin_overflow e1"
    by (simp_all add: e1_def linear_collect_def linear_default_def)
  have "e = foldl linear_collect e1 rest" by (simp add: e_def vs e1_def)
  note c = linear_collect_all [OF e1(1), of rest, folded this]
  show "lin_first e = vs ! 0" "lin_min_val e = iter_min vs" "lin_max_val e = iter_max vs"
      "lin_count e = length vs" "\<not> lin_overflow e"
    using c e1 vs by (simp_all add: iter_min_def iter_max_def)
  show "lin_last e = vs ! (length vs - 1)"
    using c(2) e1(3) vs by (cases "rest = []") (auto simp: last_conv_nth nth_Cons')
qed

lemma linear_size_Some:
  assumes "linear_size vs = Some n"
  defines "pmin \<equiv> uint (min (vs ! 0) (vs ! (length vs - 1)))"
    and "pmax \<equiv> uint (max (vs ! 0) (vs ! (length vs - 1)))"
  shows "2 \<le> length vs" "I64_MIN \<le> uint (iter_min vs) - pmax" "uint (iter_max vs) - pmin \<le> I64_MAX"
    "n = 30 + div_ceil (length vs * bits_needed_u64
      (word_of_int ((uint (iter_max vs) - pmin) - (uint (iter_min vs) - pmax)))) 8"
proof -
  define e where "e = foldl linear_collect linear_default vs"
  have len: "2 \<le> length vs"
  proof (cases "vs = []")
    case True
    then show ?thesis using assms(1)
      by (simp add: linear_size_def linear_finalize_def linear_estimate_def linear_default_def)
  next
    case False
    then show ?thesis using assms(1) linear_collected(5) [OF False]
      by (auto simp: linear_size_def linear_finalize_def linear_estimate_def Let_def split: if_splits)
  qed
  then have "vs \<noteq> []" by auto
  note c = linear_collected [OF this, folded e_def]
  have "linear_estimate (linear_finalize e) = Some n" using assms(1) by (simp add: linear_size_def e_def)
  then show "2 \<le> length vs" "I64_MIN \<le> uint (iter_min vs) - pmax" "uint (iter_max vs) - pmin \<le> I64_MAX"
    "n = 30 + div_ceil (length vs * bits_needed_u64
      (word_of_int ((uint (iter_max vs) - pmin) - (uint (iter_min vs) - pmax)))) 8"
    using len c unfolding linear_finalize_def linear_estimate_def Let_def pmin_def pmax_def
    by (auto split: if_splits)
qed

lemma residual_bounds:
  assumes "2 \<le> length vs" "r \<in> set (residuals vs)"
  shows "uint (iter_min vs) - uint (max (vs ! 0) (vs ! (length vs - 1))) \<le> r"
    and "r \<le> uint (iter_max vs) - uint (min (vs ! 0) (vs ! (length vs - 1)))"
proof -
  obtain i where i: "i < length vs" "r = residual (vs ! i) (interpolate (vs ! 0) (vs ! (length vs - 1)) (length vs) i)"
    using assms(2) by (auto simp: in_set_conv_nth nth_residuals)
  have "iter_min vs \<le> vs ! i" "vs ! i \<le> iter_max vs" using i(1) by (auto intro: iter_min_le iter_max_ge)
  then have "uint (iter_min vs) \<le> uint (vs ! i)" "uint (vs ! i) \<le> uint (iter_max vs)" by (simp_all add: word_le_def)
  then show "uint (iter_min vs) - uint (max (vs ! 0) (vs ! (length vs - 1))) \<le> r"
      "r \<le> uint (iter_max vs) - uint (min (vs ! 0) (vs ! (length vs - 1)))"
    using uint_interpolate(2,3) [OF assms(1) i(1), of "vs ! 0" "vs ! (length vs - 1)"]
    unfolding i(2) residual_def by linarith+
qed

text \<open>Residuals shifted by their minimum need at most the bits of any range that covers them.\<close>

lemma shifted_fits:
  assumes "r - m \<le> span" "0 \<le> r - m" "span < 2 ^ 64"
  shows "(word_of_int (r - m) :: u64) \<le> word_of_int span"
    and "unat (word_of_int (r - m) :: u64) < 2 ^ bits_needed_u64 (word_of_int span)"
proof -
  have "uint (word_of_int (r - m) :: u64) = r - m" "uint (word_of_int span :: u64) = span"
    using assms by (intro uint_word_of_int_u64; linarith)+
  then show le: "(word_of_int (r - m) :: u64) \<le> word_of_int span" using assms(1) by (simp add: word_le_def)
  then show "unat (word_of_int (r - m) :: u64) < 2 ^ bits_needed_u64 (word_of_int span)"
    using bits_needed_le_iff bits_needed_mono by blast
qed

lemma linear_payload:
  assumes len: "2 \<le> length vs" "length vs < 2 ^ 32"
    and lo: "I64_MIN \<le> list_min (residuals vs)" "list_min (residuals vs) \<le> I64_MAX"
  shows "\<exists>payload bpv. linear_serialize vs = Some (Inr (payload, length payload)) \<and>
    (\<forall>i < length vs. auto_read payload i = Some (vs ! i)) \<and> validate_auto payload (length vs) = Inr () \<and>
    length payload = 30 + div_ceil (length vs * bpv) 8 \<and>
    bpv = bits_needed_u64 (iter_max (map (\<lambda>r. word_of_int (r - list_min (residuals vs))) (residuals vs)))"
proof -
  define m where "m = list_min (residuals vs)"
  define shifted where "shifted = map (\<lambda>r. word_of_int (r - m) :: u64) (residuals vs)"
  define bpv where "bpv = bits_needed_u64 (iter_max shifted)"
  define header where "header = u64_le (vs ! 0) @ u64_le (vs ! (length vs - 1)) @
    u32_le (word_of_nat (length vs)) @ u64_le (word_of_int m) @ [word_of_nat bpv :: u8]"
  have bpv: "bpv \<le> 64" by (simp add: bpv_def)
  have "\<forall>v \<in> set shifted. unat v < 2 ^ bpv"
    using bits_needed_mono [OF iter_max_ge] bits_needed_le_iff unfolding bpv_def by blast
  from bitpack_round_trip_append [OF bpv this, of "[]"] obtain packed where
    packed: "bitpack_write shifted bpv [] = Some packed" "length packed = div_ceil (length vs * bpv) 8"
      "\<forall>rest. \<forall>i < length vs. bitpack_read (packed @ rest) bpv i = shifted ! i"
    by (auto simp: shifted_def)
  define payload where "payload = codec_code Linear # header @ packed"
  have z: "packed = []" if "bpv = 0" using packed(1) that by (simp add: bitpack_write_def)
  have n: "unat (word_of_nat (length vs) :: u32) = length vs" using len by (simp add: unat_of_nat)
  have "linear_serialize vs = Some (Inr (payload, length payload))"
    using len lo packed(1) z
    by (auto simp: linear_serialize_def Let_def payload_def header_def bpv_def m_def shifted_def)
  moreover have "auto_read payload i = Some (vs ! i)" if "i < length vs" for i
  proof -
    let ?p = "interpolate (vs ! 0) (vs ! (length vs - 1)) (length vs) i"
    have r: "bitpack_read packed bpv i = word_of_int (residual (vs ! i) ?p - m)"
      using packed(3) [rule_format, OF that, of "[]"] that by (simp add: shifted_def nth_residuals)
    then have "auto_read payload i = Some (word_of_int (uint ?p + sint (word_of_int m :: u64) +
        uint (word_of_int (residual (vs ! i) ?p - m) :: u64)))"
      using bpv n by (cases "bpv = 0")
        (simp_all add: auto_read_def payload_def codec_from_u8_def linear_read_def header_def slice_simps unat_bpv
          bitpack_read_def del: unat_of_nat of_int_diff)
    then show ?thesis by (simp only: residual_back)
  qed
  moreover have "validate_auto payload (length vs) = Inr ()"
  proof -
    have "u32_at (header @ packed) 16 = length vs"
      using n by (simp add: u32_at_def header_def del: unat_of_nat)
    moreover have "(header @ packed) ! 28 = word_of_nat bpv" by (simp add: header_def nth_append)
    moreover have "length (header @ packed) = 29 + div_ceil (length vs * bpv) 8"
      using packed(2) by (simp add: header_def)
    ultimately show ?thesis
      using packed_len_ok [OF len(2) bpv] unat_bpv [OF bpv] len(1)
      by (simp add: validate_auto_def payload_def codec_from_u8_def usize_fits_def Let_def del: unat_of_nat)
  qed
  moreover have "length payload = 30 + div_ceil (length vs * bpv) 8"
    using packed(2) by (simp add: payload_def header_def)
  ultimately show ?thesis unfolding bpv_def shifted_def m_def by blast
qed

lemma div_ceil_mono: "a \<le> b \<Longrightarrow> div_ceil a d \<le> div_ceil b d"
  unfolding div_ceil_def by (intro div_le_mono) simp

interpretation linear_codec: column_codec linear_size linear_serialize
proof
  fix vs n
  assume s: "linear_size vs = Some n" "length vs < 2 ^ 32"
  let ?lo = "uint (iter_min vs) - uint (max (vs ! 0) (vs ! (length vs - 1)))"
  let ?hi = "uint (iter_max vs) - uint (min (vs ! 0) (vs ! (length vs - 1)))"
  let ?m = "list_min (residuals vs)"
  note e = linear_size_Some [OF s(1)]
  have ne: "residuals vs \<noteq> []" using e(1) by (metis length_0_conv length_residuals not_numeral_le_zero)
  have bounds: "?lo \<le> r \<and> r \<le> ?hi" if "r \<in> set (residuals vs)" for r
    using residual_bounds [OF e(1) that] by simp
  have "I64_MIN \<le> ?m" "?m \<le> I64_MAX"
    using bounds [OF extremes_in(3) [OF ne]] e(2,3) by linarith+
  from linear_payload [OF e(1) s(2) this] obtain payload bpv where
    p: "linear_serialize vs = Some (Inr (payload, length payload))"
      "\<forall>i < length vs. auto_read payload i = Some (vs ! i)" "validate_auto payload (length vs) = Inr ()"
      "length payload = 30 + div_ceil (length vs * bpv) 8"
      "bpv = bits_needed_u64 (iter_max (map (\<lambda>r. word_of_int (r - ?m)) (residuals vs)))"
    by blast
  have "bpv \<le> bits_needed_u64 (word_of_int (?hi - ?lo))"
  proof -
    have "map (\<lambda>r. word_of_int (r - ?m) :: u64) (residuals vs) \<noteq> []" using ne by simp
    from extremes_in(2) [OF this] obtain r where
      r: "r \<in> set (residuals vs)" "iter_max (map (\<lambda>r. word_of_int (r - ?m) :: u64) (residuals vs)) = word_of_int (r - ?m)"
      by auto
    have "r - ?m \<le> ?hi - ?lo" "0 \<le> r - ?m"
      using bounds [OF r(1)] bounds [OF extremes_in(3) [OF ne]] list_min_le [OF r(1)] by linarith+
    moreover have "?hi - ?lo < 2 ^ 64" using e(2,3) by (simp add: I64_MIN_def I64_MAX_def)
    ultimately show ?thesis unfolding p(5) r(2) by (intro bits_needed_mono shifted_fits(1))
  qed
  then have "length payload \<le> n" unfolding e(4) p(4) by (intro add_left_mono div_ceil_mono mult_le_mono2)
  then show "\<exists>payload. linear_serialize vs = Some (Inr (payload, length payload)) \<and>
      (\<forall>i < length vs. auto_read payload i = Some (vs ! i)) \<and>
      validate_auto payload (length vs) = Inr () \<and> (vs \<noteq> [] \<longrightarrow> length payload \<le> n)"
    using p by blast
qed


section \<open>Block-wise linear\<close>

subsection \<open>One block record\<close>

definition block_record :: "u64 list \<Rightarrow> bytes \<Rightarrow> bool" where
  "block_record block rec \<longleftrightarrow> (\<exists>f l m bpv packed.
     rec = u64_le f @ u64_le l @ u64_le m @ [word_of_nat bpv] @ u32_le (word_of_nat (length packed)) @ packed \<and>
     bpv \<le> 64 \<and> length packed = div_ceil (length block * bpv) 8 \<and> length packed < 2 ^ 32 \<and>
     (\<forall>i < length block. \<forall>rest. word_of_int
       (uint (interpolate f l (length block) i) + sint m + uint (bitpack_read (packed @ rest) bpv i)) = block ! i))"

lemma block_residuals_nth:
  assumes "i < length block" "2 \<le> length block"
  shows "block_residuals block m ! i = word_of_int (residuals block ! i - m)"
  using assms by (simp add: block_residuals_def nth_enumerate_eq nth_residuals)

lemma estimate_block_cases:
  assumes "estimate_blockwise_linear_block block = Some s"
  shows "length block < 2 \<and> s = \<lparr>min_residual = 0, bits_per_value = 0, serialized_size = 29\<rparr> \<or>
    2 \<le> length block \<and> I64_MIN \<le> list_min (residuals block) \<and> list_max (residuals block) \<le> I64_MAX \<and>
    s = (let bpv = bits_needed_u64 (word_of_int (list_max (residuals block) - list_min (residuals block)))
         in \<lparr>min_residual = list_min (residuals block), bits_per_value = bpv,
             serialized_size = 29 + div_ceil (length block * bpv) 8\<rparr>)"
  using assms by (auto simp: estimate_blockwise_linear_block_def Let_def split: if_splits)

lemma small_packed:
  assumes "n \<le> 512" "bpv \<le> 64"
  shows "div_ceil (n * bpv) 8 \<le> 4096"
proof -
  have "n * bpv \<le> 512 * 64" using assms by (intro mult_le_mono)
  then have "div_ceil (n * bpv) 8 \<le> div_ceil (512 * 64) 8" by (rule div_ceil_mono)
  then show ?thesis by (simp add: div_ceil_def)
qed

lemma shifted_residuals_fit:
  assumes "2 \<le> length block" "I64_MIN \<le> list_min (residuals block)" "list_max (residuals block) \<le> I64_MAX"
    "v \<in> set (block_residuals block (list_min (residuals block)))"
  shows "unat v < 2 ^ bits_needed_u64 (word_of_int (list_max (residuals block) - list_min (residuals block)))"
proof -
  obtain i where i: "i < length block" "v = block_residuals block (list_min (residuals block)) ! i"
    using assms(4) by (auto simp: in_set_conv_nth block_residuals_def)
  have r: "residuals block ! i \<in> set (residuals block)" using i(1) by simp
  then have "residuals block ! i - list_min (residuals block) \<le> list_max (residuals block) - list_min (residuals block)"
    "0 \<le> residuals block ! i - list_min (residuals block)"
    using list_min_le list_max_ge by auto
  moreover have "list_max (residuals block) - list_min (residuals block) < 2 ^ 64"
    using assms(2,3) by (simp add: I64_MIN_def I64_MAX_def)
  ultimately show ?thesis
    unfolding i(2) block_residuals_nth [OF i(1) assms(1)] by (rule shifted_fits(2))
qed

lemma serialize_block_record:
  assumes est: "estimate_blockwise_linear_block block = Some s"
    and block: "block \<noteq> []" "length block \<le> BLOCKWISE_LINEAR_BLOCK_SIZE"
  shows "\<exists>rec. serialize_block s block = Some rec \<and> block_record block rec \<and> length rec = serialized_size s"
proof (cases "length block < 2")
  case True
  then have s: "s = \<lparr>min_residual = 0, bits_per_value = 0, serialized_size = 29\<rparr>"
    using estimate_block_cases [OF est] by auto
  obtain x where x: "block = [x]" using True block(1) by (cases block) auto
  let ?rec = "u64_le x @ u64_le x @ u64_le 0 @ [word_of_nat 0] @ u32_le (word_of_nat (length ([] :: bytes))) @ []"
  have "block_record block ?rec"
    unfolding block_record_def
    by (intro exI [of _ x] exI [of _ 0] exI [of _ "[]"])
      (simp add: x interpolate_def bitpack_read_def div_ceil_def)
  then show ?thesis using s x by (intro exI [of _ ?rec]) (simp add: serialize_block_def)
next
  case False
  define m where "m = list_min (residuals block)"
  define bpv where "bpv = bits_needed_u64 (word_of_int (list_max (residuals block) - m))"
  have s: "s = \<lparr>min_residual = m, bits_per_value = bpv, serialized_size = 29 + div_ceil (length block * bpv) 8\<rparr>"
    and ok: "I64_MIN \<le> m" "list_max (residuals block) \<le> I64_MAX"
    using estimate_block_cases [OF est] False by (auto simp: m_def bpv_def Let_def)
  have bpv: "bpv \<le> 64" by (simp add: bpv_def)
  have "\<forall>v \<in> set (block_residuals block m). unat v < 2 ^ bpv"
    using shifted_residuals_fit [of block] False ok unfolding m_def bpv_def by simp
  from bitpack_round_trip_append [OF bpv this, of "[]"] obtain packed where
    packed: "bitpack_write (block_residuals block m) bpv [] = Some packed" "length packed = div_ceil (length block * bpv) 8"
      "\<forall>rest. \<forall>i < length block. bitpack_read (packed @ rest) bpv i = block_residuals block m ! i"
    by (auto simp: block_residuals_def)
  have z: "packed = []" if "bpv = 0" using packed(1) that by (simp add: bitpack_write_def)
  define f where "f = block ! 0"
  define l where "l = block ! (length block - 1)"
  let ?rec = "u64_le f @ u64_le l @ u64_le (word_of_int m) @ [word_of_nat bpv] @ u32_le (word_of_nat (length packed)) @ packed"
  have reread: "word_of_int (uint (interpolate f l (length block) i) + sint (word_of_int m :: u64) +
      uint (bitpack_read (packed @ rest) bpv i)) = block ! i" if "i < length block" for i rest
  proof -
    have "bitpack_read (packed @ rest) bpv i = word_of_int (residual (block ! i) (interpolate f l (length block) i) - m)"
      using packed(3) that block_residuals_nth [OF that] False by (simp add: nth_residuals f_def l_def)
    then show ?thesis by (simp only: residual_back)
  qed
  have "length packed \<le> 4096"
    unfolding packed(2) using block(2) bpv by (intro small_packed) (auto simp: BLOCKWISE_LINEAR_BLOCK_SIZE_def)
  then have "block_record block ?rec"
    unfolding block_record_def using bpv packed(2) reread
    by (intro exI [of _ f] exI [of _ l] exI [of _ "word_of_int m"] exI [of _ bpv] exI [of _ packed] conjI refl allI impI)
      (simp_all only: less_le_trans, simp)
  moreover have "serialize_block s block = Some ?rec"
    using packed(1) z False s by (cases "bpv = 0") (auto simp: serialize_block_def Let_def f_def l_def)
  moreover have "length ?rec = serialized_size s" using packed(2) s by simp
  ultimately show ?thesis by blast
qed

subsection \<open>Walking the records\<close>

lemma block_record_length: "block_record block rec \<Longrightarrow> 29 \<le> length rec"
  by (auto simp: block_record_def)

lemma read_loop_skip:
  assumes "block_record block rec" "b \<noteq> index div BLOCKWISE_LINEAR_BLOCK_SIZE"
  shows "blockwise_read_loop (pre @ rec @ post) nv index (b # bs) (length pre) =
    blockwise_read_loop (pre @ rec @ post) nv index bs (length pre + length rec)"
  using assms by (auto simp: block_record_def slice_simps unat_of_nat)

lemma read_loop_hit:
  assumes "block_record block rec" "b = index div BLOCKWISE_LINEAR_BLOCK_SIZE"
    "min ((b + 1) * BLOCKWISE_LINEAR_BLOCK_SIZE) nv - b * BLOCKWISE_LINEAR_BLOCK_SIZE = length block"
    "index mod BLOCKWISE_LINEAR_BLOCK_SIZE < length block"
  shows "blockwise_read_loop (pre @ rec @ post) nv index (b # bs) (length pre) =
    Some (block ! (index mod BLOCKWISE_LINEAR_BLOCK_SIZE))"
proof -
  define i where "i = index mod BLOCKWISE_LINEAR_BLOCK_SIZE"
  obtain f l m bpv packed where r:
    "rec = u64_le f @ u64_le l @ u64_le m @ [word_of_nat bpv] @ u32_le (word_of_nat (length packed)) @ packed"
    "bpv \<le> 64"
    "word_of_int (uint (interpolate f l (length block) i) + sint m + uint (bitpack_read (packed @ post) bpv i)) = block ! i"
    using assms(1,4) unfolding block_record_def i_def by blast
  have ge: "\<not> min ((b + 1) * BLOCKWISE_LINEAR_BLOCK_SIZE) nv < b * BLOCKWISE_LINEAR_BLOCK_SIZE" using assms(3,4) by linarith
  have "blockwise_read_loop (pre @ rec @ post) nv index (b # bs) (length pre) =
      Some (word_of_int (uint (interpolate f l (length block) i) + sint m + uint (bitpack_read (packed @ post) bpv i)))"
    using assms(2,3) r(2) ge unfolding r(1) i_def
    by (cases "bpv = 0") (simp_all add: slice_simps unat_bpv bitpack_read_def Let_def del: unat_of_nat)
  also have "\<dots> = Some (block ! i)" by (simp only: r(3))
  finally show ?thesis unfolding i_def .
qed

lemma validate_block_step:
  assumes "block_record block rec" "min (count - b * BLOCKWISE_LINEAR_BLOCK_SIZE) BLOCKWISE_LINEAR_BLOCK_SIZE = length block"
    "length block \<le> BLOCKWISE_LINEAR_BLOCK_SIZE" "length (pre @ rec @ post) < 2 ^ 64"
  shows "validate_blocks (pre @ rec @ post) count (b # bs) (length pre) =
    validate_blocks (pre @ rec @ post) count bs (length pre + length rec)"
proof -
  obtain f l m bpv packed where r:
    "rec = u64_le f @ u64_le l @ u64_le m @ [word_of_nat bpv] @ u32_le (word_of_nat (length packed)) @ packed"
    "bpv \<le> 64" "length packed = div_ceil (length block * bpv) 8" "length packed < 2 ^ 32"
    using assms(1) unfolding block_record_def by blast
  have nth24: "(pre @ rec @ post) ! (length pre + 24) = word_of_nat bpv" by (simp add: r(1) nth_append)
  have at25: "u32_at (pre @ rec @ post) (length pre + 25) = length packed"
    using r(4) by (simp add: r(1) u32_at_def unat_of_nat)
  have "packed_len (length block) bpv = Inr (length packed)"
    using packed_len_ok(1) [of "length block" bpv] assms(3) r(2,3) by (simp add: BLOCKWISE_LINEAR_BLOCK_SIZE_def)
  moreover have "length rec = 29 + length packed" by (simp add: r(1))
  moreover have "\<not> length pre + 29 > length (pre @ rec @ post)" using \<open>length rec = _\<close> by simp
  ultimately show ?thesis
    using assms(2,4) nth24 at25 unat_bpv [OF r(2)]
    by (simp add: Let_def usize_fits_def add.assoc del: unat_of_nat)
qed

lemma upt_length_Cons: "[k..<k + length (x # xs)] = k # [Suc k..<Suc k + length xs]"
  by (subst upt_conv_Cons) simp_all

lemma read_blocks:
  assumes "list_all2 block_record blocks recs"
    and "k \<le> index div BLOCKWISE_LINEAR_BLOCK_SIZE" "index div BLOCKWISE_LINEAR_BLOCK_SIZE < k + length blocks"
    and "block = blocks ! (index div BLOCKWISE_LINEAR_BLOCK_SIZE - k)"
    and "min ((index div BLOCKWISE_LINEAR_BLOCK_SIZE + 1) * BLOCKWISE_LINEAR_BLOCK_SIZE) nv -
      index div BLOCKWISE_LINEAR_BLOCK_SIZE * BLOCKWISE_LINEAR_BLOCK_SIZE = length block"
    and "index mod BLOCKWISE_LINEAR_BLOCK_SIZE < length block"
  shows "blockwise_read_loop (pre @ concat recs) nv index [k..<k + length blocks] (length pre) =
    Some (block ! (index mod BLOCKWISE_LINEAR_BLOCK_SIZE))"
  using assms
proof (induction blocks recs arbitrary: pre k rule: list_all2_induct)
  case (Cons bl blocks rec recs)
  have upt: "[k..<k + length (bl # blocks)] = k # [Suc k..<Suc k + length blocks]" by (rule upt_length_Cons)
  show ?case
  proof (cases "k = index div BLOCKWISE_LINEAR_BLOCK_SIZE")
    case True
    then have "block = bl" using Cons.prems(3) by simp
    then show ?thesis
      using read_loop_hit [OF Cons.hyps(1) True, of nv pre "concat recs"] Cons.prems(4,5) True
      unfolding upt by simp
  next
    case False
    then have k: "Suc k \<le> index div BLOCKWISE_LINEAR_BLOCK_SIZE"
        "block = blocks ! (index div BLOCKWISE_LINEAR_BLOCK_SIZE - Suc k)"
      using Cons.prems(1,3) by (auto simp: nth_Cons')
    have "blockwise_read_loop (pre @ concat (rec # recs)) nv index (k # [Suc k..<Suc k + length blocks]) (length pre) =
        blockwise_read_loop ((pre @ rec) @ concat recs) nv index [Suc k..<Suc k + length blocks] (length (pre @ rec))"
      using read_loop_skip [OF Cons.hyps(1) False, of pre "concat recs"] by simp
    also have "\<dots> = Some (block ! (index mod BLOCKWISE_LINEAR_BLOCK_SIZE))"
      using Cons.prems k by (intro Cons.IH) auto
    finally show ?thesis unfolding upt .
  qed
qed simp

lemma validate_records:
  assumes "list_all2 block_record blocks recs"
    and "\<forall>j < length blocks. length (blocks ! j) \<le> BLOCKWISE_LINEAR_BLOCK_SIZE \<and>
      min (count - (k + j) * BLOCKWISE_LINEAR_BLOCK_SIZE) BLOCKWISE_LINEAR_BLOCK_SIZE = length (blocks ! j)"
    and "length (pre @ concat recs) < 2 ^ 64"
  shows "validate_blocks (pre @ concat recs) count [k..<k + length blocks] (length pre) =
    Inr (length (pre @ concat recs))"
  using assms
proof (induction blocks recs arbitrary: pre k rule: list_all2_induct)
  case (Cons bl blocks rec recs)
  have upt: "[k..<k + length (bl # blocks)] = k # [Suc k..<Suc k + length blocks]" by (rule upt_length_Cons)
  have b: "length bl \<le> BLOCKWISE_LINEAR_BLOCK_SIZE"
      "min (count - k * BLOCKWISE_LINEAR_BLOCK_SIZE) BLOCKWISE_LINEAR_BLOCK_SIZE = length bl"
    using Cons.prems(1) [rule_format, of 0] by auto
  have "\<forall>j < length blocks. length (blocks ! j) \<le> BLOCKWISE_LINEAR_BLOCK_SIZE \<and>
      min (count - (Suc k + j) * BLOCKWISE_LINEAR_BLOCK_SIZE) BLOCKWISE_LINEAR_BLOCK_SIZE = length (blocks ! j)"
  proof (intro allI impI)
    fix j assume "j < length blocks"
    then show "length (blocks ! j) \<le> BLOCKWISE_LINEAR_BLOCK_SIZE \<and>
      min (count - (Suc k + j) * BLOCKWISE_LINEAR_BLOCK_SIZE) BLOCKWISE_LINEAR_BLOCK_SIZE = length (blocks ! j)"
      using Cons.prems(1) [rule_format, of "Suc j"] by simp
  qed
  then have "validate_blocks ((pre @ rec) @ concat recs) count [Suc k..<Suc k + length blocks] (length (pre @ rec)) =
      Inr (length ((pre @ rec) @ concat recs))"
    using Cons.prems(2) by (intro Cons.IH) auto
  then show ?case
    using validate_block_step [OF Cons.hyps(1) b(2,1), of pre "concat recs"] Cons.prems(2) unfolding upt by simp
qed simp

subsection \<open>Splitting a column into blocks\<close>

lemma length_chunks: "0 < n \<Longrightarrow> length (chunks n xs) = div_ceil (length xs) n"
proof (induction n xs rule: chunks.induct)
  case (1 n xs)
  show ?case
  proof (cases "xs = []")
    case False
    have "div_ceil (length xs) n = 1 + div_ceil (length xs - n) n"
    proof (cases "n \<le> length xs")
      case True
      then have "length xs + n - 1 = (length xs - n + n - 1) + n" using "1.prems" by simp
      then show ?thesis using "1.prems" unfolding div_ceil_def by (simp only: div_add_self2)
    next
      case False
      obtain m where "length xs = Suc m" using \<open>xs \<noteq> []\<close> by (cases xs) auto
      then have "(length xs + n - 1) div n = 1"
        using False "1.prems" by (intro div_nat_eqI) auto
      moreover have "div_ceil (length xs - n) n = 0" using False "1.prems" by (simp add: div_ceil_def)
      ultimately show ?thesis by (simp add: div_ceil_def)
    qed
    moreover have "length (chunks n (drop n xs)) = div_ceil (length xs - n) n"
      using "1.IH" False "1.prems" by simp
    ultimately show ?thesis using False "1.prems" by (simp add: chunks_step)
  qed (use "1.prems" in \<open>simp add: div_ceil_def\<close>)
qed

lemma nth_chunks: "0 < n \<Longrightarrow> i < length (chunks n xs) \<Longrightarrow> chunks n xs ! i = take n (drop (i * n) xs)"
proof (induction n xs arbitrary: i rule: chunks.induct)
  case (1 n xs)
  then have "xs \<noteq> []" by auto
  then show ?case using "1.prems" "1.IH" by (cases i) (auto simp: chunks_step add.commute)
qed

lemma chunks_index:
  assumes "0 < n" "i < length xs"
  shows "i div n < length (chunks n xs)" "i mod n < length (chunks n xs ! (i div n))"
    "chunks n xs ! (i div n) ! (i mod n) = xs ! i"
    "length (chunks n xs ! (i div n)) = min ((i div n + 1) * n) (length xs) - i div n * n"
proof -
  show c: "i div n < length (chunks n xs)" using assms by (simp add: length_chunks div_less_div_ceil)
  note e = nth_chunks [OF assms(1) c]
  have i: "i div n * n + i mod n = i" "i mod n < n" using assms(1) by simp_all
  then have "i mod n < length xs - i div n * n" using assms(2) by linarith
  then show "i mod n < length (chunks n xs ! (i div n))" using e i(2) by simp
  have "i div n * n \<le> length xs" using i(1) assms(2) by linarith
  then show "chunks n xs ! (i div n) ! (i mod n) = xs ! i" using e i by simp
  show "length (chunks n xs ! (i div n)) = min ((i div n + 1) * n) (length xs) - i div n * n"
    using e \<open>i div n * n \<le> length xs\<close> by auto
qed

lemma chunk_lengths:
  assumes "0 < n" "j < length (chunks n xs)"
  shows "length (chunks n xs ! j) = min n (length xs - j * n)" "0 < length (chunks n xs ! j)"
proof -
  show l: "length (chunks n xs ! j) = min n (length xs - j * n)" using nth_chunks [OF assms] by simp
  have j: "j < div_ceil (length xs) n" using assms by (simp add: length_chunks)
  have "j * n < length xs"
  proof (rule ccontr)
    assume "\<not> j * n < length xs"
    then have "div_ceil (length xs) n \<le> div_ceil (j * n) n" by (intro div_ceil_mono) simp
    also have "\<dots> = j" using assms(1) by (simp add: div_ceil_alt)
    finally show False using j by simp
  qed
  then show "0 < length (chunks n xs ! j)" using l assms(1) by simp
qed

lemma chunks_exact_eq:
  assumes "0 < n"
  shows "chunks_exact n xs = take (length xs div n) (chunks n xs)"
proof -
  let ?cs = "chunks n xs" and ?q = "length xs div n"
  have q: "?q \<le> length ?cs" using assms by (simp add: length_chunks div_ceil_alt)
  have lo: "\<forall>c \<in> set (take ?q ?cs). length c = n"
  proof
    fix c assume "c \<in> set (take ?q ?cs)"
    then obtain j where j: "j < ?q" "c = ?cs ! j" using q by (auto simp: in_set_conv_nth)
    have "(j + 1) * n \<le> ?q * n" using j(1) by (intro mult_le_mono1) simp
    also have "\<dots> \<le> length xs" by simp
    finally show "length c = n" using chunk_lengths(1) [OF assms, of j xs] j q by simp
  qed
  have hi: "\<forall>c \<in> set (drop ?q ?cs). length c \<noteq> n"
  proof
    fix c assume "c \<in> set (drop ?q ?cs)"
    then obtain j where j: "?q \<le> j" "j < length ?cs" "c = ?cs ! j"
      using q by (auto simp: in_set_conv_nth) (metis le_add1 add.commute less_diff_conv)
    then have "j = ?q" using assms by (simp add: length_chunks div_ceil_alt split: if_splits)
    moreover have "length xs - ?q * n < n" using assms by (simp add: minus_div_mult_eq_mod)
    ultimately show "length c \<noteq> n" using chunk_lengths(1) [OF assms j(2)] j(3) by simp
  qed
  have "chunks_exact n xs = filter (\<lambda>c. length c = n) (take ?q ?cs @ drop ?q ?cs)"
    by (simp add: chunks_exact_def)
  also have "\<dots> = take ?q ?cs"
    unfolding filter_append filter_True [OF lo] filter_False [OF hi] by (rule append_Nil2)
  finally show ?thesis .
qed

lemma chunks_last:
  assumes "0 < n" "length xs mod n \<noteq> 0"
  shows "chunks n xs = take (length xs div n) (chunks n xs) @ [chunks_remainder n xs]"
    and "chunks_remainder n xs \<noteq> []"
proof -
  let ?q = "length xs div n"
  have l: "length (chunks n xs) = Suc ?q" using assms by (simp add: length_chunks div_ceil_alt)
  have r: "length xs - ?q * n = length xs mod n" by (simp add: minus_div_mult_eq_mod)
  have "chunks n xs ! ?q = chunks_remainder n xs"
    using nth_chunks [OF assms(1), of ?q xs] l r assms(1) by (simp add: chunks_remainder_def less_imp_le)
  then show "chunks n xs = take ?q (chunks n xs) @ [chunks_remainder n xs]"
    using l by (metis lessI order_refl take_Suc_conv_app_nth take_all)
  show "chunks_remainder n xs \<noteq> []" using r assms(2) by (auto simp: chunks_remainder_def)
qed

lemma chunks_no_remainder:
  assumes "0 < n" "length xs mod n = 0"
  shows "take (length xs div n) (chunks n xs) = chunks n xs" and "chunks_remainder n xs = []"
  using assms by (auto simp: length_chunks div_ceil_alt chunks_remainder_def minus_mod_eq_div_mult [symmetric])


subsection \<open>The estimator and the writer\<close>

definition blockwise_gather :: "u64 list \<Rightarrow> blockwise_estimator" where
  "blockwise_gather vs = blockwise_finalize (blockwise_collect_values blockwise_default vs)"

definition blockwise_size :: "u64 list \<Rightarrow> nat option" where
  "blockwise_size vs = blockwise_estimate (blockwise_gather vs)"

lemma collect_blocks_Inr:
  "collect_blocks e bs = Inr e' \<Longrightarrow>
   \<exists>ests. map estimate_blockwise_linear_block bs = map Some ests \<and>
     e' = e\<lparr>bw_completed_size := bw_completed_size e + sum_list (map serialized_size ests),
            bw_completed_blocks := bw_completed_blocks e @ ests\<rparr>"
proof (induction bs arbitrary: e)
  case (Cons b bs)
  then obtain est where est: "estimate_blockwise_linear_block b = Some est"
      "collect_blocks (complete_block e est) bs = Inr e'" by (auto split: option.splits)
  from Cons.IH [OF est(2)] obtain ests where
    "map estimate_blockwise_linear_block bs = map Some ests"
    "e' = (complete_block e est)\<lparr>bw_completed_size := bw_completed_size (complete_block e est) + sum_list (map serialized_size ests),
            bw_completed_blocks := bw_completed_blocks (complete_block e est) @ ests\<rparr>" by blast
  then show ?case using est(1) by (intro exI [of _ "est # ests"]) (simp add: complete_block_def)
qed simp

lemma collect_blocks_Inl: "collect_blocks e bs = Inl e' \<Longrightarrow> bw_overflow e'"
  by (induction bs arbitrary: e) (auto split: option.splits)

lemma block_size_pos: "0 < BLOCKWISE_LINEAR_BLOCK_SIZE"
  by (simp add: BLOCKWISE_LINEAR_BLOCK_SIZE_def)

lemma blockwise_size_Some:
  assumes "blockwise_size vs = Some n"
  shows "\<exists>ests. map estimate_blockwise_linear_block (chunks BLOCKWISE_LINEAR_BLOCK_SIZE vs) = map Some ests \<and>
    n = 9 + sum_list (map serialized_size ests) \<and>
    (\<forall>b < length ests. stored_estimate (blockwise_gather vs) (length vs) b = Some (ests ! b))"
proof -
  let ?B = BLOCKWISE_LINEAR_BLOCK_SIZE
  let ?e0 = "blockwise_default\<lparr>bw_count := length vs\<rparr>"
  obtain e1 where e1: "collect_blocks ?e0 (chunks_exact ?B vs) = Inr e1"
  proof (cases "collect_blocks ?e0 (chunks_exact ?B vs)")
    case (Inl e)
    then have "bw_overflow (blockwise_gather vs)"
      using collect_blocks_Inl [OF Inl]
      by (simp add: blockwise_gather_def blockwise_collect_values_def blockwise_finalize_def Let_def)
    then show ?thesis using assms by (simp add: blockwise_size_def blockwise_estimate_def)
  qed
  from collect_blocks_Inr [OF e1] obtain ests0 where
    s0: "map estimate_blockwise_linear_block (chunks_exact ?B vs) = map Some ests0"
      "e1 = ?e0\<lparr>bw_completed_size := sum_list (map serialized_size ests0), bw_completed_blocks := ests0\<rparr>"
    by (auto simp: blockwise_default_def)
  have len0: "length ests0 = length vs div ?B"
    using arg_cong [OF s0(1), of length] block_size_pos
    by (simp add: chunks_exact_eq length_chunks div_ceil_alt)
  have g: "blockwise_gather vs = blockwise_finalize (e1\<lparr>bw_current_block := chunks_remainder ?B vs\<rparr>)"
    by (simp add: blockwise_gather_def blockwise_collect_values_def e1) (simp add: s0(2) blockwise_default_def)
  show ?thesis
  proof (cases "length vs mod ?B = 0")
    case True
    note c = chunks_no_remainder [OF block_size_pos True]
    have g': "blockwise_gather vs = e1" unfolding g c(2)
      by (simp add: blockwise_finalize_def Let_def s0(2) blockwise_default_def)
    have "map estimate_blockwise_linear_block (chunks ?B vs) = map Some ests0"
      using s0(1) c(1) by (simp add: chunks_exact_eq block_size_pos)
    moreover have "n = 9 + sum_list (map serialized_size ests0)"
      using assms by (auto simp: blockwise_size_def g' blockwise_estimate_def s0(2) blockwise_default_def split: if_splits)
    moreover have "stored_estimate (blockwise_gather vs) (length vs) b = Some (ests0 ! b)" if "b < length ests0" for b
      using that len0 True by (simp add: g' stored_estimate_def estimates_match_def s0(2))
    ultimately show ?thesis by blast
  next
    case False
    note c = chunks_last [OF block_size_pos False]
    obtain t where t: "estimate_blockwise_linear_block (chunks_remainder ?B vs) = Some t"
    proof (cases "estimate_blockwise_linear_block (chunks_remainder ?B vs)")
      case None
      then have "bw_overflow (blockwise_gather vs)" unfolding g
        using c(2) by (simp add: blockwise_finalize_def Let_def)
      then show ?thesis using assms by (simp add: blockwise_size_def blockwise_estimate_def)
    qed
    have g': "blockwise_gather vs = e1\<lparr>bw_current_block := chunks_remainder ?B vs, bw_tail_estimate := Some t\<rparr>"
      unfolding g using c(2) t by (simp add: blockwise_finalize_def Let_def s0(2) blockwise_default_def)
    have "map estimate_blockwise_linear_block (chunks ?B vs) = map Some (ests0 @ [t])"
      using s0(1) t by (subst c(1)) (simp add: chunks_exact_eq block_size_pos)
    moreover have "n = 9 + sum_list (map serialized_size (ests0 @ [t]))"
      using assms c(2) by (auto simp: blockwise_size_def g' blockwise_estimate_def s0(2) blockwise_default_def split: if_splits)
    moreover have "stored_estimate (blockwise_gather vs) (length vs) b = Some ((ests0 @ [t]) ! b)"
      if "b < length (ests0 @ [t])" for b
      using that len0 by (auto simp: g' stored_estimate_def estimates_match_def s0(2) nth_append)
    ultimately show ?thesis by blast
  qed
qed

lemma serialize_blocks_ok:
  assumes cs: "cs = chunks BLOCKWISE_LINEAR_BLOCK_SIZE vs" "length recs = length cs"
    and ok: "\<forall>b < length cs. \<exists>s. stored_estimate e (length vs) b = Some s \<and> serialize_block s (cs ! b) = Some (recs ! b)"
    and k: "k \<le> length cs"
  shows "serialize_blocks e vs [k..<length cs] (out, w) =
    Some (Inr (out @ concat (drop k recs), w + length (concat (drop k recs))))"
  using k
proof (induction "length cs - k" arbitrary: k out w)
  case 0
  then show ?case using cs(2) by simp
next
  case (Suc m)
  then have kl: "k < length cs" by simp
  then obtain s where s: "stored_estimate e (length vs) k = Some s" "serialize_block s (cs ! k) = Some (recs ! k)"
    using ok by blast
  let ?start = "k * BLOCKWISE_LINEAR_BLOCK_SIZE"
  have "take (min (?start + BLOCKWISE_LINEAR_BLOCK_SIZE) (length vs) - ?start) (drop ?start vs) = cs ! k"
  proof -
    have "cs ! k = take BLOCKWISE_LINEAR_BLOCK_SIZE (drop ?start vs)"
      using nth_chunks [OF block_size_pos] kl cs(1) by simp
    then show ?thesis by (cases "?start + BLOCKWISE_LINEAR_BLOCK_SIZE \<le> length vs") (simp_all add: min_def)
  qed
  then have "serialize_blocks e vs [k..<length cs] (out, w) =
      serialize_blocks e vs [Suc k..<length cs] (out @ recs ! k, w + length (recs ! k))"
    using kl s by (simp add: upt_conv_Cons Let_def)
  also have "\<dots> = Some (Inr ((out @ recs ! k) @ concat (drop (Suc k) recs),
      w + length (recs ! k) + length (concat (drop (Suc k) recs))))"
    using Suc.hyps(2) kl by (intro Suc.hyps(1)) auto
  also have "drop k recs = recs ! k # drop (Suc k) recs" using kl cs(2) by (simp add: Cons_nth_drop_Suc)
  then have "Some (Inr ((out @ recs ! k) @ concat (drop (Suc k) recs), w + length (recs ! k) + length (concat (drop (Suc k) recs)))) =
      Some (Inr (out @ concat (drop k recs), w + length (concat (drop k recs))))" by simp
  finally show ?case .
qed

lemma length_concat_bound: "(\<forall>r \<in> set recs. length r \<le> m) \<Longrightarrow> length (concat recs) \<le> length recs * m"
  by (induction recs) (auto intro: add_mono)

lemma estimate_size_bound:
  assumes "estimate_blockwise_linear_block block = Some s" "length block \<le> BLOCKWISE_LINEAR_BLOCK_SIZE"
  shows "serialized_size s \<le> 4125"
  using estimate_block_cases [OF assms(1)] small_packed [of "length block"] assms(2)
  by (auto simp: Let_def BLOCKWISE_LINEAR_BLOCK_SIZE_def)

lemma div_ceil_le: "0 < d \<Longrightarrow> div_ceil n d \<le> n"
proof (cases n)
  case (Suc k)
  assume d: "0 < d"
  have "n + d - 1 \<le> n * d" using Suc d by (cases d) auto
  then have "(n + d - 1) div d \<le> n * d div d" by (rule div_le_mono)
  then show ?thesis using d by (simp add: div_ceil_def)
qed (simp add: div_ceil_def)

lemma blockwise_payload:
  assumes len: "length vs < 2 ^ 32" and size: "blockwise_size vs = Some n"
  shows "\<exists>payload. blockwise_serialize (blockwise_gather vs) vs = Some (Inr (payload, length payload)) \<and>
    (\<forall>i < length vs. auto_read payload i = Some (vs ! i)) \<and>
    validate_auto payload (length vs) = Inr () \<and> length payload = n"
proof -
  let ?B = BLOCKWISE_LINEAR_BLOCK_SIZE
  define cs where "cs = chunks ?B vs"
  obtain ests where ests: "map estimate_blockwise_linear_block cs = map Some ests"
      "n = 9 + sum_list (map serialized_size ests)"
      "\<forall>b < length ests. stored_estimate (blockwise_gather vs) (length vs) b = Some (ests ! b)"
    using blockwise_size_Some [OF size] by (auto simp: cs_def)
  have le: "length ests = length cs" using arg_cong [OF ests(1), of length] by simp
  have est: "estimate_blockwise_linear_block (cs ! b) = Some (ests ! b)" if "b < length cs" for b
    using that le ests(1) by (metis nth_map)
  have cl: "cs ! b \<noteq> []" "length (cs ! b) \<le> ?B" "length (cs ! b) = min ?B (length vs - b * ?B)"
    if "b < length cs" for b
    using chunk_lengths [OF block_size_pos, of b vs] that by (auto simp: cs_def)
  define recs where "recs = map2 (\<lambda>s c. the (serialize_block s c)) ests cs"
  have lr: "length recs = length cs" using le by (simp add: recs_def)
  have rec: "serialize_block (ests ! b) (cs ! b) = Some (recs ! b)" "block_record (cs ! b) (recs ! b)"
      "length (recs ! b) = serialized_size (ests ! b)" if "b < length cs" for b
    using serialize_block_record [OF est [OF that] cl(1,2) [OF that]] that le by (auto simp: recs_def)
  define pre where "pre = u32_le (word_of_nat (length vs)) @ u32_le (word_of_nat (length cs))"
  define payload where "payload = codec_code BlockwiseLinear # pre @ concat recs"
  have nb: "length cs = div_ceil (length vs) ?B" by (simp add: cs_def length_chunks block_size_pos)
  have "div_ceil (length vs) ?B \<le> length vs"
    by (rule div_ceil_le [OF block_size_pos])
  then have lc: "length cs < 2 ^ 32" using len nb by linarith
  have w: "unat (word_of_nat (length vs) :: u32) = length vs" "unat (word_of_nat (length cs) :: u32) = length cs"
    using len lc by (simp_all add: unat_of_nat)
  have l8: "length pre = 8" by (simp add: pre_def)
  have all2: "list_all2 block_record cs recs" using rec(2) lr by (simp add: list_all2_conv_all_nth)
  have "length r \<le> 4125" if "r \<in> set recs" for r
    using that rec(3) estimate_size_bound [OF est cl(2)] lr by (auto simp: in_set_conv_nth)
  then have total: "length (pre @ concat recs) < 2 ^ 64"
    using length_concat_bound [of recs 4125] lr lc l8 by simp
  have "serialize_blocks (blockwise_gather vs) vs [0..<length cs] ([codec_code BlockwiseLinear] @ pre, 9) =
      Some (Inr (([codec_code BlockwiseLinear] @ pre) @ concat (drop 0 recs), 9 + length (concat (drop 0 recs))))"
    using rec(1) ests(3) le by (intro serialize_blocks_ok [OF cs_def lr]) auto
  then have ser: "blockwise_serialize (blockwise_gather vs) vs = Some (Inr (payload, length payload))"
    using l8 by (simp add: blockwise_serialize_def Let_def nb [symmetric] payload_def pre_def)
  have hd: "le_u32 (pre @ concat recs) 0 = Some (length vs)" "le_u32 (pre @ concat recs) 4 = Some (length cs)"
    using w by (simp_all add: pre_def slice_simps del: unat_of_nat)
  have "auto_read payload i = Some (vs ! i)" if i: "i < length vs" for i
  proof -
    note ci = chunks_index [OF block_size_pos i, folded cs_def]
    have "blockwise_read_loop (pre @ concat recs) (length vs) i [0..<0 + length cs] (length pre) =
        Some (cs ! (i div ?B) ! (i mod ?B))"
      using ci by (intro read_blocks [OF all2]) auto
    then show ?thesis using hd l8 ci(3)
      by (simp add: auto_read_def payload_def codec_from_u8_def blockwise_linear_read_def blockwise_linear_read_from_def)
  qed
  moreover have "validate_auto payload (length vs) = Inr ()"
  proof -
    have "validate_blocks (pre @ concat recs) (length vs) [0..<0 + length cs] (length pre) = Inr (length (pre @ concat recs))"
      using cl total by (intro validate_records [OF all2]) (auto simp: min.commute)
    moreover have "u32_at (pre @ concat recs) 0 = length vs" "u32_at (pre @ concat recs) 4 = length cs"
      using hd u32_at_le [of 0 "pre @ concat recs"] u32_at_le [of 4 "pre @ concat recs"] l8 by simp_all
    ultimately show ?thesis using l8 nb by (simp add: validate_auto_def payload_def codec_from_u8_def Let_def)
  qed
  moreover have "length payload = n"
  proof -
    have "map length recs = map serialized_size ests"
      using lr le rec(3) by (intro nth_equalityI) auto
    then show ?thesis using ests(2) l8 by (simp add: payload_def length_concat)
  qed
  ultimately show ?thesis using ser by blast
qed

interpretation blockwise_codec: column_codec blockwise_size "\<lambda>vs. blockwise_serialize (blockwise_gather vs) vs"
proof
  fix vs n
  assume "blockwise_size vs = Some n" "length vs < 2 ^ 32"
  then show "\<exists>payload. blockwise_serialize (blockwise_gather vs) vs = Some (Inr (payload, length payload)) \<and>
      (\<forall>i < length vs. auto_read payload i = Some (vs ! i)) \<and>
      validate_auto payload (length vs) = Inr () \<and> (vs \<noteq> [] \<longrightarrow> length payload \<le> n)"
    using blockwise_payload [of vs n] by auto
qed


end
