(* ===== verification/FastFieldAuto.thy ===== *)
theory FastFieldAuto
  imports FastFieldCodec
begin

text \<open>
  What \<open>serialize_auto\<close>, \<open>validate_auto\<close>, \<open>value_bounds\<close> and
  \<open>auto_read\<close> of \<open>src/summa-core/src/structures/fast_field/codec.rs\<close> promise together: the
  automatic choice writes a payload that reads back, an accepted payload never
  makes a reader index out of bounds, the bounds enclose the column, and the two
  ways of feeding the block-wise estimator agree. The four codecs enter through the
  interpretations of \<open>column_codec\<close>.
\<close>

section \<open>The automatic choice\<close>

lemma min_candidate_fold:
  fixes cs :: "(codec_type \<times> nat) list"
  defines "step \<equiv> \<lambda>best (c :: codec_type, s :: nat).
    case best of None \<Rightarrow> Some (c, s) | Some (d, t) \<Rightarrow> if s < t then Some (c, s) else Some (d, t)"
  shows "\<exists>c s. foldl step (Some (d, t)) cs = Some (c, s) \<and> (c, s) \<in> set ((d, t) # cs) \<and>
    (\<forall>(c', s') \<in> set ((d, t) # cs). s \<le> s')"
proof (induction cs arbitrary: d t)
  case (Cons x cs)
  obtain c s where x: "x = (c, s)" by (cases x)
  show ?case
  proof (cases "s < t")
    case True
    then have "foldl step (Some (d, t)) (x # cs) = foldl step (Some (c, s)) cs" by (simp add: step_def x)
    then show ?thesis using Cons [of c s] True x by fastforce
  next
    case False
    then have "foldl step (Some (d, t)) (x # cs) = foldl step (Some (d, t)) cs" by (simp add: step_def x)
    then show ?thesis using Cons [of d t] False x by fastforce
  qed
qed simp

lemma min_candidate_Some:
  assumes "cs \<noteq> []"
  shows "\<exists>c s. min_candidate cs = Some c \<and> (c, s) \<in> set cs \<and> (\<forall>(c', s') \<in> set cs. s \<le> s')"
proof -
  obtain d t rest where cs: "cs = (d, t) # rest" using assms by (cases cs) auto
  show ?thesis using min_candidate_fold [of d t rest] unfolding cs min_candidate_def by fastforce
qed

definition codec_size :: "codec_type \<Rightarrow> u64 list \<Rightarrow> nat option" where
  "codec_size c vs = (case c of Constant \<Rightarrow> constant_size vs | Bitpacked \<Rightarrow> bitpacked_size vs
     | Linear \<Rightarrow> linear_size vs | BlockwiseLinear \<Rightarrow> blockwise_size vs)"

definition codec_serialize :: "codec_type \<Rightarrow> u64 list \<Rightarrow> serialized" where
  "codec_serialize c vs = (case c of Constant \<Rightarrow> constant_serialize vs | Bitpacked \<Rightarrow> bitpacked_serialize vs
     | Linear \<Rightarrow> linear_serialize vs | BlockwiseLinear \<Rightarrow> blockwise_serialize (blockwise_gather vs) vs)"

lemma codec_serialize_ok:
  assumes "codec_size c vs = Some n" "length vs < 2 ^ 32"
  shows "\<exists>payload. codec_serialize c vs = Some (Inr (payload, length payload)) \<and>
    (\<forall>i < length vs. auto_read payload i = Some (vs ! i)) \<and>
    validate_auto payload (length vs) = Inr () \<and> (vs \<noteq> [] \<longrightarrow> length payload \<le> n)"
  using assms constant_codec.encode_ok [of vs n] bitpacked_codec.encode_ok [of vs n]
    linear_codec.encode_ok [of vs n] blockwise_codec.encode_ok [of vs n]
  by (cases c) (simp_all add: codec_size_def codec_serialize_def)

lemma serialize_auto_codec:
  "serialize_auto vs =
     (case min_candidate (List.map_filter (\<lambda>(c, s). map_option (\<lambda>x. (c, x)) s)
        [(Constant, constant_size vs), (Bitpacked, bitpacked_size vs), (Linear, linear_size vs), (BlockwiseLinear, blockwise_size vs)])
      of Some c \<Rightarrow> codec_serialize c vs | None \<Rightarrow> bitpacked_serialize vs)"
  unfolding serialize_auto_def Let_def constant_size_def bitpacked_size_def linear_size_def blockwise_size_def
    blockwise_gather_def codec_serialize_def
  by (simp only: split: option.split codec_type.split)

lemma serialize_auto_choice:
  "\<exists>c n. serialize_auto vs = codec_serialize c vs \<and> codec_size c vs = Some n \<and>
    (\<forall>c' n'. codec_size c' vs = Some n' \<longrightarrow> n \<le> n')"
proof -
  define cs where "cs = List.map_filter (\<lambda>(c, s). map_option (\<lambda>x. (c, x)) s)
    [(Constant, constant_size vs), (Bitpacked, bitpacked_size vs), (Linear, linear_size vs), (BlockwiseLinear, blockwise_size vs)]"
  have mem: "(c, n) \<in> set cs \<longleftrightarrow> codec_size c vs = Some n" for c n
    by (cases c) (auto simp: cs_def codec_size_def List.map_filter_def split: if_splits)
  have "(Bitpacked, the (bitpacked_size vs)) \<in> set cs" unfolding mem by (simp add: codec_size_def bitpacked_size_eq)
  then have "cs \<noteq> []" by auto
  from min_candidate_Some [OF this] obtain c s where
    c: "min_candidate cs = Some c" "(c, s) \<in> set cs" "\<forall>(c', s') \<in> set cs. s \<le> s'" by blast
  have "serialize_auto vs = codec_serialize c vs"
    by (simp only: serialize_auto_codec cs_def [symmetric] c(1) option.case)
  moreover have "codec_size c vs = Some s" using c(2) by (simp only: mem)
  moreover have "s \<le> n'" if "codec_size c' vs = Some n'" for c' n'
    using c(3) that unfolding mem [symmetric] by blast
  ultimately show ?thesis by blast
qed

lemma serialize_auto_ok:
  assumes "length vs < 2 ^ 32"
  shows "\<exists>payload. serialize_auto vs = Some (Inr (payload, length payload)) \<and>
    (\<forall>i < length vs. auto_read payload i = Some (vs ! i)) \<and>
    validate_auto payload (length vs) = Inr () \<and>
    (vs \<noteq> [] \<longrightarrow> (\<forall>c n. codec_size c vs = Some n \<longrightarrow> length payload \<le> n))"
proof -
  obtain c n where c: "serialize_auto vs = codec_serialize c vs" "codec_size c vs = Some n"
      "\<forall>c' n'. codec_size c' vs = Some n' \<longrightarrow> n \<le> n'"
    using serialize_auto_choice by blast
  obtain payload where p: "codec_serialize c vs = Some (Inr (payload, length payload))"
      "\<forall>i < length vs. auto_read payload i = Some (vs ! i)" "validate_auto payload (length vs) = Inr ()"
      "vs \<noteq> [] \<longrightarrow> length payload \<le> n"
    using codec_serialize_ok [OF c(2) assms] by blast
  have "length payload \<le> n'" if "vs \<noteq> []" "codec_size c' vs = Some n'" for c' n'
    using p(4) that c(3) by (blast intro: le_trans)
  then show ?thesis using p(1-3) unfolding c(1) by blast
qed

lemma serialize_auto_length:
  assumes "length vs < 2 ^ 32"
  shows "\<exists>payload. serialize_auto vs = Some (Inr (payload, length payload)) \<and> length payload \<le> 10 + 8 * length vs \<and>
    (\<forall>i < length vs. auto_read payload i = Some (vs ! i)) \<and> validate_auto payload (length vs) = Inr ()"
proof -
  obtain payload where p: "serialize_auto vs = Some (Inr (payload, length payload))"
      "\<forall>i < length vs. auto_read payload i = Some (vs ! i)" "validate_auto payload (length vs) = Inr ()"
      "vs \<noteq> [] \<longrightarrow> (\<forall>c n. codec_size c vs = Some n \<longrightarrow> length payload \<le> n)"
    using serialize_auto_ok [OF assms] by blast
  have "length payload \<le> 10 + 8 * length vs"
  proof (cases "vs = []")
    case True
    have "serialize_auto [] = Some (Inr ([codec_code Bitpacked] @ u64_le 0 @ [word_of_nat 0], 10))"
      by (simp add: serialize_auto_def constant_estimate_def constant_default_def bitpacked_estimate_def bitpacked_default_def
          linear_finalize_def linear_default_def linear_estimate_def blockwise_collect_values_def blockwise_default_def
          blockwise_finalize_def blockwise_estimate_def chunks_exact_def chunks_remainder_def min_candidate_def
          List.map_filter_def bitpacked_serialize_def BLOCKWISE_LINEAR_BLOCK_SIZE_def)
    then show ?thesis using p(1) True by simp
  next
    case False
    define k where "k = bits_needed_u64 (iter_max vs - iter_min vs)"
    have "length payload \<le> 10 + div_ceil (length vs * k) 8"
      using p(4) False by (auto simp: codec_size_def bitpacked_size_eq k_def split: codec_type.splits
        dest!: spec [of _ Bitpacked])
    also have "div_ceil (length vs * k) 8 \<le> div_ceil (length vs * 64) 8"
      unfolding k_def by (intro div_ceil_mono mult_le_mono2) simp
    also have "div_ceil (length vs * 64) 8 = 8 * length vs" by (simp add: div_ceil_def)
    finally show ?thesis by simp
  qed
  then show ?thesis using p(1-3) by blast
qed

section \<open>Validated payloads never panic\<close>

lemma packed_len_Inr: "packed_len count bpv = Inr p \<Longrightarrow> bpv \<le> 64 \<and> p = (count * bpv + 7) div 8"
  by (auto simp: packed_len_def invalid_def split: if_splits)

lemma slices_in_range:
  "pos + 8 \<le> length data \<Longrightarrow> \<exists>v. le_u64 data pos = Some v"
  "pos + 8 \<le> length data \<Longrightarrow> \<exists>v. le_i64 data pos = Some v"
  "pos + 4 \<le> length data \<Longrightarrow> le_u32 data pos = Some (u32_at data pos)"
  "pos < length data \<Longrightarrow> byte_at data pos = Some (unat (data ! pos))"
  "pos \<le> length data \<Longrightarrow> slice_from data pos = Some (drop pos data)"
  by (simp_all add: le_u64_def le_i64_def le_u32_def u32_at_def byte_at_def slice_from_def)

lemma validated_blocks_read:
  assumes "validate_blocks rest count idxs pos = Inr p" "index div BLOCKWISE_LINEAR_BLOCK_SIZE \<in> set idxs" "index < nv"
  shows "\<exists>v. blockwise_read_loop rest nv index idxs pos = Some v"
  using assms
proof (induction rest count idxs pos rule: validate_blocks.induct)
  case (2 rest count b bs pos)
  have h: "pos + 29 \<le> length rest"
    using "2.prems"(1) by (auto simp: Let_def invalid_def truncated_def split: if_splits)
  have nxt: "validate_blocks rest count bs (pos + 29 + u32_at rest (pos + 25)) = Inr p"
    using "2.prems"(1) by (auto simp: Let_def invalid_def truncated_def split: if_splits sum.splits)
  obtain f l off where v: "le_u64 rest pos = Some f" "le_u64 rest (pos + 8) = Some l" "le_i64 rest (pos + 16) = Some off"
    using slices_in_range(1) [of pos rest] slices_in_range(1) [of "pos + 8" rest] slices_in_range(2) [of "pos + 16" rest] h
    by auto
  have s: "byte_at rest (pos + 24) = Some (unat (rest ! (pos + 24)))"
      "le_u32 rest (pos + 25) = Some (u32_at rest (pos + 25))" "slice_from rest (pos + 29) = Some (drop (pos + 29) rest)"
    using h by (simp_all add: slices_in_range)
  show ?case
  proof (cases "b = index div BLOCKWISE_LINEAR_BLOCK_SIZE")
    case True
    have "b * BLOCKWISE_LINEAR_BLOCK_SIZE \<le> index" unfolding True by (rule div_times_less_eq_dividend)
    then have "\<not> min ((b + 1) * BLOCKWISE_LINEAR_BLOCK_SIZE) nv < b * BLOCKWISE_LINEAR_BLOCK_SIZE" using "2.prems"(3) by simp
    then show ?thesis using True v s by (simp add: Let_def)
  next
    case False
    then have "index div BLOCKWISE_LINEAR_BLOCK_SIZE \<in> set bs" using "2.prems"(2) by simp
    moreover obtain e where e: "packed_len (min (count - b * BLOCKWISE_LINEAR_BLOCK_SIZE) BLOCKWISE_LINEAR_BLOCK_SIZE)
        (unat (rest ! (pos + 24))) = Inr e"
      using "2.prems"(1) by (auto simp: Let_def invalid_def truncated_def split: if_splits sum.splits)
    ultimately have "\<exists>v. blockwise_read_loop rest nv index bs (pos + 29 + u32_at rest (pos + 25)) = Some v"
      using "2.IH" [OF refl _ _ refl refl refl refl e] "2.prems"(1,3) nxt h
      by (auto simp: Let_def invalid_def truncated_def split: if_splits)
    then show ?thesis using False v s by (simp add: add.assoc)
  qed
qed simp

lemma div_mem_upt: "i < n \<Longrightarrow> 0 < d \<Longrightarrow> i div d \<in> set [0..<div_ceil n d]"
  by (simp add: div_less_div_ceil)

lemma validated_auto_read:
  assumes "validate_auto data n = Inr ()" "i < n"
  shows "\<exists>v. auto_read data i = Some v"
proof -
  obtain tag rest where d: "data = tag # rest"
    using assms(1) by (cases data) (auto simp: validate_auto_def truncated_def)
  show ?thesis
  proof (cases "codec_from_u8 tag")
    case None
    then show ?thesis by (simp add: d auto_read_def)
  next
    case (Some c)
    show ?thesis
    proof (cases c)
      case Constant
      then show ?thesis using assms(1) Some slices_in_range(1) [of 0 rest]
        by (auto simp: d validate_auto_def auto_read_def invalid_def split: if_splits)
    next
      case Bitpacked
      then have "9 \<le> length rest" using assms(1) Some
        by (auto simp: d validate_auto_def truncated_def split: if_splits)
      moreover from this obtain m where "le_u64 rest 0 = Some m" using slices_in_range(1) [of 0 rest] by auto
      ultimately show ?thesis using Bitpacked Some
        by (simp add: d auto_read_def bitpacked_read_def slices_in_range)
    next
      case Linear
      then have "29 \<le> length rest" using assms(1) Some
        by (auto simp: d validate_auto_def truncated_def split: if_splits)
      moreover from this obtain f l m where "le_u64 rest 0 = Some f" "le_u64 rest 8 = Some l" "le_i64 rest 20 = Some m"
        using slices_in_range(1) [of 0 rest] slices_in_range(1) [of 8 rest] slices_in_range(2) [of 20 rest] by auto
      ultimately show ?thesis using Linear Some
        by (simp add: d auto_read_def linear_read_def slices_in_range)
    next
      case BlockwiseLinear
      then obtain p where h: "8 \<le> length rest" "u32_at rest 0 = n" "u32_at rest 4 = div_ceil n BLOCKWISE_LINEAR_BLOCK_SIZE"
          "validate_blocks rest n [0..<div_ceil n BLOCKWISE_LINEAR_BLOCK_SIZE] 8 = Inr p"
        using assms(1) Some
        by (auto simp: d validate_auto_def truncated_def invalid_def Let_def split: if_splits sum.splits)
      obtain v where "blockwise_read_loop rest n i [0..<div_ceil n BLOCKWISE_LINEAR_BLOCK_SIZE] 8 = Some v"
        using validated_blocks_read [OF h(4) div_mem_upt [OF assms(2) block_size_pos] assms(2)] by blast
      then show ?thesis using BlockwiseLinear Some h
        by (simp add: d auto_read_def blockwise_linear_read_def blockwise_linear_read_from_def slices_in_range)
    qed
  qed
qed

section \<open>Value bounds\<close>

lemma width_max_mask: "w \<le> 64 \<Longrightarrow> width_max w = Some (mask w)"
  by (auto simp: width_max_def Let_def bit_drop_bit_eq bit_mask_iff intro!: bit_word_eqI)

lemma mask_bound:
  assumes "unat (v :: u64) < 2 ^ w"
  shows "uint v \<le> uint (mask w :: u64)"
proof -
  have "take_bit w v = v" using assms
    by (metis take_bit_nat_eq_self_iff unsigned_take_bit_eq unsigned_word_eqI)
  then have "v \<le> mask w" by (metis word_and_le1 take_bit_eq_mask)
  then show ?thesis by (simp add: word_le_def)
qed

lemma unat_bitpack_read: "bpv \<le> 64 \<Longrightarrow> unat (bitpack_read data bpv i) < 2 ^ bpv"
  unfolding unat_less_power_bits by (simp add: bitpack_read_bit)

lemma residual_bound: "bpv \<le> 64 \<Longrightarrow> uint (if bpv = 0 then 0 else bitpack_read data bpv i) \<le> uint (mask bpv :: u64)"
  using mask_bound [OF unat_bitpack_read] by simp

lemma to_u64_Some: "to_u64 x = Some w \<longleftrightarrow> 0 \<le> x \<and> x < 2 ^ 64 \<and> uint w = x"
  by (auto simp: to_u64_def uint_word_of_int_u64 word_of_int_uint)

lemma bounds_constant:
  assumes "validate_auto (tag # rest) n = Inr ()" "codec_from_u8 tag = Some Constant"
    "value_bounds (tag # rest) = Some (Some (lo, hi))" "auto_read (tag # rest) i = Some v"
  shows "lo \<le> v \<and> v \<le> hi"
  using assms by (auto simp: value_bounds_def auto_read_def split: Option.bind_splits)

lemma bounds_bitpacked:
  assumes "validate_auto (tag # rest) n = Inr ()" "codec_from_u8 tag = Some Bitpacked"
    "value_bounds (tag # rest) = Some (Some (lo, hi))" "auto_read (tag # rest) i = Some v"
  shows "lo \<le> v \<and> v \<le> hi"
proof -
  have len: "9 \<le> length rest" using assms(1,2)
    by (auto simp: validate_auto_def truncated_def split: if_splits)
  define w where "w = unat (rest ! 8)"
  obtain p where p: "packed_len n w = Inr p" using assms(1,2) len
    by (auto simp: validate_auto_def w_def split: sum.splits)
  then have w: "w \<le> 64" using packed_len_Inr by blast
  have at: "byte_at rest 8 = Some w" using len by (simp add: byte_at_def w_def)
  obtain m where m: "le_u64 rest 0 = Some m" using slices_in_range(1) [of 0 rest] len by auto
  have lo: "lo = m" and hi: "to_u64 (uint m + uint (mask w :: u64)) = Some hi"
    using assms(2,3) m at by (auto simp: value_bounds_def width_max_mask [OF w])
  define r where "r = (if w = 0 then 0 else bitpack_read (drop 9 rest) w i)"
  have v: "v = r + m" using assms(2,4) m at len
    by (auto simp: auto_read_def bitpacked_read_def slices_in_range r_def split: if_splits)
  have r: "uint r \<le> uint (mask w :: u64)" unfolding r_def by (rule residual_bound [OF w])
  have u: "uint m + uint (mask w :: u64) < 2 ^ 64" "uint hi = uint m + uint (mask w :: u64)" using hi by (simp_all add: to_u64_Some)
  have "uint v = uint r + uint m" unfolding v using u r by (intro uint_add_lem [THEN iffD1]) simp
  then show ?thesis using u r by (simp add: word_le_def lo)
qed

lemma bounds_linear:
  assumes "validate_auto (tag # rest) n = Inr ()" "codec_from_u8 tag = Some Linear"
    "value_bounds (tag # rest) = Some (Some (lo, hi))" "auto_read (tag # rest) i = Some v" "i < n"
  shows "lo \<le> v \<and> v \<le> hi"
proof -
  have len: "29 \<le> length rest" using assms(1,2)
    by (auto simp: validate_auto_def truncated_def split: if_splits)
  define w where "w = unat (rest ! 28)"
  have n: "u32_at rest 16 = n" "2 \<le> n" using assms(1,2) len
    by (auto simp: validate_auto_def invalid_def Let_def split: if_splits)
  obtain p where p: "packed_len n w = Inr p" using assms(1,2) len n
    by (auto simp: validate_auto_def w_def split: sum.splits)
  then have w: "w \<le> 64" using packed_len_Inr by blast
  have at: "byte_at rest 28 = Some w" "le_u32 rest 16 = Some n" using len n by (simp_all add: slices_in_range w_def)
  obtain f l off where s: "le_u64 rest 0 = Some f" "le_u64 rest 8 = Some l" "le_i64 rest 20 = Some off"
    using slices_in_range(1) [of 0 rest] slices_in_range(1) [of 8 rest] slices_in_range(2) [of 20 rest] len by auto
  have lo: "to_u64 (uint (min f l) + off) = Some lo"
    and hi: "to_u64 (uint (max f l) + off + uint (mask w :: u64)) = Some hi"
    using assms(2,3) s at by (auto simp: value_bounds_def width_max_mask [OF w] split: Option.bind_splits)
  define r where "r = (if w = 0 then 0 else bitpack_read (drop 29 rest) w i)"
  define x where "x = uint (interpolate f l n i) + off + uint r"
  have v: "v = word_of_int x" using assms(2,4) s at len
    by (auto simp: auto_read_def linear_read_def slices_in_range r_def x_def split: if_splits)
  have r: "uint r \<le> uint (mask w :: u64)" "0 \<le> uint r" unfolding r_def by (rule residual_bound [OF w]) simp
  have x: "uint lo \<le> x" "x \<le> uint hi" using lo hi r uint_interpolate(2,3) [OF n(2) assms(5), of f l]
    unfolding x_def to_u64_Some by linarith+
  moreover have "0 \<le> x" using x(1) uint_ge_0 [of lo] by linarith
  moreover have "x < 2 ^ 64" using x(2) unsigned_less [of hi, where ?'a = int] by simp
  ultimately have "uint v = x" unfolding v by (intro uint_word_of_int_u64)
  then show ?thesis using x by (simp add: word_le_def)
qed

lemma validated_value_bounds:
  assumes "validate_auto data n = Inr ()"
  shows "\<exists>b. value_bounds data = Some b \<and>
    (\<forall>lo hi. b = Some (lo, hi) \<longrightarrow> (\<forall>i < n. \<forall>v. auto_read data i = Some v \<longrightarrow> lo \<le> v \<and> v \<le> hi))"
proof -
  obtain tag rest c where d: "data = tag # rest" and c: "codec_from_u8 tag = Some c"
    using assms by (cases data) (auto simp: validate_auto_def truncated_def invalid_def split: option.splits)
  have "\<exists>b. value_bounds data = Some b"
  proof (cases c)
    case Constant
    then show ?thesis using assms c slices_in_range(1) [of 0 rest]
      by (auto simp: d value_bounds_def validate_auto_def invalid_def split: if_splits)
  next
    case Bitpacked
    then have "9 \<le> length rest" using assms c by (auto simp: d validate_auto_def truncated_def split: if_splits)
    moreover from this obtain m where "le_u64 rest 0 = Some m" using slices_in_range(1) [of 0 rest] by auto
    moreover from calculation have "unat (rest ! 8) \<le> 64" using assms c Bitpacked packed_len_Inr
      by (auto simp: d validate_auto_def split: sum.splits)
    ultimately show ?thesis using Bitpacked c by (simp add: d value_bounds_def slices_in_range width_max_mask)
  next
    case Linear
    then have "29 \<le> length rest" using assms c by (auto simp: d validate_auto_def truncated_def split: if_splits)
    moreover from this obtain f l m where "le_u64 rest 0 = Some f" "le_u64 rest 8 = Some l" "le_i64 rest 20 = Some m"
      using slices_in_range(1) [of 0 rest] slices_in_range(1) [of 8 rest] slices_in_range(2) [of 20 rest] by auto
    moreover from calculation have "unat (rest ! 28) \<le> 64" using assms c Linear packed_len_Inr
      by (auto simp: d validate_auto_def invalid_def Let_def split: sum.splits if_splits)
    ultimately show ?thesis using Linear c by (simp add: d value_bounds_def slices_in_range width_max_mask)
  next
    case BlockwiseLinear
    then show ?thesis using c by (simp add: d value_bounds_def)
  qed
  moreover have "lo \<le> v \<and> v \<le> hi" if "value_bounds data = Some (Some (lo, hi))" "i < n" "auto_read data i = Some v" for lo hi i v
  proof (cases c)
    case Constant
    show ?thesis by (rule bounds_constant [OF assms [unfolded d] c [unfolded Constant] that(1) [unfolded d] that(3) [unfolded d]])
  next
    case Bitpacked
    show ?thesis by (rule bounds_bitpacked [OF assms [unfolded d] c [unfolded Bitpacked] that(1) [unfolded d] that(3) [unfolded d]])
  next
    case Linear
    show ?thesis by (rule bounds_linear [OF assms [unfolded d] c [unfolded Linear] that(1) [unfolded d] that(3) [unfolded d] that(2)])
  next
    case BlockwiseLinear
    then show ?thesis using that c by (simp add: d value_bounds_def)
  qed
  ultimately show ?thesis by blast
qed

section \<open>Collecting value by value or in bulk\<close>

lemma collect_partial:
  assumes "\<not> bw_overflow e" "bw_tail_estimate e = None" "length (bw_current_block e) + length vs < BLOCKWISE_LINEAR_BLOCK_SIZE"
  shows "foldl blockwise_collect e vs =
    e\<lparr>bw_count := bw_count e + length vs, bw_current_block := bw_current_block e @ vs\<rparr>"
  using assms
proof (induction vs arbitrary: e)
  case (Cons v vs)
  have "blockwise_collect e v = e\<lparr>bw_count := bw_count e + 1, bw_current_block := bw_current_block e @ [v]\<rparr>"
    using Cons.prems by (simp add: blockwise_collect_def Let_def)
  then show ?case using Cons.IH [of "blockwise_collect e v"] Cons.prems by simp
qed simp

lemma collect_full:
  assumes "\<not> bw_overflow e" "bw_tail_estimate e = None" "bw_current_block e = []" "length vs = BLOCKWISE_LINEAR_BLOCK_SIZE"
  shows "foldl blockwise_collect e vs =
    (case estimate_blockwise_linear_block vs of
       Some est \<Rightarrow> (complete_block e est)\<lparr>bw_count := bw_count e + length vs\<rparr>
     | None \<Rightarrow> e\<lparr>bw_count := bw_count e + length vs, bw_overflow := True\<rparr>)"
proof -
  have "vs \<noteq> []" using assms(4) by (auto simp: BLOCKWISE_LINEAR_BLOCK_SIZE_def)
  then obtain us v where vs: "vs = us @ [v]" by (metis append_butlast_last_id)
  let ?e = "foldl blockwise_collect e us"
  have e: "?e = e\<lparr>bw_count := bw_count e + length us, bw_current_block := us\<rparr>"
    using collect_partial [of e us] assms vs by simp
  have "length (bw_current_block ?e @ [v]) = BLOCKWISE_LINEAR_BLOCK_SIZE" using e assms(4) vs by simp
  then have "blockwise_collect ?e v = (case estimate_blockwise_linear_block vs of
       Some est \<Rightarrow> (complete_block e est)\<lparr>bw_count := bw_count e + length vs\<rparr>
     | None \<Rightarrow> e\<lparr>bw_count := bw_count e + length vs, bw_overflow := True\<rparr>)"
    using assms(1,2,3) unfolding e
    by (cases "estimate_blockwise_linear_block vs")
      (simp_all add: blockwise_collect_def Let_def complete_block_def vs)
  then show ?thesis unfolding vs by simp
qed

lemma collect_overflowed:
  "bw_overflow e \<Longrightarrow> bw_overflow (foldl blockwise_collect e vs)"
  by (induction vs arbitrary: e) (simp_all add: blockwise_collect_def Let_def)

lemma collect_blocks_count:
  "collect_blocks (e\<lparr>bw_count := c\<rparr>) bs =
     map_sum (\<lambda>e. e\<lparr>bw_count := c\<rparr>) (\<lambda>e. e\<lparr>bw_count := c\<rparr>) (collect_blocks e bs)"
proof (induction bs arbitrary: e)
  case (Cons b bs)
  have "complete_block (e\<lparr>bw_count := c\<rparr>) est = (complete_block e est)\<lparr>bw_count := c\<rparr>" for est
    by (simp add: complete_block_def)
  then show ?case by (simp add: Cons split: option.split)
qed simp

lemma chunks_exact_step:
  assumes "0 < n" "n \<le> length vs"
  shows "chunks_exact n vs = take n vs # chunks_exact n (drop n vs)"
    "chunks_remainder n vs = chunks_remainder n (drop n vs)"
proof -
  have ne: "vs \<noteq> []" using assms by auto
  show "chunks_exact n vs = take n vs # chunks_exact n (drop n vs)"
    using assms ne by (simp add: chunks_exact_def chunks_step)
  show "chunks_remainder n vs = chunks_remainder n (drop n vs)"
    using assms by (simp add: chunks_remainder_def le_div_geq algebra_simps)
qed

lemma chunks_exact_short:
  assumes "length vs < n"
  shows "chunks_exact n vs = []" "chunks_remainder n vs = vs"
proof -
  have n: "0 < n" using assms by simp
  show "chunks_exact n vs = []" using assms n by (simp add: chunks_exact_eq)
  show "chunks_remainder n vs = vs" using assms by (simp add: chunks_remainder_def)
qed

lemma collect_stream:
  assumes "\<not> bw_overflow e" "bw_tail_estimate e = None" "bw_current_block e = []"
  shows "case collect_blocks e (chunks_exact BLOCKWISE_LINEAR_BLOCK_SIZE vs) of
      Inl e' \<Rightarrow> bw_overflow e' \<and> bw_overflow (foldl blockwise_collect e vs) \<and> bw_count (foldl blockwise_collect e vs) = bw_count e + length vs
    | Inr e' \<Rightarrow> foldl blockwise_collect e vs =
        e'\<lparr>bw_count := bw_count e + length vs, bw_current_block := chunks_remainder BLOCKWISE_LINEAR_BLOCK_SIZE vs\<rparr>"
  using assms
proof (induction "length vs" arbitrary: vs e rule: less_induct)
  case less
  have counts: "bw_count (foldl blockwise_collect e us) = bw_count e + length us" for e us
    by (induction us arbitrary: e)
      (simp_all add: blockwise_collect_def Let_def complete_block_def split: option.split)
  show ?case
  proof (cases "length vs < BLOCKWISE_LINEAR_BLOCK_SIZE")
    case True
    then show ?thesis using less.prems collect_partial [of e vs] by (simp add: chunks_exact_short)
  next
    case False
    define t d where "t = take BLOCKWISE_LINEAR_BLOCK_SIZE vs" and "d = drop BLOCKWISE_LINEAR_BLOCK_SIZE vs"
    have vs: "vs = t @ d" "length t = BLOCKWISE_LINEAR_BLOCK_SIZE" "length d < length vs"
      using False block_size_pos unfolding t_def d_def by auto
    have st: "chunks_exact BLOCKWISE_LINEAR_BLOCK_SIZE vs = t # chunks_exact BLOCKWISE_LINEAR_BLOCK_SIZE d"
        "chunks_remainder BLOCKWISE_LINEAR_BLOCK_SIZE vs = chunks_remainder BLOCKWISE_LINEAR_BLOCK_SIZE d"
      using chunks_exact_step [OF block_size_pos, of vs] False unfolding t_def d_def by simp_all
    note full = collect_full [OF less.prems vs(2)]
    show ?thesis
    proof (cases "estimate_blockwise_linear_block t")
      case None
      then have "bw_overflow (foldl blockwise_collect e vs)"
        unfolding vs(1) foldl_append full by (simp add: collect_overflowed)
      then show ?thesis using None counts [of e vs] by (simp add: st)
    next
      case (Some est)
      define e1 where "e1 = (complete_block e est)\<lparr>bw_count := bw_count e + length t\<rparr>"
      have f: "foldl blockwise_collect e vs = foldl blockwise_collect e1 d"
        unfolding vs(1) foldl_append full by (simp add: Some e1_def)
      have e1: "\<not> bw_overflow e1" "bw_tail_estimate e1 = None" "bw_current_block e1 = []"
        using less.prems by (simp_all add: e1_def complete_block_def)
      have c: "collect_blocks e1 bs = map_sum (\<lambda>x. x\<lparr>bw_count := bw_count e + length t\<rparr>)
          (\<lambda>x. x\<lparr>bw_count := bw_count e + length t\<rparr>) (collect_blocks (complete_block e est) bs)" for bs
        unfolding e1_def by (rule collect_blocks_count)
      have n: "bw_count e1 + length d = bw_count e + length vs" using vs(1) by (simp add: e1_def)
      have t: "collect_blocks e (chunks_exact BLOCKWISE_LINEAR_BLOCK_SIZE vs) =
          collect_blocks (complete_block e est) (chunks_exact BLOCKWISE_LINEAR_BLOCK_SIZE d)"
        by (simp add: st(1) Some)
      show ?thesis
        using less.hyps [OF vs(3) e1] unfolding f t c n st(2)
        by (cases "collect_blocks (complete_block e est) (chunks_exact BLOCKWISE_LINEAR_BLOCK_SIZE d)") simp_all
    qed
  qed
qed

lemma finalize_overflowed: "bw_overflow e \<Longrightarrow> bw_overflow (blockwise_finalize e)"
  by (simp add: blockwise_finalize_def Let_def)

lemma stream_or_bulk:
  defines "s vs \<equiv> blockwise_finalize (foldl blockwise_collect blockwise_default vs)"
  shows "(bw_overflow (s vs) \<longleftrightarrow> bw_overflow (blockwise_gather vs)) \<and>
    (\<not> bw_overflow (blockwise_gather vs) \<longrightarrow> s vs = blockwise_gather vs) \<and> blockwise_estimate (s vs) = blockwise_size vs"
proof -
  define bs where "bs = chunks_exact BLOCKWISE_LINEAR_BLOCK_SIZE vs"
  have d: "\<not> bw_overflow blockwise_default" "bw_tail_estimate blockwise_default = None"
      "bw_current_block blockwise_default = []" "bw_count blockwise_default = 0"
    by (simp_all add: blockwise_default_def)
  note st = collect_stream [OF d(1-3), of vs, folded bs_def]
  have g: "blockwise_gather vs = blockwise_finalize
      (case map_sum (\<lambda>e. e\<lparr>bw_count := length vs\<rparr>) (\<lambda>e. e\<lparr>bw_count := length vs\<rparr>) (collect_blocks blockwise_default bs) of
         Inl e' \<Rightarrow> e'
       | Inr e' \<Rightarrow> e'\<lparr>bw_current_block := bw_current_block e' @ chunks_remainder BLOCKWISE_LINEAR_BLOCK_SIZE vs\<rparr>)"
    unfolding blockwise_gather_def blockwise_collect_values_def collect_blocks_count bs_def ..
  show ?thesis
  proof (cases "collect_blocks blockwise_default bs")
    case (Inl e')
    then have o: "bw_overflow e'" "bw_overflow (foldl blockwise_collect blockwise_default vs)" using st by simp_all
    have "blockwise_gather vs = blockwise_finalize (e'\<lparr>bw_count := length vs\<rparr>)" unfolding g Inl by simp
    then have "bw_overflow (blockwise_gather vs)" using o(1) by (simp add: finalize_overflowed)
    moreover have "bw_overflow (s vs)" unfolding s_def by (rule finalize_overflowed [OF o(2)])
    ultimately show ?thesis by (simp add: blockwise_size_def blockwise_estimate_def)
  next
    case (Inr e')
    then have "bw_current_block e' = []" using collect_blocks_Inr [OF Inr] d by auto
    then have "s vs = blockwise_gather vs" using st d(4) unfolding s_def g Inr by simp
    then show ?thesis by (simp add: blockwise_size_def)
  qed
qed

section \<open>Properties\<close>

text \<open>
  C5. Serialising a column of fewer than \<open>2 ^ 32\<close> values never fails and never panics;
  the reported length is the length of the payload, every value is read back at its
  index, the payload passes the validation a reader performs before using it, and no
  codec that offered an estimate would have promised fewer bytes than were written.
\<close>

theorem serialize_auto_round_trip:
  assumes "length vs < 2 ^ 32"
  shows "\<exists>payload. serialize_auto vs = Some (Inr (payload, length payload)) \<and>
    (\<forall>i < length vs. auto_read payload i = Some (vs ! i)) \<and>
    validate_auto payload (length vs) = Inr () \<and>
    (vs \<noteq> [] \<longrightarrow> (\<forall>c n. codec_size c vs = Some n \<longrightarrow> length payload \<le> n))"
  by (rule serialize_auto_ok [OF assms])

theorem serialize_auto_round_trip_witness:
  "\<exists>payload. serialize_auto [700, 3, 5000] = Some (Inr (payload, length payload)) \<and>
    auto_read payload 0 = Some 700 \<and> auto_read payload 2 = Some 5000 \<and> validate_auto payload 3 = Inr ()"
proof -
  obtain payload where p: "serialize_auto [700, 3, 5000] = Some (Inr (payload, length payload))"
      "\<forall>i < 3. auto_read payload i = Some ([700, 3, 5000] ! i)" "validate_auto payload 3 = Inr ()"
    using serialize_auto_round_trip [of "[700, 3, 5000]"] by (auto simp: numeral_3_eq_3)
  show ?thesis using p(1,3) p(2) [rule_format, of 0] p(2) [rule_format, of 2] by auto
qed

text \<open>
  C17. A payload accepted by \<open>validate_auto\<close> for some number of values, whatever
  bytes it holds, never makes a read of one of those values index out of bounds.
\<close>

theorem validated_payload_never_panics:
  assumes "validate_auto data n = Inr ()" "i < n"
  shows "\<exists>v. auto_read data i = Some v"
  by (rule validated_auto_read [OF assms])

theorem validated_payload_never_panics_witness:
  "\<exists>v. auto_read [1, 10, 0, 0, 0, 0, 0, 0, 0, 4, 0x93] 1 = Some v"
  by (rule validated_payload_never_panics [where n = 2])
    (simp_all add: validate_auto_def codec_from_u8_def packed_len_def usize_fits_def)

text \<open>
  C26. On an accepted payload \<open>value_bounds\<close> never indexes out of bounds, and the bounds it returns enclose
  every value of the column, so pruning by them loses no match.
\<close>

theorem value_bounds_conservative:
  assumes "validate_auto data n = Inr ()"
  shows "\<exists>b. value_bounds data = Some b \<and>
    (\<forall>lo hi. b = Some (lo, hi) \<longrightarrow> (\<forall>i < n. \<forall>v. auto_read data i = Some v \<longrightarrow> lo \<le> v \<and> v \<le> hi))"
  by (rule validated_value_bounds [OF assms])

theorem value_bounds_conservative_witness:
  "\<exists>b. value_bounds [1, 10, 0, 0, 0, 0, 0, 0, 0, 4, 0x93] = Some b \<and>
    (\<forall>lo hi v. b = Some (lo, hi) \<longrightarrow> auto_read [1, 10, 0, 0, 0, 0, 0, 0, 0, 4, 0x93] 1 = Some v \<longrightarrow> lo \<le> v \<and> v \<le> hi)"
    (is "\<exists>b. value_bounds ?d = Some b \<and> _")
proof -
  have "validate_auto ?d 2 = Inr ()"
    by (simp add: validate_auto_def codec_from_u8_def packed_len_def usize_fits_def)
  from value_bounds_conservative [OF this] obtain b where b: "value_bounds ?d = Some b"
      "\<forall>lo hi. b = Some (lo, hi) \<longrightarrow> (\<forall>i < 2. \<forall>v. auto_read ?d i = Some v \<longrightarrow> lo \<le> v \<and> v \<le> hi)"
    by (elim exE conjE)
  have "(1 :: nat) < 2" by simp
  then show ?thesis using b by (intro exI [of _ b]) blast
qed

text \<open>
  Collecting a column value by value, with the one-block scratch buffer, and
  collecting it in bulk agree: the same overflow verdict, the same estimate, and,
  unless the codec was ruled out, the same estimator state for the writer.
\<close>

lemma streaming_estimator_equals_bulk:
  defines "streamed vs \<equiv> blockwise_finalize (foldl blockwise_collect blockwise_default vs)"
    and "bulk vs \<equiv> blockwise_finalize (blockwise_collect_values blockwise_default vs)"
  shows "bw_overflow (streamed vs) = bw_overflow (bulk vs) \<and>
    blockwise_estimate (streamed vs) = blockwise_estimate (bulk vs) \<and>
    (bw_overflow (bulk vs) \<or> streamed vs = bulk vs)"
  using stream_or_bulk [of vs] unfolding streamed_def bulk_def blockwise_size_def blockwise_gather_def by blast

end
