(* ===== verification/FastFieldBatch.thy ===== *)
theory FastFieldBatch
  imports FastFieldAuto
begin

text \<open>
  The batch readers of \<open>src/summa-core/src/structures/fast_field/codec.rs\<close>:
  \<open>bitpacked_read_batch\<close> with its byte-aligned paths, the block-wise reader that
  resumes from a \<open>BlockwiseLinearCursor\<close>, and \<open>auto_read_batch\<close>. The output slice is
  a list that the readers overwrite; \<open>None\<close> is an out-of-bounds slice or a failed
  \<open>expect\<close>. On a validated payload they return what the single-value reader returns,
  and they keep the cursor on a block boundary, so that any sequence of
  batches may share it.
\<close>

section \<open>Bit-packed batches\<close>

definition zip_write :: "'a list \<Rightarrow> 'a list \<Rightarrow> 'a list" where
  "zip_write out vs = take (length out) vs @ drop (length vs) out"

definition slice :: "bytes \<Rightarrow> nat \<Rightarrow> nat \<Rightarrow> bytes option" where
  "slice data a b = (if a \<le> b \<and> b \<le> length data then Some (take (b - a) (drop a data)) else None)"

definition decode_byte_aligned_batch ::
  "nat \<Rightarrow> bytes \<Rightarrow> nat \<Rightarrow> u64 list \<Rightarrow> u64 \<Rightarrow> (bytes \<Rightarrow> u64) \<Rightarrow> u64 list option" where
  "decode_byte_aligned_batch width packed start out mn decode =
     (if out = [] then Some out
      else let byte_start = start * width; byte_len = length out * width
           in if \<not> usize_fits byte_start \<or> \<not> usize_fits byte_len then None
              else do {
                tail \<leftarrow> slice_from packed byte_start;
                chunk \<leftarrow> slice tail 0 byte_len;
                Some (zip_write out (map (\<lambda>c. decode c + mn) (chunks_exact width chunk))) })"

definition bitpacked_read_batch :: "bytes \<Rightarrow> nat \<Rightarrow> u64 list \<Rightarrow> u64 list option" where
  "bitpacked_read_batch data start_index out = do {
     min_value \<leftarrow> le_u64 data 0;
     bpv \<leftarrow> byte_at data 8;
     if bpv = 0 then Some (map (\<lambda>_. min_value) out)
     else do {
       packed \<leftarrow> slice_from data 9;
       if bpv = 8 then decode_byte_aligned_batch 1 packed start_index out min_value (\<lambda>v. ucast (v ! 0))
       else if bpv = 16 then decode_byte_aligned_batch 2 packed start_index out min_value (\<lambda>v. ucast (of_le v :: u16))
       else if bpv = 32 then decode_byte_aligned_batch 4 packed start_index out min_value (\<lambda>v. ucast (of_le v :: u32))
       else if bpv = 64 then decode_byte_aligned_batch 8 packed start_index out min_value of_le
       else Some (map (\<lambda>(i, _). bitpack_read packed bpv (start_index + i) + min_value) (enumerate 0 out)) } }"

section \<open>Block-wise batches\<close>

record blockwise_linear_cursor =
  cur_block :: nat
  cur_offset :: nat

definition cursor_default :: blockwise_linear_cursor where
  "cursor_default = \<lparr>cur_block = 0, cur_offset = 8\<rparr>"

text \<open>
  One block's run of values. A subtraction that would wrap is \<open>None\<close>, like a slice
  out of range.
\<close>

definition decode_block_run ::
  "u64 \<Rightarrow> u64 \<Rightarrow> int \<Rightarrow> nat \<Rightarrow> bytes \<Rightarrow> nat \<Rightarrow> nat \<Rightarrow> nat \<Rightarrow> u64 list" where
  "decode_block_run f l offset bpv packed block_len index_in_block cnt =
     map (\<lambda>i. let block_index = index_in_block + i;
                  predicted = interpolate f l block_len block_index;
                  res = (if bpv = 0 then 0 else bitpack_read packed bpv block_index)
              in word_of_int (uint predicted + offset + uint res)) [0..<cnt]"

primrec batch_loop ::
  "bytes \<Rightarrow> nat \<Rightarrow> nat \<Rightarrow> nat \<Rightarrow> nat list \<Rightarrow> nat \<Rightarrow> nat \<Rightarrow> u64 list \<Rightarrow> blockwise_linear_cursor \<Rightarrow>
   (u64 list \<times> blockwise_linear_cursor) option" where
  "batch_loop data num_values start_index valid_len [] pos written out cursor = Some (out, cursor)"
| "batch_loop data num_values start_index valid_len (b # bs) pos written out cursor = do {
     packed_len \<leftarrow> le_u32 data (pos + 25);
     if b < start_index div BLOCKWISE_LINEAR_BLOCK_SIZE
     then batch_loop data num_values start_index valid_len bs (pos + (29 + packed_len)) written out cursor
     else do {
       f \<leftarrow> le_u64 data pos;
       l \<leftarrow> le_u64 data (pos + 8);
       offset \<leftarrow> le_i64 data (pos + 16);
       bpv \<leftarrow> byte_at data (pos + 24);
       packed \<leftarrow> slice data (pos + 29) (pos + 29 + packed_len);
       let block_start = b * BLOCKWISE_LINEAR_BLOCK_SIZE;
       if num_values < block_start then None
       else do {
         let block_len = min (num_values - block_start) BLOCKWISE_LINEAR_BLOCK_SIZE;
         let index_in_block = (if b = start_index div BLOCKWISE_LINEAR_BLOCK_SIZE then start_index - block_start else 0);
         if block_len < index_in_block then None
         else do {
           let cnt = min (block_len - index_in_block) (valid_len - written);
           let out' = take written out @ decode_block_run f l offset bpv packed block_len index_in_block cnt @
             drop (written + cnt) out;
           let written' = written + cnt;
           let cursor' = (if index_in_block + cnt = block_len
             then \<lparr>cur_block = b + 1, cur_offset = pos + 29 + packed_len\<rparr>
             else \<lparr>cur_block = b, cur_offset = pos\<rparr>);
           if written' = valid_len then Some (out', cursor')
           else batch_loop data num_values start_index valid_len bs (pos + (29 + packed_len)) written' out' cursor' } } } }"

definition blockwise_linear_read_batch_with_cursor ::
  "bytes \<Rightarrow> nat \<Rightarrow> u64 list \<Rightarrow> blockwise_linear_cursor \<Rightarrow> (u64 list \<times> blockwise_linear_cursor) option" where
  "blockwise_linear_read_batch_with_cursor data start_index out cursor =
     (if out = [] then Some (out, cursor)
      else do {
        num_values \<leftarrow> le_u32 data 0;
        num_blocks \<leftarrow> le_u32 data 4;
        let valid_len = min (length out) (num_values - start_index);
        let out0 = take valid_len out @ replicate (length out - valid_len) 0;
        if valid_len = 0 then Some (out0, cursor)
        else do {
          let cursor0 = (if start_index div BLOCKWISE_LINEAR_BLOCK_SIZE < cur_block cursor then cursor_default else cursor);
          batch_loop data num_values start_index valid_len [cur_block cursor0..<num_blocks] (cur_offset cursor0) 0 out0 cursor0 } })"

definition blockwise_linear_read_batch :: "bytes \<Rightarrow> nat \<Rightarrow> u64 list \<Rightarrow> u64 list option" where
  "blockwise_linear_read_batch data start_index out =
     map_option fst (blockwise_linear_read_batch_with_cursor data start_index out cursor_default)"

section \<open>Automatic dispatch\<close>

fun linear_read_all :: "bytes \<Rightarrow> nat \<Rightarrow> u64 list \<Rightarrow> u64 list option" where
  "linear_read_all data start_index [] = Some []"
| "linear_read_all data start_index (v # out) = do {
     x \<leftarrow> linear_read data start_index;
     xs \<leftarrow> linear_read_all data (start_index + 1) out;
     Some (x # xs) }"

definition auto_read_batch_with_cursor ::
  "bytes \<Rightarrow> nat \<Rightarrow> u64 list \<Rightarrow> blockwise_linear_cursor \<Rightarrow> (u64 list \<times> blockwise_linear_cursor) option" where
  "auto_read_batch_with_cursor data start_index out cursor =
     (if out = [] then Some (out, cursor)
      else case data of
        [] \<Rightarrow> Some (map (\<lambda>_. 0) out, cursor)
      | codec_id # rest \<Rightarrow>
          (case codec_from_u8 codec_id of
             Some Constant \<Rightarrow> map_option (\<lambda>val. (map (\<lambda>_. val) out, cursor)) (le_u64 rest 0)
           | Some Bitpacked \<Rightarrow> map_option (\<lambda>vs. (vs, cursor)) (bitpacked_read_batch rest start_index out)
           | Some Linear \<Rightarrow> map_option (\<lambda>vs. (vs, cursor)) (linear_read_all rest start_index out)
           | Some BlockwiseLinear \<Rightarrow> blockwise_linear_read_batch_with_cursor rest start_index out cursor
           | None \<Rightarrow> Some (map (\<lambda>_. 0) out, cursor)))"

definition auto_read_batch :: "bytes \<Rightarrow> nat \<Rightarrow> u64 list \<Rightarrow> u64 list option" where
  "auto_read_batch data start_index out =
     map_option fst (auto_read_batch_with_cursor data start_index out cursor_default)"

section \<open>Byte-aligned runs are bit-packed runs\<close>

lemma wbit_drop: "wbit (drop m (xs :: bytes)) k \<longleftrightarrow> wbit xs (m * 8 + k)"
  by (auto simp: wbit_u8 add.commute)

lemma wbit_take: "wbit (take m (xs :: bytes)) k \<longleftrightarrow> k < m * 8 \<and> wbit xs k"
  by (auto simp: wbit_u8 less_mult_imp_div_less div_less_iff_less_mult)

lemma bit_of_le_u8:
  assumes "length bs * 8 = LENGTH('a::len)"
  shows "bit (of_le (bs :: bytes) :: 'a word) j \<longleftrightarrow> wbit bs j"
  using assms by (auto simp: bit_of_le wbit_u8 dest: bit_imp_le_length)

lemma bitpack_read_take:
  assumes "bpv \<le> 64" "(i + 1) * bpv \<le> m * 8"
  shows "bitpack_read (take m data) bpv i = bitpack_read data bpv i"
proof (rule bit_word_eqI)
  fix j
  have "j < bpv \<Longrightarrow> i * bpv + j < m * 8" using assms(2) by simp
  then show "bit (bitpack_read (take m data) bpv i) j = bit (bitpack_read data bpv i) j"
    using assms(1) by (auto simp: bitpack_read_bit wbit_take)
qed

lemma decode_byte_aligned_ok:
  assumes "0 < width" "width \<le> 8"
    and dec: "\<And>c j. length c = width \<Longrightarrow> bit (decode c) j \<longleftrightarrow> j < width * 8 \<and> wbit c j"
    and len: "(start + length out) * width \<le> length packed" "usize_fits (length packed)"
  shows "decode_byte_aligned_batch width packed start out mn decode =
    Some (map (\<lambda>i. bitpack_read packed (width * 8) (start + i) + mn) [0..<length out])"
proof (cases "out = []")
  case False
  define c where "c = take (length out * width) (drop (start * width) packed)"
  have l: "start * width + length out * width \<le> length packed" using len(1) by (simp add: algebra_simps)
  then have lc: "length c = length out * width" by (simp add: c_def)
  have wc: "wbit c k \<longleftrightarrow> k < length out * width * 8 \<and> wbit packed (start * width * 8 + k)" for k
    by (simp add: c_def wbit_take wbit_drop)
  have f: "usize_fits (start * width)" "usize_fits (length out * width)"
    using l len(2) by (auto simp: usize_fits_def)
  have n: "length (chunks_exact width c) = length out"
    using assms(1) by (simp add: chunks_exact_eq length_chunks lc div_ceil_alt)
  have "map (\<lambda>x. decode x + mn) (chunks_exact width c) =
      map (\<lambda>i. bitpack_read packed (width * 8) (start + i) + mn) [0..<length out]"
  proof (rule nth_equalityI)
    fix i assume "i < length (map (\<lambda>x. decode x + mn) (chunks_exact width c))"
    then have i: "i < length out" using n by simp
    then have ci: "i < length (chunks width c)" using n assms(1) by (simp add: chunks_exact_eq)
    have e: "chunks_exact width c ! i = take width (drop (i * width) c)"
      using i n assms(1) nth_chunks [OF assms(1) ci] by (simp add: chunks_exact_eq lc)
    have "(i + 1) * width \<le> length out * width" using i by (intro mult_le_mono1) simp
    then have iw: "i * width + width \<le> length out * width" by simp
    then have lw: "length (take width (drop (i * width) c)) = width" using lc by simp
    have "decode (chunks_exact width c ! i) = bitpack_read packed (width * 8) (start + i)"
    proof (rule bit_word_eqI)
      fix j
      have "j < width * 8 \<Longrightarrow> i * width * 8 + j < length out * width * 8" using iw by linarith
      then show "bit (decode (chunks_exact width c ! i)) j = bit (bitpack_read packed (width * 8) (start + i)) j"
        using assms(2) unfolding e by (auto simp: dec [OF lw] bitpack_read_bit wbit_take wbit_drop wc algebra_simps)
    qed
    then show "map (\<lambda>x. decode x + mn) (chunks_exact width c) ! i =
        map (\<lambda>i. bitpack_read packed (width * 8) (start + i) + mn) [0..<length out] ! i"
      using i n by simp
  qed (simp add: n)
  then show ?thesis using False f l n
    by (simp add: decode_byte_aligned_batch_def Let_def slice_from_def slice_def zip_write_def c_def [symmetric])
qed (simp add: decode_byte_aligned_batch_def)

lemma bitpacked_batch:
  assumes v: "validate_auto (tag # rest) n = Inr ()" "codec_from_u8 tag = Some Bitpacked"
    and n: "start + length out \<le> n"
  shows "bitpacked_read_batch rest start out =
    Some (map (\<lambda>i. the (auto_read (tag # rest) (start + i))) [0..<length out])"
proof -
  have len: "9 \<le> length rest" using v by (auto simp: validate_auto_def truncated_def split: if_splits)
  define w where "w = unat (rest ! 8)"
  obtain p where p: "packed_len n w = Inr p" "length rest = 9 + p" "usize_fits (9 + p)"
    using v len by (auto simp: validate_auto_def invalid_def w_def split: sum.splits if_splits)
  have w: "w \<le> 64" "p = (n * w + 7) div 8" using packed_len_Inr [OF p(1)] by simp_all
  obtain m where m: "le_u64 rest 0 = Some m" using slices_in_range(1) [of 0 rest] len by auto
  define packed where "packed = drop 9 rest"
  have s: "byte_at rest 8 = Some w" "slice_from rest 9 = Some packed"
    using len by (simp_all add: slices_in_range w_def packed_def)
  have lp: "length packed = p" "usize_fits (length packed)" using p(2,3) by (simp_all add: packed_def usize_fits_def)
  have single: "the (auto_read (tag # rest) i) = (if w = 0 then m else bitpack_read packed w i + m)" for i
    using v(2) m s by (simp add: auto_read_def bitpacked_read_def)
  have aligned: "decode_byte_aligned_batch k packed start out m decode =
      Some (map (\<lambda>i. bitpack_read packed w (start + i) + m) [0..<length out])"
    if k: "w = k * 8" "0 < k" "k \<le> 8"
      and dec: "\<And>c j. length c = k \<Longrightarrow> bit (decode c) j \<longleftrightarrow> j < k * 8 \<and> wbit c j" for k decode
  proof -
    have "n * (k * 8) + 7 = 7 + 8 * (n * k)" by simp
    then have "p = n * k" unfolding w(2) k(1) by simp
    then have "(start + length out) * k \<le> length packed" using n lp by simp
    then show ?thesis using decode_byte_aligned_ok [OF k(2,3) dec _ lp(2)] k(1) by simp
  qed
  have zero: "map (\<lambda>_. m) out = map (\<lambda>i. m) [0..<length out]" by (simp add: map_replicate_const)
  have gen: "map (\<lambda>(i, _). bitpack_read packed w (start + i) + m) (enumerate 0 out) =
      map (\<lambda>i. bitpack_read packed w (start + i) + m) [0..<length out]"
    by (rule nth_equalityI) (simp_all add: nth_enumerate_eq)
  have d1: "bit (ucast (c ! 0) :: u64) j \<longleftrightarrow> j < 1 * 8 \<and> wbit c j" if "length c = 1" for c :: bytes and j
    using that bit_imp_le_length [of "c ! 0" j] by (cases "j < 8") (auto simp: wbit_u8 bit_simps)
  have d2: "bit (ucast (of_le c :: u16) :: u64) j \<longleftrightarrow> j < 2 * 8 \<and> wbit c j" if "length c = 2" for c :: bytes and j
    using that by (auto simp: bit_of_le_u8 bit_simps dest: bit_imp_le_length wbit_bound)
  have d4: "bit (ucast (of_le c :: u32) :: u64) j \<longleftrightarrow> j < 4 * 8 \<and> wbit c j" if "length c = 4" for c :: bytes and j
    using that by (auto simp: bit_of_le_u8 bit_simps dest: bit_imp_le_length wbit_bound)
  have d8: "bit (of_le c :: u64) j \<longleftrightarrow> j < 8 * 8 \<and> wbit c j" if "length c = 8" for c :: bytes and j
    using that by (auto simp: bit_of_le_u8 wbit_u8)
  consider "w = 0" | "w = 8" | "w = 16" | "w = 32" | "w = 64" | "w \<notin> {0, 8, 16, 32, 64}" by blast
  then show ?thesis
  proof cases
    case 1
    then show ?thesis using m s by (simp add: bitpacked_read_batch_def single zero)
  next
    case 2
    show ?thesis using m s aligned [OF _ _ _ d1] 2 by (simp add: bitpacked_read_batch_def single)
  next
    case 3
    show ?thesis using m s aligned [OF _ _ _ d2] 3 by (simp add: bitpacked_read_batch_def single)
  next
    case 4
    show ?thesis using m s aligned [OF _ _ _ d4] 4 by (simp add: bitpacked_read_batch_def single)
  next
    case 5
    show ?thesis using m s aligned [OF _ _ _ d8] 5 by (simp add: bitpacked_read_batch_def single)
  next
    case 6
    then show ?thesis using m s by (simp add: bitpacked_read_batch_def single gen)
  qed
qed

lemma linear_batch:
  assumes "\<And>i. i < length out \<Longrightarrow> linear_read rest (start + i) = Some (g (start + i))"
  shows "linear_read_all rest start out = Some (map (\<lambda>i. g (start + i)) [0..<length out])"
  using assms
proof (induction out arbitrary: start)
  case (Cons v out)
  have "linear_read_all rest (start + 1) out = Some (map (\<lambda>i. g (start + 1 + i)) [0..<length out])"
    using Cons.prems [of "Suc i" for i] by (intro Cons.IH) simp
  then show ?case using Cons.prems [of 0] by (simp add: upt_conv_Cons map_Suc_upt [symmetric] o_def del: upt_Suc)
qed simp

section \<open>Block records of a validated payload\<close>

primrec block_pos :: "bytes \<Rightarrow> nat \<Rightarrow> nat" where
  "block_pos rest 0 = 8"
| "block_pos rest (Suc k) = block_pos rest k + (29 + u32_at rest (block_pos rest k + 25))"

abbreviation block_width :: "bytes \<Rightarrow> nat \<Rightarrow> nat" where
  "block_width rest k \<equiv> unat (rest ! (block_pos rest k + 24))"

abbreviation block_count :: "nat \<Rightarrow> nat \<Rightarrow> nat" where
  "block_count n k \<equiv> min (n - k * BLOCKWISE_LINEAR_BLOCK_SIZE) BLOCKWISE_LINEAR_BLOCK_SIZE"

definition blocks_ok :: "bytes \<Rightarrow> nat \<Rightarrow> bool" where
  "blocks_ok rest n \<longleftrightarrow> 8 \<le> length rest \<and> u32_at rest 0 = n \<and> u32_at rest 4 = div_ceil n BLOCKWISE_LINEAR_BLOCK_SIZE \<and>
     (\<forall>k < div_ceil n BLOCKWISE_LINEAR_BLOCK_SIZE. block_pos rest (Suc k) \<le> length rest \<and> block_width rest k \<le> 64 \<and>
       u32_at rest (block_pos rest k + 25) = (block_count n k * block_width rest k + 7) div 8)"

lemma validate_blocks_records:
  assumes "validate_blocks rest n [k..<m] (block_pos rest k) = Inr p" "k \<le> j" "j < m"
  shows "block_pos rest (Suc j) \<le> length rest \<and> block_width rest j \<le> 64 \<and>
    u32_at rest (block_pos rest j + 25) = (block_count n j * block_width rest j + 7) div 8"
  using assms
proof (induction "m - k" arbitrary: k)
  case (Suc d)
  then have "k < m" by simp
  then have u: "[k..<m] = k # [Suc k..<m]" by (simp add: upt_conv_Cons)
  define pos where "pos = block_pos rest k"
  have h: "pos + 29 \<le> length rest"
    using Suc.prems(1) unfolding u pos_def [symmetric] by (auto simp: Let_def invalid_def truncated_def split: if_splits)
  obtain e where e: "packed_len (block_count n k) (unat (rest ! (pos + 24))) = Inr e"
    using Suc.prems(1) h unfolding u pos_def [symmetric]
    by (auto simp: Let_def invalid_def truncated_def split: if_splits sum.splits)
  have d: "u32_at rest (pos + 25) = e" "pos + 29 + u32_at rest (pos + 25) \<le> length rest"
      "validate_blocks rest n [Suc k..<m] (pos + 29 + u32_at rest (pos + 25)) = Inr p"
    using Suc.prems(1) h e unfolding u pos_def [symmetric]
    by (auto simp: Let_def invalid_def truncated_def split: if_splits)
  have next_pos: "block_pos rest (Suc k) = pos + 29 + u32_at rest (pos + 25)" by (simp add: pos_def)
  show ?case
  proof (cases "j = k")
    case True
    then show ?thesis using d(1,2) packed_len_Inr [OF e] by (simp add: pos_def)
  next
    case False
    then have j: "Suc k \<le> j" "d = m - Suc k" using Suc.hyps(2) Suc.prems(2) by simp_all
    show ?thesis by (rule Suc.hyps(1) [OF j(2) d(3) [folded next_pos] j(1) Suc.prems(3)])
  qed
qed simp

lemma validated_blocks_ok:
  assumes "validate_auto (tag # rest) n = Inr ()" "codec_from_u8 tag = Some BlockwiseLinear"
  shows "blocks_ok rest n"
proof -
  obtain p where h: "8 \<le> length rest" "u32_at rest 0 = n" "u32_at rest 4 = div_ceil n BLOCKWISE_LINEAR_BLOCK_SIZE"
      "validate_blocks rest n [0..<div_ceil n BLOCKWISE_LINEAR_BLOCK_SIZE] 8 = Inr p"
    using assms by (auto simp: validate_auto_def truncated_def invalid_def Let_def split: if_splits sum.splits)
  then show ?thesis using validate_blocks_records [OF h(4) [folded block_pos.simps(1) [of rest]] le0]
    unfolding blocks_ok_def by blast
qed

definition block_value :: "bytes \<Rightarrow> nat \<Rightarrow> nat \<Rightarrow> nat \<Rightarrow> u64" where
  "block_value rest n k j =
     (let pos = block_pos rest k; bpv = block_width rest k
      in word_of_int (uint (interpolate (the (le_u64 rest pos)) (the (le_u64 rest (pos + 8))) (block_count n k) j) +
           the (le_i64 rest (pos + 16)) + uint (if bpv = 0 then 0 else bitpack_read (drop (pos + 29) rest) bpv j)))"

lemma block_fields:
  assumes "blocks_ok rest n" "k < div_ceil n BLOCKWISE_LINEAR_BLOCK_SIZE"
  defines "pos \<equiv> block_pos rest k"
  shows "\<exists>f. le_u64 rest pos = Some f" "\<exists>l. le_u64 rest (pos + 8) = Some l" "\<exists>m. le_i64 rest (pos + 16) = Some m"
    "byte_at rest (pos + 24) = Some (block_width rest k)" "le_u32 rest (pos + 25) = Some (u32_at rest (pos + 25))"
    "slice_from rest (pos + 29) = Some (drop (pos + 29) rest)"
    "slice rest (pos + 29) (pos + 29 + u32_at rest (pos + 25)) = Some (take (u32_at rest (pos + 25)) (drop (pos + 29) rest))"
proof -
  have l: "pos + 29 + u32_at rest (pos + 25) \<le> length rest" using assms(1,2) by (auto simp: blocks_ok_def pos_def)
  then show "\<exists>f. le_u64 rest pos = Some f" "\<exists>l. le_u64 rest (pos + 8) = Some l" "\<exists>m. le_i64 rest (pos + 16) = Some m"
    by (simp_all add: slices_in_range)
  show "byte_at rest (pos + 24) = Some (block_width rest k)" "le_u32 rest (pos + 25) = Some (u32_at rest (pos + 25))"
    "slice_from rest (pos + 29) = Some (drop (pos + 29) rest)"
    "slice rest (pos + 29) (pos + 29 + u32_at rest (pos + 25)) = Some (take (u32_at rest (pos + 25)) (drop (pos + 29) rest))"
    using l by (simp_all add: slices_in_range slice_def pos_def)
qed

lemma block_len_min: "min ((b + 1) * B) n - b * B = min (n - b * B) (B :: nat)"
  unfolding min_def add_mult_distrib by auto

lemma block_starts_inside: "b < div_ceil n BLOCKWISE_LINEAR_BLOCK_SIZE \<Longrightarrow> b * BLOCKWISE_LINEAR_BLOCK_SIZE \<le> n"
  by (auto simp: div_ceil_def BLOCKWISE_LINEAR_BLOCK_SIZE_def)

lemma read_loop_value:
  assumes "blocks_ok rest n" "k \<le> index div BLOCKWISE_LINEAR_BLOCK_SIZE"
    "index div BLOCKWISE_LINEAR_BLOCK_SIZE < div_ceil n BLOCKWISE_LINEAR_BLOCK_SIZE"
  shows "blockwise_read_loop rest n index [k..<div_ceil n BLOCKWISE_LINEAR_BLOCK_SIZE] (block_pos rest k) =
    Some (block_value rest n (index div BLOCKWISE_LINEAR_BLOCK_SIZE) (index mod BLOCKWISE_LINEAR_BLOCK_SIZE))"
  using assms(2)
proof (induction "index div BLOCKWISE_LINEAR_BLOCK_SIZE - k" arbitrary: k)
  case 0
  let ?b = "index div BLOCKWISE_LINEAR_BLOCK_SIZE"
  have k: "k = ?b" using 0 by simp
  have u: "[k..<div_ceil n BLOCKWISE_LINEAR_BLOCK_SIZE] = k # [Suc k..<div_ceil n BLOCKWISE_LINEAR_BLOCK_SIZE]"
    using assms(3) unfolding k by (rule upt_conv_Cons)
  have "?b * BLOCKWISE_LINEAR_BLOCK_SIZE \<le> n" using assms(3) block_starts_inside by blast
  then have ge: "\<not> min ((?b + 1) * BLOCKWISE_LINEAR_BLOCK_SIZE) n < ?b * BLOCKWISE_LINEAR_BLOCK_SIZE" by simp
  note f = block_fields [OF assms(1,3)]
  then show ?case unfolding u unfolding k using ge
    by (auto simp: block_value_def Let_def block_len_min [simplified])
next
  case (Suc d)
  have lt: "k < index div BLOCKWISE_LINEAR_BLOCK_SIZE" using Suc.hyps(2) by simp
  then have kn: "k < div_ceil n BLOCKWISE_LINEAR_BLOCK_SIZE" using assms(3) by simp
  then have u: "[k..<div_ceil n BLOCKWISE_LINEAR_BLOCK_SIZE] = k # [Suc k..<div_ceil n BLOCKWISE_LINEAR_BLOCK_SIZE]"
    by (rule upt_conv_Cons)
  have "blockwise_read_loop rest n index (k # [Suc k..<div_ceil n BLOCKWISE_LINEAR_BLOCK_SIZE]) (block_pos rest k) =
      blockwise_read_loop rest n index [Suc k..<div_ceil n BLOCKWISE_LINEAR_BLOCK_SIZE] (block_pos rest (Suc k))"
    using block_fields [OF assms(1) kn] lt by auto
  then show ?case unfolding u using Suc.hyps(1) [of "Suc k"] Suc.hyps(2) lt by simp
qed

lemma blockwise_single:
  assumes "blocks_ok rest n" "i < n"
  shows "blockwise_linear_read rest i =
    Some (block_value rest n (i div BLOCKWISE_LINEAR_BLOCK_SIZE) (i mod BLOCKWISE_LINEAR_BLOCK_SIZE))"
proof -
  have h: "8 \<le> length rest" "u32_at rest 0 = n" "u32_at rest 4 = div_ceil n BLOCKWISE_LINEAR_BLOCK_SIZE"
    using assms(1) by (auto simp: blocks_ok_def)
  then have "le_u32 rest 0 = Some n" "le_u32 rest 4 = Some (div_ceil n BLOCKWISE_LINEAR_BLOCK_SIZE)"
    by (simp_all add: slices_in_range)
  then show ?thesis
    using read_loop_value [OF assms(1) le0 div_less_div_ceil [OF block_size_pos assms(2)]]
    by (simp add: blockwise_linear_read_def blockwise_linear_read_from_def)
qed

lemma decode_block_run_value:
  assumes ok: "blocks_ok rest n" and k: "k < div_ceil n BLOCKWISE_LINEAR_BLOCK_SIZE"
    and f: "le_u64 rest (block_pos rest k) = Some f" "le_u64 rest (block_pos rest k + 8) = Some l"
      "le_i64 rest (block_pos rest k + 16) = Some off"
    and c: "iib + cnt \<le> block_count n k"
  shows "decode_block_run f l off (block_width rest k)
      (take (u32_at rest (block_pos rest k + 25)) (drop (block_pos rest k + 29) rest)) (block_count n k) iib cnt =
    map (\<lambda>i. block_value rest n k (iib + i)) [0..<cnt]"
proof -
  define w x where "w = block_width rest k" and "x = block_count n k"
  define m where "m = u32_at rest (block_pos rest k + 25)"
  have w: "w \<le> 64" "m = (x * w + 7) div 8" using ok k by (auto simp: blocks_ok_def w_def x_def m_def)
  have "bitpack_read (take m (drop (block_pos rest k + 29) rest)) w (iib + i) =
      bitpack_read (drop (block_pos rest k + 29) rest) w (iib + i)" if "i < cnt" for i
  proof (rule bitpack_read_take [OF w(1)])
    have "iib + i + 1 \<le> x" using that c by (simp add: x_def)
    then have "(iib + i + 1) * w \<le> x * w" by (rule mult_le_mono1)
    also have "\<dots> \<le> m * 8" unfolding w(2) by simp
    finally show "(iib + i + 1) * w \<le> m * 8" .
  qed
  then show ?thesis unfolding decode_block_run_def block_value_def Let_def f option.sel
    by (intro map_cong refl) (simp add: w_def x_def m_def)
qed

lemma batch_step:
  fixes valid written :: nat and out :: "u64 list"
  assumes ok: "blocks_ok rest n" and k: "k < div_ceil n BLOCKWISE_LINEAR_BLOCK_SIZE"
    and t: "start div BLOCKWISE_LINEAR_BLOCK_SIZE \<le> k" and s: "k * BLOCKWISE_LINEAR_BLOCK_SIZE \<le> n"
  defines "iib \<equiv> (if k = start div BLOCKWISE_LINEAR_BLOCK_SIZE then start - k * BLOCKWISE_LINEAR_BLOCK_SIZE else 0)"
  assumes i: "iib \<le> block_count n k"
  defines "cnt \<equiv> min (block_count n k - iib) (valid - written)"
  defines "out' \<equiv> take written out @ map (\<lambda>i. block_value rest n k (iib + i)) [0..<cnt] @ drop (written + cnt) out"
    and "cur' \<equiv> (if iib + cnt = block_count n k then \<lparr>cur_block = Suc k, cur_offset = block_pos rest (Suc k)\<rparr>
      else \<lparr>cur_block = k, cur_offset = block_pos rest k\<rparr>)"
  shows "batch_loop rest n start valid (k # bs) (block_pos rest k) written out cur =
    (if written + cnt = valid then Some (out', cur')
     else batch_loop rest n start valid bs (block_pos rest (Suc k)) (written + cnt) out' cur')"
proof -
  obtain f l off where f: "le_u64 rest (block_pos rest k) = Some f" "le_u64 rest (block_pos rest k + 8) = Some l"
      "le_i64 rest (block_pos rest k + 16) = Some off"
    using block_fields(1-3) [OF ok k] by blast
  have c: "iib + cnt \<le> block_count n k" using i unfolding cnt_def by arith
  have lt: "\<not> k < start div BLOCKWISE_LINEAR_BLOCK_SIZE" "\<not> n < k * BLOCKWISE_LINEAR_BLOCK_SIZE" "\<not> block_count n k < iib"
    using t s i by auto
  show ?thesis
    unfolding batch_loop.simps block_fields(4,5,7) [OF ok k] f bind.bind_lunit Let_def
      iib_def [symmetric] cnt_def [symmetric] decode_block_run_value [OF ok k f c] out'_def [symmetric]
    using lt by (simp add: cur'_def add.assoc)
qed

lemma batch_loop_value:
  assumes ok: "blocks_ok rest n" and v: "start + valid \<le> n" "valid \<le> length out" "written < valid"
    and k: "k \<le> start div BLOCKWISE_LINEAR_BLOCK_SIZE \<and> written = 0 \<or>
      start div BLOCKWISE_LINEAR_BLOCK_SIZE < k \<and> k * BLOCKWISE_LINEAR_BLOCK_SIZE = start + written"
  shows "\<exists>c b. batch_loop rest n start valid [k..<div_ceil n BLOCKWISE_LINEAR_BLOCK_SIZE] (block_pos rest k) written out cur =
    Some (take written out @ map (\<lambda>i. the (blockwise_linear_read rest i)) [start + written..<start + valid] @ drop valid out, c) \<and>
    c = \<lparr>cur_block = b, cur_offset = block_pos rest b\<rparr> \<and> b \<le> div_ceil n BLOCKWISE_LINEAR_BLOCK_SIZE"
  using v k
proof (induction "div_ceil n BLOCKWISE_LINEAR_BLOCK_SIZE - k" arbitrary: k written out cur)
  case 0
  let ?B = BLOCKWISE_LINEAR_BLOCK_SIZE
  have "k * ?B < n"
  proof -
    have "k * ?B \<le> start + written"
      using 0(5) by (auto intro: order_trans [OF mult_le_mono1 div_times_less_eq_dividend])
    then show ?thesis using 0(2,4) by linarith
  qed
  then have "k * ?B div ?B < div_ceil n ?B" by (rule div_less_div_ceil [OF block_size_pos])
  then show ?case using 0(1) block_size_pos by simp
next
  case (Suc d)
  let ?B = BLOCKWISE_LINEAR_BLOCK_SIZE and ?m = "div_ceil n BLOCKWISE_LINEAR_BLOCK_SIZE"
  have km: "k < ?m" using Suc.hyps(2) by simp
  have u: "[k..<?m] = k # [Suc k..<?m]" using km by (rule upt_conv_Cons)
  have d: "d = ?m - Suc k" using Suc.hyps(2) by simp
  show ?case
  proof (cases "k < start div ?B")
    case True
    then have "batch_loop rest n start valid [k..<?m] (block_pos rest k) written out cur =
        batch_loop rest n start valid [Suc k..<?m] (block_pos rest (Suc k)) written out cur"
      unfolding u using block_fields(5) [OF ok km] by simp
    then show ?thesis using Suc.hyps(1) [OF d Suc.prems(1-3)] Suc.prems(4) True by auto
  next
    case False
    define iib where "iib = (if k = start div ?B then start - k * ?B else 0)"
    define cnt where "cnt = min (block_count n k - iib) (valid - written)"
    have off: "k * ?B + iib = start + written" using Suc.prems(4) False
      by (auto simp: iib_def)
    have kn: "k * ?B \<le> n" using off Suc.prems(1,3) by linarith
    have iB: "iib < ?B" unfolding iib_def using block_size_pos
      by (simp add: minus_div_mult_eq_mod)
    have ib: "iib < block_count n k" using iB off Suc.prems(1,3) by auto
    define out' where "out' = take written out @ map (\<lambda>i. block_value rest n k (iib + i)) [0..<cnt] @ drop (written + cnt) out"
    define cur' where "cur' = (if iib + cnt = block_count n k then \<lparr>cur_block = Suc k, cur_offset = block_pos rest (Suc k)\<rparr>
      else \<lparr>cur_block = k, cur_offset = block_pos rest k\<rparr>)"
    have step: "batch_loop rest n start valid [k..<?m] (block_pos rest k) written out cur =
      (if written + cnt = valid then Some (out', cur')
       else batch_loop rest n start valid [Suc k..<?m] (block_pos rest (Suc k)) (written + cnt) out' cur')"
      unfolding u out'_def cur'_def cnt_def iib_def
      by (rule batch_step [OF ok km _ kn]) (use False ib in \<open>auto simp: iib_def\<close>)
    have cnt: "iib + cnt \<le> block_count n k" "written + cnt \<le> valid" using ib Suc.prems(3) unfolding cnt_def by arith+
    have vals: "map (\<lambda>i. block_value rest n k (iib + i)) [0..<cnt] =
        map (\<lambda>i. the (blockwise_linear_read rest i)) [start + written..<start + (written + cnt)]"
    proof (rule nth_equalityI)
      fix i assume "i < length (map (\<lambda>i. block_value rest n k (iib + i)) [0..<cnt])"
      then have i: "i < cnt" by simp
      then have r: "iib + i < ?B" "start + written + i < n" using cnt Suc.prems(1) by auto
      have e: "start + written + i = k * ?B + (iib + i)" using off by simp
      have "(start + written + i) div ?B = k" "(start + written + i) mod ?B = iib + i"
        unfolding e using r(1) by simp_all
      then show "map (\<lambda>i. block_value rest n k (iib + i)) [0..<cnt] ! i =
          map (\<lambda>i. the (blockwise_linear_read rest i)) [start + written..<start + (written + cnt)] ! i"
        using i blockwise_single [OF ok r(2)] by simp
    qed simp
    show ?thesis
    proof (cases "written + cnt = valid")
      case True
      then show ?thesis unfolding step
        using km by (auto simp: out'_def vals cur'_def add.assoc)
    next
      case False
      then have lt: "written + cnt < valid" using cnt(2) by simp
      then have c: "cnt = block_count n k - iib" by (auto simp: cnt_def)
      then have "start + (written + cnt) = k * ?B + block_count n k" using off ib by linarith
      moreover have "\<dots> < n" using calculation lt Suc.prems(1) by simp
      ultimately have k': "Suc k * ?B = start + (written + cnt)" using kn by auto
      have lo: "length out' = length out" using lt Suc.prems(2) by (simp add: out'_def)
      have ord: "start div ?B < Suc k" using \<open>\<not> k < start div ?B\<close> by simp
      obtain c b where c: "batch_loop rest n start valid [Suc k..<?m] (block_pos rest (Suc k)) (written + cnt) out' cur' =
          Some (take (written + cnt) out' @ map (\<lambda>i. the (blockwise_linear_read rest i)) [start + (written + cnt)..<start + valid] @
            drop valid out', c)" "c = \<lparr>cur_block = b, cur_offset = block_pos rest b\<rparr>" "b \<le> ?m"
        using Suc.hyps(1) [OF d Suc.prems(1) Suc.prems(2) [folded lo] lt disjI2 [OF conjI [OF ord k']]] by blast
      have tk: "take (written + cnt) out' = take written out @ map (\<lambda>i. the (blockwise_linear_read rest i)) [start + written..<start + (written + cnt)]"
          "drop valid out' = drop valid out"
        using lt Suc.prems(2) by (simp_all add: out'_def vals)
      have "[start + written..<start + valid] =
          [start + written..<start + (written + cnt)] @ [start + (written + cnt)..<start + valid]"
        using lt upt_add_eq_append [of "start + written" "start + written + cnt" "valid - (written + cnt)"] by (simp add: add.assoc)
      then show ?thesis unfolding step using False c by (simp add: tk)
    qed
  qed
qed

section \<open>Any sequence of batches\<close>

definition cursor_at :: "bytes \<Rightarrow> nat \<Rightarrow> blockwise_linear_cursor \<Rightarrow> bool" where
  "cursor_at rest n c \<longleftrightarrow> cur_block c \<le> div_ceil n BLOCKWISE_LINEAR_BLOCK_SIZE \<and> cur_offset c = block_pos rest (cur_block c)"

lemma cursor_at_default: "cursor_at rest n cursor_default"
  by (simp add: cursor_at_def cursor_default_def)

lemma blockwise_batch:
  assumes ok: "blocks_ok rest n" and n: "start + length out \<le> n" and c: "cursor_at rest n cursor"
  shows "\<exists>c'. blockwise_linear_read_batch_with_cursor rest start out cursor =
    Some (map (\<lambda>i. the (blockwise_linear_read rest (start + i))) [0..<length out], c') \<and> cursor_at rest n c'"
proof (cases "out = []")
  case False
  define c0 where "c0 = (if start div BLOCKWISE_LINEAR_BLOCK_SIZE < cur_block cursor then cursor_default else cursor)"
  have c0: "cur_block c0 \<le> start div BLOCKWISE_LINEAR_BLOCK_SIZE" "cur_offset c0 = block_pos rest (cur_block c0)"
    using c by (auto simp: c0_def cursor_default_def cursor_at_def)
  have h: "le_u32 rest 0 = Some n" "le_u32 rest 4 = Some (div_ceil n BLOCKWISE_LINEAR_BLOCK_SIZE)"
    using ok by (auto simp: blocks_ok_def slices_in_range)
  have v: "min (length out) (n - start) = length out" "take (length out) out @ replicate (length out - length out) 0 = out"
    using n by auto
  have e: "blockwise_linear_read_batch_with_cursor rest start out cursor =
      batch_loop rest n start (length out) [cur_block c0..<div_ceil n BLOCKWISE_LINEAR_BLOCK_SIZE] (block_pos rest (cur_block c0)) 0 out c0"
    unfolding blockwise_linear_read_batch_with_cursor_def h bind.bind_lunit Let_def v c0_def [symmetric] c0(2)
    using False by simp
  obtain c' b where b: "batch_loop rest n start (length out) [cur_block c0..<div_ceil n BLOCKWISE_LINEAR_BLOCK_SIZE] (block_pos rest (cur_block c0)) 0 out c0 =
      Some (take 0 out @ map (\<lambda>i. the (blockwise_linear_read rest i)) [start + 0..<start + length out] @ drop (length out) out, c')"
      "c' = \<lparr>cur_block = b, cur_offset = block_pos rest b\<rparr>" "b \<le> div_ceil n BLOCKWISE_LINEAR_BLOCK_SIZE"
    using batch_loop_value [OF ok n order_refl, of 0 "cur_block c0" c0] c0(1) False by auto
  have "map (\<lambda>i. the (blockwise_linear_read rest i)) [start..<start + length out] =
      map (\<lambda>i. the (blockwise_linear_read rest (start + i))) [0..<length out]"
    by (rule nth_equalityI) simp_all
  then show ?thesis unfolding e b(1) using b(2,3) by (simp add: cursor_at_def)
qed (use c in \<open>simp add: blockwise_linear_read_batch_with_cursor_def\<close>)

lemma auto_batch:
  assumes v: "validate_auto data n = Inr ()" and n: "start + length out \<le> n" and c: "cursor_at (tl data) n cursor"
  shows "\<exists>c'. auto_read_batch_with_cursor data start out cursor =
    Some (map (\<lambda>i. the (auto_read data (start + i))) [0..<length out], c') \<and> cursor_at (tl data) n c'"
proof (cases "out = []")
  case False
  obtain tag rest where d: "data = tag # rest"
    using v by (cases data) (auto simp: validate_auto_def truncated_def)
  obtain codec where t: "codec_from_u8 tag = Some codec"
    using v by (auto simp: d validate_auto_def invalid_def split: option.splits)
  have ar: "\<exists>x. auto_read data (start + i) = Some x" if "i < length out" for i
    using validated_auto_read [OF v, of "start + i"] that n by simp
  have const: "map (\<lambda>_. x) out = map (\<lambda>i. x) [0..<length out]" for x :: u64 by (simp add: map_replicate_const)
  show ?thesis
  proof (cases codec)
    case Constant
    obtain x where "le_u64 rest 0 = Some x" using ar [of 0] False t Constant by (auto simp: d auto_read_def)
    then show ?thesis using t Constant False c by (simp add: d auto_read_batch_with_cursor_def auto_read_def const)
  next
    case Bitpacked
    then show ?thesis using t False c bitpacked_batch [OF v [unfolded d] _ n]
      by (simp add: d auto_read_batch_with_cursor_def)
  next
    case Linear
    have "linear_read rest (start + i) = Some (the (auto_read data (start + i)))" if "i < length out" for i
      using ar [OF that] t Linear by (auto simp: d auto_read_def)
    from linear_batch [OF this] show ?thesis using t False c Linear
      by (simp add: d auto_read_batch_with_cursor_def)
  next
    case BlockwiseLinear
    then have "blockwise_linear_read rest i = auto_read data i" for i using t by (simp add: d auto_read_def)
    then show ?thesis using blockwise_batch [OF validated_blocks_ok [OF v [unfolded d]] n, of cursor] t False c BlockwiseLinear
      by (simp add: d auto_read_batch_with_cursor_def)
  qed
qed (use c in \<open>simp add: auto_read_batch_with_cursor_def\<close>)

text \<open>A caller that keeps one cursor over a sequence of batches of the same payload.\<close>

fun read_batches ::
  "bytes \<Rightarrow> (nat \<times> u64 list) list \<Rightarrow> blockwise_linear_cursor \<Rightarrow> u64 list list option" where
  "read_batches data [] cursor = Some []"
| "read_batches data ((start, out) # reqs) cursor = do {
     (vs, cursor') \<leftarrow> auto_read_batch_with_cursor data start out cursor;
     vss \<leftarrow> read_batches data reqs cursor';
     Some (vs # vss) }"

lemma read_batches_value:
  assumes "validate_auto data n = Inr ()" "\<forall>(start, out) \<in> set reqs. start + length out \<le> n" "cursor_at (tl data) n cursor"
  shows "read_batches data reqs cursor =
    Some (map (\<lambda>(start, out). map (\<lambda>i. the (auto_read data (start + i))) [0..<length out]) reqs)"
  using assms(2,3)
proof (induction reqs arbitrary: cursor)
  case (Cons r reqs)
  obtain start out where r: "r = (start, out)" by (cases r)
  obtain c' where "auto_read_batch_with_cursor data start out cursor =
      Some (map (\<lambda>i. the (auto_read data (start + i))) [0..<length out], c')" "cursor_at (tl data) n c'"
    using auto_batch [OF assms(1), of start out cursor] Cons.prems r by auto
  then show ?case using Cons.IH [of c'] Cons.prems(1) by (simp add: r)
qed simp

text \<open>
  C24. On a validated payload, a batch read returns exactly what the single-value
  reader returns at each index, for every codec and every width path; and any
  sequence of batches, forwards, backwards or across block boundaries, that shares
  one cursor still does.
\<close>

theorem batch_reads_equal_single_reads:
  assumes "validate_auto data n = Inr ()" "\<forall>(start, out) \<in> set reqs. start + length out \<le> n"
  shows "read_batches data reqs cursor_default =
      Some (map (\<lambda>(start, out). map (\<lambda>i. the (auto_read data (start + i))) [0..<length out]) reqs) \<and>
    (\<forall>(start, out) \<in> set reqs.
      auto_read_batch data start out = Some (map (\<lambda>i. the (auto_read data (start + i))) [0..<length out]))"
proof
  show "read_batches data reqs cursor_default =
      Some (map (\<lambda>(start, out). map (\<lambda>i. the (auto_read data (start + i))) [0..<length out]) reqs)"
    by (rule read_batches_value [OF assms cursor_at_default])
  show "\<forall>(start, out) \<in> set reqs.
      auto_read_batch data start out = Some (map (\<lambda>i. the (auto_read data (start + i))) [0..<length out])"
  proof (clarify)
    fix start out assume "(start, out) \<in> set reqs"
    then have "start + length out \<le> n" using assms(2) by blast
    from auto_batch [OF assms(1) this cursor_at_default]
    show "auto_read_batch data start out = Some (map (\<lambda>i. the (auto_read data (start + i))) [0..<length out])"
      by (auto simp: auto_read_batch_def)
  qed
qed

theorem batch_reads_equal_single_reads_witness:
  "read_batches [1, 10, 0, 0, 0, 0, 0, 0, 0, 4, 0x93] [(1, [0]), (0, [0, 0])] cursor_default = Some [[19], [13, 19]]"
    (is "read_batches ?d ?r _ = _")
proof -
  have "validate_auto ?d 2 = Inr ()"
    by (simp add: validate_auto_def codec_from_u8_def packed_len_def usize_fits_def)
  from batch_reads_equal_single_reads [OF this, of ?r]
  have "read_batches ?d ?r cursor_default =
      Some (map (\<lambda>(start, out). map (\<lambda>i. the (auto_read ?d (start + i))) [0..<length out]) ?r)" by simp
  moreover have "auto_read ?d 0 = Some 13" "auto_read ?d 1 = Some 19" by code_simp+
  ultimately show ?thesis by simp
qed

end
