(* ===== verification/TextDict.thy ===== *)
theory TextDict
  imports FastFieldBatch Summa_Search "HOL-Library.List_Lexorder"
begin

text \<open>
  This theory models the text dictionaries of
  \<open>src/summa-core/src/structures/fast_field/mod.rs\<close>: the length-prefixed strings that
  \<open>write_text_dictionary\<close> writes, \<open>validate_text_dict_bytes\<close>, and \<open>TextDictReader\<close> with
  its lookups by ordinal and by string. A string is its UTF-8 bytes, compared as
  \<open>str\<close> compares them, byte by byte. The lazily built offset table is the function that builds it.
  A result is \<open>None\<close> when the code panics, \<open>Some (Inl e)\<close> when it returns
  an error.
\<close>

section \<open>Fallible results\<close>

type_synonym 'a fallible = "(io_error + 'a) option"

definition tbind :: "'a fallible \<Rightarrow> ('a \<Rightarrow> 'b fallible) \<Rightarrow> 'b fallible" where
  "tbind m f = (case m of None \<Rightarrow> None | Some (Inl e) \<Rightarrow> Some (Inl e) | Some (Inr x) \<Rightarrow> f x)"

definition ok :: "'a \<Rightarrow> 'a fallible" where
  "ok x = Some (Inr x)"

definition err :: "error_kind \<Rightarrow> string \<Rightarrow> 'a fallible" where
  "err k msg = Some (Inl (IoError k msg))"

definition unpanicked :: "'a option \<Rightarrow> 'a fallible" where
  "unpanicked m = map_option Inr m"

definition returned :: "io_error + 'a \<Rightarrow> 'a fallible" where
  "returned r = Some r"

lemma fallible_simps [simp]:
  "tbind (ok x) f = f x" "tbind (err k msg) f = err k msg" "tbind (unpanicked (Some x)) f = f x"
  "tbind (unpanicked None) f = None" "tbind (returned (Inr x)) f = f x" "tbind (Some (Inr x)) f = f x"
  by (simp_all add: tbind_def ok_def err_def unpanicked_def returned_def)

lemma tbind_ok: "tbind m f = Some (Inr y) \<longleftrightarrow> (\<exists>x. m = Some (Inr x) \<and> f x = Some (Inr y))"
  by (auto simp: tbind_def split: option.splits sum.splits)

lemma fallible_ok [simp]:
  "ok x = Some (Inr y) \<longleftrightarrow> x = y" "err k msg \<noteq> Some (Inr y)" "unpanicked m = Some (Inr y) \<longleftrightarrow> m = Some y"
  "returned r = Some (Inr y) \<longleftrightarrow> r = Inr y"
  by (auto simp: ok_def err_def unpanicked_def returned_def)

lemma tbind_None: "tbind m f = None \<longleftrightarrow> m = None \<or> (\<exists>x. m = Some (Inr x) \<and> f x = None)"
  by (auto simp: tbind_def split: option.splits sum.splits)

lemma fallible_None [simp]: "ok x \<noteq> None" "err k msg \<noteq> None" "unpanicked m = None \<longleftrightarrow> m = None" "returned r \<noteq> None"
  by (auto simp: ok_def err_def unpanicked_def returned_def)

section \<open>UTF-8\<close>

text \<open>\<open>str::from_utf8\<close>: the well-formed byte sequences of the Unicode standard.\<close>

type_synonym str = bytes

definition in_range :: "u8 \<Rightarrow> u8 \<Rightarrow> u8 \<Rightarrow> bool" where
  "in_range lo hi b \<longleftrightarrow> lo \<le> b \<and> b \<le> hi"

fun utf8_step :: "bytes \<Rightarrow> nat" where
  "utf8_step [] = 0"
| "utf8_step (a # rest) =
     (if a \<le> 0x7F then 1
      else case rest of
        [] \<Rightarrow> 0
      | b # rest2 \<Rightarrow>
          if in_range 0xC2 0xDF a \<and> in_range 0x80 0xBF b then 2
          else case rest2 of
            [] \<Rightarrow> 0
          | c # rest3 \<Rightarrow>
              if in_range 0x80 0xBF c \<and>
                 (a = 0xE0 \<and> in_range 0xA0 0xBF b \<or> in_range 0xE1 0xEC a \<and> in_range 0x80 0xBF b \<or>
                  a = 0xED \<and> in_range 0x80 0x9F b \<or> in_range 0xEE 0xEF a \<and> in_range 0x80 0xBF b) then 3
              else case rest3 of
                [] \<Rightarrow> 0
              | d # _ \<Rightarrow>
                  if in_range 0x80 0xBF c \<and> in_range 0x80 0xBF d \<and>
                     (a = 0xF0 \<and> in_range 0x90 0xBF b \<or> in_range 0xF1 0xF3 a \<and> in_range 0x80 0xBF b \<or>
                      a = 0xF4 \<and> in_range 0x80 0x8F b) then 4
                  else 0)"

function utf8_valid :: "bytes \<Rightarrow> bool" where
  "utf8_valid bs =
     (if bs = [] then True else if utf8_step bs = 0 then False else utf8_valid (drop (utf8_step bs) bs))"
  by pat_completeness auto
termination
  by (relation "measure length") auto

declare utf8_valid.simps [simp del]

definition from_utf8 :: "bytes \<Rightarrow> io_error + str" where
  "from_utf8 bs = (if utf8_valid bs then Inr bs else Inl (IoError InvalidData ''invalid utf-8 sequence''))"

section \<open>Dictionary bytes\<close>

definition dict_entry :: "str \<Rightarrow> bytes" where
  "dict_entry key = u32_le (word_of_nat (length key)) @ key"

definition write_dict :: "str list \<Rightarrow> bytes" where
  "write_dict keys = concat (map dict_entry keys)"

fun validate_entries :: "bytes \<Rightarrow> nat \<Rightarrow> nat \<Rightarrow> str option \<Rightarrow> nat fallible" where
  "validate_entries data 0 pos previous = ok pos"
| "validate_entries data (Suc n) pos previous =
     (let len_end = pos + 4
      in if \<not> usize_fits len_end then err InvalidData ''text dictionary offset overflow''
         else tbind (unpanicked (le_u32 data pos)) (\<lambda>len.
           let stop = len_end + len
           in if \<not> usize_fits stop then err InvalidData ''text dictionary offset overflow''
              else if stop > length data then err UnexpectedEof ''text dictionary entry is truncated''
              else tbind (returned (from_utf8 (take len (drop len_end data)))) (\<lambda>v.
                if (case previous of None \<Rightarrow> False | Some p \<Rightarrow> p \<ge> v)
                then err InvalidData ''text dictionary entries are not strictly increasing''
                else validate_entries data n stop (Some v))))"

definition validate_text_dict_bytes :: "bytes \<Rightarrow> nat \<Rightarrow> unit fallible" where
  "validate_text_dict_bytes data count =
     (if \<not> usize_fits (count * 4) then err InvalidData ''text dictionary size overflow''
      else if count * 4 > length data then err UnexpectedEof ''text dictionary entry table is truncated''
      else tbind (validate_entries data count 0 None) (\<lambda>pos.
        if pos \<noteq> length data then err InvalidData ''text dictionary contains trailing data'' else ok ()))"

section \<open>The dictionary reader\<close>

record text_dict =
  td_data :: bytes
  td_count :: nat

definition new_lazy :: "bytes \<Rightarrow> nat \<Rightarrow> text_dict" where
  "new_lazy data count = \<lparr>td_data = data, td_count = count\<rparr>"

fun open_scan :: "bytes \<Rightarrow> nat \<Rightarrow> nat \<Rightarrow> nat fallible" where
  "open_scan data 0 pos = ok pos"
| "open_scan data (Suc n) pos =
     (if \<not> usize_fits (pos + 4) \<or> pos + 4 > length data then err UnexpectedEof ''text dict truncated''
      else tbind (unpanicked (le_u32 data pos)) (\<lambda>len.
        if \<not> usize_fits (pos + 4 + len) \<or> pos + 4 + len > length data then err UnexpectedEof ''text dict entry truncated''
        else tbind (returned (from_utf8 (take len (drop (pos + 4) data)))) (\<lambda>_.
          open_scan data n (pos + 4 + len))))"

definition text_dict_open :: "bytes \<Rightarrow> nat \<Rightarrow> nat \<Rightarrow> text_dict fallible" where
  "text_dict_open file_data dict_start count =
     (if count = 0 then ok (new_lazy [] 0)
      else if dict_start > length file_data then err UnexpectedEof ''text dict offset out of bounds''
      else tbind (open_scan file_data count dict_start) (\<lambda>pos.
        tbind (unpanicked (slice file_data dict_start pos)) (\<lambda>data. ok (new_lazy data count))))"

definition open_from_raw :: "bytes \<Rightarrow> nat \<Rightarrow> text_dict fallible" where
  "open_from_raw raw_dict count =
     tbind (validate_text_dict_bytes raw_dict count) (\<lambda>_. ok (new_lazy raw_dict count))"

fun build_offsets :: "bytes \<Rightarrow> nat \<Rightarrow> nat \<Rightarrow> (nat \<times> nat) list option" where
  "build_offsets data 0 pos = Some []"
| "build_offsets data (Suc n) pos = do {
     len \<leftarrow> le_u32 data pos;
     rest \<leftarrow> build_offsets data n (pos + 4 + len);
     Some ((as_u32 (pos + 4), len) # rest) }"

definition ensure_offsets :: "text_dict \<Rightarrow> (nat \<times> nat) list option" where
  "ensure_offsets d = build_offsets (td_data d) (td_count d) 0"

definition entry_slice :: "text_dict \<Rightarrow> nat \<times> nat \<Rightarrow> bytes option" where
  "entry_slice d e = slice (td_data d) (fst e) (fst e + snd e)"

definition str_or_empty :: "bytes \<Rightarrow> str" where
  "str_or_empty bs = (if utf8_valid bs then bs else [])"

definition dict_get :: "text_dict \<Rightarrow> nat \<Rightarrow> str option option" where
  "dict_get d ord = do {
     offsets \<leftarrow> ensure_offsets d;
     if ord < length offsets
     then do { bs \<leftarrow> entry_slice d (offsets ! ord); Some (if utf8_valid bs then Some bs else None) }
     else Some None }"

text \<open>All entries, as \<open>iter\<close> yields them; the binary search compares against these.\<close>

fun option_all :: "'a option list \<Rightarrow> 'a list option" where
  "option_all [] = Some []"
| "option_all (x # xs) = do { y \<leftarrow> x; ys \<leftarrow> option_all xs; Some (y # ys) }"

definition dict_iter :: "text_dict \<Rightarrow> str list option" where
  "dict_iter d = do {
     offsets \<leftarrow> ensure_offsets d;
     map_option (map str_or_empty) (option_all (map (entry_slice d) offsets)) }"

definition dict_ordinal :: "text_dict \<Rightarrow> str \<Rightarrow> nat option option" where
  "dict_ordinal d s = do {
     offsets \<leftarrow> ensure_offsets d;
     r \<leftarrow> try_binary_search_by (\<lambda>e. map_option (\<lambda>sl. cmp_key s (str_or_empty sl)) (entry_slice d e)) offsets;
     Some (case r of Inl _ \<Rightarrow> None | Inr i \<Rightarrow> Some i) }"

definition text_dict_len :: "text_dict \<Rightarrow> nat" where
  "text_dict_len d = td_count d"

definition text_dict_is_empty :: "text_dict \<Rightarrow> bool" where
  "text_dict_is_empty d \<longleftrightarrow> td_count d = 0"

section \<open>What a validated dictionary is\<close>

text \<open>
  A dictionary holds the entries \<open>keys\<close> if its bytes are theirs and they fit the \<open>u32\<close>
  offsets; \<open>validate_text_dict_bytes\<close> accepts exactly such bytes.
\<close>

definition dict_keys_ok :: "str list \<Rightarrow> bool" where
  "dict_keys_ok keys \<longleftrightarrow> strictly_sorted keys \<and> (\<forall>k \<in> set keys. utf8_valid k \<and> length k < 2 ^ 32)"

lemma length_dict_entry [simp]: "length (dict_entry k) = 4 + length k"
  by (simp add: dict_entry_def)

lemma write_dict_simps [simp]: "write_dict [] = []" "write_dict (k # ks) = dict_entry k @ write_dict ks"
  by (simp_all add: write_dict_def)

lemma length_write_dict: "length (write_dict keys) = 4 * length keys + sum_list (map length keys)"
  by (induction keys) simp_all

lemma le_u32_entry:
  assumes "length k < 2 ^ 32"
  shows "le_u32 (pre @ dict_entry k @ post) (length pre) = Some (length k)"
  using assms by (simp add: le_u32_def dict_entry_def unat_of_nat)

lemma entry_text: "take (length k) (drop (length pre + 4) (pre @ dict_entry k @ post)) = k"
  by (simp add: dict_entry_def)

lemma build_offsets_write:
  assumes "\<forall>k \<in> set keys. length k < 2 ^ 32" "length (pre @ write_dict keys) < 2 ^ 32"
  shows "\<exists>offs. build_offsets (pre @ write_dict keys) (length keys) (length pre) = Some offs \<and> length offs = length keys \<and>
    (\<forall>i < length keys. slice (pre @ write_dict keys) (fst (offs ! i)) (fst (offs ! i) + snd (offs ! i)) = Some (keys ! i))"
  using assms
proof (induction keys arbitrary: pre)
  case (Cons k keys)
  let ?all = "pre @ write_dict (k # keys)"
  have k: "length k < 2 ^ 32" using Cons.prems(1) by simp
  have all: "?all = (pre @ dict_entry k) @ write_dict keys" by simp
  obtain offs where o: "build_offsets ?all (length keys) (length pre + 4 + length k) = Some offs" "length offs = length keys"
      "\<forall>i < length keys. slice ?all (fst (offs ! i)) (fst (offs ! i) + snd (offs ! i)) = Some (keys ! i)"
    using Cons.IH [of "pre @ dict_entry k"] Cons.prems unfolding all by (auto simp: add.assoc)
  have f: "as_u32 (length pre + 4) = length pre + 4" using Cons.prems(2) by (simp add: as_u32_def)
  have b: "build_offsets ?all (length (k # keys)) (length pre) = Some ((length pre + 4, length k) # offs)"
    using le_u32_entry [OF k, of pre "write_dict keys"] o(1) f by simp
  have s: "slice ?all (length pre + 4) (length pre + 4 + length k) = Some k"
    using entry_text [of k pre "write_dict keys"] by (simp add: slice_def)
  show ?case using b o(2,3) s by (intro exI [of _ "(length pre + 4, length k) # offs"]) (auto simp: less_Suc_eq_0_disj)
qed simp

lemma option_all_Some: "option_all (map f xs) = Some ys \<longleftrightarrow> map f xs = map Some ys"
  by (induction xs arbitrary: ys) (auto simp: bind_eq_Some_conv Cons_eq_map_conv)

lemma written_dict_reads:
  assumes "dict_keys_ok keys" "length (write_dict keys) < 2 ^ 32"
  defines "d \<equiv> new_lazy (write_dict keys) (length keys)"
  shows "dict_get d i = Some (if i < length keys then Some (keys ! i) else None)"
    and "dict_iter d = Some keys"
proof -
  obtain offs where o: "build_offsets (write_dict keys) (length keys) 0 = Some offs" "length offs = length keys"
      "\<forall>i < length keys. slice (write_dict keys) (fst (offs ! i)) (fst (offs ! i) + snd (offs ! i)) = Some (keys ! i)"
    using build_offsets_write [of keys "[]"] assms by (auto simp: dict_keys_ok_def)
  have e: "ensure_offsets d = Some offs" using o(1) by (simp add: ensure_offsets_def d_def new_lazy_def)
  have s: "entry_slice d (offs ! i) = Some (keys ! i)" if "i < length keys" for i
    using o(3) that by (simp add: entry_slice_def d_def new_lazy_def)
  have u: "utf8_valid (keys ! i)" if "i < length keys" for i using assms(1) that by (simp add: dict_keys_ok_def)
  show "dict_get d i = Some (if i < length keys then Some (keys ! i) else None)"
    using e s u o(2) by (simp add: dict_get_def)
  have "map (entry_slice d) offs = map Some keys" using s o(2) by (intro nth_equalityI) simp_all
  then have "option_all (map (entry_slice d) offs) = Some keys" by (simp only: option_all_Some)
  moreover have "map str_or_empty keys = keys"
    using u by (intro map_idI) (auto simp: str_or_empty_def in_set_conv_nth)
  ultimately show "dict_iter d = Some keys" using e by (simp add: dict_iter_def)
qed

lemma dict_ordinal_iter:
  assumes "dict_iter d = Some strs"
  shows "dict_ordinal d s = Some (case binary_search s strs of Inl _ \<Rightarrow> None | Inr i \<Rightarrow> Some i)"
proof -
  obtain offs raw where o: "ensure_offsets d = Some offs" "map (entry_slice d) offs = map Some raw" "strs = map str_or_empty raw"
    using assms by (auto simp: dict_iter_def bind_eq_Some_conv option_all_Some)
  define h where "h e = str_or_empty (the (entry_slice d e))" for e
  have "\<forall>e \<in> set offs. map_option (\<lambda>sl. cmp_key s (str_or_empty sl)) (entry_slice d e) = Some ((cmp_key s \<circ> h) e)"
  proof
    fix e assume "e \<in> set offs"
    then have "entry_slice d e \<in> set (map Some raw)" using o(2) by (metis image_eqI set_map)
    then show "map_option (\<lambda>sl. cmp_key s (str_or_empty sl)) (entry_slice d e) = Some ((cmp_key s \<circ> h) e)"
      by (auto simp: h_def)
  qed
  moreover have "strs = map h offs"
  proof -
    have "map (\<lambda>e. the (entry_slice d e)) offs = map the (map (entry_slice d) offs)" by simp
    also have "\<dots> = raw" by (simp add: o(2) comp_def)
    finally have "map str_or_empty (map (\<lambda>e. the (entry_slice d e)) offs) = strs" by (simp only: o(3))
    then show ?thesis unfolding h_def [abs_def] by (simp add: comp_def)
  qed
  ultimately show ?thesis using o(1)
    by (simp add: dict_ordinal_def try_binary_search_by_total binary_search_def binary_search_by_map comp_def)
qed

lemma written_dict_ordinal:
  assumes "dict_keys_ok keys" "length (write_dict keys) < 2 ^ 32"
  shows "\<exists>r. dict_ordinal (new_lazy (write_dict keys) (length keys)) s = Some r \<and>
    (\<forall>i. r = Some i \<longleftrightarrow> i < length keys \<and> keys ! i = s)"
proof -
  have srt: "strictly_sorted keys" "sorted keys" using assms(1) by (simp_all add: dict_keys_ok_def strict_sorted_imp_sorted)
  show ?thesis
  proof (cases "binary_search s keys")
    case (Inl j)
    then have "s \<notin> set keys" using binary_search_found [OF srt(2), of s] by simp
    moreover have "dict_ordinal (new_lazy (write_dict keys) (length keys)) s = Some None"
      using Inl dict_ordinal_iter [OF written_dict_reads(2) [OF assms], of s] by simp
    ultimately show ?thesis by (auto simp: in_set_conv_nth)
  next
    case (Inr j)
    have j: "j < length keys" "keys ! j = s" using binary_search_Inr [OF srt(2) Inr] by simp_all
    have "i = j" if "i < length keys" "keys ! i = s" for i
      using that j srt(1) nth_eq_iff_index_eq [of keys i j] by (simp add: strict_sorted_iff)
    then have "\<forall>i. Some j = Some i \<longleftrightarrow> i < length keys \<and> keys ! i = s" using j by blast
    moreover have "dict_ordinal (new_lazy (write_dict keys) (length keys)) s = Some (Some j)"
      using Inr dict_ordinal_iter [OF written_dict_reads(2) [OF assms], of s] by simp
    ultimately show ?thesis by blast
  qed
qed

lemma validate_entries_write:
  assumes "dict_keys_ok keys" "usize_fits (length (pre @ write_dict keys))"
    "case prev of None \<Rightarrow> True | Some p \<Rightarrow> \<forall>k \<in> set keys. p < k"
  shows "validate_entries (pre @ write_dict keys) (length keys) (length pre) prev = ok (length (pre @ write_dict keys))"
  using assms
proof (induction keys arbitrary: pre prev)
  case (Cons k keys)
  let ?all = "pre @ write_dict (k # keys)"
  have k: "length k < 2 ^ 32" "utf8_valid k" "dict_keys_ok keys" "\<forall>x \<in> set keys. k < x"
    using Cons.prems(1) by (auto simp: dict_keys_ok_def)
  have p: "\<not> (case prev of None \<Rightarrow> False | Some p \<Rightarrow> p \<ge> k)"
    using Cons.prems(3) by (auto split: option.splits)
  have f: "usize_fits (length pre + 4)" "usize_fits (length pre + 4 + length k)" "\<not> length pre + 4 + length k > length ?all"
    using Cons.prems(2) by (auto simp: usize_fits_def)
  have "validate_entries ((pre @ dict_entry k) @ write_dict keys) (length keys) (length (pre @ dict_entry k)) (Some k) =
      ok (length ((pre @ dict_entry k) @ write_dict keys))"
    using Cons.prems(2) k by (intro Cons.IH) simp_all
  then have ih: "validate_entries ?all (length keys) (length pre + 4 + length k) (Some k) = ok (length ?all)"
    by (simp add: add.assoc)
  have l: "le_u32 ?all (length pre) = Some (length k)" "take (length k) (drop (length pre + 4) ?all) = k"
    using le_u32_entry [OF k(1), of pre "write_dict keys"] entry_text [of k pre "write_dict keys"] by simp_all
  have u: "from_utf8 k = Inr k" using k(2) by (simp add: from_utf8_def)
  show ?case using f l p ih u unfolding list.size validate_entries.simps Let_def
    by (simp only: fallible_simps add_0_right add_Suc_right if_True if_False not_True_eq_False validate_entries.simps Let_def)
qed simp

lemma validate_entries_step:
  "0 < n \<Longrightarrow> validate_entries data n pos previous = validate_entries data (Suc (n - 1)) pos previous"
  by simp

lemma read_entry:
  assumes "le_u32 data pos = Some len" "pos + 4 + len \<le> length data" "k = take len (drop (pos + 4) data)"
  shows "length k = len" "len < 2 ^ 32" "drop pos data = dict_entry k @ drop (pos + 4 + len) data"
proof -
  show len: "length k = len" "len < 2 ^ 32"
    using assms unsigned_less [of "of_le (take 4 (drop pos data)) :: u32", where ?'a = nat]
    by (auto simp: le_u32_def split: if_splits)
  have "word_of_nat len = (of_le (take 4 (drop pos data)) :: u32)" using assms(1) by (auto simp: le_u32_def split: if_splits)
  moreover have "to_le 4 (of_le (take 4 (drop pos data)) :: u32) = take 4 (drop pos data)"
    using assms(2) to_le_of_le [where 'a = 32, of "take 4 (drop pos data)"] by simp
  ultimately have "u32_le (word_of_nat len) = take 4 (drop pos data)" by (simp add: u32_le_def)
  moreover have "drop pos data = take 4 (drop pos data) @ take len (drop (pos + 4) data) @ drop (pos + 4 + len) data"
    by (metis add.commute append_take_drop_id drop_drop)
  ultimately show "drop pos data = dict_entry k @ drop (pos + 4 + len) data" using len(1) assms(3) by (simp add: dict_entry_def)
qed

lemma validated_entries:
  assumes "validate_entries data n pos prev = Some (Inr p)" "pos \<le> length data"
  shows "\<exists>keys. length keys = n \<and> dict_keys_ok keys \<and> take (p - pos) (drop pos data) = write_dict keys \<and>
    pos \<le> p \<and> p \<le> length data \<and> (case prev of None \<Rightarrow> True | Some q \<Rightarrow> \<forall>k \<in> set keys. q < k)"
  using assms
proof (induction n arbitrary: pos prev)
  case 0
  then show ?case by (auto simp: dict_keys_ok_def split: option.splits)
next
  case (Suc n)
  obtain len where l: "le_u32 data pos = Some len" using Suc.prems(1)
    by (auto simp: Let_def tbind_ok split: if_splits)
  define k where "k = take len (drop (pos + 4) data)"
  have f: "usize_fits (pos + 4)" "usize_fits (pos + 4 + len)" "pos + 4 + len \<le> length data" "utf8_valid k"
      "\<not> (case prev of None \<Rightarrow> False | Some q \<Rightarrow> q \<ge> k)"
      "validate_entries data n (pos + 4 + len) (Some k) = Some (Inr p)"
    using Suc.prems(1) l unfolding k_def by (auto simp: Let_def tbind_ok from_utf8_def split: if_splits)
  obtain keys where ih: "length keys = n" "dict_keys_ok keys" "take (p - (pos + 4 + len)) (drop (pos + 4 + len) data) = write_dict keys"
      "pos + 4 + len \<le> p" "p \<le> length data" "\<forall>x \<in> set keys. k < x"
    using Suc.IH [OF f(6,3)] by auto
  note len = read_entry [OF l f(3) k_def]
  have "take (p - pos) (drop pos data) = write_dict (k # keys)"
    unfolding len(3) using ih(3,4) len(1) by (simp add: add.assoc)
  moreover have "dict_keys_ok (k # keys)" using ih(2,6) f(4) len by (auto simp: dict_keys_ok_def)
  moreover have "case prev of None \<Rightarrow> True | Some q \<Rightarrow> \<forall>x \<in> set (k # keys). q < x"
    using f(5) ih(6) by (auto split: option.splits)
  ultimately show ?case using ih(1,4,5) by (intro exI [of _ "k # keys"]) simp
qed

lemma validate_iff_written:
  assumes "usize_fits (length data)"
  shows "validate_text_dict_bytes data count = Some (Inr ()) \<longleftrightarrow>
    (\<exists>keys. length keys = count \<and> dict_keys_ok keys \<and> data = write_dict keys)"
proof
  assume "validate_text_dict_bytes data count = Some (Inr ())"
  then obtain p where "validate_entries data count 0 None = Some (Inr p)" "p = length data"
    by (auto simp: validate_text_dict_bytes_def tbind_ok split: if_splits)
  then show "\<exists>keys. length keys = count \<and> dict_keys_ok keys \<and> data = write_dict keys"
    using validated_entries [of data count 0 None p] by auto
next
  assume "\<exists>keys. length keys = count \<and> dict_keys_ok keys \<and> data = write_dict keys"
  then obtain keys where k: "length keys = count" "dict_keys_ok keys" "data = write_dict keys" by blast
  have "validate_entries data count 0 None = ok (length data)"
    using validate_entries_write [of keys "[]" None] k assms by simp
  moreover have "count * 4 \<le> length data" using k by (simp add: length_write_dict)
  ultimately show "validate_text_dict_bytes data count = Some (Inr ())"
    using assms by (simp add: validate_text_dict_bytes_def usize_fits_def)
qed

section \<open>Properties\<close>

text \<open>
  C34. Validation accepts exactly the bytes that the dictionary writer produces from
  some strictly increasing list of valid strings, for the number of strings in it.
\<close>

theorem text_dict_validation_exact:
  assumes "usize_fits (length data)"
  shows "validate_text_dict_bytes data count = Some (Inr ()) \<longleftrightarrow>
    (\<exists>keys. length keys = count \<and> strictly_sorted keys \<and> (\<forall>k \<in> set keys. utf8_valid k \<and> length k < 2 ^ 32) \<and>
      data = write_dict keys)"
  using validate_iff_written [OF assms] by (auto simp: dict_keys_ok_def)

theorem text_dict_validation_exact_witness:
  "validate_text_dict_bytes (write_dict [[97], [97, 98]]) 2 = Some (Inr ())"
proof -
  have f: "usize_fits (length (write_dict [[97], [97, 98 :: u8]]))" by (simp add: usize_fits_def)
  have "strictly_sorted [[97], [97, 98 :: u8]]" "\<forall>k \<in> set [[97], [97, 98 :: u8]]. utf8_valid k \<and> length k < 2 ^ 32"
    by (simp_all add: utf8_valid.simps)
  then show ?thesis unfolding text_dict_validation_exact [OF f, of 2] by (intro exI [of _ "[[97], [97, 98]]"]) simp
qed

text \<open>
  Opening a validated dictionary gives a reader in which no lookup panics, every
  ordinal below the count has a string, the strings increase, and looking up a
  string finds its ordinal, or nothing if it is absent.
\<close>

lemma text_dict_lookup:
  assumes "open_from_raw data count = Some (Inr d)" "length data < 2 ^ 32"
  shows "\<exists>keys. length keys = count \<and> strictly_sorted keys \<and>
    (\<forall>i. dict_get d i = Some (if i < count then Some (keys ! i) else None)) \<and>
    (\<forall>s. \<exists>r. dict_ordinal d s = Some r \<and> (\<forall>i. r = Some i \<longleftrightarrow> i < count \<and> keys ! i = s))"
proof -
  have f: "usize_fits (length data)" using assms(2) by (simp add: usize_fits_def)
  have v: "validate_text_dict_bytes data count = Some (Inr ())" and d: "d = new_lazy data count"
    using assms(1) by (auto simp: open_from_raw_def tbind_ok)
  obtain keys where k: "length keys = count" "dict_keys_ok keys" "data = write_dict keys"
    using v validate_iff_written [OF f] by blast
  show ?thesis using written_dict_reads(1) [OF k(2)] written_dict_ordinal [OF k(2)] k assms(2)
    by (intro exI [of _ keys]) (simp add: d dict_keys_ok_def)
qed

text \<open>Where validation panics: a prefix of valid entries uses up all but the last three bytes.\<close>

lemma le_u32_None: "le_u32 data pos = None \<longleftrightarrow> length data < pos + 4"
  by (auto simp: le_u32_def slice_def)

lemma validate_entries_panics:
  assumes "dict_keys_ok keys" "length keys < n" "length rest < 4" "length (pre @ write_dict keys @ rest) < 2 ^ 63"
    "case prev of None \<Rightarrow> True | Some p \<Rightarrow> \<forall>k \<in> set keys. p < k"
  shows "validate_entries (pre @ write_dict keys @ rest) n (length pre) prev = None"
  using assms
proof (induction keys arbitrary: pre prev n)
  case Nil
  then have "le_u32 (pre @ rest) (length pre) = None" by (simp add: le_u32_None)
  then show ?case using Nil.prems by (cases n) (simp_all add: usize_fits_def)
next
  case (Cons k keys)
  let ?all = "pre @ write_dict (k # keys) @ rest"
  obtain m where n: "n = Suc m" "length keys < m" using Cons.prems(2) by (cases n) auto
  have k: "length k < 2 ^ 32" "utf8_valid k" "dict_keys_ok keys" "\<forall>x \<in> set keys. k < x"
    using Cons.prems(1) by (auto simp: dict_keys_ok_def)
  have p: "\<not> (case prev of None \<Rightarrow> False | Some p \<Rightarrow> p \<ge> k)"
    using Cons.prems(5) by (auto split: option.splits)
  have f: "usize_fits (length pre + 4)" "usize_fits (length pre + 4 + length k)" "\<not> length pre + 4 + length k > length ?all"
    using Cons.prems(4) by (auto simp: usize_fits_def)
  have "validate_entries ((pre @ dict_entry k) @ write_dict keys @ rest) m (length (pre @ dict_entry k)) (Some k) = None"
    using Cons.prems(3,4) k n(2) by (intro Cons.IH) simp_all
  then have ih: "validate_entries ?all m (length pre + 4 + length k) (Some k) = None" by (simp add: add.assoc)
  have l: "le_u32 ?all (length pre) = Some (length k)" "take (length k) (drop (length pre + 4) ?all) = k"
    using le_u32_entry [OF k(1), of pre "write_dict keys @ rest"] entry_text [of k pre "write_dict keys @ rest"] by simp_all
  have u: "from_utf8 k = Inr k" using k(2) by (simp add: from_utf8_def)
  show ?case using f l p ih u unfolding n(1) validate_entries.simps Let_def
    by (simp only: fallible_simps if_True if_False not_True_eq_False)
qed

lemma validate_entries_panicked:
  assumes "validate_entries data n pos prev = None" "pos \<le> length data"
  shows "\<exists>keys rest. length keys < n \<and> dict_keys_ok keys \<and> drop pos data = write_dict keys @ rest \<and> length rest < 4 \<and>
    (case prev of None \<Rightarrow> True | Some q \<Rightarrow> \<forall>k \<in> set keys. q < k)"
  using assms
proof (induction n arbitrary: pos prev)
  case 0
  then show ?case by (simp add: ok_def)
next
  case (Suc n)
  show ?case
  proof (cases "le_u32 data pos")
    case None
    then have "length (drop pos data) < 4" using Suc.prems(2) by (simp add: le_u32_None)
    then show ?thesis by (intro exI [of _ "[]"] exI [of _ "drop pos data"]) (auto simp: dict_keys_ok_def split: option.splits)
  next
    case (Some len)
    define k where "k = take len (drop (pos + 4) data)"
    have f: "pos + 4 + len \<le> length data" "utf8_valid k" "\<not> (case prev of None \<Rightarrow> False | Some q \<Rightarrow> q \<ge> k)"
        "validate_entries data n (pos + 4 + len) (Some k) = None"
      using Suc.prems(1) Some unfolding k_def
      by (auto simp: Let_def from_utf8_def tbind_None split: if_splits)
    obtain keys rest where ih: "length keys < n" "dict_keys_ok keys" "drop (pos + 4 + len) data = write_dict keys @ rest"
        "length rest < 4" "\<forall>x \<in> set keys. k < x"
      using Suc.IH [OF f(4,1)] by auto
    note len = read_entry [OF Some f(1) k_def]
    have "dict_keys_ok (k # keys)" using ih(2,5) f(2) len by (auto simp: dict_keys_ok_def)
    moreover have "drop pos data = write_dict (k # keys) @ rest" unfolding len(3) ih(3) by simp
    moreover have "case prev of None \<Rightarrow> True | Some q \<Rightarrow> \<forall>x \<in> set (k # keys). q < x"
      using f(3) ih(5) by (auto split: option.splits)
    ultimately show ?thesis using ih(1,4) by (intro exI [of _ "k # keys"] exI [of _ rest]) simp
  qed
qed

text \<open>
  C39. Validation of a dictionary panics exactly on one class of malformed bytes: the
  claimed number of entries passes the size check, the data begins with fewer valid,
  strictly increasing entries than claimed, and after them fewer than the four bytes of
  a length field are left. The code then slices past the end of the data instead of
  returning an error. On every other input it returns.
\<close>

theorem text_dict_validation_panics:
  assumes "length data < 2 ^ 63"
  shows "validate_text_dict_bytes data count = None \<longleftrightarrow>
    count * 4 \<le> length data \<and>
    (\<exists>keys rest. length keys < count \<and> strictly_sorted keys \<and> (\<forall>k \<in> set keys. utf8_valid k \<and> length k < 2 ^ 32) \<and>
       data = write_dict keys @ rest \<and> length rest < 4)"
proof -
  have "validate_text_dict_bytes data count = None \<longleftrightarrow> count * 4 \<le> length data \<and> validate_entries data count 0 None = None"
    using assms by (auto simp: validate_text_dict_bytes_def usize_fits_def tbind_None split: if_splits)
  also have "validate_entries data count 0 None = None \<longleftrightarrow>
      (\<exists>keys rest. length keys < count \<and> dict_keys_ok keys \<and> data = write_dict keys @ rest \<and> length rest < 4)"
    using validate_entries_panicked [of data count 0 None] validate_entries_panics [of _ count _ "[]" None] assms by fastforce
  finally show ?thesis by (simp add: dict_keys_ok_def)
qed

theorem text_dict_validation_panics_witness:
  "validate_text_dict_bytes [4, 0, 0, 0, 97, 98, 99, 100] 2 = None"
proof -
  have "[4, 0, 0, 0, 97, 98, 99, 100] = write_dict [[97, 98, 99, 100]] @ []"
    by (simp add: dict_entry_def u32_le_def to_le_def upt_rec)
  moreover have "utf8_valid [97, 98, 99, 100]" by (simp add: utf8_valid.simps)
  ultimately show ?thesis
    by (intro text_dict_validation_panics [THEN iffD2]) (auto intro!: exI [of _ "[[97, 98, 99, 100]]"])
qed

end
