(* ===== verification/FastFieldWriter.thy ===== *)
theory FastFieldWriter
  imports TextDict
begin

text \<open>
  This theory models the column writer of
  \<open>src/summa-core/src/structures/fast_field/mod.rs\<close>: \<open>FastFieldWriter\<close> with its four
  constructors, the recording operations, padding, ordinal resolution and
  \<open>serialize\<close>, and \<open>missing_block_data\<close>. Document ids are natural numbers below
  \<open>2 ^ 32\<close>, a \<open>BTreeMap\<close> is the list of its entries in key order, and \<open>None\<close> is a
  panic or, for \<open>pad_to\<close>, a loop that does not end.
\<close>

section \<open>Vectors and ordered maps\<close>

definition resize :: "nat \<Rightarrow> 'a \<Rightarrow> 'a list \<Rightarrow> 'a list" where
  "resize n x xs = take n xs @ replicate (n - length xs) x"

fun entry_or_insert :: "'k::linorder \<Rightarrow> 'v \<Rightarrow> ('k \<times> 'v) list \<Rightarrow> ('k \<times> 'v) list" where
  "entry_or_insert k v [] = [(k, v)]"
| "entry_or_insert k v ((k', v') # m) =
     (if k < k' then (k, v) # (k', v') # m
      else if k = k' then (k', v') # m
      else (k', v') # entry_or_insert k v m)"

section \<open>The writer\<close>

record fast_field_writer =
  fw_column_type :: fast_field_column_type
  fw_multi :: bool
  fw_values :: "u64 list"
  fw_multi_values :: "u64 list"
  fw_multi_offsets :: "nat list"
  fw_multi_current_doc :: nat
  fw_text_values :: "(str \<times> nat) list option"
  fw_text_per_doc :: "str option list option"
  fw_text_multi_values :: "str list option"

definition new_numeric :: "fast_field_column_type \<Rightarrow> fast_field_writer" where
  "new_numeric ct = \<lparr>fw_column_type = ct, fw_multi = False, fw_values = [], fw_multi_values = [],
     fw_multi_offsets = [0], fw_multi_current_doc = 0, fw_text_values = None, fw_text_per_doc = None,
     fw_text_multi_values = None\<rparr>"

definition new_numeric_multi :: "fast_field_column_type \<Rightarrow> fast_field_writer" where
  "new_numeric_multi ct = \<lparr>fw_column_type = ct, fw_multi = True, fw_values = [], fw_multi_values = [],
     fw_multi_offsets = [0], fw_multi_current_doc = 0, fw_text_values = None, fw_text_per_doc = None,
     fw_text_multi_values = None\<rparr>"

definition new_text :: fast_field_writer where
  "new_text = \<lparr>fw_column_type = ColTextOrdinal, fw_multi = False, fw_values = [], fw_multi_values = [],
     fw_multi_offsets = [0], fw_multi_current_doc = 0, fw_text_values = Some [], fw_text_per_doc = Some [],
     fw_text_multi_values = None\<rparr>"

definition new_text_multi :: fast_field_writer where
  "new_text_multi = \<lparr>fw_column_type = ColTextOrdinal, fw_multi = True, fw_values = [], fw_multi_values = [],
     fw_multi_offsets = [0], fw_multi_current_doc = 0, fw_text_values = Some [], fw_text_per_doc = None,
     fw_text_multi_values = Some []\<rparr>"

function skip_docs :: "fast_field_writer \<Rightarrow> nat \<Rightarrow> fast_field_writer" where
  "skip_docs w doc =
     (if fw_multi_current_doc w < doc
      then skip_docs (w\<lparr>fw_multi_current_doc := fw_multi_current_doc w + 1,
                        fw_multi_offsets := fw_multi_offsets w @ [as_u32 (length (fw_multi_values w))]\<rparr>) doc
      else w)"
  by pat_completeness auto
termination
  by (relation "measure (\<lambda>(w, doc). doc - fw_multi_current_doc w)") auto

declare skip_docs.simps [simp del]

definition add_multi_u64 :: "fast_field_writer \<Rightarrow> nat \<Rightarrow> u64 \<Rightarrow> fast_field_writer" where
  "add_multi_u64 w doc v =
     (let w' = skip_docs w doc in w'\<lparr>fw_multi_values := fw_multi_values w' @ [v]\<rparr>)"

definition add_u64 :: "fast_field_writer \<Rightarrow> nat \<Rightarrow> u64 \<Rightarrow> fast_field_writer" where
  "add_u64 w doc v =
     (if fw_multi w then add_multi_u64 w doc v
      else let w' = (if doc \<ge> length (fw_values w)
             then w\<lparr>fw_values := resize (doc + 1) FAST_FIELD_MISSING (fw_values w),
                    fw_text_per_doc := map_option (resize (doc + 1) None) (fw_text_per_doc w)\<rparr>
             else w)
           in w'\<lparr>fw_values := (fw_values w')[doc := v]\<rparr>)"

definition add_i64 :: "fast_field_writer \<Rightarrow> nat \<Rightarrow> 64 word \<Rightarrow> fast_field_writer" where
  "add_i64 w doc v = add_u64 w doc (zigzag_encode v)"

definition add_f64 :: "fast_field_writer \<Rightarrow> nat \<Rightarrow> u64 \<Rightarrow> fast_field_writer" where
  "add_f64 w doc fbits = add_u64 w doc (f64_to_sortable_u64 fbits)"

definition add_text :: "fast_field_writer \<Rightarrow> nat \<Rightarrow> str \<Rightarrow> fast_field_writer" where
  "add_text w doc s =
     (let w1 = w\<lparr>fw_text_values :=
            map_option (\<lambda>dict. entry_or_insert s (as_u32 (length dict)) dict) (fw_text_values w)\<rparr>
      in if fw_multi w1
         then (case fw_text_multi_values w1 of
                 None \<Rightarrow> w1
               | Some tmv \<Rightarrow>
                   let w2 = skip_docs w1 doc
                   in w2\<lparr>fw_multi_values := fw_multi_values w2 @ [0], fw_text_multi_values := Some (tmv @ [s])\<rparr>)
         else let w2 = (if doc \<ge> length (fw_values w1)
                 then w1\<lparr>fw_values := resize (doc + 1) FAST_FIELD_MISSING (fw_values w1)\<rparr> else w1)
              in (case fw_text_per_doc w2 of
                    None \<Rightarrow> w2
                  | Some tpd \<Rightarrow>
                      let tpd' = (if doc \<ge> length tpd then resize (doc + 1) None tpd else tpd)
                      in w2\<lparr>fw_text_per_doc := Some (tpd'[doc := Some s])\<rparr>))"

text \<open>\<open>None\<close>: the loop does not end, since the length wraps at \<open>2 ^ 32\<close>.\<close>

partial_function (option) pad_offsets :: "nat list \<Rightarrow> nat \<Rightarrow> nat \<Rightarrow> nat list option" where
  "pad_offsets offs v num_docs =
     (if as_u32 (length offs) \<le> num_docs then pad_offsets (offs @ [v]) v num_docs else Some offs)"

definition pad_to :: "fast_field_writer \<Rightarrow> nat \<Rightarrow> fast_field_writer option" where
  "pad_to w num_docs =
     (if fw_multi w
      then map_option (\<lambda>offs. w\<lparr>fw_multi_offsets := offs, fw_multi_current_doc := num_docs\<rparr>)
             (pad_offsets (fw_multi_offsets w) (as_u32 (length (fw_multi_values w))) num_docs)
      else if length (fw_values w) < num_docs
      then Some (w\<lparr>fw_values := resize num_docs FAST_FIELD_MISSING (fw_values w),
                   fw_text_per_doc := map_option (resize num_docs None) (fw_text_per_doc w)\<rparr>)
      else Some w)"

definition writer_num_docs :: "fast_field_writer \<Rightarrow> nat" where
  "writer_num_docs w =
     (if fw_multi w then as_u32 (length (fw_multi_offsets w)) - 1 else as_u32 (length (fw_values w)))"

section \<open>Serialisation\<close>

text \<open>The position of a string among the sorted keys; \<open>None\<close> is the panic of an absent key.\<close>

definition sorted_ordinal :: "(str \<times> nat) list \<Rightarrow> str \<Rightarrow> u64 option" where
  "sorted_ordinal dict s = map_of (map (\<lambda>(ord, key). (key, word_of_nat ord)) (enumerate 0 (map fst dict))) s"

fun resolve_multi :: "(str \<times> nat) list \<Rightarrow> (nat \<times> str) list \<Rightarrow> u64 list \<Rightarrow> u64 list option" where
  "resolve_multi dict [] vs = Some vs"
| "resolve_multi dict ((i, s) # rest) vs = do {
     ord \<leftarrow> sorted_ordinal dict s;
     if i < length vs then resolve_multi dict rest (vs[i := ord]) else None }"

fun resolve_single :: "(str \<times> nat) list \<Rightarrow> (nat \<times> str option) list \<Rightarrow> u64 list \<Rightarrow> u64 list option" where
  "resolve_single dict [] vs = Some vs"
| "resolve_single dict ((i, doc_text) # rest) vs = do {
     v \<leftarrow> (case doc_text of Some s \<Rightarrow> sorted_ordinal dict s | None \<Rightarrow> Some FAST_FIELD_MISSING);
     if i < length vs then resolve_single dict rest (vs[i := v]) else None }"

definition resolve_text_ordinals :: "fast_field_writer \<Rightarrow> fast_field_writer option" where
  "resolve_text_ordinals w = do {
     dict \<leftarrow> fw_text_values w;
     if fw_multi w
     then (case fw_text_multi_values w of
             None \<Rightarrow> Some w
           | Some tmv \<Rightarrow> do {
               vs \<leftarrow> resolve_multi dict (enumerate 0 tmv) (fw_multi_values w);
               Some (w\<lparr>fw_multi_values := vs\<rparr>) })
     else do {
       tpd \<leftarrow> fw_text_per_doc w;
       vs \<leftarrow> resolve_single dict (enumerate 0 tpd) (fw_values w);
       Some (w\<lparr>fw_values := vs\<rparr>) } }"

definition write_text_dictionary :: "fast_field_writer \<Rightarrow> (nat \<times> bytes) option" where
  "write_text_dictionary w = do {
     dict \<leftarrow> fw_text_values w;
     Some (as_u32 (length dict), write_dict (map fst dict)) }"

definition column_block_data :: "fast_field_writer \<Rightarrow> bytes fallible" where
  "column_block_data w =
     (if fw_multi w
      then tbind (serialize_auto (map word_of_nat (fw_multi_offsets w))) (\<lambda>(offset_buf, _).
        tbind (serialize_auto (fw_multi_values w)) (\<lambda>(value_buf, _).
          ok (u32_le (word_of_nat (length offset_buf)) @ offset_buf @ value_buf)))
      else tbind (serialize_auto (fw_values w)) (\<lambda>(buf, _). ok buf))"

definition writer_serialize :: "fast_field_writer \<Rightarrow> u64 \<Rightarrow> (fast_field_toc_entry \<times> bytes) fallible" where
  "writer_serialize w0 data_offset =
     tbind (unpanicked (if fw_column_type w0 = ColTextOrdinal then resolve_text_ordinals w0 else Some w0)) (\<lambda>w.
     let num_docs = writer_num_docs w
     in tbind (column_block_data w) (\<lambda>block_data.
     tbind (unpanicked (if fw_column_type w = ColTextOrdinal then write_text_dictionary w else Some (0, []))) (\<lambda>(dict_count, dict_buf).
     let entry = \<lparr>bie_num_docs = word_of_nat num_docs, bie_data_len = word_of_nat (length block_data),
                  bie_dict_count = word_of_nat dict_count, bie_dict_len = word_of_nat (length dict_buf)\<rparr>;
         out = u32_le 1 @ block_index_write_to entry @ block_data @ dict_buf;
         toc = \<lparr>toc_field_id = 0, toc_column_type = fw_column_type w, toc_multi = fw_multi w,
                toc_data_offset = data_offset, toc_data_len = word_of_nat (length out),
                toc_num_docs = word_of_nat num_docs, toc_dict_offset = 0, toc_dict_count = 0\<rparr>
     in ok (toc, out))))"

definition missing_block_data :: "bool \<Rightarrow> bytes fallible" where
  "missing_block_data multi =
     (if multi
      then tbind (serialize_auto [0]) (\<lambda>(offsets, _).
        tbind (serialize_auto []) (\<lambda>(vals, _). ok (u32_le (word_of_nat (length offsets)) @ offsets @ vals)))
      else tbind (serialize_auto [FAST_FIELD_MISSING]) (\<lambda>(buf, _). ok buf))"

section \<open>Single-valued columns\<close>

lemma length_resize [simp]: "length (resize n x xs) = n"
  by (simp add: resize_def)

lemma nth_resize: "i < n \<Longrightarrow> resize n x xs ! i = (if i < length xs then xs ! i else x)"
  by (simp add: resize_def nth_append)

definition vec_at :: "'a \<Rightarrow> 'a list \<Rightarrow> nat \<Rightarrow> 'a" where
  "vec_at x xs i = (if i < length xs then xs ! i else x)"

lemma vec_at_Nil: "vec_at x [] = (\<lambda>_. x)"
  by (simp add: vec_at_def fun_eq_iff)

lemma vec_at_resize: "length xs \<le> n \<Longrightarrow> vec_at x (resize n x xs) = vec_at x xs"
  by (rule ext) (auto simp: vec_at_def nth_resize)

lemma vec_at_update: "i < length xs \<Longrightarrow> vec_at x (xs[i := v]) = (vec_at x xs)(i := v)"
  by (rule ext) (auto simp: vec_at_def)

definition put_at :: "'a \<Rightarrow> nat \<Rightarrow> 'a \<Rightarrow> 'a list \<Rightarrow> 'a list" where
  "put_at x i v xs = (if i \<ge> length xs then resize (i + 1) x xs else xs)[i := v]"

lemma vec_at_put: "vec_at x (put_at x i v xs) = (vec_at x xs)(i := v)"
  by (simp add: put_at_def vec_at_update vec_at_resize)

lemma length_put_at [simp]: "length (put_at x i v xs) = max (i + 1) (length xs)"
  by (simp add: put_at_def)

lemma vec_at_map: "xs = map (vec_at x xs) [0..<length xs]"
  by (rule nth_equalityI) (simp_all add: vec_at_def)

text \<open>The last value recorded for each document, in the order of the calls.\<close>

definition recorded :: "'a \<Rightarrow> (nat \<times> 'a) list \<Rightarrow> nat \<Rightarrow> 'a" where
  "recorded x adds = fold (\<lambda>(d, v) m. m(d := v)) adds (\<lambda>_. x)"

lemma fold_put_at: "vec_at x (fold (\<lambda>(d, v). put_at x d v) adds xs) = fold (\<lambda>(d, v) m. m(d := v)) adds (vec_at x xs)"
  by (induction adds arbitrary: xs) (auto simp: vec_at_put)

lemma length_fold_put_at:
  "\<forall>(d, v) \<in> set adds. d < n \<Longrightarrow> length xs \<le> n \<Longrightarrow> length (fold (\<lambda>(d, v). put_at x d v) adds xs) \<le> n"
  by (induction adds arbitrary: xs) auto

definition add_all :: "fast_field_writer \<Rightarrow> (nat \<times> u64) list \<Rightarrow> fast_field_writer" where
  "add_all w adds = foldl (\<lambda>w (d, v). add_u64 w d v) w adds"

lemma add_u64_single:
  assumes "\<not> fw_multi w" "fw_text_per_doc w = None"
  shows "add_u64 w d v = w\<lparr>fw_values := put_at FAST_FIELD_MISSING d v (fw_values w)\<rparr>"
  using assms by (simp add: add_u64_def Let_def put_at_def)

lemma add_all_single:
  assumes "\<not> fw_multi w" "fw_text_per_doc w = None"
  shows "add_all w adds = w\<lparr>fw_values := fold (\<lambda>(d, v). put_at FAST_FIELD_MISSING d v) adds (fw_values w)\<rparr>"
  using assms unfolding add_all_def
  by (induction adds arbitrary: w) (auto simp: add_u64_single)

lemma single_column:
  assumes "\<forall>(d, v) \<in> set adds. d < n"
  shows "pad_to (add_all (new_numeric ct) adds) n =
    Some ((new_numeric ct)\<lparr>fw_values := map (recorded FAST_FIELD_MISSING adds) [0..<n]\<rparr>)"
proof -
  define vs where "vs = fold (\<lambda>(d, v). put_at FAST_FIELD_MISSING d v) adds []"
  have w: "add_all (new_numeric ct) adds = (new_numeric ct)\<lparr>fw_values := vs\<rparr>"
    using add_all_single [of "new_numeric ct" adds] by (simp add: vs_def new_numeric_def)
  have len: "length vs \<le> n" unfolding vs_def by (rule length_fold_put_at [OF assms]) simp
  have at: "vec_at FAST_FIELD_MISSING vs = recorded FAST_FIELD_MISSING adds"
    using fold_put_at [of FAST_FIELD_MISSING adds "[]"] by (simp add: vs_def recorded_def vec_at_Nil)
  have "(if length vs < n then resize n FAST_FIELD_MISSING vs else vs) = map (recorded FAST_FIELD_MISSING adds) [0..<n]"
  proof (rule nth_equalityI)
    fix i assume "i < length (if length vs < n then resize n FAST_FIELD_MISSING vs else vs)"
    then have "i < n" using len by (simp split: if_splits)
    moreover have "vec_at FAST_FIELD_MISSING vs i = recorded FAST_FIELD_MISSING adds i" by (simp add: at)
    ultimately show "(if length vs < n then resize n FAST_FIELD_MISSING vs else vs) ! i =
        map (recorded FAST_FIELD_MISSING adds) [0..<n] ! i"
      using len by (auto simp: nth_resize vec_at_def split: if_splits)
  qed (use len in auto)
  then show ?thesis unfolding w by (auto simp: pad_to_def new_numeric_def split: if_splits)
qed

section \<open>Multi-valued columns\<close>

definition value_offset :: "(nat \<times> 'a) list \<Rightarrow> nat \<Rightarrow> nat" where
  "value_offset adds d = length (filter (\<lambda>(x, _). x < d) adds)"

definition doc_values :: "(nat \<times> 'a) list \<Rightarrow> nat \<Rightarrow> 'a list" where
  "doc_values adds d = map snd (filter (\<lambda>(x, _). x = d) adds)"

lemma value_offset_mono: "d \<le> e \<Longrightarrow> value_offset adds d \<le> value_offset adds e"
  unfolding value_offset_def by (induction adds) auto

lemma value_offset_0 [simp]: "value_offset adds 0 = 0"
  by (simp add: value_offset_def)

lemma value_offset_le: "value_offset adds d \<le> length adds"
  by (simp add: value_offset_def)

lemma value_offset_all: "\<forall>(x, _) \<in> set adds. x < d \<Longrightarrow> value_offset adds d = length adds"
  unfolding value_offset_def by (subst filter_True) auto

lemma sorted_three:
  fixes adds :: "(nat \<times> 'a) list"
  assumes "sorted (map fst adds)"
  shows "adds = filter (\<lambda>(x, _). x < d) adds @ filter (\<lambda>(x, _). x = d) adds @ filter (\<lambda>(x, _). d < x) adds"
  using assms
proof (induction adds)
  case (Cons a adds)
  have ge: "\<forall>y \<in> set adds. fst a \<le> fst y" using Cons.prems by auto
  consider "fst a < d" | "fst a = d" | "d < fst a" by linarith
  then show ?case
  proof cases
    case 1
    then show ?thesis using Cons by (simp add: split_beta)
  next
    case 2
    then have "filter (\<lambda>a. fst a < d) adds = []" using ge by (auto simp: filter_empty_conv)
    then show ?thesis using 2 Cons by (simp add: split_beta)
  next
    case 3
    then have "filter (\<lambda>a. fst a < d) adds = []" "filter (\<lambda>a. fst a = d) adds = []"
      using ge by (auto simp: filter_empty_conv)
    then show ?thesis using 3 Cons by (simp add: split_beta)
  qed
qed simp

lemma value_offset_Suc: "value_offset adds (d + 1) = value_offset adds d + length (filter (\<lambda>(x, _). x = d) adds)"
  unfolding value_offset_def by (induction adds) auto

lemma doc_values_slice:
  assumes "sorted (map fst adds)"
  shows "doc_values adds d = map (\<lambda>i. map snd adds ! i) [value_offset adds d..<value_offset adds (d + 1)]"
proof (rule nth_equalityI)
  show "length (doc_values adds d) = length (map (\<lambda>i. map snd adds ! i) [value_offset adds d..<value_offset adds (d + 1)])"
    by (simp add: doc_values_def value_offset_Suc [simplified])
  fix i assume "i < length (doc_values adds d)"
  then have i: "i < length (filter (\<lambda>(x, _). x = d) adds)" by (simp add: doc_values_def)
  let ?l = "filter (\<lambda>(x, _). x < d) adds" and ?m = "filter (\<lambda>(x, _). x = d) adds" and ?r = "filter (\<lambda>(x, _). d < x) adds"
  have "map snd adds ! (value_offset adds d + i) = map snd (?l @ ?m @ ?r) ! (length ?l + i)"
    using sorted_three [OF assms, of d] by (simp add: value_offset_def)
  also have "\<dots> = map snd ?m ! i" using i by (simp only: map_append length_map nth_append_length_plus [of "map snd ?l", unfolded length_map]) (simp add: nth_append)
  finally show "doc_values adds d ! i = map (\<lambda>i. map snd adds ! i) [value_offset adds d..<value_offset adds (d + 1)] ! i"
    using i by (simp add: doc_values_def value_offset_Suc [simplified])
qed

lemma skip_docs_eq:
  assumes "fw_multi_current_doc w \<le> d"
  shows "skip_docs w d = w\<lparr>fw_multi_current_doc := d, fw_multi_offsets := fw_multi_offsets w @
    replicate (d - fw_multi_current_doc w) (as_u32 (length (fw_multi_values w)))\<rparr>"
  using assms
proof (induction "d - fw_multi_current_doc w" arbitrary: w)
  case 0
  then show ?case by (subst skip_docs.simps) simp
next
  case (Suc k)
  let ?w = "w\<lparr>fw_multi_current_doc := fw_multi_current_doc w + 1,
     fw_multi_offsets := fw_multi_offsets w @ [as_u32 (length (fw_multi_values w))]\<rparr>"
  have lt: "fw_multi_current_doc w < d" using Suc.hyps(2) by simp
  have "skip_docs ?w d = ?w\<lparr>fw_multi_current_doc := d, fw_multi_offsets := fw_multi_offsets ?w @
      replicate (d - fw_multi_current_doc ?w) (as_u32 (length (fw_multi_values ?w)))\<rparr>"
    using Suc.hyps(2) lt by (intro Suc.hyps(1)) simp_all
  moreover have "d - fw_multi_current_doc w = Suc (d - (fw_multi_current_doc w + 1))" using lt by simp
  ultimately show ?case using lt by (subst skip_docs.simps) (simp del: diff_Suc_Suc)
qed

lemma skip_docs_le: "d \<le> fw_multi_current_doc w \<Longrightarrow> skip_docs w d = w"
  by (subst skip_docs.simps) simp

text \<open>The offsets recorded so far: one per document up to the current one.\<close>

definition multi_inv :: "fast_field_writer \<Rightarrow> (nat \<times> 'a) list \<Rightarrow> bool" where
  "multi_inv w adds \<longleftrightarrow> fw_multi w \<and> length (fw_multi_values w) = length adds \<and>
     (\<forall>(x, _) \<in> set adds. x \<le> fw_multi_current_doc w) \<and>
     fw_multi_offsets w = map (value_offset adds) [0..<fw_multi_current_doc w + 1]"

lemma value_offset_append: "value_offset (adds @ [(x, v)]) d = value_offset adds d + (if x < d then 1 else 0)"
  by (simp add: value_offset_def)

lemma multi_inv_skip:
  assumes inv: "multi_inv w adds" and le: "fw_multi_current_doc w \<le> d" and n: "length adds < 2 ^ 32"
  shows "multi_inv (skip_docs w d) adds" "fw_multi_current_doc (skip_docs w d) = d"
proof -
  let ?c = "fw_multi_current_doc w"
  have all: "value_offset adds x = length adds" if "?c < x" for x
    using inv that by (intro value_offset_all) (auto simp: multi_inv_def)
  have "map (value_offset adds) [0..<d + 1] = map (value_offset adds) [0..<?c + 1] @ map (value_offset adds) [?c + 1..<d + 1]"
    using le upt_add_eq_append [of 0 "?c + 1" "d - ?c"] by simp
  also have "map (value_offset adds) [?c + 1..<d + 1] = replicate (d - ?c) (length adds)"
    by (rule nth_equalityI) (simp_all add: all del: upt_Suc)
  finally show "multi_inv (skip_docs w d) adds" using inv le n
    by (auto simp: multi_inv_def skip_docs_eq as_u32_def)
  show "fw_multi_current_doc (skip_docs w d) = d" using le by (simp add: skip_docs_eq)
qed

lemma multi_inv_push:
  assumes "multi_inv w adds" "fw_multi_current_doc w = d" "fw_multi w' = fw_multi w"
    "length (fw_multi_values w') = length (fw_multi_values w) + 1" "fw_multi_current_doc w' = d"
    "fw_multi_offsets w' = fw_multi_offsets w"
  shows "multi_inv w' (adds @ [(d, v)])"
  using assms by (auto simp: multi_inv_def value_offset_append)

lemma pad_offsets_eq:
  assumes "length offs \<le> 2 ^ 32 - 1" "n < 2 ^ 32 - 1"
  shows "pad_offsets offs v n = Some (offs @ replicate (n + 1 - length offs) v)"
  using assms(1)
proof (induction "n + 1 - length offs" arbitrary: offs)
  case 0
  then show ?case by (subst pad_offsets.simps) (simp add: as_u32_def)
next
  case (Suc k)
  have lt: "length offs \<le> n" using Suc.hyps(2) by simp
  have "pad_offsets (offs @ [v]) v n = Some ((offs @ [v]) @ replicate (n + 1 - length (offs @ [v])) v)"
    using Suc.hyps(2) lt assms(2) by (intro Suc.hyps(1)) simp_all
  moreover have "n + 1 - length offs = Suc (n - length offs)" using lt by simp
  ultimately show ?case using lt assms(2) by (subst pad_offsets.simps) (simp add: as_u32_def)
qed

lemma multi_pad:
  assumes inv: "multi_inv w adds" and n: "fw_multi_current_doc w \<le> n" "n < 2 ^ 32 - 1" "length adds < 2 ^ 32"
  shows "pad_to w n = Some (w\<lparr>fw_multi_offsets := map (value_offset adds) [0..<n + 1], fw_multi_current_doc := n\<rparr>)"
proof -
  have "pad_offsets (fw_multi_offsets w) (as_u32 (length (fw_multi_values w))) n = Some (fw_multi_offsets (skip_docs w n))"
    using inv n by (simp add: pad_offsets_eq skip_docs_eq multi_inv_def)
  moreover have "fw_multi_offsets (skip_docs w n) = map (value_offset adds) [0..<n + 1]"
    using multi_inv_skip [OF inv, of n] n by (simp add: multi_inv_def)
  moreover have "fw_multi w" using inv by (simp add: multi_inv_def)
  ultimately show ?thesis by (simp add: pad_to_def)
qed

lemma multi_inv_new: "fw_multi w \<Longrightarrow> fw_multi_values w = [] \<Longrightarrow> fw_multi_offsets w = [0] \<Longrightarrow>
    fw_multi_current_doc w = 0 \<Longrightarrow> multi_inv w []"
  by (simp add: multi_inv_def)

text \<open>
  What the two ways of recording into a multi-valued column share: they append one
  value for the given document after closing the documents before it.
\<close>

locale multi_recorder =
  fixes put :: "fast_field_writer \<Rightarrow> nat \<Rightarrow> 'a \<Rightarrow> fast_field_writer"
    and ready :: "fast_field_writer \<Rightarrow> bool"
  assumes ready_put: "ready w \<Longrightarrow> fw_multi_current_doc w \<le> d \<Longrightarrow> ready (put w d v)"
    and put_value: "ready w \<Longrightarrow> fw_multi_current_doc w \<le> d \<Longrightarrow>
      length (fw_multi_values (put w d v)) = length (fw_multi_values w) + 1"
    and put_fields: "ready w \<Longrightarrow> fw_multi_current_doc w \<le> d \<Longrightarrow>
      fw_multi (put w d v) = fw_multi w \<and> fw_multi_current_doc (put w d v) = d \<and>
      fw_multi_offsets (put w d v) = fw_multi_offsets (skip_docs w d)"
begin

definition put_all :: "fast_field_writer \<Rightarrow> (nat \<times> 'a) list \<Rightarrow> fast_field_writer" where
  "put_all w adds = foldl (\<lambda>w (d, v). put w d v) w adds"

lemma put_inv:
  assumes "ready w" "multi_inv w old" "fw_multi_current_doc w \<le> d" "length old < 2 ^ 32"
  shows "multi_inv (put w d v) (old @ [(d, v)])"
  using multi_inv_skip [OF assms(2-4)] put_value [OF assms(1,3)] put_fields [OF assms(1,3)] assms(3)
  by (intro multi_inv_push [of "skip_docs w d"]) (simp_all add: skip_docs_eq)

lemma put_all_inv:
  assumes "ready w" "multi_inv w old" "sorted (map fst adds)" "\<forall>(d, _) \<in> set adds. fw_multi_current_doc w \<le> d"
    "length (old @ adds) < 2 ^ 32"
  shows "multi_inv (put_all w adds) (old @ adds) \<and> ready (put_all w adds) \<and>
    (\<forall>n. fw_multi_current_doc w \<le> n \<longrightarrow> (\<forall>(d, _) \<in> set adds. d \<le> n) \<longrightarrow> fw_multi_current_doc (put_all w adds) \<le> n)"
  using assms
proof (induction adds arbitrary: w old)
  case (Cons a adds)
  obtain d v where a: "a = (d, v)" by (cases a)
  have le: "fw_multi_current_doc w \<le> d" using Cons.prems(4) by (simp add: a)
  have inv: "multi_inv (put w d v) (old @ [(d, v)])"
    using Cons.prems(5) by (intro put_inv [OF Cons.prems(1,2) le]) simp
  have c: "fw_multi_current_doc (put w d v) = d" using put_fields [OF Cons.prems(1) le] by simp
  have "\<forall>(x, _) \<in> set adds. d \<le> x" using Cons.prems(3) by (auto simp: a)
  then show ?case
    using Cons.IH [of "put w d v" "old @ [(d, v)]"] ready_put [OF Cons.prems(1) le] inv Cons.prems(3,5)
    by (simp add: put_all_def a c)
qed (simp add: put_all_def)

lemma put_all_pad:
  assumes "ready w" "fw_multi w" "fw_multi_values w = []" "fw_multi_offsets w = [0]" "fw_multi_current_doc w = 0"
    "sorted (map fst adds)" "\<forall>(d, _) \<in> set adds. d < n" "n < 2 ^ 32 - 1" "length adds < 2 ^ 32"
  shows "pad_to (put_all w adds) n =
    Some ((put_all w adds)\<lparr>fw_multi_offsets := map (value_offset adds) [0..<n + 1], fw_multi_current_doc := n\<rparr>)"
proof -
  have "\<forall>(d, _) \<in> set adds. d \<le> n" using assms(7) by (auto dest: less_imp_le)
  then show ?thesis using put_all_inv [OF assms(1) multi_inv_new [OF assms(2-5)] assms(6)] assms(5,8,9)
    by (intro multi_pad) auto
qed

end

lemma add_u64_multi:
  "fw_multi w \<Longrightarrow> fw_multi_current_doc w \<le> d \<Longrightarrow> add_u64 w d v =
   w\<lparr>fw_multi_values := fw_multi_values w @ [v], fw_multi_current_doc := d, fw_multi_offsets := fw_multi_offsets (skip_docs w d)\<rparr>"
  by (simp add: add_u64_def add_multi_u64_def skip_docs_eq)

lemma add_text_multi:
  "fw_multi w \<Longrightarrow> fw_text_multi_values w = Some tmv \<Longrightarrow> fw_multi_current_doc w \<le> d \<Longrightarrow> add_text w d s =
   w\<lparr>fw_multi_values := fw_multi_values w @ [0], fw_multi_current_doc := d, fw_multi_offsets := fw_multi_offsets (skip_docs w d),
     fw_text_values := map_option (\<lambda>dict. entry_or_insert s (as_u32 (length dict)) dict) (fw_text_values w),
     fw_text_multi_values := Some (tmv @ [s])\<rparr>"
  by (simp add: add_text_def Let_def skip_docs_eq)

interpretation numeric_multi: multi_recorder add_u64 fw_multi
  by unfold_locales (simp_all add: add_u64_multi)

interpretation text_multi: multi_recorder add_text "\<lambda>w. fw_multi w \<and> fw_text_multi_values w \<noteq> None"
  by unfold_locales (auto simp: add_text_multi)

lemma add_all_multi_values:
  assumes "fw_multi w" "sorted (map fst adds)" "\<forall>(d, _) \<in> set adds. fw_multi_current_doc w \<le> d"
  shows "\<exists>c offs. numeric_multi.put_all w adds =
    w\<lparr>fw_multi_values := fw_multi_values w @ map snd adds, fw_multi_current_doc := c, fw_multi_offsets := offs\<rparr>"
  using assms
proof (induction adds arbitrary: w)
  case Nil
  then show ?case
    by (intro exI [of _ "fw_multi_current_doc w"] exI [of _ "fw_multi_offsets w"]) (simp add: numeric_multi.put_all_def)
next
  case (Cons a adds)
  obtain d v where a: "a = (d, v)" by (cases a)
  have w: "add_u64 w d v =
      w\<lparr>fw_multi_values := fw_multi_values w @ [v], fw_multi_current_doc := d, fw_multi_offsets := fw_multi_offsets (skip_docs w d)\<rparr>"
    using Cons.prems by (intro add_u64_multi) (simp_all add: a)
  have "\<forall>(x, _) \<in> set adds. d \<le> x" using Cons.prems(2) by (auto simp: a)
  then show ?case using Cons.IH [of "add_u64 w d v"] Cons.prems(1,2) by (simp add: numeric_multi.put_all_def a w)
qed

lemma multi_column:
  assumes "sorted (map fst adds)" "\<forall>(d, _) \<in> set adds. d < n" "n < 2 ^ 32 - 1" "length adds < 2 ^ 32"
  shows "pad_to (add_all (new_numeric_multi ct) adds) n =
    Some ((new_numeric_multi ct)\<lparr>fw_multi_values := map snd adds, fw_multi_offsets := map (value_offset adds) [0..<n + 1],
      fw_multi_current_doc := n\<rparr>)"
proof -
  let ?w = "new_numeric_multi ct"
  have w: "fw_multi ?w" "fw_multi_values ?w = []" "fw_multi_offsets ?w = [0]" "fw_multi_current_doc ?w = 0"
    by (simp_all add: new_numeric_multi_def)
  obtain c offs where a: "numeric_multi.put_all ?w adds =
      ?w\<lparr>fw_multi_values := map snd adds, fw_multi_current_doc := c, fw_multi_offsets := offs\<rparr>"
    using add_all_multi_values [OF w(1) assms(1)] w by auto
  show ?thesis using numeric_multi.put_all_pad [OF w(1) w assms]
    unfolding a by (simp add: add_all_def numeric_multi.put_all_def [symmetric] a)
qed

section \<open>Text columns\<close>

lemma entry_or_insert_keys: "set (map fst (entry_or_insert k v m)) = insert k (set (map fst m))"
  by (induction k v m rule: entry_or_insert.induct) auto

lemma entry_or_insert_sorted:
  "strictly_sorted (map fst m) \<Longrightarrow> strictly_sorted (map fst (entry_or_insert k v m))"
proof (induction k v m rule: entry_or_insert.induct)
  case (2 k v k' v' m)
  have "\<forall>x \<in> set (map fst (entry_or_insert k v m)). k' < x" if "k' < k" "\<forall>x \<in> set (map fst m). k' < x"
    unfolding entry_or_insert_keys using that by simp
  then show ?case using 2 by (auto dest: order.strict_trans)
qed simp

lemma map_of_enumerate:
  assumes "distinct keys" "i < length keys"
  shows "map_of (map (\<lambda>(ord, key). (key, g ord)) (enumerate n keys)) (keys ! i) = Some (g (n + i))"
  using assms
proof (induction keys arbitrary: n i)
  case (Cons k keys)
  then show ?case by (cases i) (auto simp: nth_mem)
qed simp

lemma sorted_ordinal_nth:
  assumes "strictly_sorted (map fst dict)" "i < length dict"
  shows "sorted_ordinal dict (map fst dict ! i) = Some (word_of_nat i)"
  using map_of_enumerate [of "map fst dict" i word_of_nat 0] assms
  by (simp add: sorted_ordinal_def strict_sorted_iff)

lemma sorted_ordinal_mem:
  assumes "strictly_sorted (map fst dict)" "s \<in> set (map fst dict)"
  shows "\<exists>i < length dict. map fst dict ! i = s \<and> sorted_ordinal dict s = Some (word_of_nat i)"
  using assms sorted_ordinal_nth [OF assms(1)] by (metis in_set_conv_nth length_map)

lemma resolve_multi_eq:
  assumes "n + length tmv \<le> length vs" "\<forall>s \<in> set tmv. sorted_ordinal dict s = Some (ord s)"
  shows "resolve_multi dict (enumerate n tmv) vs = Some (take n vs @ map ord tmv @ drop (n + length tmv) vs)"
  using assms
proof (induction tmv arbitrary: n vs)
  case (Cons s tmv)
  have "resolve_multi dict (enumerate (Suc n) tmv) (vs[n := ord s]) =
      Some (take (Suc n) (vs[n := ord s]) @ map ord tmv @ drop (Suc n + length tmv) (vs[n := ord s]))"
    using Cons.prems by (intro Cons.IH) simp_all
  moreover have "take (Suc n) (vs[n := ord s]) = take n vs @ [ord s]"
    using Cons.prems(1) by (simp add: take_Suc_conv_app_nth)
  ultimately show ?case using Cons.prems by simp
qed simp

lemma resolve_single_eq:
  assumes "n + length tpd \<le> length vs" "\<forall>s. Some s \<in> set tpd \<longrightarrow> sorted_ordinal dict s = Some (ord s)"
  shows "resolve_single dict (enumerate n tpd) vs =
    Some (take n vs @ map (\<lambda>x. case x of None \<Rightarrow> FAST_FIELD_MISSING | Some s \<Rightarrow> ord s) tpd @ drop (n + length tpd) vs)"
  using assms
proof (induction tpd arbitrary: n vs)
  case (Cons x tpd)
  let ?f = "\<lambda>x. case x of None \<Rightarrow> FAST_FIELD_MISSING | Some s \<Rightarrow> ord s"
  have "resolve_single dict (enumerate (Suc n) tpd) (vs[n := ?f x]) =
      Some (take (Suc n) (vs[n := ?f x]) @ map ?f tpd @ drop (Suc n + length tpd) (vs[n := ?f x]))"
    using Cons.prems by (intro Cons.IH) simp_all
  moreover have "take (Suc n) (vs[n := ?f x]) = take n vs @ [?f x]"
    using Cons.prems(1) by (simp add: take_Suc_conv_app_nth)
  moreover have "(case x of Some s \<Rightarrow> sorted_ordinal dict s | None \<Rightarrow> Some FAST_FIELD_MISSING) = Some (?f x)"
    using Cons.prems(2) by (cases x) auto
  ultimately show ?case using Cons.prems by simp
qed simp

definition add_texts :: "fast_field_writer \<Rightarrow> (nat \<times> str) list \<Rightarrow> fast_field_writer" where
  "add_texts w adds = foldl (\<lambda>w (d, s). add_text w d s) w adds"

lemma add_text_single:
  assumes "\<not> fw_multi w" "fw_text_per_doc w = Some tpd" "fw_text_values w = Some dict" "length tpd = length (fw_values w)"
  shows "\<exists>vs. add_text w d s = w\<lparr>fw_values := vs, fw_text_values := Some (entry_or_insert s (as_u32 (length dict)) dict),
      fw_text_per_doc := Some (put_at None d (Some s) tpd)\<rparr> \<and> length vs = length (put_at None d (Some s) tpd)"
proof -
  let ?vs = "if d \<ge> length (fw_values w) then resize (d + 1) FAST_FIELD_MISSING (fw_values w) else fw_values w"
  have "add_text w d s = w\<lparr>fw_values := ?vs, fw_text_values := Some (entry_or_insert s (as_u32 (length dict)) dict),
      fw_text_per_doc := Some (put_at None d (Some s) tpd)\<rparr>"
    using assms by (simp add: add_text_def Let_def put_at_def)
  moreover have "length ?vs = length (put_at None d (Some s) tpd)" using assms(4) by simp
  ultimately show ?thesis by blast
qed

definition dict_of :: "(str \<times> nat) list \<Rightarrow> str set \<Rightarrow> bool" where
  "dict_of dict S \<longleftrightarrow> strictly_sorted (map fst dict) \<and> set (map fst dict) = S"

lemma dict_of_insert: "dict_of dict S \<Longrightarrow> dict_of (entry_or_insert s v dict) (insert s S)"
  unfolding dict_of_def by (simp only: entry_or_insert_keys entry_or_insert_sorted)

lemma add_texts_single:
  assumes "\<not> fw_multi w" "fw_text_per_doc w = Some tpd" "fw_text_values w = Some dict" "length tpd = length (fw_values w)"
    "dict_of dict S"
  shows "\<exists>vs dict'. add_texts w adds = w\<lparr>fw_values := vs, fw_text_values := Some dict',
      fw_text_per_doc := Some (fold (\<lambda>(d, s). put_at None d (Some s)) adds tpd)\<rparr> \<and>
    length vs = length (fold (\<lambda>(d, s). put_at None d (Some s)) adds tpd) \<and> dict_of dict' (S \<union> snd ` set adds)"
  using assms
proof (induction adds arbitrary: w tpd dict S)
  case Nil
  then show ?case by (intro exI [of _ "fw_values w"] exI [of _ dict]) (simp add: add_texts_def)
next
  case (Cons a adds)
  obtain d s where a: "a = (d, s)" by (cases a)
  obtain vs where w: "add_text w d s = w\<lparr>fw_values := vs, fw_text_values := Some (entry_or_insert s (as_u32 (length dict)) dict),
      fw_text_per_doc := Some (put_at None d (Some s) tpd)\<rparr>" "length vs = length (put_at None d (Some s) tpd)"
    using add_text_single [OF Cons.prems(1-4)] by blast
  have e: "add_texts w (a # adds) = add_texts (add_text w d s) adds" by (simp add: add_texts_def a)
  show ?case unfolding e
    using Cons.IH [of "add_text w d s" "put_at None d (Some s) tpd" "entry_or_insert s (as_u32 (length dict)) dict" "insert s S"]
      Cons.prems(1) dict_of_insert [OF Cons.prems(5)] w(2) by (simp add: w(1) a)
qed

lemma text_column:
  assumes "\<forall>(d, _) \<in> set adds. d < n"
  shows "\<exists>vs dict. pad_to (add_texts new_text adds) n = Some (new_text\<lparr>fw_values := vs, fw_text_values := Some dict,
      fw_text_per_doc := Some (map (recorded None (map (\<lambda>(d, s). (d, Some s)) adds)) [0..<n])\<rparr>) \<and>
    length vs = n \<and> dict_of dict (snd ` set adds)"
proof -
  let ?adds = "map (\<lambda>(d, s). (d, Some s)) adds"
  define tpd where "tpd = fold (\<lambda>(d, s). put_at None d s) ?adds []"
  have f: "fold (\<lambda>(d, s). put_at None d (Some s)) adds [] = tpd"
    unfolding tpd_def by (simp add: fold_map o_def case_prod_unfold)
  obtain vs dict where w: "add_texts new_text adds = new_text\<lparr>fw_values := vs, fw_text_values := Some dict, fw_text_per_doc := Some tpd\<rparr>"
      "length vs = length tpd" "dict_of dict (snd ` set adds)"
    using add_texts_single [of new_text "[]" "[]" "{}" adds] unfolding f by (auto simp: new_text_def dict_of_def)
  have len: "length tpd \<le> n" unfolding tpd_def using assms by (intro length_fold_put_at) auto
  have at: "vec_at None tpd = recorded None ?adds"
    using fold_put_at [of None ?adds "[]"] by (simp add: tpd_def recorded_def vec_at_Nil)
  have e: "map (recorded None ?adds) [0..<n] = (if length tpd < n then resize n None tpd else tpd)"
  proof (rule nth_equalityI)
    fix i assume "i < length (map (recorded None ?adds) [0..<n])"
    then have i: "i < n" by simp
    then show "map (recorded None ?adds) [0..<n] ! i = (if length tpd < n then resize n None tpd else tpd) ! i"
      using len by (auto simp: at [symmetric] vec_at_def nth_resize)
  qed (use len in auto)
  have m: "\<not> fw_multi new_text" by (simp add: new_text_def)
  show ?thesis
  proof (cases "length tpd < n")
    case True
    then show ?thesis using w e m
      by (intro exI [of _ "resize n FAST_FIELD_MISSING vs"] exI [of _ dict]) (simp add: pad_to_def)
  next
    case False
    then show ?thesis using w e m len by (intro exI [of _ vs] exI [of _ dict]) (simp add: pad_to_def)
  qed
qed

lemma add_texts_multi_values:
  assumes "fw_multi w" "fw_text_multi_values w = Some tmv" "fw_text_values w = Some dict" "dict_of dict S"
    "sorted (map fst adds)" "\<forall>(d, _) \<in> set adds. fw_multi_current_doc w \<le> d"
  shows "\<exists>c offs dict'. text_multi.put_all w adds =
      w\<lparr>fw_multi_values := fw_multi_values w @ replicate (length adds) 0, fw_multi_current_doc := c, fw_multi_offsets := offs,
        fw_text_values := Some dict', fw_text_multi_values := Some (tmv @ map snd adds)\<rparr> \<and> dict_of dict' (S \<union> snd ` set adds)"
  using assms
proof (induction adds arbitrary: w tmv dict S)
  case Nil
  then show ?case
    by (intro exI [of _ "fw_multi_current_doc w"] exI [of _ "fw_multi_offsets w"] exI [of _ dict]) (simp add: text_multi.put_all_def)
next
  case (Cons a adds)
  obtain d s where a: "a = (d, s)" by (cases a)
  let ?dict = "entry_or_insert s (as_u32 (length dict)) dict"
  have w: "add_text w d s = w\<lparr>fw_multi_values := fw_multi_values w @ [0], fw_multi_current_doc := d,
      fw_multi_offsets := fw_multi_offsets (skip_docs w d), fw_text_values := Some ?dict, fw_text_multi_values := Some (tmv @ [s])\<rparr>"
    using Cons.prems by (simp add: add_text_multi a)
  have "\<forall>(x, _) \<in> set adds. d \<le> x" using Cons.prems(5) by (auto simp: a)
  then show ?case
    using Cons.IH [of "add_text w d s" "tmv @ [s]" ?dict "insert s S"] Cons.prems(1,5) dict_of_insert [OF Cons.prems(4)]
    by (simp add: text_multi.put_all_def a w)
qed

lemma text_multi_column:
  assumes "sorted (map fst adds)" "\<forall>(d, _) \<in> set adds. d < n" "n < 2 ^ 32 - 1" "length adds < 2 ^ 32"
  shows "\<exists>dict. pad_to (add_texts new_text_multi adds) n =
      Some (new_text_multi\<lparr>fw_multi_values := replicate (length adds) 0, fw_multi_offsets := map (value_offset adds) [0..<n + 1],
        fw_multi_current_doc := n, fw_text_values := Some dict, fw_text_multi_values := Some (map snd adds)\<rparr>) \<and>
    dict_of dict (snd ` set adds)"
proof -
  let ?w = new_text_multi
  have w: "fw_multi ?w" "fw_multi_values ?w = []" "fw_multi_offsets ?w = [0]" "fw_multi_current_doc ?w = 0"
      "fw_text_multi_values ?w = Some []" "fw_text_values ?w = Some []"
    by (simp_all add: new_text_multi_def)
  obtain c offs dict where a: "text_multi.put_all ?w adds =
      ?w\<lparr>fw_multi_values := replicate (length adds) 0, fw_multi_current_doc := c, fw_multi_offsets := offs,
        fw_text_values := Some dict, fw_text_multi_values := Some (map snd adds)\<rparr>" "dict_of dict (snd ` set adds)"
    using add_texts_multi_values [OF w(1,5,6) _ assms(1), of "{}"] w by (auto simp: dict_of_def)
  have "fw_multi ?w \<and> fw_text_multi_values ?w \<noteq> None" using w by simp
  from text_multi.put_all_pad [OF this w(1-4) assms] show ?thesis
    unfolding add_texts_def text_multi.put_all_def [symmetric] a(1) using a(2) by (intro exI [of _ dict]) simp
qed

section \<open>Serialised blocks\<close>

text \<open>What a column block must hold for its reader: \<open>single_block\<close> the values of the
  documents, \<open>multi_block\<close> their offsets and values.\<close>

definition single_block :: "u64 list \<Rightarrow> bytes \<Rightarrow> bool" where
  "single_block vs data \<longleftrightarrow> validate_auto data (length vs) = Inr () \<and> (\<forall>i < length vs. auto_read data i = Some (vs ! i))"

lemma column_single_block:
  assumes "\<not> fw_multi w" "length (fw_values w) < 2 ^ 32"
  shows "\<exists>data. column_block_data w = Some (Inr data) \<and> single_block (fw_values w) data \<and> length data \<le> 10 + 8 * length (fw_values w)"
  using serialize_auto_length [OF assms(2)] assms(1) by (auto simp: column_block_data_def single_block_def ok_def)

lemma column_multi_block:
  assumes "fw_multi w" "length (fw_multi_values w) < 2 ^ 32" "length (fw_multi_offsets w) < 2 ^ 28"
  shows "\<exists>offs vals. column_block_data w = Some (Inr (u32_le (word_of_nat (length offs)) @ offs @ vals)) \<and>
    single_block (map word_of_nat (fw_multi_offsets w)) offs \<and> single_block (fw_multi_values w) vals \<and>
    length offs \<le> 10 + 8 * length (fw_multi_offsets w) \<and> length vals \<le> 10 + 8 * length (fw_multi_values w)"
proof -
  have o: "length (map word_of_nat (fw_multi_offsets w) :: u64 list) < 2 ^ 32" using assms(3) by simp
  obtain p q where p: "serialize_auto (map word_of_nat (fw_multi_offsets w)) = Some (Inr (p, length p))"
      "single_block (map word_of_nat (fw_multi_offsets w)) p" "length p \<le> 10 + 8 * length (fw_multi_offsets w)"
    and q: "serialize_auto (fw_multi_values w) = Some (Inr (q, length q))" "single_block (fw_multi_values w) q"
      "length q \<le> 10 + 8 * length (fw_multi_values w)"
    using serialize_auto_length [OF o] serialize_auto_length [OF assms(2)] by (auto simp: single_block_def)
  show ?thesis using p q assms(1)
    by (intro exI [of _ p] exI [of _ q]) (simp add: column_block_data_def ok_def)
qed

definition block_bytes :: "nat \<Rightarrow> bytes \<Rightarrow> nat \<Rightarrow> bytes \<Rightarrow> bytes" where
  "block_bytes num_docs data dict_count dict =
     u32_le 1 @ block_index_write_to \<lparr>bie_num_docs = word_of_nat num_docs, bie_data_len = word_of_nat (length data),
       bie_dict_count = word_of_nat dict_count, bie_dict_len = word_of_nat (length dict)\<rparr> @ data @ dict"

definition block_toc :: "fast_field_column_type \<Rightarrow> bool \<Rightarrow> u64 \<Rightarrow> nat \<Rightarrow> nat \<Rightarrow> fast_field_toc_entry" where
  "block_toc ct multi data_offset len num_docs =
     \<lparr>toc_field_id = 0, toc_column_type = ct, toc_multi = multi, toc_data_offset = data_offset,
      toc_data_len = word_of_nat len, toc_num_docs = word_of_nat num_docs, toc_dict_offset = 0, toc_dict_count = 0\<rparr>"

lemma writer_serialize_numeric:
  assumes "fw_column_type w \<noteq> ColTextOrdinal" "column_block_data w = Some (Inr data)"
  shows "writer_serialize w off =
    Some (Inr (block_toc (fw_column_type w) (fw_multi w) off (20 + length data) (writer_num_docs w),
      block_bytes (writer_num_docs w) data 0 []))"
  using assms by (simp add: writer_serialize_def Let_def ok_def block_bytes_def block_toc_def block_index_write_to_def)

lemma writer_serialize_text:
  assumes "fw_column_type w0 = ColTextOrdinal" "resolve_text_ordinals w0 = Some w" "fw_column_type w = ColTextOrdinal"
    "fw_text_values w = Some dict" "column_block_data w = Some (Inr data)"
  shows "writer_serialize w0 off =
    Some (Inr (block_toc ColTextOrdinal (fw_multi w) off (20 + length data + length (write_dict (map fst dict))) (writer_num_docs w),
      block_bytes (writer_num_docs w) data (as_u32 (length dict)) (write_dict (map fst dict))))"
  using assms by (simp add: writer_serialize_def Let_def ok_def block_bytes_def block_toc_def block_index_write_to_def
      write_text_dictionary_def add.assoc)

section \<open>Padding ends\<close>

lemma pad_offsets_diverges:
  assumes "2 ^ 32 - 1 \<le> n"
  shows "pad_offsets offs v n = None"
proof (cases "pad_offsets offs v n")
  case (Some r)
  have "\<not> 2 ^ 32 - 1 \<le> n"
  proof (rule pad_offsets.raw_induct [where P = "\<lambda>offs v n r. \<not> 2 ^ 32 - 1 \<le> n", OF _ Some])
    fix pad and offs :: "nat list" and v n :: nat and r
    assume ih: "\<And>offs v n r. pad offs v n = Some r \<Longrightarrow> \<not> 2 ^ 32 - 1 \<le> n"
      and eq: "(if as_u32 (length offs) \<le> n then pad (offs @ [v]) v n else Some offs) = Some r"
    have "as_u32 (length offs) < 2 ^ 32" by (simp add: as_u32_def)
    then show "\<not> 2 ^ 32 - 1 \<le> n" using ih [of "offs @ [v]" v n r] eq by (simp split: if_splits)
  qed
  then show ?thesis using assms by simp
qed

text \<open>
  C38. Padding a multi-valued column returns for every document count below the largest
  32-bit number, and does not return for that one: the loop compares the length
  of the offsets modulo \<open>2 ^ 32\<close>, which never exceeds it.
\<close>

theorem pad_to_terminates_exactly:
  assumes "fw_multi w" "length (fw_multi_offsets w) < 2 ^ 32" "n < 2 ^ 32"
  shows "(\<exists>w'. pad_to w n = Some w') \<longleftrightarrow> n < 2 ^ 32 - 1"
proof
  assume "\<exists>w'. pad_to w n = Some w'"
  then show "n < 2 ^ 32 - 1"
    using pad_offsets_diverges [of n "fw_multi_offsets w"] assms(1) by (fastforce simp: pad_to_def)
next
  assume "n < 2 ^ 32 - 1"
  then show "\<exists>w'. pad_to w n = Some w'"
    using pad_offsets_eq [of "fw_multi_offsets w" n] assms(1,2) by (simp add: pad_to_def)
qed

theorem pad_to_terminates_exactly_witness:
  "(\<exists>w'. pad_to (new_numeric_multi ColU64) 7 = Some w') \<and> pad_to (new_numeric_multi ColU64) 4294967295 = None"
proof -
  let ?w = "new_numeric_multi ColU64"
  have w: "fw_multi ?w" "length (fw_multi_offsets ?w) < 2 ^ 32" by (simp_all add: new_numeric_multi_def)
  show ?thesis using pad_to_terminates_exactly [OF w, of 7] pad_to_terminates_exactly [OF w, of 4294967295] by simp
qed
end
