(* ===== verification/FastFieldReader.thy ===== *)
theory FastFieldReader
  imports FastFieldWriter
begin

text \<open>
  This theory models the column reader of
  \<open>src/summa-core/src/structures/fast_field/mod.rs\<close> and \<open>checkpoints.rs\<close> beside it:
  \<open>FastFieldReader::open\<close> over untrusted bytes, the lookup of a document's block, the
  value accessors of single- and multi-valued columns, the ordinal remapping of
  merged text columns, the seekable cursor and the batch scan. A result of \<open>None\<close>
  is a panic. The lazily built text state is the function that builds it, and a scan's callback is a
  function that passes its own state along.
\<close>

section \<open>Blocks and header checkpoints\<close>

record column_block =
  cb_cumulative_docs :: nat
  cb_num_docs :: nat
  cb_data :: bytes
  cb_offset_data :: bytes
  cb_value_data :: bytes
  cb_dict :: "text_dict option"
  cb_raw_dict :: bytes

definition MAX_CHECKPOINTS :: nat where "MAX_CHECKPOINTS = 256"

record checkpoint =
  cp_column_block :: nat
  cp_codec_block :: nat
  cp_offset :: nat

definition is_blockwise :: "bytes \<Rightarrow> bool" where
  "is_blockwise data \<longleftrightarrow> data \<noteq> [] \<and> hd data = codec_code BlockwiseLinear"

definition codec_blocks :: "column_block \<Rightarrow> nat option" where
  "codec_blocks b = (if is_blockwise (cb_data b) then le_u32 (cb_data b) 5 else Some 0)"

fun block_checkpoints ::
  "bytes \<Rightarrow> nat \<Rightarrow> nat \<Rightarrow> nat list \<Rightarrow> nat \<Rightarrow> nat \<Rightarrow> (checkpoint list \<times> nat) option" where
  "block_checkpoints data column stride [] offset ordinal = Some ([], ordinal)"
| "block_checkpoints data column stride (c # cs) offset ordinal = do {
     packed \<leftarrow> le_u32 data (offset + 25);
     (rest, ordinal') \<leftarrow> block_checkpoints data column stride cs (offset + (29 + packed)) (ordinal + 1);
     Some ((if ordinal mod stride = 0
            then [\<lparr>cp_column_block = as_u32 column, cp_codec_block = as_u32 c, cp_offset = as_u32 (offset - 1)\<rparr>] else []) @ rest,
           ordinal') }"

fun column_checkpoints :: "nat \<Rightarrow> (nat \<times> column_block) list \<Rightarrow> nat \<Rightarrow> checkpoint list option" where
  "column_checkpoints stride [] ordinal = Some []"
| "column_checkpoints stride ((i, b) # bs) ordinal = do {
     n \<leftarrow> codec_blocks b;
     (entries, ordinal') \<leftarrow> block_checkpoints (cb_data b) i stride [0..<n] 9 ordinal;
     rest \<leftarrow> column_checkpoints stride bs ordinal';
     Some (entries @ rest) }"

definition checkpoints_new :: "column_block list \<Rightarrow> bool \<Rightarrow> checkpoint list option" where
  "checkpoints_new blocks multi =
     (if multi then Some []
      else do {
        counts \<leftarrow> option_all (map codec_blocks blocks);
        let stride = max (div_ceil (sum_list counts) MAX_CHECKPOINTS) 1;
        column_checkpoints stride (enumerate 0 blocks) 0 })"

definition checkpoint_le :: "checkpoint \<Rightarrow> nat \<Rightarrow> nat \<Rightarrow> bool" where
  "checkpoint_le c b k \<longleftrightarrow> cp_column_block c < b \<or> cp_column_block c = b \<and> cp_codec_block c \<le> k"

definition checkpoints_read :: "checkpoint list \<Rightarrow> column_block list \<Rightarrow> nat \<Rightarrow> nat \<Rightarrow> u64 option" where
  "checkpoints_read cps blocks block local =
     (if block \<ge> length blocks then None
      else let data = cb_data (blocks ! block)
           in if \<not> is_blockwise data then auto_read data local
              else let stop = partition_point (\<lambda>c. checkpoint_le c (as_u32 block) (local div BLOCKWISE_LINEAR_BLOCK_SIZE)) cps;
                       (first_block, offset) =
                         (if stop = 0 then (0, 8)
                          else let c = cps ! (stop - 1)
                               in if cp_column_block c = as_u32 block then (cp_codec_block c, cp_offset c) else (0, 8))
                   in blockwise_linear_read_from (tl data) local first_block offset)"

section \<open>Opening a column\<close>

record fast_field_reader =
  fr_column_type :: fast_field_column_type
  fr_num_docs :: nat
  fr_multi :: bool
  fr_blocks :: "column_block list"
  fr_checkpoints :: "checkpoint list"

fun check_offsets :: "bytes \<Rightarrow> nat list \<Rightarrow> u64 \<Rightarrow> u64 fallible" where
  "check_offsets data [] previous = ok previous"
| "check_offsets data (i # idxs) previous =
     tbind (unpanicked (auto_read data i)) (\<lambda>offset.
       if offset > 0xFFFFFFFF \<or> (i = 0 \<and> offset \<noteq> 0) \<or> offset < previous
       then err InvalidData ''fast field value offsets are invalid''
       else check_offsets data idxs offset)"

definition parse_multi_block :: "bytes \<Rightarrow> nat \<Rightarrow> nat \<Rightarrow> nat \<Rightarrow> (bytes \<times> bytes \<times> bytes) fallible" where
  "parse_multi_block file num_docs data_start data_end =
     tbind (unpanicked (slice file data_start data_end)) (\<lambda>block_raw.
       if length block_raw < 4 then err UnexpectedEof ''fast field multi-value header is truncated''
       else tbind (unpanicked (le_u32 block_raw 0)) (\<lambda>offset_col_len.
         let o_start = data_start + 4; o_end = o_start + offset_col_len
         in if \<not> usize_fits o_end then err InvalidData ''fast field offset column range overflow''
            else if o_end > data_end then err UnexpectedEof ''fast field offset column is truncated''
            else tbind (unpanicked (slice file o_start o_end)) (\<lambda>offset_data.
              tbind (unpanicked (slice file o_end data_end)) (\<lambda>value_data.
              tbind (returned (validate_auto offset_data (num_docs + 1))) (\<lambda>_.
              tbind (check_offsets offset_data [0..<num_docs + 1] 0) (\<lambda>previous.
              tbind (returned (validate_auto value_data (unat previous))) (\<lambda>_.
                ok (block_raw, offset_data, value_data))))))))"

definition parse_single_block :: "bytes \<Rightarrow> nat \<Rightarrow> nat \<Rightarrow> nat \<Rightarrow> (bytes \<times> bytes \<times> bytes) fallible" where
  "parse_single_block file num_docs data_start data_end =
     tbind (unpanicked (slice file data_start data_end)) (\<lambda>block_data.
       tbind (returned (validate_auto block_data num_docs)) (\<lambda>_. ok (block_data, [], [])))"

definition check_block_dict :: "fast_field_column_type \<Rightarrow> bytes \<Rightarrow> nat \<Rightarrow> nat \<Rightarrow> unit fallible" where
  "check_block_dict ct dict dict_count dict_len =
     (if ct = ColTextOrdinal
      then if dict_count = 0 \<and> dict_len \<noteq> 0 then err InvalidData ''empty fast field dictionary has data''
           else validate_text_dict_bytes dict dict_count
      else if dict_count \<noteq> 0 \<or> dict_len \<noteq> 0 then err InvalidData ''numeric fast field contains a text dictionary''
      else ok ())"

definition open_block ::
  "bytes \<Rightarrow> fast_field_toc_entry \<Rightarrow> nat \<Rightarrow> block_index_entry \<Rightarrow> nat \<Rightarrow> nat \<Rightarrow> (column_block \<times> nat) fallible" where
  "open_block file toc region_end entry cumulative pos =
     (let num_docs = unat (bie_num_docs entry); dict_count = unat (bie_dict_count entry);
          dict_len = unat (bie_dict_len entry); data_end = pos + unat (bie_data_len entry); dict_end = data_end + dict_len
      in if \<not> usize_fits data_end then err InvalidData ''fast field block range overflow''
         else if \<not> usize_fits dict_end then err InvalidData ''fast field dict range overflow''
         else if dict_end > region_end then err UnexpectedEof ''fast field: block data/dict truncated''
         else tbind (if toc_multi toc then parse_multi_block file num_docs pos data_end
                     else parse_single_block file num_docs pos data_end) (\<lambda>(block_data, offset_data, value_data).
           tbind (unpanicked (slice file data_end dict_end)) (\<lambda>dict_bytes.
           tbind (check_block_dict (toc_column_type toc) dict_bytes dict_count dict_len) (\<lambda>_.
             ok (\<lparr>cb_cumulative_docs = cumulative, cb_num_docs = num_docs, cb_data = block_data,
                  cb_offset_data = offset_data, cb_value_data = value_data,
                  cb_dict = (if dict_count > 0 then Some (new_lazy dict_bytes dict_count) else None),
                  cb_raw_dict = (if dict_len > 0 then dict_bytes else [])\<rparr>, dict_end)))))"

fun open_blocks ::
  "bytes \<Rightarrow> fast_field_toc_entry \<Rightarrow> nat \<Rightarrow> block_index_entry list \<Rightarrow> nat \<Rightarrow> nat \<Rightarrow> column_block list \<Rightarrow>
   (column_block list \<times> nat \<times> nat) fallible" where
  "open_blocks file toc region_end [] cumulative pos blocks = ok (blocks, cumulative, pos)"
| "open_blocks file toc region_end (entry # entries) cumulative pos blocks =
     tbind (open_block file toc region_end entry cumulative pos) (\<lambda>(block, pos').
       let cumulative' = cumulative + unat (bie_num_docs entry)
       in if cumulative' \<ge> 2 ^ 32 then err InvalidData ''fast field doc count overflow''
          else open_blocks file toc region_end entries cumulative' pos' (blocks @ [block]))"

definition reader_open :: "bytes \<Rightarrow> fast_field_toc_entry \<Rightarrow> fast_field_reader fallible" where
  "reader_open file toc =
     (let region_start = unat (toc_data_offset toc); region_end = region_start + unat (toc_data_len toc)
      in if \<not> usize_fits region_end then err InvalidData ''fast field data range overflow''
         else if region_end > length file then err UnexpectedEof ''fast field data out of bounds''
         else if \<not> usize_fits (region_start + 4) \<or> region_start + 4 > region_end
         then err UnexpectedEof ''fast field: missing num_blocks''
         else tbind (unpanicked (le_u32 file region_start)) (\<lambda>num_blocks.
           let pos = region_start + 4; idx_size = num_blocks * BLOCK_INDEX_ENTRY_SIZE; index_end = pos + idx_size
           in if \<not> usize_fits idx_size \<or> \<not> usize_fits index_end then err InvalidData ''fast field block index overflow''
              else if index_end > region_end then err UnexpectedEof ''fast field: block index truncated''
              else tbind (unpanicked (slice file pos index_end)) (\<lambda>index_bytes.
                tbind (returned (rreplicate num_blocks block_index_read_from index_bytes)) (\<lambda>(entries, _).
                tbind (open_blocks file toc region_end entries 0 index_end []) (\<lambda>(blocks, cumulative, stop).
                if stop \<noteq> region_end \<or> cumulative \<noteq> unat (toc_num_docs toc)
                then err InvalidData ''fast field block totals are inconsistent with the TOC''
                else if unat (toc_num_docs toc) > 0 \<and> blocks = []
                then err InvalidData ''non-empty fast field has no blocks''
                else tbind (unpanicked (checkpoints_new blocks (toc_multi toc))) (\<lambda>cps.
                  ok \<lparr>fr_column_type = toc_column_type toc, fr_num_docs = unat (toc_num_docs toc),
                      fr_multi = toc_multi toc, fr_blocks = blocks, fr_checkpoints = cps\<rparr>))))))"

section \<open>Text state\<close>

record text_state =
  ts_global_dict :: text_dict
  ts_ordinal_maps :: "nat list list"

fun insert_texts :: "str option list \<Rightarrow> (str \<times> nat) list \<Rightarrow> (str \<times> nat) list" where
  "insert_texts [] m = m"
| "insert_texts (None # xs) m = insert_texts xs m"
| "insert_texts (Some s # xs) m = insert_texts xs (entry_or_insert s 0 m)"

fun unique_texts :: "column_block list \<Rightarrow> (str \<times> nat) list \<Rightarrow> (str \<times> nat) list option" where
  "unique_texts [] m = Some m"
| "unique_texts (b # bs) m =
     (case cb_dict b of
        None \<Rightarrow> unique_texts bs m
      | Some d \<Rightarrow> do {
          texts \<leftarrow> option_all (map (dict_get d) [0..<text_dict_len d]);
          unique_texts bs (insert_texts texts m) })"

definition block_ordinal_map :: "(str \<times> nat) list \<Rightarrow> column_block \<Rightarrow> nat list option" where
  "block_ordinal_map unique b =
     (case cb_dict b of
        None \<Rightarrow> Some []
      | Some d \<Rightarrow> option_all (map (\<lambda>ord. do {
          found \<leftarrow> dict_get d ord;
          s \<leftarrow> found;
          map_of unique s }) [0..<text_dict_len d]))"

definition build_text_state :: "column_block list \<Rightarrow> text_state option" where
  "build_text_state blocks =
     (if length (filter (\<lambda>b. cb_dict b \<noteq> None) blocks) \<le> 1
      then Some (case List.find (\<lambda>b. cb_dict b \<noteq> None) blocks of
             Some b \<Rightarrow> \<lparr>ts_global_dict = new_lazy (cb_raw_dict b) (text_dict_len (the (cb_dict b))),
                        ts_ordinal_maps = replicate (length blocks) []\<rparr>
           | None \<Rightarrow> \<lparr>ts_global_dict = new_lazy [] 0, ts_ordinal_maps = replicate (length blocks) []\<rparr>)
      else do {
        keys \<leftarrow> unique_texts blocks [];
        let unique = map (\<lambda>(i, k, _). (k, as_u32 i)) (enumerate 0 keys);
        maps \<leftarrow> option_all (map (block_ordinal_map unique) blocks);
        Some \<lparr>ts_global_dict = new_lazy (write_dict (map fst unique)) (as_u32 (length unique)), ts_ordinal_maps = maps\<rparr> })"

definition remap_ordinal :: "fast_field_reader \<Rightarrow> nat \<Rightarrow> u64 \<Rightarrow> u64 option" where
  "remap_ordinal r block_idx raw =
     (if fr_column_type r = ColTextOrdinal \<and> raw \<noteq> FAST_FIELD_MISSING \<and> length (fr_blocks r) > 1
      then do {
        state \<leftarrow> build_text_state (fr_blocks r);
        if block_idx < length (ts_ordinal_maps state)
        then let m = ts_ordinal_maps state ! block_idx
             in Some (if m \<noteq> [] then if unat raw < length m then word_of_nat (m ! unat raw) else FAST_FIELD_MISSING
                      else raw)
        else None }
      else Some raw)"

section \<open>Accessors\<close>

definition find_block :: "fast_field_reader \<Rightarrow> nat \<Rightarrow> (nat \<times> nat) option" where
  "find_block r doc =
     (if length (fr_blocks r) = 1 then Some (0, doc)
      else let bi = partition_point (\<lambda>b. cb_cumulative_docs b \<le> doc) (fr_blocks r) - 1
           in if bi < length (fr_blocks r) \<and> cb_cumulative_docs (fr_blocks r ! bi) \<le> doc
              then Some (bi, doc - cb_cumulative_docs (fr_blocks r ! bi)) else None)"

definition read_as_u32 :: "bytes \<Rightarrow> nat \<Rightarrow> nat option" where
  "read_as_u32 data i = map_option (\<lambda>v. as_u32 (unat v)) (auto_read data i)"

definition get_u64 :: "fast_field_reader \<Rightarrow> nat \<Rightarrow> u64 option" where
  "get_u64 r doc =
     (if doc \<ge> fr_num_docs r then Some FAST_FIELD_MISSING
      else do {
        (bi, local) \<leftarrow> find_block r doc;
        if bi \<ge> length (fr_blocks r) then None
        else if fr_multi r
        then do {
          let block = fr_blocks r ! bi;
          start \<leftarrow> read_as_u32 (cb_offset_data block) local;
          stop \<leftarrow> read_as_u32 (cb_offset_data block) (local + 1);
          if start \<ge> stop then Some FAST_FIELD_MISSING
          else do { raw \<leftarrow> auto_read (cb_value_data block) start; remap_ordinal r bi raw } }
        else do { raw \<leftarrow> checkpoints_read (fr_checkpoints r) (fr_blocks r) bi local; remap_ordinal r bi raw } })"

definition block_value_range :: "fast_field_reader \<Rightarrow> nat \<Rightarrow> (nat \<times> nat \<times> nat) option" where
  "block_value_range r doc =
     (if \<not> fr_multi r \<or> doc \<ge> fr_num_docs r then Some (0, 0, 0)
      else do {
        (bi, local) \<leftarrow> find_block r doc;
        if bi \<ge> length (fr_blocks r) then None
        else do {
          start \<leftarrow> read_as_u32 (cb_offset_data (fr_blocks r ! bi)) local;
          stop \<leftarrow> read_as_u32 (cb_offset_data (fr_blocks r ! bi)) (local + 1);
          Some (bi, start, stop) } })"

definition value_range :: "fast_field_reader \<Rightarrow> nat \<Rightarrow> (nat \<times> nat) option" where
  "value_range r doc = map_option snd (block_value_range r doc)"

definition get_value_at :: "fast_field_reader \<Rightarrow> nat \<Rightarrow> u64 option" where
  "get_value_at r index =
     (if length (fr_blocks r) = 1
      then do { raw \<leftarrow> auto_read (cb_value_data (fr_blocks r ! 0)) index; remap_ordinal r 0 raw }
      else Some 0)"

definition read_value :: "fast_field_reader \<Rightarrow> nat \<Rightarrow> nat \<Rightarrow> u64 option" where
  "read_value r bi idx = do {
     raw \<leftarrow> auto_read (cb_value_data (fr_blocks r ! bi)) idx;
     remap_ordinal r bi raw }"

definition get_multi_values :: "fast_field_reader \<Rightarrow> nat \<Rightarrow> u64 list option" where
  "get_multi_values r doc = do {
     (bi, start, stop) \<leftarrow> block_value_range r doc;
     if start \<ge> stop then Some []
     else if bi \<ge> length (fr_blocks r) then None
     else option_all (map (read_value r bi) [start..<stop]) }"

text \<open>The visitor is an \<open>FnMut\<close>: it takes its captured state and a value, and returns the new state
  and whether to stop.\<close>

fun any_value :: "fast_field_reader \<Rightarrow> nat \<Rightarrow> ('s \<Rightarrow> u64 \<Rightarrow> 's \<times> bool) \<Rightarrow> 's \<Rightarrow> nat list \<Rightarrow> ('s \<times> bool) option" where
  "any_value r bi f s [] = Some (s, False)"
| "any_value r bi f s (idx # idxs) = do {
     v \<leftarrow> read_value r bi idx;
     (case f s v of (s', stop) \<Rightarrow> if stop then Some (s', True) else any_value r bi f s' idxs) }"

definition for_each_multi_value ::
  "fast_field_reader \<Rightarrow> nat \<Rightarrow> ('s \<Rightarrow> u64 \<Rightarrow> 's \<times> bool) \<Rightarrow> 's \<Rightarrow> ('s \<times> bool) option" where
  "for_each_multi_value r doc f s = do {
     (bi, start, stop) \<leftarrow> block_value_range r doc;
     if start \<ge> stop then Some (s, False)
     else if bi \<ge> length (fr_blocks r) then None
     else any_value r bi f s [start..<stop] }"

definition has_value :: "fast_field_reader \<Rightarrow> nat \<Rightarrow> bool option" where
  "has_value r doc =
     (if \<not> fr_multi r
      then if doc < fr_num_docs r then map_option (\<lambda>v. v \<noteq> FAST_FIELD_MISSING) (get_u64 r doc) else Some False
      else map_option (\<lambda>(_, start, stop). start < stop) (block_value_range r doc))"

definition get_i64 :: "fast_field_reader \<Rightarrow> nat \<Rightarrow> 64 word option" where
  "get_i64 r doc = map_option zigzag_decode (get_u64 r doc)"

definition get_f64 :: "fast_field_reader \<Rightarrow> nat \<Rightarrow> u64 option" where
  "get_f64 r doc = map_option sortable_u64_to_f64 (get_u64 r doc)"

definition get_ordinal :: "fast_field_reader \<Rightarrow> nat \<Rightarrow> u64 option" where
  "get_ordinal r doc = get_u64 r doc"

definition raw_text_ordinal :: "fast_field_reader \<Rightarrow> nat \<Rightarrow> nat \<Rightarrow> u64 option option" where
  "raw_text_ordinal r bi local =
     (if fr_multi r
      then do {
        start \<leftarrow> read_as_u32 (cb_offset_data (fr_blocks r ! bi)) local;
        stop \<leftarrow> read_as_u32 (cb_offset_data (fr_blocks r ! bi)) (local + 1);
        if start \<ge> stop then Some None
        else map_option Some (auto_read (cb_value_data (fr_blocks r ! bi)) start) }
      else map_option Some (checkpoints_read (fr_checkpoints r) (fr_blocks r) bi local))"

definition get_text :: "fast_field_reader \<Rightarrow> nat \<Rightarrow> str option option" where
  "get_text r doc =
     (if doc \<ge> fr_num_docs r then Some None
      else do {
        (bi, local) \<leftarrow> find_block r doc;
        if bi \<ge> length (fr_blocks r) then None
        else do {
          found \<leftarrow> raw_text_ordinal r bi local;
          case found of
            None \<Rightarrow> Some None
          | Some raw \<Rightarrow>
              if raw = FAST_FIELD_MISSING then Some None
              else (case cb_dict (fr_blocks r ! bi) of
                      None \<Rightarrow> Some None
                    | Some d \<Rightarrow> dict_get d (as_u32 (unat raw))) } })"

definition text_ordinal :: "fast_field_reader \<Rightarrow> str \<Rightarrow> nat option option" where
  "text_ordinal r s =
     (if fr_column_type r \<noteq> ColTextOrdinal then Some None
      else do { state \<leftarrow> build_text_state (fr_blocks r); dict_ordinal (ts_global_dict state) s })"

section \<open>Batches\<close>

definition remap_batch :: "nat list \<Rightarrow> u64 list \<Rightarrow> u64 list" where
  "remap_batch m vs =
     (if m = [] then vs
      else map (\<lambda>raw. if raw \<noteq> FAST_FIELD_MISSING
                      then if unat raw < length m then word_of_nat (m ! unat raw) else FAST_FIELD_MISSING
                      else raw) vs)"

record single_value_cursor =
  svc_block :: nat
  svc_codec :: blockwise_linear_cursor

definition cursor_new :: "fast_field_reader \<Rightarrow> single_value_cursor option" where
  "cursor_new r = (if fr_multi r then None else Some \<lparr>svc_block = 2 ^ 64 - 1, svc_codec = cursor_default\<rparr>)"

definition cursor_read_batch ::
  "fast_field_reader \<Rightarrow> single_value_cursor \<Rightarrow> nat \<Rightarrow> u64 list \<Rightarrow> (single_value_cursor \<times> u64 list \<times> nat) option" where
  "cursor_read_batch r cur start out =
     (if start \<ge> fr_num_docs r \<or> out = [] then Some (cur, out, 0)
      else do {
        (bi, local) \<leftarrow> find_block r start;
        if bi \<ge> length (fr_blocks r) then None
        else do {
          let codec = (if bi \<noteq> svc_block cur then cursor_default else svc_codec cur);
          let block = fr_blocks r ! bi;
          if cb_num_docs block < local then None
          else do {
            let count = min (length out) (cb_num_docs block - local);
            (vs, codec') \<leftarrow> auto_read_batch_with_cursor (cb_data block) local (take count out) codec;
            vs' \<leftarrow> (if fr_column_type r = ColTextOrdinal \<and> length (fr_blocks r) > 1
                   then do {
                     state \<leftarrow> build_text_state (fr_blocks r);
                     if bi < length (ts_ordinal_maps state) then Some (remap_batch (ts_ordinal_maps state ! bi) vs) else None }
                   else Some vs);
            Some (\<lparr>svc_block = bi, svc_codec = codec'\<rparr>, vs' @ drop count out, count) } } })"

definition BATCH :: nat where "BATCH = 256"

function scan_block ::
  "column_block \<Rightarrow> nat list \<Rightarrow> ('s \<Rightarrow> nat \<Rightarrow> u64 list \<Rightarrow> 'e + 's) \<Rightarrow> nat \<Rightarrow> blockwise_linear_cursor \<Rightarrow> 's \<Rightarrow> ('e + 's) option" where
  "scan_block block m f pos cursor s =
     (if pos < cb_num_docs block
      then do {
        let chunk = min (cb_num_docs block - pos) BATCH;
        (vs, cursor') \<leftarrow> auto_read_batch_with_cursor (cb_data block) pos (replicate chunk 0) cursor;
        case f s (cb_cumulative_docs block + pos) (remap_batch m vs) of
          Inl e \<Rightarrow> Some (Inl e)
        | Inr s' \<Rightarrow> scan_block block m f (pos + chunk) cursor' s' }
      else Some (Inr s))"
  by pat_completeness auto
termination
  by (relation "measure (\<lambda>(block, m, f, pos, cursor, s). cb_num_docs block - pos)") (auto simp: BATCH_def)

declare scan_block.simps [simp del]

fun scan_blocks ::
  "nat list list option \<Rightarrow> (column_block \<Rightarrow> bool) \<Rightarrow> ('s \<Rightarrow> nat \<Rightarrow> u64 list \<Rightarrow> 'e + 's) \<Rightarrow> (nat \<times> column_block) list \<Rightarrow> 's \<Rightarrow>
   ('e + 's) option" where
  "scan_blocks maps should_scan f [] s = Some (Inr s)"
| "scan_blocks maps should_scan f ((i, block) # bs) s =
     (if \<not> should_scan block then scan_blocks maps should_scan f bs s
      else do {
        m \<leftarrow> (case maps of None \<Rightarrow> Some [] | Some ms \<Rightarrow> if i < length ms then Some (ms ! i) else None);
        res \<leftarrow> scan_block block m f 0 cursor_default s;
        case res of Inl e \<Rightarrow> Some (Inl e) | Inr s' \<Rightarrow> scan_blocks maps should_scan f bs s' })"

definition try_scan_single_value_batches_where ::
  "fast_field_reader \<Rightarrow> (column_block \<Rightarrow> bool) \<Rightarrow> ('s \<Rightarrow> nat \<Rightarrow> u64 list \<Rightarrow> 'e + 's) \<Rightarrow> 's \<Rightarrow> ('e + 's) option" where
  "try_scan_single_value_batches_where r should_scan f s =
     (if fr_multi r then Some (Inr s)
      else do {
        maps \<leftarrow> (if fr_column_type r = ColTextOrdinal \<and> length (fr_blocks r) > 1
                then map_option (\<lambda>state. Some (ts_ordinal_maps state)) (build_text_state (fr_blocks r)) else Some None);
        scan_blocks maps should_scan f (enumerate 0 (fr_blocks r)) s })"

definition try_scan_single_value_batches ::
  "fast_field_reader \<Rightarrow> ('s \<Rightarrow> nat \<Rightarrow> u64 list \<Rightarrow> 'e + 's) \<Rightarrow> 's \<Rightarrow> ('e + 's) option" where
  "try_scan_single_value_batches r f s = try_scan_single_value_batches_where r (\<lambda>_. True) f s"

fun visit_values :: "('s \<Rightarrow> nat \<Rightarrow> u64 \<Rightarrow> 'e + 's) \<Rightarrow> nat \<Rightarrow> u64 list \<Rightarrow> 's \<Rightarrow> 'e + 's" where
  "visit_values f start [] s = Inr s"
| "visit_values f start (v # vs) s = (case f s start v of Inl e \<Rightarrow> Inl e | Inr s' \<Rightarrow> visit_values f (start + 1) vs s')"

definition try_scan_single_values ::
  "fast_field_reader \<Rightarrow> ('s \<Rightarrow> nat \<Rightarrow> u64 \<Rightarrow> 'e + 's) \<Rightarrow> 's \<Rightarrow> ('e + 's) option" where
  "try_scan_single_values r f s = try_scan_single_value_batches r (\<lambda>s start vs. visit_values f start vs s) s"

definition scan_single_values :: "fast_field_reader \<Rightarrow> ('s \<Rightarrow> nat \<Rightarrow> u64 \<Rightarrow> 's) \<Rightarrow> 's \<Rightarrow> 's option" where
  "scan_single_values r f s =
     map_option (\<lambda>res. case res of Inl e \<Rightarrow> e | Inr s' \<Rightarrow> s') (try_scan_single_values r (\<lambda>s doc v. Inr (f s doc v)) s)"

section \<open>File-level table of contents\<close>

definition write_fast_field_toc_and_footer :: "u64 \<Rightarrow> fast_field_toc_entry list \<Rightarrow> bytes" where
  "write_fast_field_toc_and_footer toc_offset entries =
     concat (map toc_write_to entries) @ u64_le toc_offset @ u32_le (word_of_nat (length entries)) @ u32_le FAST_FIELD_MAGIC"

definition read_fast_field_footer :: "bytes \<Rightarrow> io_error + u64 \<times> u32" where
  "read_fast_field_footer file =
     (if length file < FAST_FIELD_FOOTER_SIZE then Inl (IoError UnexpectedEof ''fast field file too small for footer'')
      else case rbind read_u64 (\<lambda>toc_offset. rbind read_u32 (\<lambda>num_columns. rbind read_u32 (\<lambda>magic.
                  if magic \<noteq> FAST_FIELD_MAGIC then rfail (IoError InvalidData ''bad fast field magic'')
                  else rreturn (toc_offset, num_columns)))) (drop (length file - FAST_FIELD_FOOTER_SIZE) file) of
             Inl e \<Rightarrow> Inl e
           | Inr (x, _) \<Rightarrow> Inr x)"

definition read_fast_field_toc :: "bytes \<Rightarrow> u64 \<Rightarrow> u32 \<Rightarrow> fast_field_toc_entry list fallible" where
  "read_fast_field_toc file toc_offset num_columns =
     (let start = unat toc_offset; expected = unat num_columns * FAST_FIELD_TOC_ENTRY_SIZE; stop = start + expected
      in if \<not> usize_fits expected then err InvalidData ''fast field TOC size overflow''
         else if \<not> usize_fits stop then err InvalidData ''fast field TOC range overflow''
         else if stop > length file then err UnexpectedEof ''fast field TOC out of bounds''
         else tbind (unpanicked (slice file start stop)) (\<lambda>bs.
           tbind (returned (rreplicate (unat num_columns) toc_read_from bs)) (\<lambda>(entries, _). ok entries)))"

section \<open>Well-formed blocks\<close>

definition offsets_ok :: "bytes \<Rightarrow> nat \<Rightarrow> nat list \<Rightarrow> bool" where
  "offsets_ok data n offs \<longleftrightarrow> length offs = n + 1 \<and> offs ! 0 = 0 \<and> sorted offs \<and> (\<forall>i \<le> n. offs ! i < 2 ^ 32) \<and>
     (\<forall>i \<le> n. auto_read data i = Some (word_of_nat (offs ! i)))"

definition block_dict_ok :: "fast_field_column_type \<Rightarrow> column_block \<Rightarrow> bool" where
  "block_dict_ok ct b \<longleftrightarrow>
     (case cb_dict b of
        None \<Rightarrow> cb_raw_dict b = []
      | Some d \<Rightarrow> ct = ColTextOrdinal \<and> (\<exists>keys. keys \<noteq> [] \<and> dict_keys_ok keys \<and> d = new_lazy (write_dict keys) (length keys) \<and>
          length (write_dict keys) < 2 ^ 32 \<and> cb_raw_dict b = write_dict keys))"

definition block_ok :: "bool \<Rightarrow> column_block \<Rightarrow> bool" where
  "block_ok multi b \<longleftrightarrow> length (cb_data b) < 2 ^ 32 \<and>
     (if multi
      then \<exists>offs. offsets_ok (cb_offset_data b) (cb_num_docs b) offs \<and>
        validate_auto (cb_value_data b) (offs ! cb_num_docs b) = Inr ()
      else validate_auto (cb_data b) (cb_num_docs b) = Inr ())"

definition chained :: "column_block list \<Rightarrow> bool" where
  "chained blocks \<longleftrightarrow> (\<forall>i < length blocks. cb_cumulative_docs (blocks ! i) = sum_list (map cb_num_docs (take i blocks)))"

section \<open>Finding a block\<close>

lemma chained_mono:
  assumes "chained blocks" "i \<le> j" "j < length blocks"
  shows "cb_cumulative_docs (blocks ! i) \<le> cb_cumulative_docs (blocks ! j)"
proof -
  have "take j blocks = take i blocks @ take (j - i) (drop i blocks)" using assms(2) by (metis le_add_diff_inverse take_add)
  then show ?thesis using assms by (simp add: chained_def)
qed

lemma chained_next:
  assumes "chained blocks" "Suc i < length blocks"
  shows "cb_cumulative_docs (blocks ! Suc i) = cb_cumulative_docs (blocks ! i) + cb_num_docs (blocks ! i)"
  using assms by (simp add: chained_def take_Suc_conv_app_nth)

lemma find_block_ok:
  assumes "chained (fr_blocks r)" "fr_num_docs r = sum_list (map cb_num_docs (fr_blocks r))" "doc < fr_num_docs r"
  shows "\<exists>bi local. find_block r doc = Some (bi, local) \<and> bi < length (fr_blocks r) \<and>
    doc = cb_cumulative_docs (fr_blocks r ! bi) + local \<and> local < cb_num_docs (fr_blocks r ! bi)"
proof -
  define bs where "bs = fr_blocks r"
  have ne: "bs \<noteq> []" using assms(2,3) by (auto simp: bs_def)
  have c0: "cb_cumulative_docs (bs ! 0) = 0" using assms(1) ne by (simp add: chained_def bs_def)
  show ?thesis
  proof (cases "length bs = 1")
    case True
    then obtain b where b: "bs = [b]" by (cases bs) auto
    then show ?thesis using c0 assms(2,3) by (auto simp: find_block_def bs_def)
  next
    case False
    let ?p = "\<lambda>b. cb_cumulative_docs b \<le> doc"
    have mono: "\<And>i j. i < j \<Longrightarrow> j < length bs \<Longrightarrow> ?p (bs ! j) \<Longrightarrow> ?p (bs ! i)"
      by (rule order_trans [OF chained_mono [OF assms(1), folded bs_def]]) simp_all
    define k where "k = partition_point ?p bs"
    have pp: "k \<le> length bs" "\<And>i. i < k \<Longrightarrow> ?p (bs ! i)" "\<And>i. k \<le> i \<Longrightarrow> i < length bs \<Longrightarrow> \<not> ?p (bs ! i)"
      unfolding k_def by (rule partition_point_spec, erule (2) mono, assumption?)+
    have k: "0 < k" using pp(3) [of 0] c0 ne by (cases k) auto
    then have i: "k - 1 < length bs" "?p (bs ! (k - 1))" using pp(1) pp(2) [of "k - 1"] by simp_all
    have "doc < cb_cumulative_docs (bs ! (k - 1)) + cb_num_docs (bs ! (k - 1))"
    proof (cases "k < length bs")
      case True
      then show ?thesis using pp(3) [of k] chained_next [OF assms(1), of "k - 1"] k by (simp add: bs_def)
    next
      case False
      then have e: "length bs = Suc (k - 1)" using i(1) by simp
      have "sum_list (map cb_num_docs (take (Suc (k - 1)) bs)) =
          sum_list (map cb_num_docs (take (k - 1) bs)) + cb_num_docs (bs ! (k - 1))"
        using i(1) by (simp only: take_Suc_conv_app_nth map_append sum_list_append) simp
      then have "sum_list (map cb_num_docs bs) = sum_list (map cb_num_docs (take (k - 1) bs)) + cb_num_docs (bs ! (k - 1))"
        using e by simp
      then show ?thesis using assms(1-3) i(1) by (simp add: chained_def bs_def)
    qed
    then show ?thesis using i False
      by (intro exI [of _ "k - 1"] exI [of _ "doc - cb_cumulative_docs (bs ! (k - 1))"])
        (auto simp: find_block_def bs_def [symmetric] k_def [symmetric] Let_def)
  qed
qed

section \<open>Checkpoints\<close>

definition cp_less :: "checkpoint \<Rightarrow> checkpoint \<Rightarrow> bool" where
  "cp_less c d \<longleftrightarrow> cp_column_block c < cp_column_block d \<or>
     cp_column_block c = cp_column_block d \<and> cp_codec_block c < cp_codec_block d"

definition cp_ok :: "column_block list \<Rightarrow> checkpoint \<Rightarrow> bool" where
  "cp_ok blocks c \<longleftrightarrow> cp_offset c = block_pos (tl (cb_data (blocks ! cp_column_block c))) (cp_codec_block c)"

lemma block_pos_mono: "i \<le> j \<Longrightarrow> block_pos rest i \<le> block_pos rest j"
  by (rule lift_Suc_mono_le) auto

lemma block_checkpoints_ok:
  assumes ok: "blocks_ok rest n" and len: "length rest < 2 ^ 32 - 1" and col: "col < 2 ^ 32"
    and k: "k \<le> div_ceil n BLOCKWISE_LINEAR_BLOCK_SIZE"
  shows "\<exists>cps ord'. block_checkpoints (tag # rest) col stride [k..<div_ceil n BLOCKWISE_LINEAR_BLOCK_SIZE]
      (Suc (block_pos rest k)) ord = Some (cps, ord') \<and> sorted_wrt cp_less cps \<and>
    (\<forall>c \<in> set cps. cp_column_block c = col \<and> k \<le> cp_codec_block c \<and> cp_offset c = block_pos rest (cp_codec_block c))"
  using k
proof (induction "div_ceil n BLOCKWISE_LINEAR_BLOCK_SIZE - k" arbitrary: k ord)
  case 0
  then show ?case by simp
next
  case (Suc d)
  let ?m = "div_ceil n BLOCKWISE_LINEAR_BLOCK_SIZE"
  have km: "k < ?m" and d: "d = ?m - Suc k" using Suc.hyps(2) by simp_all
  have u: "[k..<?m] = k # [Suc k..<?m]" using km by (rule upt_conv_Cons)
  have le: "block_pos rest (Suc k) \<le> length rest" using ok km by (auto simp: blocks_ok_def)
  have pk: "k \<le> block_pos rest k" by (induction k) auto
  have fits: "as_u32 k = k" "as_u32 (block_pos rest k) = block_pos rest k" "as_u32 col = col"
    using le len col pk by (auto simp: as_u32_def)
  have l: "le_u32 (tag # rest) (Suc (block_pos rest k) + 25) = Some (u32_at rest (block_pos rest k + 25))"
    using block_fields(5) [OF ok km] le_u32_Cons [of "block_pos rest k + 25 + 1" tag rest] by (simp add: add.commute)
  obtain cps ord' where ih: "block_checkpoints (tag # rest) col stride [Suc k..<?m] (Suc (block_pos rest (Suc k))) (ord + 1) = Some (cps, ord')"
      "sorted_wrt cp_less cps"
      "\<forall>c \<in> set cps. cp_column_block c = col \<and> Suc k \<le> cp_codec_block c \<and> cp_offset c = block_pos rest (cp_codec_block c)"
    using Suc.hyps(1) [OF d Suc_leI [OF km], of "ord + 1"] by blast
  have nx: "Suc (block_pos rest k) + (29 + u32_at rest (block_pos rest k + 25)) = Suc (block_pos rest (Suc k))" by simp
  let ?c = "\<lparr>cp_column_block = col, cp_codec_block = k, cp_offset = block_pos rest k\<rparr>"
  have "block_checkpoints (tag # rest) col stride [k..<?m] (Suc (block_pos rest k)) ord =
      Some ((if ord mod stride = 0 then [?c] else []) @ cps, ord')"
    unfolding u block_checkpoints.simps l bind.bind_lunit nx ih(1) by (simp add: fits)
  then show ?case using ih(2,3)
    by (intro exI [of _ "(if ord mod stride = 0 then [?c] else []) @ cps"] exI [of _ ord']) (auto simp: cp_less_def Suc_le_eq dest: less_imp_le)
qed

lemma validated_blockwise:
  assumes "validate_auto data n = Inr ()" "is_blockwise data"
  shows "data = codec_code BlockwiseLinear # tl data" "blocks_ok (tl data) n"
    "le_u32 data 5 = Some (div_ceil n BLOCKWISE_LINEAR_BLOCK_SIZE)"
proof -
  obtain rest where d: "data = codec_code BlockwiseLinear # rest"
    using assms(2) by (cases data) (auto simp: is_blockwise_def)
  have b: "blocks_ok rest n"
    using assms(1) unfolding d by (rule validated_blocks_ok) (rule codec_round_trip)
  show "data = codec_code BlockwiseLinear # tl data" "blocks_ok (tl data) n" using b by (simp_all add: d)
  have "le_u32 data 5 = le_u32 rest 4" by (simp add: d le_u32_Cons)
  also have "\<dots> = Some (div_ceil n BLOCKWISE_LINEAR_BLOCK_SIZE)" using b by (auto simp: blocks_ok_def slices_in_range)
  finally show "le_u32 data 5 = Some (div_ceil n BLOCKWISE_LINEAR_BLOCK_SIZE)" .
qed

lemma codec_blocks_ok: "block_ok False b \<Longrightarrow> codec_blocks b = Some (if is_blockwise (cb_data b) then div_ceil (cb_num_docs b) BLOCKWISE_LINEAR_BLOCK_SIZE else 0)"
  using validated_blockwise(3) by (auto simp: codec_blocks_def block_ok_def)

lemma column_checkpoints_ok:
  assumes "\<forall>b \<in> set blocks. block_ok False b" "k + length blocks \<le> 2 ^ 32"
  shows "\<exists>cps. column_checkpoints stride (enumerate k blocks) ord = Some cps \<and> sorted_wrt cp_less cps \<and>
    (\<forall>c \<in> set cps. k \<le> cp_column_block c \<and> cp_column_block c < k + length blocks \<and>
      cp_offset c = block_pos (tl (cb_data (blocks ! (cp_column_block c - k)))) (cp_codec_block c))"
  using assms
proof (induction blocks arbitrary: k ord)
  case (Cons b blocks)
  let ?n = "if is_blockwise (cb_data b) then div_ceil (cb_num_docs b) BLOCKWISE_LINEAR_BLOCK_SIZE else 0"
  have b: "block_ok False b" using Cons.prems(1) by simp
  obtain cps1 ord' where c1: "block_checkpoints (cb_data b) k stride [0..<?n] 9 ord = Some (cps1, ord')" "sorted_wrt cp_less cps1"
      "\<forall>c \<in> set cps1. cp_column_block c = k \<and> cp_offset c = block_pos (tl (cb_data b)) (cp_codec_block c)"
  proof (cases "is_blockwise (cb_data b)")
    case True
    have v: "validate_auto (cb_data b) (cb_num_docs b) = Inr ()" "length (cb_data b) < 2 ^ 32" using b by (simp_all add: block_ok_def)
    note vb = validated_blockwise [OF v(1) True]
    obtain rest where r: "cb_data b = codec_code BlockwiseLinear # rest" using vb(1) by blast
    have bo: "blocks_ok rest (cb_num_docs b)" using vb(2) by (simp add: r)
    have "length rest < 2 ^ 32 - 1" "k < 2 ^ 32" using v(2) Cons.prems(2) by (simp_all add: r)
    from block_checkpoints_ok [OF bo this le0, of "codec_code BlockwiseLinear" stride ord]
    show thesis using that True by (auto simp: r)
  next
    case False
    then show thesis using that by simp
  qed
  obtain cps2 where c2: "column_checkpoints stride (enumerate (Suc k) blocks) ord' = Some cps2" "sorted_wrt cp_less cps2"
      "\<forall>c \<in> set cps2. Suc k \<le> cp_column_block c \<and> cp_column_block c < Suc k + length blocks \<and>
        cp_offset c = block_pos (tl (cb_data (blocks ! (cp_column_block c - Suc k)))) (cp_codec_block c)"
    using Cons.IH [of "Suc k" ord'] Cons.prems by auto
  have "column_checkpoints stride (enumerate k (b # blocks)) ord = Some (cps1 @ cps2)"
    using codec_blocks_ok [OF b] c1(1) c2(1) by simp
  moreover have "sorted_wrt cp_less (cps1 @ cps2)"
    using c1(2,3) c2(2,3) by (fastforce simp: sorted_wrt_append cp_less_def)
  moreover have "\<forall>c \<in> set (cps1 @ cps2). k \<le> cp_column_block c \<and> cp_column_block c < k + length (b # blocks) \<and>
      cp_offset c = block_pos (tl (cb_data ((b # blocks) ! (cp_column_block c - k)))) (cp_codec_block c)"
  proof
    fix c assume "c \<in> set (cps1 @ cps2)"
    then consider "c \<in> set cps1" | "c \<in> set cps2" by auto
    then show "k \<le> cp_column_block c \<and> cp_column_block c < k + length (b # blocks) \<and>
      cp_offset c = block_pos (tl (cb_data ((b # blocks) ! (cp_column_block c - k)))) (cp_codec_block c)"
    proof cases
      case 1
      then show ?thesis using c1(3) by simp
    next
      case 2
      then have c: "Suc k \<le> cp_column_block c" "cp_column_block c < Suc k + length blocks"
          "cp_offset c = block_pos (tl (cb_data (blocks ! (cp_column_block c - Suc k)))) (cp_codec_block c)"
        using c2(3) by simp_all
      then have "cp_column_block c - k = Suc (cp_column_block c - Suc k)" by simp
      then show ?thesis using c by simp
    qed
  qed
  ultimately show ?case by blast
qed simp

definition checkpoints_ok :: "column_block list \<Rightarrow> checkpoint list \<Rightarrow> bool" where
  "checkpoints_ok blocks cps \<longleftrightarrow> sorted_wrt cp_less cps \<and>
     (\<forall>c \<in> set cps. cp_column_block c < length blocks \<and>
       cp_offset c = block_pos (tl (cb_data (blocks ! cp_column_block c))) (cp_codec_block c))"

lemma checkpoints_new_ok:
  assumes "\<forall>b \<in> set blocks. block_ok multi b" "length blocks \<le> 2 ^ 32"
  shows "\<exists>cps. checkpoints_new blocks multi = Some cps \<and> (\<not> multi \<longrightarrow> checkpoints_ok blocks cps)"
proof (cases multi)
  case False
  let ?n = "\<lambda>b. if is_blockwise (cb_data b) then div_ceil (cb_num_docs b) BLOCKWISE_LINEAR_BLOCK_SIZE else 0"
  have ok: "\<forall>b \<in> set blocks. block_ok False b" using assms(1) False by simp
  have "map codec_blocks blocks = map Some (map ?n blocks)" using ok codec_blocks_ok by simp
  then have a: "option_all (map codec_blocks blocks) = Some (map ?n blocks)" by (simp only: option_all_Some)
  show ?thesis using column_checkpoints_ok [OF ok, of 0 "max (div_ceil (sum_list (map ?n blocks)) MAX_CHECKPOINTS) 1" 0] assms(2) False
    unfolding checkpoints_new_def a by (simp add: Let_def checkpoints_ok_def)
qed (simp add: checkpoints_new_def)

lemma cp_le_mono:
  assumes "sorted_wrt cp_less cps" "i < j" "j < length cps" "checkpoint_le (cps ! j) b k"
  shows "checkpoint_le (cps ! i) b k"
  using sorted_wrt_nth_less [OF assms(1-3)] assms(4) by (auto simp: cp_less_def checkpoint_le_def)

lemma checkpoints_read_eq:
  assumes cps: "checkpoints_ok blocks cps" and b: "block < length blocks" "length blocks \<le> 2 ^ 32" "block_ok False (blocks ! block)"
    and local: "local < cb_num_docs (blocks ! block)"
  shows "checkpoints_read cps blocks block local = auto_read (cb_data (blocks ! block)) local"
proof (cases "is_blockwise (cb_data (blocks ! block))")
  case True
  define data n where "data = cb_data (blocks ! block)" and "n = cb_num_docs (blocks ! block)"
  have v: "validate_auto data n = Inr ()" using b(3) by (simp add: block_ok_def data_def n_def)
  note vb = validated_blockwise [OF v True [folded data_def]]
  define target where "target = local div BLOCKWISE_LINEAR_BLOCK_SIZE"
  have t: "target < div_ceil n BLOCKWISE_LINEAR_BLOCK_SIZE" unfolding target_def
    using local by (intro div_less_div_ceil [OF block_size_pos]) (simp add: n_def)
  have u: "as_u32 block = block" using b(1,2) by (simp add: as_u32_def)
  have resume: "blockwise_linear_read_from (tl data) local k (block_pos (tl data) k) = blockwise_linear_read (tl data) local"
    if "k \<le> target" for k
    using read_loop_value [OF vb(2), of k local, folded target_def] read_loop_value [OF vb(2), of 0 local, folded target_def]
      that t vb(2)
    by (simp add: blockwise_linear_read_def blockwise_linear_read_from_def blocks_ok_def slices_in_range)
  define stop where "stop = partition_point (\<lambda>c. checkpoint_le c block target) cps"
  have s: "sorted_wrt cp_less cps" using cps by (simp add: checkpoints_ok_def)
  have pp: "stop \<le> length cps" "\<And>i. i < stop \<Longrightarrow> checkpoint_le (cps ! i) block target"
    unfolding stop_def by (rule partition_point_spec, erule (2) cp_le_mono [OF s], assumption?)+
  have "auto_read data local = blockwise_linear_read (tl data) local"
    by (subst vb(1)) (simp add: auto_read_def codec_from_u8_def)
  moreover have "checkpoints_read cps blocks block local = blockwise_linear_read (tl data) local"
  proof (cases "stop > 0 \<and> cp_column_block (cps ! (stop - 1)) = block")
    case hit: True
    define c where "c = cps ! (stop - 1)"
    have "c \<in> set cps" using hit pp(1) by (auto simp: c_def)
    then have "cp_offset c = block_pos (tl data) (cp_codec_block c)" using cps hit by (auto simp: checkpoints_ok_def c_def data_def)
    moreover have "cp_codec_block c \<le> target" using pp(2) [of "stop - 1"] hit by (simp add: c_def checkpoint_le_def)
    ultimately show ?thesis using hit True b(1) resume
      by (simp add: checkpoints_read_def u target_def [symmetric] stop_def [symmetric] c_def data_def [symmetric] Let_def)
  next
    case False
    then show ?thesis using True b(1) resume [of 0]
      by (auto simp: checkpoints_read_def u target_def [symmetric] stop_def [symmetric] data_def [symmetric] Let_def)
  qed
  ultimately show ?thesis by (simp add: data_def)
qed (use b in \<open>simp add: checkpoints_read_def\<close>)

end
