(* ===== verification/FastFieldOpen.thy ===== *)
theory FastFieldOpen
  imports FastFieldReader
begin

text \<open>
  What opening a column guarantees: a reader returned by \<open>FastFieldReader::open\<close>, from
  whatever bytes, has consistent blocks, so that no accessor, cursor or scan can
  panic afterwards, and the different ways of reading a value agree. The merged
  ordinals of a text column point at the strings its blocks hold.
\<close>

text \<open>How the parts of a block are cut out of its bytes.\<close>

definition parts_ok :: "bool \<Rightarrow> column_block \<Rightarrow> bool" where
  "parts_ok multi b \<longleftrightarrow>
     (if multi
      then \<exists>k. le_u32 (cb_data b) 0 = Some k \<and> 4 + k \<le> length (cb_data b) \<and>
        cb_offset_data b = take k (drop 4 (cb_data b)) \<and> cb_value_data b = drop (4 + k) (cb_data b) \<and>
        validate_auto (cb_offset_data b) (cb_num_docs b + 1) = Inr ()
      else cb_offset_data b = [] \<and> cb_value_data b = [])"

definition reader_wf :: "fast_field_reader \<Rightarrow> bool" where
  "reader_wf r \<longleftrightarrow> chained (fr_blocks r) \<and> fr_num_docs r = sum_list (map cb_num_docs (fr_blocks r)) \<and>
     length (fr_blocks r) < 2 ^ 32 \<and>
     (\<forall>b \<in> set (fr_blocks r). block_ok (fr_multi r) b \<and> parts_ok (fr_multi r) b \<and> block_dict_ok (fr_column_type r) b) \<and>
     (\<not> fr_multi r \<longrightarrow> checkpoints_ok (fr_blocks r) (fr_checkpoints r))"

section \<open>Opening establishes the invariant\<close>

lemma check_offsets_ok:
  assumes "check_offsets data idxs prev = Some (Inr p)"
  shows "\<exists>offs. map (auto_read data) idxs = map (\<lambda>x. Some (word_of_nat x)) offs \<and> (\<forall>x \<in> set offs. x < 2 ^ 32) \<and>
    sorted (unat prev # offs) \<and> unat p = last (unat prev # offs) \<and> (\<forall>i < length idxs. idxs ! i = 0 \<longrightarrow> offs ! i = 0)"
  using assms
proof (induction data idxs prev rule: check_offsets.induct)
  case (2 data i idxs prev)
  obtain v where v: "auto_read data i = Some v" "\<not> (v > 0xFFFFFFFF \<or> (i = 0 \<and> v \<noteq> 0) \<or> v < prev)"
      "check_offsets data idxs v = Some (Inr p)"
    using "2.prems" by (auto simp: tbind_ok split: if_splits)
  obtain offs where o: "map (auto_read data) idxs = map (\<lambda>x. Some (word_of_nat x)) offs" "\<forall>x \<in> set offs. x < 2 ^ 32"
      "sorted (unat v # offs)" "unat p = last (unat v # offs)" "\<forall>i < length idxs. idxs ! i = 0 \<longrightarrow> offs ! i = 0"
    using "2.IH" [OF v(2,3)] by blast
  have lt: "unat v < 2 ^ 32" "unat prev \<le> unat v" using v(2) by (auto simp: word_less_nat_alt word_le_nat_alt not_less)
  have z: "\<forall>j < length (i # idxs). (i # idxs) ! j = 0 \<longrightarrow> (unat v # offs) ! j = 0"
    using v(2) o(5) by (auto simp: less_Suc_eq_0_disj)
  show ?case using v(1) o(1-4) lt z
    by (intro exI [of _ "unat v # offs"]) (auto simp del: upt_Suc)
qed simp

lemma parse_multi_ok:
  assumes "parse_multi_block file n a b = Some (Inr (raw, offset_data, value_data))"
  shows "length raw = b - a \<and> (\<exists>offs. offsets_ok offset_data n offs \<and> validate_auto value_data (offs ! n) = Inr ())"
proof -
  obtain p where r: "slice file a b = Some raw"
      "check_offsets offset_data [0..<n + 1] 0 = Some (Inr p)" "validate_auto value_data (unat p) = Inr ()"
    using assms by (auto simp: parse_multi_block_def tbind_ok Let_def simp del: upt_Suc split: if_splits)
  obtain offs where o: "map (auto_read offset_data) [0..<n + 1] = map (\<lambda>x. Some (word_of_nat x)) offs" "\<forall>x \<in> set offs. x < 2 ^ 32"
      "sorted offs" "unat p = last (0 # offs)" "\<forall>i < n + 1. [0..<n + 1] ! i = 0 \<longrightarrow> offs ! i = 0"
    using check_offsets_ok [OF r(2)] by (auto simp del: upt_Suc)
  have l: "length offs = n + 1" using arg_cong [OF o(1), of length] by simp
  have "auto_read offset_data i = Some (word_of_nat (offs ! i))" if "i \<le> n" for i
    using arg_cong [OF o(1), of "\<lambda>xs. xs ! i"] that l by (simp del: upt_Suc)
  moreover have "offs ! 0 = 0" using o(5) by (simp del: upt_Suc)
  moreover have "offs ! n = unat p" using o(4) l by (cases offs rule: rev_cases) auto
  ultimately have "offsets_ok offset_data n offs" "validate_auto value_data (offs ! n) = Inr ()"
    using o(2,3) l r(3) by (auto simp: offsets_ok_def)
  then show ?thesis using r(1) by (auto simp: slice_def split: if_splits)
qed

lemma parse_multi_parts:
  assumes "parse_multi_block file n a b = Some (Inr (raw, offset_data, value_data))"
  shows "\<exists>k. le_u32 raw 0 = Some k \<and> 4 + k \<le> length raw \<and> offset_data = take k (drop 4 raw) \<and> value_data = drop (4 + k) raw \<and>
    validate_auto offset_data (n + 1) = Inr ()"
proof -
  obtain k where k: "slice file a b = Some raw" "le_u32 raw 0 = Some k" "\<not> a + 4 + k > b"
      "slice file (a + 4) (a + 4 + k) = Some offset_data" "slice file (a + 4 + k) b = Some value_data"
      "validate_auto offset_data (n + 1) = Inr ()"
    using assms by (auto simp: parse_multi_block_def tbind_ok Let_def simp del: upt_Suc split: if_splits)
  have raw: "a \<le> b" "b \<le> length file" "raw = take (b - a) (drop a file)" using k(1) by (auto simp: slice_def split: if_splits)
  have "offset_data = take k (drop 4 raw)" "value_data = drop (4 + k) raw"
    using k(3-5) raw by (auto simp: slice_def drop_take add.commute add.left_commute split: if_splits)
  then show ?thesis using k(2,3,6) raw by auto
qed

lemma parse_single_ok:
  "parse_single_block file n a b = Some (Inr (data, x, y)) \<Longrightarrow>
   length data = b - a \<and> validate_auto data n = Inr () \<and> x = [] \<and> y = []"
  by (auto simp: parse_single_block_def tbind_ok slice_def split: if_splits)

lemma check_block_dict_ok:
  assumes "check_block_dict ct dict_bytes dict_count (length dict_bytes) = Some (Inr ())" "length dict_bytes < 2 ^ 32"
  shows "block_dict_ok ct (b\<lparr>cb_dict := (if dict_count > 0 then Some (new_lazy dict_bytes dict_count) else None),
    cb_raw_dict := (if length dict_bytes > 0 then dict_bytes else [])\<rparr>)"
proof (cases "dict_count = 0")
  case True
  then have "dict_bytes = []" using assms(1) by (auto simp: check_block_dict_def split: if_splits)
  then show ?thesis using True by (simp add: block_dict_ok_def)
next
  case False
  then have t: "ct = ColTextOrdinal" "validate_text_dict_bytes dict_bytes dict_count = Some (Inr ())"
    using assms(1) by (auto simp: check_block_dict_def split: if_splits)
  have "usize_fits (length dict_bytes)" using assms(2) by (simp add: usize_fits_def)
  then obtain keys where k: "length keys = dict_count" "dict_keys_ok keys" "dict_bytes = write_dict keys"
    using t(2) validate_iff_written by blast
  then have "keys \<noteq> []" "length dict_bytes > 0" using False by (auto simp: length_write_dict)
  then show ?thesis using k t(1) assms(2) False unfolding block_dict_ok_def
    by (auto intro!: exI [of _ keys])
qed

lemma open_block_ok:
  assumes "open_block file toc region_end entry cumulative pos = Some (Inr (b, pos'))"
  shows "block_ok (toc_multi toc) b \<and> parts_ok (toc_multi toc) b \<and> block_dict_ok (toc_column_type toc) b \<and> cb_cumulative_docs b = cumulative \<and>
    cb_num_docs b = unat (bie_num_docs entry)"
proof -
  define n data_end where "n = unat (bie_num_docs entry)" and "data_end = pos + unat (bie_data_len entry)"
  obtain d x y dict where o: "(if toc_multi toc then parse_multi_block file n pos data_end
        else parse_single_block file n pos data_end) = Some (Inr (d, x, y))"
      "slice file data_end (data_end + unat (bie_dict_len entry)) = Some dict"
      "check_block_dict (toc_column_type toc) dict (unat (bie_dict_count entry)) (unat (bie_dict_len entry)) = Some (Inr ())"
      "b = \<lparr>cb_cumulative_docs = cumulative, cb_num_docs = n, cb_data = d, cb_offset_data = x, cb_value_data = y,
        cb_dict = (if unat (bie_dict_count entry) > 0 then Some (new_lazy dict (unat (bie_dict_count entry))) else None),
        cb_raw_dict = (if unat (bie_dict_len entry) > 0 then dict else [])\<rparr>"
    using assms unfolding open_block_def Let_def n_def data_end_def
    by (auto simp: tbind_ok split: if_splits prod.splits)
  have l: "length dict = unat (bie_dict_len entry)" using o(2) by (auto simp: slice_def split: if_splits)
  have u: "length dict < 2 ^ 32" unfolding l using unsigned_less [of "bie_dict_len entry", where ?'a = nat] by simp
  have "length d = unat (bie_data_len entry)"
    using o(1) parse_multi_ok parse_single_ok by (auto simp: data_end_def split: if_splits)
  then have dl: "length d < 2 ^ 32" using unsigned_less [of "bie_data_len entry", where ?'a = nat] by simp
  have "block_ok (toc_multi toc) b"
    using o(1) parse_multi_ok parse_single_ok dl by (auto simp: block_ok_def o(4) split: if_splits)
  moreover have "parts_ok (toc_multi toc) b"
    using o(1) parse_multi_parts parse_single_ok by (auto simp: parts_ok_def o(4) n_def split: if_splits)
  moreover have "block_dict_ok (toc_column_type toc) b"
    using check_block_dict_ok [OF o(3) [folded l] u, of b] by (simp add: o(4) l [symmetric])
  ultimately show ?thesis by (simp only: simp_thms) (simp add: o(4) n_def)
qed

lemma chained_snoc:
  "chained blocks \<Longrightarrow> cb_cumulative_docs b = sum_list (map cb_num_docs blocks) \<Longrightarrow> chained (blocks @ [b])"
  by (auto simp: chained_def nth_append less_Suc_eq)

lemma open_blocks_ok:
  assumes "open_blocks file toc region_end entries cumulative pos blocks = Some (Inr (bs, docs, stop))"
    "chained blocks" "cumulative = sum_list (map cb_num_docs blocks)"
    "\<forall>b \<in> set blocks. block_ok (toc_multi toc) b \<and> parts_ok (toc_multi toc) b \<and> block_dict_ok (toc_column_type toc) b"
  shows "chained bs \<and> docs = sum_list (map cb_num_docs bs) \<and> length bs = length blocks + length entries \<and>
    (\<forall>b \<in> set bs. block_ok (toc_multi toc) b \<and> parts_ok (toc_multi toc) b \<and> block_dict_ok (toc_column_type toc) b)"
  using assms
proof (induction entries arbitrary: cumulative pos blocks)
  case (Cons entry entries)
  obtain b pos' where b: "open_block file toc region_end entry cumulative pos = Some (Inr (b, pos'))"
      "\<not> cumulative + unat (bie_num_docs entry) \<ge> 2 ^ 32"
      "open_blocks file toc region_end entries (cumulative + unat (bie_num_docs entry)) pos' (blocks @ [b]) = Some (Inr (bs, docs, stop))"
    using Cons.prems(1) by (auto simp: tbind_ok Let_def split: if_splits prod.splits)
  note ok = open_block_ok [OF b(1)]
  have "chained (blocks @ [b])" using chained_snoc Cons.prems(2,3) ok by blast
  then show ?case using Cons.IH [OF b(3)] Cons.prems(3,4) ok by auto
qed simp

lemma rreplicate_length: "rreplicate n m bs = Inr (xs, rest) \<Longrightarrow> length xs = n"
  by (induction n arbitrary: bs xs rest) (auto simp: rbind_def rreturn_def split: sum.splits prod.splits)

lemma reader_open_wf:
  assumes "reader_open file toc = Some (Inr r)"
  shows "reader_wf r"
proof -
  define region_end where "region_end = unat (toc_data_offset toc) + unat (toc_data_len toc)"
  obtain num_blocks idx entries rest blocks cumulative stop cps pos where o:
      "le_u32 file (unat (toc_data_offset toc)) = Some num_blocks"
      "rreplicate num_blocks block_index_read_from idx = Inr (entries, rest)"
      "open_blocks file toc region_end entries 0 pos [] = Some (Inr (blocks, cumulative, stop))"
      "cumulative = unat (toc_num_docs toc)" "checkpoints_new blocks (toc_multi toc) = Some cps"
      "r = \<lparr>fr_column_type = toc_column_type toc, fr_num_docs = unat (toc_num_docs toc),
        fr_multi = toc_multi toc, fr_blocks = blocks, fr_checkpoints = cps\<rparr>"
    using assms unfolding reader_open_def Let_def region_end_def
    by (auto simp: tbind_ok split: if_splits prod.splits)
  have bs: "chained blocks" "cumulative = sum_list (map cb_num_docs blocks)" "length blocks = length entries"
      "\<forall>b \<in> set blocks. block_ok (toc_multi toc) b \<and> parts_ok (toc_multi toc) b \<and> block_dict_ok (toc_column_type toc) b"
    using open_blocks_ok [OF o(3)] by (simp_all add: chained_def)
  have "num_blocks < 2 ^ 32" using o(1) unsigned_less [of "of_le (take 4 (drop (unat (toc_data_offset toc)) file)) :: u32", where ?'a = nat]
    by (auto simp: le_u32_def split: if_splits)
  then have l: "length blocks < 2 ^ 32" using rreplicate_length [OF o(2)] bs(3) by simp
  have "\<not> toc_multi toc \<longrightarrow> checkpoints_ok blocks cps"
    using checkpoints_new_ok [of blocks "toc_multi toc"] bs(4) l o(5) by auto
  then show ?thesis using bs l o(4) by (simp add: reader_wf_def o(6))
qed

section \<open>The merged text dictionary\<close>

definition keys_of :: "column_block \<Rightarrow> str list" where
  "keys_of b = (case cb_dict b of None \<Rightarrow> [] | Some d \<Rightarrow> the (dict_iter d))"

lemma block_dict_keys:
  assumes "block_dict_ok ct b"
  shows "dict_keys_ok (keys_of b)" "cb_raw_dict b = write_dict (keys_of b)"
    "cb_dict b = (if keys_of b = [] then None else Some (new_lazy (write_dict (keys_of b)) (length (keys_of b))))"
    "length (write_dict (keys_of b)) < 2 ^ 32"
proof -
  have "dict_keys_ok (keys_of b) \<and> cb_raw_dict b = write_dict (keys_of b) \<and>
    cb_dict b = (if keys_of b = [] then None else Some (new_lazy (write_dict (keys_of b)) (length (keys_of b)))) \<and>
    length (write_dict (keys_of b)) < 2 ^ 32"
  proof (cases "cb_dict b")
    case None
    then show ?thesis using assms by (simp add: keys_of_def block_dict_ok_def dict_keys_ok_def)
  next
    case (Some d)
    then obtain keys where k: "keys \<noteq> []" "dict_keys_ok keys" "d = new_lazy (write_dict keys) (length keys)"
        "length (write_dict keys) < 2 ^ 32" "cb_raw_dict b = write_dict keys"
      using assms by (auto simp: block_dict_ok_def)
    then have "keys_of b = keys" using Some written_dict_reads(2) [OF k(2,4)] by (simp add: keys_of_def)
    then show ?thesis using k Some by simp
  qed
  then show "dict_keys_ok (keys_of b)" "cb_raw_dict b = write_dict (keys_of b)"
    "cb_dict b = (if keys_of b = [] then None else Some (new_lazy (write_dict (keys_of b)) (length (keys_of b))))"
    "length (write_dict (keys_of b)) < 2 ^ 32" by simp_all
qed

lemma block_dict_get:
  assumes "block_dict_ok ct b" "cb_dict b = Some d"
  shows "dict_get d i = Some (if i < length (keys_of b) then Some (keys_of b ! i) else None)" "text_dict_len d = length (keys_of b)"
  using block_dict_keys [OF assms(1)] assms(2) written_dict_reads(1) [of "keys_of b" i]
  by (auto simp: text_dict_len_def new_lazy_def split: if_splits)

lemma insert_texts_dict: "dict_of m S \<Longrightarrow> dict_of (insert_texts (map Some keys) m) (S \<union> set keys)"
proof (induction keys arbitrary: m S)
  case (Cons k keys)
  from Cons.IH [OF dict_of_insert [OF Cons.prems, of k 0]] show ?case by simp
qed simp

lemma unique_texts_ok:
  assumes "\<forall>b \<in> set blocks. block_dict_ok ct b" "dict_of m S"
  shows "\<exists>m'. unique_texts blocks m = Some m' \<and> dict_of m' (S \<union> (\<Union>b \<in> set blocks. set (keys_of b)))"
  using assms
proof (induction blocks arbitrary: m S)
  case (Cons b blocks)
  show ?case
  proof (cases "cb_dict b")
    case None
    then have "keys_of b = []" by (simp add: keys_of_def)
    then show ?thesis using None Cons by simp
  next
    case (Some d)
    have b: "block_dict_ok ct b" using Cons.prems(1) by simp
    have "map (dict_get d) [0..<text_dict_len d] = map Some (map Some (keys_of b))"
      by (rule nth_equalityI) (simp_all add: block_dict_get [OF b Some])
    then have t: "option_all (map (dict_get d) [0..<text_dict_len d]) = Some (map Some (keys_of b))"
      by (simp only: option_all_Some)
    show ?thesis using Cons.IH [OF _ insert_texts_dict [OF Cons.prems(2), of "keys_of b"]] Cons.prems(1) Some t
      by (auto simp: Un_assoc)
  qed
qed simp

definition merged_keys :: "column_block list \<Rightarrow> str list" where
  "merged_keys blocks = map fst (the (unique_texts blocks []))"

lemma merged_keys_ok:
  assumes "\<forall>b \<in> set blocks. block_dict_ok ct b"
  shows "\<exists>m. unique_texts blocks [] = Some m \<and> map fst m = merged_keys blocks"
    "dict_keys_ok (merged_keys blocks)" "set (merged_keys blocks) = (\<Union>b \<in> set blocks. set (keys_of b))"
proof -
  obtain m where m: "unique_texts blocks [] = Some m" "dict_of m (\<Union>b \<in> set blocks. set (keys_of b))"
    using unique_texts_ok [OF assms, of "[]" "{}"] by (auto simp: dict_of_def)
  then have k: "merged_keys blocks = map fst m" by (simp add: merged_keys_def)
  then show "\<exists>m. unique_texts blocks [] = Some m \<and> map fst m = merged_keys blocks" using m(1) by simp
  show s: "set (merged_keys blocks) = (\<Union>b \<in> set blocks. set (keys_of b))" using m(2) k by (simp add: dict_of_def)
  have "\<forall>k \<in> set (merged_keys blocks). utf8_valid k \<and> length k < 2 ^ 32"
    unfolding s using block_dict_keys(1) assms by (auto simp: dict_keys_ok_def)
  moreover have "strictly_sorted (merged_keys blocks)" using m(2) k by (simp add: dict_of_def)
  ultimately show "dict_keys_ok (merged_keys blocks)" unfolding dict_keys_ok_def by blast
qed

lemma map_of_positions:
  assumes "distinct (map fst m)" "i < length m"
  shows "map_of (map (\<lambda>(i, k, _). (k, g i)) (enumerate n m)) (fst (m ! i)) = Some (g (n + i))"
  using assms
proof (induction m arbitrary: n i)
  case (Cons a m)
  then show ?case by (cases i; cases a) (auto simp: nth_mem image_iff dest: nth_mem)
qed simp

definition merged_position :: "column_block list \<Rightarrow> str \<Rightarrow> nat" where
  "merged_position blocks s = the (map_of (map (\<lambda>(i, k). (k, i)) (enumerate 0 (merged_keys blocks))) s)"

lemma merged_position_nth:
  assumes "dict_keys_ok (merged_keys blocks)" "i < length (merged_keys blocks)"
  shows "merged_position blocks (merged_keys blocks ! i) = i"
  using map_of_enumerate [of "merged_keys blocks" i "\<lambda>x. x" 0] assms
  by (simp add: merged_position_def dict_keys_ok_def strict_sorted_iff)

lemma block_ordinal_map_ok:
  assumes ok: "\<forall>b \<in> set blocks. block_dict_ok ct b" and m: "unique_texts blocks [] = Some m" and b: "b \<in> set blocks"
  shows "block_ordinal_map (map (\<lambda>(i, k, _). (k, as_u32 i)) (enumerate 0 m)) b =
    Some (map (\<lambda>s. as_u32 (merged_position blocks s)) (keys_of b))"
proof (cases "cb_dict b")
  case None
  then show ?thesis by (simp add: block_ordinal_map_def keys_of_def)
next
  case (Some d)
  let ?u = "map (\<lambda>(i, k, _). (k, as_u32 i)) (enumerate 0 m)"
  have bo: "block_dict_ok ct b" using ok b by blast
  have k: "map fst m = merged_keys blocks" using merged_keys_ok(1) [OF ok] m by auto
  have d: "distinct (map fst m)" using merged_keys_ok(2) [OF ok] k by (simp add: dict_keys_ok_def strict_sorted_iff)
  have pos: "map_of ?u s = Some (as_u32 (merged_position blocks s))" if s: "s \<in> set (keys_of b)" for s
  proof -
    have "s \<in> set (merged_keys blocks)" using s b merged_keys_ok(3) [OF ok] by blast
    then obtain i where i: "i < length (merged_keys blocks)" "merged_keys blocks ! i = s" by (auto simp: in_set_conv_nth)
    have il: "i < length m" "fst (m ! i) = s" using i k by (metis length_map, metis length_map nth_map)
    show ?thesis using map_of_positions [OF d il(1), of as_u32 0] merged_position_nth [OF merged_keys_ok(2) [OF ok] i(1)] il(2) i(2)
      by simp
  qed
  have "map (\<lambda>ord. do { found \<leftarrow> dict_get d ord; s \<leftarrow> found; map_of ?u s }) [0..<text_dict_len d] =
      map Some (map (\<lambda>s. as_u32 (merged_position blocks s)) (keys_of b))"
    by (rule nth_equalityI) (simp_all add: block_dict_get [OF bo Some] pos)
  then have "option_all (map (\<lambda>ord. do { found \<leftarrow> dict_get d ord; s \<leftarrow> found; map_of ?u s }) [0..<text_dict_len d]) =
      Some (map (\<lambda>s. as_u32 (merged_position blocks s)) (keys_of b))"
    by (simp only: option_all_Some)
  then show ?thesis using Some by (simp add: block_ordinal_map_def)
qed

text \<open>The state of a column whose strings are in one dictionary at most, and of a merged one.\<close>

lemma build_text_state_ok:
  assumes ok: "\<forall>b \<in> set blocks. block_dict_ok ct b"
  shows "\<exists>state. build_text_state blocks = Some state \<and> length (ts_ordinal_maps state) = length blocks \<and>
    (if length (filter (\<lambda>b. cb_dict b \<noteq> None) blocks) \<le> 1
     then ts_ordinal_maps state = replicate (length blocks) [] \<and>
       (\<forall>b \<in> set blocks. cb_dict b \<noteq> None \<longrightarrow> ts_global_dict state = new_lazy (write_dict (keys_of b)) (length (keys_of b)))
     else ts_ordinal_maps state = map (\<lambda>b. map (\<lambda>s. as_u32 (merged_position blocks s)) (keys_of b)) blocks \<and>
       ts_global_dict state = new_lazy (write_dict (merged_keys blocks)) (as_u32 (length (merged_keys blocks))))"
proof (cases "length (filter (\<lambda>b. cb_dict b \<noteq> None) blocks) \<le> 1")
  case True
  show ?thesis
  proof (cases "List.find (\<lambda>b. cb_dict b \<noteq> None) blocks")
    case None
    then have "\<forall>b \<in> set blocks. cb_dict b = None" by (simp add: find_None_iff)
    then show ?thesis using True None by (simp add: build_text_state_def)
  next
    case (Some b0)
    then have b0: "b0 \<in> set blocks" "cb_dict b0 \<noteq> None" by (auto simp: find_Some_iff)
    have one: "b = b0" if "b \<in> set blocks" "cb_dict b \<noteq> None" for b
    proof -
      define xs where "xs = filter (\<lambda>b. cb_dict b \<noteq> None) blocks"
      have "b \<in> set xs" "b0 \<in> set xs" using that b0 by (simp_all add: xs_def)
      moreover have "length xs \<le> 1" using True by (simp add: xs_def)
      ultimately show ?thesis by (cases xs) auto
    qed
    obtain d where d: "cb_dict b0 = Some d" using b0(2) by auto
    have bo: "block_dict_ok ct b0" using ok b0(1) by blast
    have "cb_raw_dict b0 = write_dict (keys_of b0)" "text_dict_len d = length (keys_of b0)"
      using block_dict_keys(2) [OF bo] block_dict_get(2) [OF bo d] by simp_all
    then show ?thesis using True Some one d by (auto simp: build_text_state_def)
  qed
next
  case False
  obtain m where m: "unique_texts blocks [] = Some m" "map fst m = merged_keys blocks" using merged_keys_ok(1) [OF ok] by blast
  let ?u = "map (\<lambda>(i, k, _). (k, as_u32 i)) (enumerate 0 m)"
  have "map (block_ordinal_map ?u) blocks = map Some (map (\<lambda>b. map (\<lambda>s. as_u32 (merged_position blocks s)) (keys_of b)) blocks)"
    using block_ordinal_map_ok [OF ok m(1)] by simp
  then have a: "option_all (map (block_ordinal_map ?u) blocks) = Some (map (\<lambda>b. map (\<lambda>s. as_u32 (merged_position blocks s)) (keys_of b)) blocks)"
    by (simp only: option_all_Some)
  have k: "map fst ?u = merged_keys blocks" unfolding m(2) [symmetric]
    by (rule nth_equalityI) (simp_all add: nth_enumerate_eq split_beta)
  have l: "length ?u = length (merged_keys blocks)" using k by (metis length_map)
  define u where "u = ?u"
  have "build_text_state blocks = Some \<lparr>ts_global_dict = new_lazy (write_dict (map fst u)) (as_u32 (length u)),
      ts_ordinal_maps = map (\<lambda>b. map (\<lambda>s. as_u32 (merged_position blocks s)) (keys_of b)) blocks\<rparr>"
    using False a unfolding build_text_state_def m(1) u_def by (simp add: Let_def)
  then show ?thesis using False k l by (simp add: u_def [symmetric])
qed

section \<open>Single-valued reads\<close>

definition remap_value :: "nat list \<Rightarrow> u64 \<Rightarrow> u64" where
  "remap_value m raw =
     (if m = [] \<or> raw = FAST_FIELD_MISSING then raw
      else if unat raw < length m then word_of_nat (m ! unat raw) else FAST_FIELD_MISSING)"

lemma remap_batch_value: "remap_batch m vs = map (remap_value m) vs"
  by (auto simp: remap_batch_def remap_value_def map_idI)

definition column_maps :: "fast_field_reader \<Rightarrow> nat list list" where
  "column_maps r = (if fr_column_type r = ColTextOrdinal \<and> length (fr_blocks r) > 1
     then ts_ordinal_maps (the (build_text_state (fr_blocks r))) else replicate (length (fr_blocks r)) [])"

lemma wf_dicts: "reader_wf r \<Longrightarrow> \<forall>b \<in> set (fr_blocks r). block_dict_ok (fr_column_type r) b"
  by (simp add: reader_wf_def)

lemma length_column_maps:
  assumes "reader_wf r"
  shows "length (column_maps r) = length (fr_blocks r)"
  using build_text_state_ok [OF wf_dicts [OF assms]] by (auto simp: column_maps_def)

lemma remap_ordinal_value:
  assumes "reader_wf r" "bi < length (fr_blocks r)"
  shows "remap_ordinal r bi raw = Some (remap_value (column_maps r ! bi) raw)"
  using build_text_state_ok [OF wf_dicts [OF assms(1)]] assms(2)
  by (auto simp: remap_ordinal_def column_maps_def remap_value_def Let_def)

lemma wf_find_block:
  assumes "reader_wf r" "doc < fr_num_docs r"
  shows "\<exists>bi local. find_block r doc = Some (bi, local) \<and> bi < length (fr_blocks r) \<and>
    doc = cb_cumulative_docs (fr_blocks r ! bi) + local \<and> local < cb_num_docs (fr_blocks r ! bi)"
  using find_block_ok assms by (simp add: reader_wf_def)

lemma find_block_unique:
  assumes wf: "reader_wf r" and b: "bi < length (fr_blocks r)" "local < cb_num_docs (fr_blocks r ! bi)"
  shows "find_block r (cb_cumulative_docs (fr_blocks r ! bi) + local) = Some (bi, local)"
    "cb_cumulative_docs (fr_blocks r ! bi) + local < fr_num_docs r"
proof -
  let ?bs = "fr_blocks r"
  have ch: "chained ?bs" and n: "fr_num_docs r = sum_list (map cb_num_docs ?bs)" using wf by (simp_all add: reader_wf_def)
  have stop: "cb_cumulative_docs (?bs ! i) + cb_num_docs (?bs ! i) \<le> cb_cumulative_docs (?bs ! j)"
    if "i < j" "j < length ?bs" for i j
    using chained_next [OF ch, of i] chained_mono [OF ch, of "Suc i" j] that by simp
  have "sum_list (map cb_num_docs ?bs) = sum_list (map cb_num_docs (take (Suc bi) ?bs)) + sum_list (map cb_num_docs (drop (Suc bi) ?bs))"
    by (metis append_take_drop_id map_append sum_list_append)
  moreover have "sum_list (map cb_num_docs (take (Suc bi) ?bs)) = cb_cumulative_docs (?bs ! bi) + cb_num_docs (?bs ! bi)"
    using b(1) ch by (simp add: take_Suc_conv_app_nth chained_def)
  ultimately show lt: "cb_cumulative_docs (?bs ! bi) + local < fr_num_docs r" using n b(2) by simp
  obtain bj l where j: "find_block r (cb_cumulative_docs (?bs ! bi) + local) = Some (bj, l)" "bj < length ?bs"
      "cb_cumulative_docs (?bs ! bi) + local = cb_cumulative_docs (?bs ! bj) + l" "l < cb_num_docs (?bs ! bj)"
    using wf_find_block [OF wf lt] by blast
  have "bi = bj"
  proof (rule ccontr)
    assume "bi \<noteq> bj"
    then consider "bi < bj" | "bj < bi" by linarith
    then show False using stop [of bi bj] stop [of bj bi] b j(2-4) by cases linarith+
  qed
  then show "find_block r (cb_cumulative_docs (?bs ! bi) + local) = Some (bi, local)" using j by simp
qed

lemma single_block_read:
  assumes wf: "reader_wf r" "\<not> fr_multi r" and b: "bi < length (fr_blocks r)" "local < cb_num_docs (fr_blocks r ! bi)"
  shows "\<exists>v. auto_read (cb_data (fr_blocks r ! bi)) local = Some v"
    "checkpoints_read (fr_checkpoints r) (fr_blocks r) bi local = auto_read (cb_data (fr_blocks r ! bi)) local"
    "get_u64 r (cb_cumulative_docs (fr_blocks r ! bi) + local) =
      Some (remap_value (column_maps r ! bi) (the (auto_read (cb_data (fr_blocks r ! bi)) local)))"
proof -
  have ok: "block_ok False (fr_blocks r ! bi)" using wf b(1) by (auto simp: reader_wf_def)
  show a: "\<exists>v. auto_read (cb_data (fr_blocks r ! bi)) local = Some v"
    using ok b(2) validated_auto_read by (auto simp: block_ok_def)
  show c: "checkpoints_read (fr_checkpoints r) (fr_blocks r) bi local = auto_read (cb_data (fr_blocks r ! bi)) local"
    using wf b ok by (intro checkpoints_read_eq) (auto simp: reader_wf_def)
  show "get_u64 r (cb_cumulative_docs (fr_blocks r ! bi) + local) =
      Some (remap_value (column_maps r ! bi) (the (auto_read (cb_data (fr_blocks r ! bi)) local)))"
    using find_block_unique [OF wf(1) b] a c wf(2) b(1) remap_ordinal_value [OF wf(1) b(1)]
    by (auto simp: get_u64_def)
qed

section \<open>Scans\<close>

lemma visit_values_append:
  "visit_values f start (xs @ ys) s =
     (case visit_values f start xs s of Inl e \<Rightarrow> Inl e | Inr s' \<Rightarrow> visit_values f (start + length xs) ys s')"
  by (induction xs arbitrary: start s) (auto split: sum.split)

lemma scan_block_values:
  assumes v: "validate_auto (cb_data b) (cb_num_docs b) = Inr ()" and c: "cursor_at (tl (cb_data b)) (cb_num_docs b) cursor"
    and p: "pos \<le> cb_num_docs b"
  shows "scan_block b m (\<lambda>s start vs. visit_values f start vs s) pos cursor s =
    Some (visit_values f (cb_cumulative_docs b + pos)
      (map (\<lambda>i. remap_value m (the (auto_read (cb_data b) i))) [pos..<cb_num_docs b]) s)"
  using c p
proof (induction "cb_num_docs b - pos" arbitrary: pos cursor s rule: less_induct)
  case less
  let ?g = "\<lambda>i. remap_value m (the (auto_read (cb_data b) i))"
  show ?case
  proof (cases "pos < cb_num_docs b")
    case True
    define chunk where "chunk = min (cb_num_docs b - pos) BATCH"
    have ch: "0 < chunk" "pos + chunk \<le> cb_num_docs b" using True by (auto simp: chunk_def BATCH_def)
    obtain c' where c': "auto_read_batch_with_cursor (cb_data b) pos (replicate chunk 0) cursor =
        Some (map (\<lambda>i. the (auto_read (cb_data b) (pos + i))) [0..<chunk], c')" "cursor_at (tl (cb_data b)) (cb_num_docs b) c'"
      using auto_batch [OF v, of pos "replicate chunk 0" cursor] ch(2) less.prems(1) by auto
    have vs: "remap_batch m (map (\<lambda>i. the (auto_read (cb_data b) (pos + i))) [0..<chunk]) = map ?g [pos..<pos + chunk]"
      unfolding remap_batch_value by (rule nth_equalityI) simp_all
    have up: "[pos..<cb_num_docs b] = [pos..<pos + chunk] @ [pos + chunk..<cb_num_docs b]"
      using ch(2) by (metis le_add1 le_add_diff_inverse upt_add_eq_append)
    have ih: "scan_block b m (\<lambda>s start vs. visit_values f start vs s) (pos + chunk) c' s' =
        Some (visit_values f (cb_cumulative_docs b + (pos + chunk)) (map ?g [pos + chunk..<cb_num_docs b]) s')" for s'
      using less.hyps [of "pos + chunk" c' s'] c'(2) ch True by simp
    show ?thesis using True c'(1) ih unfolding up map_append visit_values_append
      by (subst scan_block.simps) (auto simp: chunk_def [symmetric] vs add.assoc Let_def split: sum.split)
  next
    case False
    then show ?thesis using less.prems by (subst scan_block.simps) simp
  qed
qed

lemma scan_blocks_values:
  assumes "\<forall>b \<in> set blocks. validate_auto (cb_data b) (cb_num_docs b) = Inr ()"
    "chained (pre @ blocks)" "length ms = length (pre @ blocks)"
    "case maps of None \<Rightarrow> \<forall>i < length ms. ms ! i = [] | Some ms' \<Rightarrow> ms' = ms"
  shows "scan_blocks maps (\<lambda>_. True) (\<lambda>s start vs. visit_values f start vs s) (enumerate (length pre) blocks) s =
    Some (visit_values f (sum_list (map cb_num_docs pre))
      (concat (map (\<lambda>(i, b). map (\<lambda>j. remap_value (ms ! i) (the (auto_read (cb_data b) j))) [0..<cb_num_docs b])
        (enumerate (length pre) blocks))) s)"
  using assms
proof (induction blocks arbitrary: pre s)
  case (Cons b blocks)
  let ?k = "length pre"
  have v: "validate_auto (cb_data b) (cb_num_docs b) = Inr ()" using Cons.prems(1) by simp
  have cum: "cb_cumulative_docs b = sum_list (map cb_num_docs pre)"
    using Cons.prems(2) unfolding chained_def by (auto dest!: spec [of _ ?k] simp: nth_append)
  have m: "(case maps of None \<Rightarrow> Some [] | Some ms' \<Rightarrow> if ?k < length ms' then Some (ms' ! ?k) else None) = Some (ms ! ?k)"
    using Cons.prems(3,4) by (auto split: option.splits)
  have ih: "scan_blocks maps (\<lambda>_. True) (\<lambda>s start vs. visit_values f start vs s) (enumerate (Suc ?k) blocks) s' =
      Some (visit_values f (sum_list (map cb_num_docs pre) + cb_num_docs b)
        (concat (map (\<lambda>(i, b). map (\<lambda>j. remap_value (ms ! i) (the (auto_read (cb_data b) j))) [0..<cb_num_docs b])
          (enumerate (Suc ?k) blocks))) s')" for s'
    using Cons.IH [of "pre @ [b]" s'] Cons.prems by simp
  note sb = scan_block_values [OF v cursor_at_default le0, of "ms ! ?k" f s]
  show ?case unfolding enumerate_simps list.map(2) concat.simps visit_values_append split_conv
    by (simp add: m sb ih cum split: sum.split)
qed simp

lemma scan_values:
  assumes wf: "reader_wf r" "\<not> fr_multi r"
  shows "try_scan_single_values r f s =
    Some (visit_values f 0 (map (\<lambda>doc. the (get_u64 r doc)) [0..<fr_num_docs r]) s)"
proof -
  let ?bs = "fr_blocks r" and ?ms = "column_maps r"
  define maps where "maps = (if fr_column_type r = ColTextOrdinal \<and> length ?bs > 1 then Some ?ms else None)"
  have st: "(if fr_column_type r = ColTextOrdinal \<and> length ?bs > 1
      then map_option (\<lambda>state. Some (ts_ordinal_maps state)) (build_text_state ?bs) else Some None) = Some maps"
    using build_text_state_ok [OF wf_dicts [OF wf(1)]] by (auto simp: maps_def column_maps_def)
  have vals: "\<forall>b \<in> set ?bs. validate_auto (cb_data b) (cb_num_docs b) = Inr ()"
    using wf by (auto simp: reader_wf_def block_ok_def)
  have ms: "length ?ms = length ([] @ ?bs)" using length_column_maps [OF wf(1)] by simp
  have cm: "case maps of None \<Rightarrow> \<forall>i < length ?ms. ?ms ! i = [] | Some ms' \<Rightarrow> ms' = ?ms"
    by (auto simp: maps_def column_maps_def)
  have ch: "chained ([] @ ?bs)" using wf(1) by (simp add: reader_wf_def)
  have each: "map (\<lambda>j. remap_value (?ms ! i) (the (auto_read (cb_data (?bs ! i)) j))) [0..<cb_num_docs (?bs ! i)] =
      map (\<lambda>doc. the (get_u64 r doc)) [cb_cumulative_docs (?bs ! i)..<cb_cumulative_docs (?bs ! i) + cb_num_docs (?bs ! i)]"
    if "i < length ?bs" for i
    using single_block_read(3) [OF wf that] by (intro nth_equalityI) simp_all
  have "concat (map (\<lambda>(i, b). map (\<lambda>j. remap_value (?ms ! i) (the (auto_read (cb_data b) j))) [0..<cb_num_docs b]) (enumerate 0 ?bs)) =
      concat (map (\<lambda>i. map (\<lambda>doc. the (get_u64 r doc))
        [cb_cumulative_docs (?bs ! i)..<cb_cumulative_docs (?bs ! i) + cb_num_docs (?bs ! i)]) [0..<length ?bs])"
    using each by (intro arg_cong [of _ _ concat] nth_equalityI) (simp_all add: nth_enumerate_eq)
  also have "\<dots> = map (\<lambda>doc. the (get_u64 r doc)) [0..<fr_num_docs r]"
  proof -
    have "concat (map (\<lambda>i. map g [cb_cumulative_docs (?bs ! i)..<cb_cumulative_docs (?bs ! i) + cb_num_docs (?bs ! i)]) [0..<n]) =
        map g [0..<sum_list (map cb_num_docs (take n ?bs))]" if "n \<le> length ?bs" for n and g :: "nat \<Rightarrow> u64"
      using that
    proof (induction n)
      case (Suc n)
      then have c: "cb_cumulative_docs (?bs ! n) = sum_list (map cb_num_docs (take n ?bs))" using ch by (simp add: chained_def)
      have "sum_list (map cb_num_docs (take (Suc n) ?bs)) = cb_cumulative_docs (?bs ! n) + cb_num_docs (?bs ! n)"
        using Suc.prems c by (simp add: take_Suc_conv_app_nth)
      then show ?case using Suc c upt_add_eq_append [of 0 "cb_cumulative_docs (?bs ! n)" "cb_num_docs (?bs ! n)"] by simp
    qed simp
    from this [of "length ?bs" "\<lambda>doc. the (get_u64 r doc)"] show ?thesis using wf(1) by (simp add: reader_wf_def)
  qed
  finally show ?thesis
    using scan_blocks_values [OF vals ch ms cm, of f s] wf(2) st
    by (simp add: try_scan_single_values_def try_scan_single_value_batches_def try_scan_single_value_batches_where_def)
qed

section \<open>Multi-valued reads\<close>

lemma multi_block_read:
  assumes wf: "reader_wf r" "fr_multi r" and b: "bi < length (fr_blocks r)" "local < cb_num_docs (fr_blocks r ! bi)"
  shows "\<exists>start stop raws. read_as_u32 (cb_offset_data (fr_blocks r ! bi)) local = Some start \<and>
    read_as_u32 (cb_offset_data (fr_blocks r ! bi)) (local + 1) = Some stop \<and> start + length raws = stop \<and>
    map (auto_read (cb_value_data (fr_blocks r ! bi))) [start..<stop] = map Some raws"
proof -
  define blk where "blk = fr_blocks r ! bi"
  obtain offs where o: "offsets_ok (cb_offset_data blk) (cb_num_docs blk) offs"
      "validate_auto (cb_value_data blk) (offs ! cb_num_docs blk) = Inr ()"
  proof -
    have "block_ok True blk" using wf b(1) by (auto simp: reader_wf_def blk_def)
    then show thesis using that by (auto simp: block_ok_def)
  qed
  have rd: "read_as_u32 (cb_offset_data blk) i = Some (offs ! i)" if "i \<le> cb_num_docs blk" for i
  proof -
    have "offs ! i < 2 ^ 32" using o(1) that by (simp add: offsets_ok_def)
    then have "as_u32 (unat (word_of_nat (offs ! i) :: u64)) = offs ! i" by (simp add: as_u32_def unat_of_nat)
    then show ?thesis using o(1) that by (simp add: offsets_ok_def read_as_u32_def)
  qed
  have le: "offs ! local \<le> offs ! Suc local" "offs ! Suc local \<le> offs ! cb_num_docs blk"
    using o(1) b(2) by (auto simp: offsets_ok_def blk_def intro!: sorted_nth_mono)
  define raws where "raws = map (\<lambda>i. the (auto_read (cb_value_data blk) i)) [offs ! local..<offs ! Suc local]"
  have "map (auto_read (cb_value_data blk)) [offs ! local..<offs ! Suc local] = map Some raws"
    using validated_auto_read [OF o(2)] le(2) by (fastforce simp: raws_def)
  then show ?thesis using rd [of local] rd [of "Suc local"] b(2) le(1) unfolding blk_def [symmetric]
    by (intro exI [of _ "offs ! local"] exI [of _ "offs ! Suc local"] exI [of _ raws]) (simp add: raws_def)
qed

text \<open>A visitor run over a list of values, up to the first value that stops it.\<close>

fun visit_until :: "('s \<Rightarrow> u64 \<Rightarrow> 's \<times> bool) \<Rightarrow> 's \<Rightarrow> u64 list \<Rightarrow> 's \<times> bool" where
  "visit_until f s [] = (s, False)"
| "visit_until f s (v # vs) = (case f s v of (s', stop) \<Rightarrow> if stop then (s', True) else visit_until f s' vs)"

lemma any_value_eq: "map (read_value r bi) idxs = map Some vs \<Longrightarrow> any_value r bi f s idxs = Some (visit_until f s vs)"
proof (induction idxs arbitrary: vs s)
  case (Cons i idxs)
  then show ?case by (cases vs) (auto split: prod.split)
qed simp

text \<open>The raw values a block holds for one of its documents, and what each accessor
  makes of them.\<close>

definition block_raws :: "bool \<Rightarrow> column_block \<Rightarrow> nat \<Rightarrow> u64 list" where
  "block_raws multi b local =
     (if multi then map (\<lambda>i. the (auto_read (cb_value_data b) i))
        [the (read_as_u32 (cb_offset_data b) local)..<the (read_as_u32 (cb_offset_data b) (local + 1))]
      else [the (auto_read (cb_data b) local)])"

definition text_of :: "str list \<Rightarrow> u64 list \<Rightarrow> str option" where
  "text_of keys raws =
     (case raws of [] \<Rightarrow> None
      | raw # _ \<Rightarrow> if raw \<noteq> FAST_FIELD_MISSING \<and> as_u32 (unat raw) < length keys then Some (keys ! as_u32 (unat raw)) else None)"

definition first_value :: "u64 list \<Rightarrow> u64" where
  "first_value vs = (case vs of [] \<Rightarrow> FAST_FIELD_MISSING | v # _ \<Rightarrow> v)"

lemma multi_block_raws:
  assumes wf: "reader_wf r" "fr_multi r" and b: "bi < length (fr_blocks r)" "local < cb_num_docs (fr_blocks r ! bi)"
  defines "raws \<equiv> block_raws True (fr_blocks r ! bi) local"
  shows "\<exists>start. read_as_u32 (cb_offset_data (fr_blocks r ! bi)) local = Some start \<and>
    read_as_u32 (cb_offset_data (fr_blocks r ! bi)) (local + 1) = Some (start + length raws) \<and>
    (\<forall>i < length raws. auto_read (cb_value_data (fr_blocks r ! bi)) (start + i) = Some (raws ! i))"
proof -
  obtain start stop rs where o: "read_as_u32 (cb_offset_data (fr_blocks r ! bi)) local = Some start"
      "read_as_u32 (cb_offset_data (fr_blocks r ! bi)) (local + 1) = Some stop" "start + length rs = stop"
      "map (auto_read (cb_value_data (fr_blocks r ! bi))) [start..<stop] = map Some rs"
    using multi_block_read [OF wf b] by blast
  have each: "auto_read (cb_value_data (fr_blocks r ! bi)) (start + i) = Some (rs ! i)" if "i < length rs" for i
    using arg_cong [OF o(4), of "\<lambda>l. l ! i"] that o(3) by simp
  have "raws = rs" unfolding raws_def block_raws_def using o(1,2,3) each by (auto intro!: nth_equalityI)
  then show ?thesis using o(1-3) each by blast
qed

lemma value_loop:
  assumes "reader_wf r" "bi < length (fr_blocks r)"
    "\<forall>i < length raws. auto_read (cb_value_data (fr_blocks r ! bi)) (start + i) = Some (raws ! i)"
  shows "map (read_value r bi) [start..<start + length raws] = map Some (map (remap_value (column_maps r ! bi)) raws)"
  using assms remap_ordinal_value [OF assms(1,2)] by (intro nth_equalityI) (simp_all add: read_value_def)

lemma multi_doc_reads:
  assumes wf: "reader_wf r" "fr_multi r" and b: "bi < length (fr_blocks r)" "local < cb_num_docs (fr_blocks r ! bi)"
  defines "doc \<equiv> cb_cumulative_docs (fr_blocks r ! bi) + local"
    and "raws \<equiv> block_raws True (fr_blocks r ! bi) local"
    and "vs \<equiv> map (remap_value (column_maps r ! bi)) (block_raws True (fr_blocks r ! bi) local)"
  shows "get_multi_values r doc = Some vs" "get_u64 r doc = Some (first_value vs)" "has_value r doc = Some (vs \<noteq> [])"
    "for_each_multi_value r doc f s = Some (visit_until f s vs)"
    "raw_text_ordinal r bi local = Some (case raws of [] \<Rightarrow> None | raw # _ \<Rightarrow> Some raw)"
proof -
  note fb = find_block_unique [OF wf(1) b, folded doc_def]
  obtain start where o: "read_as_u32 (cb_offset_data (fr_blocks r ! bi)) local = Some start"
      "read_as_u32 (cb_offset_data (fr_blocks r ! bi)) (local + 1) = Some (start + length raws)"
      "\<forall>i < length raws. auto_read (cb_value_data (fr_blocks r ! bi)) (start + i) = Some (raws ! i)"
    using multi_block_raws [OF wf b] unfolding raws_def by blast
  have rg: "block_value_range r doc = Some (bi, start, start + length raws)"
    using fb o(1,2) wf(2) b(1) by (simp add: block_value_range_def)
  have rv: "map (read_value r bi) [start..<start + length raws] = map Some vs"
    using value_loop [OF wf(1) b(1) o(3)] by (simp add: vs_def raws_def)
  have len: "length vs = length raws" by (simp add: vs_def raws_def)
  show "get_multi_values r doc = Some vs" using rg rv b(1) len by (auto simp: get_multi_values_def option_all_Some)
  show "for_each_multi_value r doc f s = Some (visit_until f s vs)"
    using rg any_value_eq [OF rv] b(1) len by (auto simp: for_each_multi_value_def)
  show "has_value r doc = Some (vs \<noteq> [])" using rg wf(2) len by (auto simp: has_value_def)
  have r0: "auto_read (cb_value_data (fr_blocks r ! bi)) start = Some (hd raws)" if "raws \<noteq> []"
    using o(3) that by (auto simp: hd_conv_nth)
  show "get_u64 r doc = Some (first_value vs)"
    using fb o(1,2) wf(2) b(1) r0 remap_ordinal_value [OF wf(1) b(1)]
    by (cases raws) (auto simp: get_u64_def first_value_def vs_def raws_def split: list.splits)
  show "raw_text_ordinal r bi local = Some (case raws of [] \<Rightarrow> None | raw # _ \<Rightarrow> Some raw)"
    using o(1,2) wf(2) r0 by (cases raws) (auto simp: raw_text_ordinal_def)
qed

lemma doc_reads:
  assumes wf: "reader_wf r" and b: "bi < length (fr_blocks r)" "local < cb_num_docs (fr_blocks r ! bi)"
  defines "doc \<equiv> cb_cumulative_docs (fr_blocks r ! bi) + local"
    and "raws \<equiv> block_raws (fr_multi r) (fr_blocks r ! bi) local"
  shows "get_u64 r doc = Some (first_value (map (remap_value (column_maps r ! bi)) raws))"
    "get_text r doc = Some (text_of (keys_of (fr_blocks r ! bi)) raws)"
proof -
  note fb = find_block_unique [OF wf b, folded doc_def]
  have dk: "block_dict_ok (fr_column_type r) (fr_blocks r ! bi)" using wf b(1) by (simp add: reader_wf_def)
  show "get_u64 r doc = Some (first_value (map (remap_value (column_maps r ! bi)) raws))"
    using multi_doc_reads(2) [OF wf _ b] single_block_read(3) [OF wf _ b] 
    by (cases "fr_multi r") (simp_all add: doc_def raws_def block_raws_def first_value_def)
  have raw: "raw_text_ordinal r bi local = Some (case raws of [] \<Rightarrow> None | raw # _ \<Rightarrow> Some raw)"
    using multi_doc_reads(5) [OF wf _ b] single_block_read(1,2) [OF wf _ b]
    by (cases "fr_multi r") (auto simp: raws_def block_raws_def raw_text_ordinal_def)
  show "get_text r doc = Some (text_of (keys_of (fr_blocks r ! bi)) raws)"
    using fb raw block_dict_get [OF dk] b(1)
    by (auto simp: get_text_def keys_of_def text_of_def split: option.splits list.splits)
qed

text \<open>Past the last document a reader answers without touching a block.\<close>

lemma beyond_docs:
  assumes "\<not> doc < fr_num_docs r"
  shows "get_u64 r doc = Some FAST_FIELD_MISSING" "get_multi_values r doc = Some []" "has_value r doc = Some False"
    "for_each_multi_value r doc f s = Some (s, False)" "get_text r doc = Some None"
  using assms by (auto simp: get_u64_def get_multi_values_def has_value_def for_each_multi_value_def get_text_def block_value_range_def)

section \<open>Opening a stored column\<close>

text \<open>The bytes of a column with given blocks, as both the column writer and the
  merger lay them out.\<close>

definition block_entry :: "column_block \<Rightarrow> block_index_entry" where
  "block_entry b = \<lparr>bie_num_docs = word_of_nat (cb_num_docs b), bie_data_len = word_of_nat (length (cb_data b)),
     bie_dict_count = word_of_nat (length (keys_of b)), bie_dict_len = word_of_nat (length (cb_raw_dict b))\<rparr>"

definition column_bytes :: "column_block list \<Rightarrow> bytes" where
  "column_bytes bs = u32_le (word_of_nat (length bs)) @ concat (map (block_index_write_to \<circ> block_entry) bs) @
     concat (map (\<lambda>b. cb_data b @ cb_raw_dict b) bs)"

definition stored :: "bool \<Rightarrow> fast_field_column_type \<Rightarrow> column_block \<Rightarrow> bool" where
  "stored multi ct b \<longleftrightarrow> block_ok multi b \<and> parts_ok multi b \<and> block_dict_ok ct b \<and> cb_num_docs b < 2 ^ 32"

lemma length_column_bytes:
  "length (column_bytes bs) = 4 + 16 * length bs + sum_list (map (\<lambda>b. length (cb_data b) + length (cb_raw_dict b)) bs)"
  by (simp add: column_bytes_def length_concat sum_list_triv o_def BLOCK_INDEX_ENTRY_SIZE_def)

lemma slice_append: "length xs = a \<Longrightarrow> b = a + length ys \<Longrightarrow> slice (xs @ ys @ zs) a b = Some ys"
  by (simp add: slice_def)

lemma check_offsets_pass:
  assumes "offsets_ok data n offs" "k \<le> n + 1" "unat p \<le> (if k \<le> n then offs ! k else offs ! n)" "k = 0 \<longrightarrow> p = 0"
    "k = n + 1 \<longrightarrow> unat p = offs ! n"
  shows "check_offsets data [k..<n + 1] p = ok (word_of_nat (offs ! n))"
  using assms
proof (induction "n + 1 - k" arbitrary: k p)
  case 0
  then have "k = n + 1" by simp
  moreover from this have "offs ! n = unat p" using 0 by simp
  ultimately show ?case by simp
next
  case (Suc m)
  have k: "k \<le> n" using Suc.hyps(2) by simp
  let ?o = "word_of_nat (offs ! k) :: u64"
  have rd: "auto_read data k = Some ?o" and lt: "offs ! k < 2 ^ 32" and z: "k = 0 \<longrightarrow> offs ! k = 0"
    using Suc.prems(1) k by (auto simp: offsets_ok_def)
  have u: "unat ?o = offs ! k" using lt by (simp add: unat_of_nat)
  have c: "\<not> ?o > 0xFFFFFFFF" "\<not> ?o < p" using lt u Suc.prems(3) k by (simp_all add: word_less_nat_alt)
  have c0: "\<not> (k = 0 \<and> ?o \<noteq> 0)" using z by (cases "k = 0") simp_all
  have m: "offs ! k \<le> offs ! Suc k" if "Suc k \<le> n" using Suc.prems(1) that by (auto simp: offsets_ok_def intro: sorted_nth_mono)
  have "check_offsets data [Suc k..<n + 1] ?o = ok (word_of_nat (offs ! n))"
  proof (cases "Suc k \<le> n")
    case True
    then show ?thesis using Suc.hyps(1) [of "Suc k" ?o] Suc.hyps(2) Suc.prems(1) u m by (simp del: upt_Suc)
  next
    case False
    then have "k = n" using k by simp
    then show ?thesis by simp
  qed
  moreover have "[k..<n + 1] = k # [Suc k..<n + 1]" using k by (simp add: upt_conv_Cons del: upt_Suc)
  ultimately show ?case by (simp only: check_offsets.simps rd fallible_simps c c0 simp_thms if_False)
qed

lemma parse_multi_stored:
  assumes b: "block_ok True b" "parts_ok True b" and f: "file = pre @ cb_data b @ post" "length file < 2 ^ 64"
  shows "parse_multi_block file (cb_num_docs b) (length pre) (length pre + length (cb_data b)) =
    ok (cb_data b, cb_offset_data b, cb_value_data b)"
proof -
  obtain offs where o: "offsets_ok (cb_offset_data b) (cb_num_docs b) offs"
      "validate_auto (cb_value_data b) (offs ! cb_num_docs b) = Inr ()" using b(1) by (auto simp: block_ok_def)
  obtain k where k: "le_u32 (cb_data b) 0 = Some k" "4 + k \<le> length (cb_data b)" "cb_offset_data b = take k (drop 4 (cb_data b))"
      "cb_value_data b = drop (4 + k) (cb_data b)" "validate_auto (cb_offset_data b) (cb_num_docs b + 1) = Inr ()"
    using b(2) by (auto simp: parts_ok_def)
  have s: "slice file (length pre) (length pre + length (cb_data b)) = Some (cb_data b)"
    unfolding f(1) by (rule slice_append) simp_all
  have s1: "slice file (length pre + 4) (length pre + 4 + k) = Some (cb_offset_data b)"
    "slice file (length pre + 4 + k) (length pre + length (cb_data b)) = Some (cb_value_data b)"
    using k(2-4) by (auto simp: slice_def f(1))
  have c: "check_offsets (cb_offset_data b) [0..<cb_num_docs b + 1] 0 = ok (word_of_nat (offs ! cb_num_docs b))"
    using check_offsets_pass [OF o(1), of 0 0] by simp
  have "offs ! cb_num_docs b < 2 ^ 32" using o(1) by (simp add: offsets_ok_def)
  then have u: "unat (word_of_nat (offs ! cb_num_docs b) :: u64) = offs ! cb_num_docs b" by (simp add: unat_of_nat)
  have fits: "usize_fits (length pre + 4 + k)" "\<not> length (cb_data b) < 4" "\<not> length pre + 4 + k > length pre + length (cb_data b)"
    using f k(2) by (auto simp: usize_fits_def)
  show ?thesis unfolding parse_multi_block_def Let_def
    by (simp only: s k(1) s1 k(5) c o(2) u fits fallible_simps if_False if_True simp_thms)
qed

lemma open_block_stored:
  assumes b: "stored (toc_multi toc) (toc_column_type toc) b"
    and f: "file = pre @ cb_data b @ cb_raw_dict b @ post" "length file < 2 ^ 64"
    and e: "length pre + length (cb_data b) + length (cb_raw_dict b) \<le> region_end"
  shows "open_block file toc region_end (block_entry b) (cb_cumulative_docs b) (length pre) =
    ok (b, length pre + length (cb_data b) + length (cb_raw_dict b))"
proof -
  have k: "block_ok (toc_multi toc) b" "parts_ok (toc_multi toc) b" "block_dict_ok (toc_column_type toc) b" "cb_num_docs b < 2 ^ 32"
    using b by (simp_all add: stored_def)
  note dk = block_dict_keys [OF k(3)]
  have lt: "length (cb_data b) < 2 ^ 32" "length (cb_raw_dict b) < 2 ^ 32" "length (keys_of b) < 2 ^ 32"
    using k(1) dk(2,4) length_write_dict [of "keys_of b"] by (auto simp: block_ok_def)
  have u: "unat (bie_num_docs (block_entry b)) = cb_num_docs b" "unat (bie_data_len (block_entry b)) = length (cb_data b)"
      "unat (bie_dict_count (block_entry b)) = length (keys_of b)" "unat (bie_dict_len (block_entry b)) = length (cb_raw_dict b)"
    using k(4) lt by (simp_all add: block_entry_def unat_of_nat)
  have p: "(if toc_multi toc then parse_multi_block file (cb_num_docs b) (length pre) (length pre + length (cb_data b))
      else parse_single_block file (cb_num_docs b) (length pre) (length pre + length (cb_data b))) =
      ok (cb_data b, cb_offset_data b, cb_value_data b)"
  proof (cases "toc_multi toc")
    case True
    then show ?thesis using parse_multi_stored [of b "file" pre "cb_raw_dict b @ post"] k f by simp
  next
    case False
    have "slice file (length pre) (length pre + length (cb_data b)) = Some (cb_data b)"
      unfolding f(1) by (rule slice_append) simp_all
    then show ?thesis using False k(1,2) by (simp add: parse_single_block_def block_ok_def parts_ok_def)
  qed
  have s: "slice file (length pre + length (cb_data b)) (length pre + length (cb_data b) + length (cb_raw_dict b)) = Some (cb_raw_dict b)"
    using slice_append [of "pre @ cb_data b" _ _ "cb_raw_dict b" post] by (simp add: f(1))
  have c: "check_block_dict (toc_column_type toc) (cb_raw_dict b) (length (keys_of b)) (length (cb_raw_dict b)) = ok ()"
  proof (cases "keys_of b = []")
    case True
    then have "cb_raw_dict b = []" using dk(2) by simp
    then show ?thesis using True validate_iff_written [of "[]" 0]
      by (auto simp: check_block_dict_def ok_def dict_keys_ok_def usize_fits_def)
  next
    case False
    then have "toc_column_type toc = ColTextOrdinal" using k(3) dk(3) by (simp add: block_dict_ok_def)
    moreover have "validate_text_dict_bytes (cb_raw_dict b) (length (keys_of b)) = ok ()"
      using validate_iff_written [of "cb_raw_dict b" "length (keys_of b)"] dk(1,2) lt(2) by (auto simp: ok_def usize_fits_def)
    ultimately show ?thesis using False by (simp add: check_block_dict_def)
  qed
  have fits: "usize_fits (length pre + length (cb_data b))" "usize_fits (length pre + length (cb_data b) + length (cb_raw_dict b))"
    using f by (auto simp: usize_fits_def)
  have d: "(if length (keys_of b) > 0 then Some (new_lazy (cb_raw_dict b) (length (keys_of b))) else None) = cb_dict b"
    using dk(2,3) by simp
  have r: "(if length (cb_raw_dict b) > 0 then cb_raw_dict b else []) = cb_raw_dict b" by simp
  show ?thesis unfolding open_block_def Let_def u
    using fits e by (simp only: p s c fallible_simps prod.case d r) (cases b, simp)
qed

lemma open_blocks_stored:
  assumes f: "file = pre @ concat (map (\<lambda>b. cb_data b @ cb_raw_dict b) bs) @ post" "length file < 2 ^ 64"
    and b: "\<forall>b \<in> set bs. stored (toc_multi toc) (toc_column_type toc) b" "chained (acc @ bs)"
    and e: "length pre + length (concat (map (\<lambda>b. cb_data b @ cb_raw_dict b) bs)) = region_end"
    and n: "sum_list (map cb_num_docs (acc @ bs)) < 2 ^ 32"
  shows "open_blocks file toc region_end (map block_entry bs) (sum_list (map cb_num_docs acc)) (length pre) acc =
    ok (acc @ bs, sum_list (map cb_num_docs (acc @ bs)), region_end)"
  using assms
proof (induction bs arbitrary: pre acc)
  case (Cons b bs)
  have cum: "cb_cumulative_docs b = sum_list (map cb_num_docs acc)"
    using Cons.prems(4) unfolding chained_def by (auto dest!: spec [of _ "length acc"] simp: nth_append)
  let ?pre = "pre @ cb_data b @ cb_raw_dict b"
  have o: "open_block file toc region_end (block_entry b) (cb_cumulative_docs b) (length pre) = ok (b, length ?pre)"
    using open_block_stored [of toc b "file" pre "concat (map (\<lambda>b. cb_data b @ cb_raw_dict b) bs) @ post" region_end] Cons.prems
    by (simp add: add.assoc)
  have d: "unat (bie_num_docs (block_entry b)) = cb_num_docs b"
    using Cons.prems(3) by (simp add: stored_def block_entry_def unat_of_nat)
  have "open_blocks file toc region_end (map block_entry bs) (sum_list (map cb_num_docs (acc @ [b]))) (length ?pre) (acc @ [b]) =
      ok ((acc @ [b]) @ bs, sum_list (map cb_num_docs ((acc @ [b]) @ bs)), region_end)"
    by (rule Cons.IH) (use Cons.prems in \<open>simp_all add: add.assoc\<close>)
  then show ?case using o d Cons.prems(6) by (simp add: cum Let_def)
qed simp

lemma reader_open_stored:
  assumes f: "file = pre @ column_bytes bs @ post" "length file < 2 ^ 64"
    and b: "\<forall>b \<in> set bs. stored (toc_multi toc) (toc_column_type toc) b" "chained bs" "length bs < 2 ^ 32"
    and n: "sum_list (map cb_num_docs bs) < 2 ^ 32" "unat (toc_num_docs toc) = sum_list (map cb_num_docs bs)"
    and t: "unat (toc_data_offset toc) = length pre" "unat (toc_data_len toc) = length (column_bytes bs)"
  shows "\<exists>r. reader_open file toc = Some (Inr r) \<and> fr_column_type r = toc_column_type toc \<and> fr_multi r = toc_multi toc \<and>
    fr_num_docs r = sum_list (map cb_num_docs bs) \<and> fr_blocks r = bs"
proof -
  let ?idx = "concat (map (block_index_write_to \<circ> block_entry) bs)" and ?dat = "concat (map (\<lambda>b. cb_data b @ cb_raw_dict b) bs)"
  let ?stop = "length pre + length (column_bytes bs)"
  have li: "length ?idx = 16 * length bs" by (simp add: length_concat sum_list_triv o_def BLOCK_INDEX_ENTRY_SIZE_def)
  have fl: "file = (pre @ u32_le (word_of_nat (length bs)) @ ?idx) @ ?dat @ post" by (simp add: f(1) column_bytes_def)
  have nb: "le_u32 file (length pre) = Some (length bs)"
    using b(3) by (simp add: fl slice_simps unat_of_nat)
  have s: "slice file (length pre + 4) (length pre + 4 + length bs * 16) = Some ?idx"
    using slice_append [of "pre @ u32_le (word_of_nat (length bs))" _ _ ?idx "?dat @ post"] li by (simp add: fl mult.commute)
  have rr: "rreplicate (length bs) block_index_read_from ?idx = Inr (map block_entry bs, [])"
    using rreplicate_concat [of "map block_entry bs" block_index_read_from block_index_write_to "[]"] block_index_round by simp
  have ob: "open_blocks file toc ?stop (map block_entry bs) 0 (length pre + 4 + length bs * 16) [] =
      ok (bs, sum_list (map cb_num_docs bs), ?stop)"
    using open_blocks_stored [of "file" "pre @ u32_le (word_of_nat (length bs)) @ ?idx" bs post toc "[]" ?stop] f(2) fl b(1,2) n(1) li
    by (simp add: column_bytes_def mult.commute add.assoc)
  obtain cps where cp: "checkpoints_new bs (toc_multi toc) = Some cps"
    using checkpoints_new_ok [of bs "toc_multi toc"] b(1,3) by (auto simp: stored_def)
  have lc: "4 + length bs * 16 \<le> length (column_bytes bs)" using length_column_bytes [of bs] by simp
  have fits: "usize_fits ?stop" "usize_fits (length pre + 4)" "usize_fits (length bs * 16)" "usize_fits (length pre + 4 + length bs * 16)"
    using f lc by (auto simp: usize_fits_def)
  have le: "\<not> length file < ?stop" "\<not> ?stop < length pre + 4" "\<not> ?stop < length pre + 4 + length bs * 16" using f(1) lc by simp_all
  have ne: "\<not> (unat (toc_num_docs toc) > 0 \<and> bs = [])" using n(2) by auto
  show ?thesis unfolding reader_open_def Let_def t BLOCK_INDEX_ENTRY_SIZE_def
    by (simp only: nb s rr ob cp fits le ne n(2) fallible_simps prod.case simp_thms if_False) (auto simp: ok_def)
qed
end
