(* ===== verification/FastFieldAccess.thy ===== *)
theory FastFieldAccess
  imports FastFieldOpen
begin

text \<open>
  What the accessors of an opened column guarantee: no accessor panics at any document number, scans and
  cursors read what random access reads, the accessors of a multi-valued column agree, and the ordinals
  of a stacked text column name its strings in the merged dictionary.
\<close>

section \<open>Cursors\<close>

definition cursor_ok :: "fast_field_reader \<Rightarrow> single_value_cursor \<Rightarrow> bool" where
  "cursor_ok r cur \<longleftrightarrow> (svc_block cur < length (fr_blocks r) \<longrightarrow>
     cursor_at (tl (cb_data (fr_blocks r ! svc_block cur))) (cb_num_docs (fr_blocks r ! svc_block cur)) (svc_codec cur))"

text \<open>The cursors a caller can hold: a fresh one, and those its reads return.\<close>

inductive cursor_reach :: "fast_field_reader \<Rightarrow> single_value_cursor \<Rightarrow> bool" for r where
  fresh: "cursor_new r = Some cur \<Longrightarrow> cursor_reach r cur"
| read: "cursor_reach r cur \<Longrightarrow> cursor_read_batch r cur start out = Some (cur', out', count) \<Longrightarrow> cursor_reach r cur'"

lemma cursor_read:
  assumes wf: "reader_wf r" "\<not> fr_multi r" and c: "cursor_ok r cur"
  shows "\<exists>cur' count. cursor_read_batch r cur start out =
      Some (cur', map (\<lambda>doc. the (get_u64 r doc)) [start..<start + count] @ drop count out, count) \<and> cursor_ok r cur' \<and>
    count \<le> length out \<and> (count = 0 \<longleftrightarrow> out = [] \<or> start \<ge> fr_num_docs r)"
proof (cases "start \<ge> fr_num_docs r \<or> out = []")
  case True
  then show ?thesis using c by (auto simp: cursor_read_batch_def)
next
  case False
  then have d: "start < fr_num_docs r" by simp
  obtain bi local where fb: "find_block r start = Some (bi, local)" "bi < length (fr_blocks r)"
      "start = cb_cumulative_docs (fr_blocks r ! bi) + local" "local < cb_num_docs (fr_blocks r ! bi)"
    using wf_find_block [OF wf(1) d] by blast
  define b where "b = fr_blocks r ! bi"
  define codec where "codec = (if bi \<noteq> svc_block cur then cursor_default else svc_codec cur)"
  define count where "count = min (length out) (cb_num_docs b - local)"
  have v: "validate_auto (cb_data b) (cb_num_docs b) = Inr ()" using wf fb(2) by (auto simp: reader_wf_def block_ok_def b_def)
  have at: "cursor_at (tl (cb_data b)) (cb_num_docs b) codec"
    using c fb(2) cursor_at_default by (auto simp: codec_def b_def cursor_ok_def)
  have le: "local + length (take count out) \<le> cb_num_docs b" "length (take count out) = count"
    using fb(4) by (auto simp: count_def b_def)
  obtain codec' where c': "auto_read_batch_with_cursor (cb_data b) local (take count out) codec =
      Some (map (\<lambda>i. the (auto_read (cb_data b) (local + i))) [0..<count], codec')" "cursor_at (tl (cb_data b)) (cb_num_docs b) codec'"
    using auto_batch [OF v le(1) at] le(2) by auto
  let ?vs = "map (\<lambda>i. the (auto_read (cb_data b) (local + i))) [0..<count]"
  have m: "(if fr_column_type r = ColTextOrdinal \<and> length (fr_blocks r) > 1
      then do { state \<leftarrow> build_text_state (fr_blocks r);
        if bi < length (ts_ordinal_maps state) then Some (remap_batch (ts_ordinal_maps state ! bi) ?vs) else None }
      else Some ?vs) = Some (map (remap_value (column_maps r ! bi)) ?vs)"
    using build_text_state_ok [OF wf_dicts [OF wf(1)]] fb(2)
    by (auto simp: column_maps_def remap_batch_value remap_value_def)
  have vs: "map (remap_value (column_maps r ! bi)) ?vs = map (\<lambda>doc. the (get_u64 r doc)) [start..<start + count]"
  proof (rule nth_equalityI)
    fix i assume "i < length (map (remap_value (column_maps r ! bi)) ?vs)"
    then have i: "i < count" by simp
    then have "local + i < cb_num_docs (fr_blocks r ! bi)" unfolding count_def b_def by linarith
    from single_block_read(3) [OF wf fb(2) this] i
    show "map (remap_value (column_maps r ! bi)) ?vs ! i = map (\<lambda>doc. the (get_u64 r doc)) [start..<start + count] ! i"
      by (simp add: fb(3) b_def add.assoc)
  qed simp
  have "cursor_read_batch r cur start out =
      Some (\<lparr>svc_block = bi, svc_codec = codec'\<rparr>, map (\<lambda>doc. the (get_u64 r doc)) [start..<start + count] @ drop count out, count)"
    unfolding cursor_read_batch_def Let_def using False fb(1,2,4)
    by (simp only: fb(1) bind.bind_lunit prod.case b_def [symmetric] codec_def [symmetric] count_def [symmetric] c'(1) m vs) simp
  moreover have "cursor_ok r \<lparr>svc_block = bi, svc_codec = codec'\<rparr>" using c'(2) by (simp add: cursor_ok_def b_def)
  moreover have "count \<le> length out" "count \<noteq> 0" using False fb(4) by (auto simp: count_def b_def)
  ultimately show ?thesis using False by blast
qed

lemma cursor_reach_ok:
  assumes wf: "reader_wf r" "\<not> fr_multi r"
  shows "cursor_reach r cur \<Longrightarrow> cursor_ok r cur"
proof (induction rule: cursor_reach.induct)
  case (fresh cur)
  have "length (fr_blocks r) \<le> 2 ^ 64 - 1" using wf(1) by (simp add: reader_wf_def)
  then show ?case using fresh wf(2) by (auto simp: cursor_new_def cursor_ok_def)
next
  case (read cur start out cur' out' count)
  then show ?case using cursor_read [OF wf read.IH, of start out] by auto
qed

section \<open>Ordinals of a merged text column\<close>

lemma unat_missing: "unat FAST_FIELD_MISSING = 2 ^ 64 - 1"
  by (simp add: FAST_FIELD_MISSING_def unsigned_minus_1_eq_mask mask_eq_exp_minus_1)

lemma sum_union_le: "finite A \<Longrightarrow> finite B \<Longrightarrow> sum g (A \<union> B) \<le> sum g A + (sum g B :: nat)"
  by (metis le_add1 sum.union_inter)

lemma length_write_dict_set:
  assumes "dict_keys_ok keys"
  shows "length (write_dict keys) = (\<Sum>k \<in> set keys. 4 + length k)"
proof -
  have "distinct keys" using assms by (simp add: dict_keys_ok_def strict_sorted_iff)
  then have "sum_list (map (\<lambda>k. 4 + length k) keys) = (\<Sum>k \<in> set keys. 4 + length k)" by (rule sum_list_distinct_conv_sum_set)
  then show ?thesis by (simp add: length_write_dict sum_list_addf sum_list_triv)
qed

lemma merged_dict_size:
  assumes "\<forall>b \<in> set blocks. block_dict_ok ct b"
  shows "length (write_dict (merged_keys blocks)) \<le> sum_list (map (\<lambda>b. length (cb_raw_dict b)) blocks)"
proof -
  have "(\<Sum>k \<in> (\<Union>b \<in> set bs. set (keys_of b)). 4 + length k) \<le> sum_list (map (\<lambda>b. length (cb_raw_dict b)) bs)"
    if "\<forall>b \<in> set bs. block_dict_ok ct b" for bs
    using that
  proof (induction bs)
    case (Cons b bs)
    have dk: "block_dict_ok ct b" using Cons.prems by simp
    have "length (cb_raw_dict b) = (\<Sum>k \<in> set (keys_of b). 4 + length k)"
      using block_dict_keys(2) [OF dk] length_write_dict_set [OF block_dict_keys(1) [OF dk]] by simp
    then show ?case using Cons sum_union_le [of "set (keys_of b)" "\<Union>b \<in> set bs. set (keys_of b)" "\<lambda>k. 4 + length k"] by simp
  qed simp
  from this [OF assms] show ?thesis
    using length_write_dict_set [OF merged_keys_ok(2) [OF assms]] merged_keys_ok(3) [OF assms] by simp
qed

text \<open>The one dictionary the whole column answers from, and where it keeps the
  string a raw ordinal of a block stands for.\<close>

lemma global_dictionary:
  assumes wf: "reader_wf r" "fr_column_type r = ColTextOrdinal"
    and sz: "sum_list (map (\<lambda>b. length (cb_raw_dict b)) (fr_blocks r)) < 2 ^ 32"
    and some: "b0 \<in> set (fr_blocks r)" "cb_dict b0 \<noteq> None"
  shows "\<exists>keys. dict_keys_ok keys \<and> length (write_dict keys) < 2 ^ 32 \<and>
    (\<exists>state. build_text_state (fr_blocks r) = Some state \<and> ts_global_dict state = new_lazy (write_dict keys) (length keys)) \<and>
    (\<forall>bi < length (fr_blocks r). \<forall>i < length (keys_of (fr_blocks r ! bi)). \<exists>p < length keys.
      keys ! p = keys_of (fr_blocks r ! bi) ! i \<and> remap_value (column_maps r ! bi) (word_of_nat i) = word_of_nat p)"
proof -
  let ?bs = "fr_blocks r"
  have ok: "\<forall>b \<in> set ?bs. block_dict_ok (fr_column_type r) b" using wf(1) by (rule wf_dicts)
  obtain state where st: "build_text_state ?bs = Some state"
      "if length (filter (\<lambda>b. cb_dict b \<noteq> None) ?bs) \<le> 1
       then ts_ordinal_maps state = replicate (length ?bs) [] \<and>
         (\<forall>b \<in> set ?bs. cb_dict b \<noteq> None \<longrightarrow> ts_global_dict state = new_lazy (write_dict (keys_of b)) (length (keys_of b)))
       else ts_ordinal_maps state = map (\<lambda>b. map (\<lambda>s. as_u32 (merged_position ?bs s)) (keys_of b)) ?bs \<and>
         ts_global_dict state = new_lazy (write_dict (merged_keys ?bs)) (as_u32 (length (merged_keys ?bs)))"
    using build_text_state_ok [OF ok] by blast
  have small: "length (keys_of b) < 2 ^ 32" if "b \<in> set ?bs" for b
    using block_dict_keys(4) ok that length_write_dict [of "keys_of b"] by fastforce
  show ?thesis
  proof (cases "length (filter (\<lambda>b. cb_dict b \<noteq> None) ?bs) \<le> 1")
    case True
    have maps: "column_maps r ! bi = []" if "bi < length ?bs" for bi using st True that by (simp add: column_maps_def)
    have only: "b = b0" if "b \<in> set ?bs" "cb_dict b \<noteq> None" for b
    proof -
      define xs where "xs = filter (\<lambda>b. cb_dict b \<noteq> None) ?bs"
      have "b \<in> set xs" "b0 \<in> set xs" using that some by (simp_all add: xs_def)
      then show ?thesis using True unfolding xs_def [symmetric] by (cases xs) auto
    qed
    have key: "?bs ! bi = b0" if "bi < length ?bs" "i < length (keys_of (?bs ! bi))" for bi i
      using only [of "?bs ! bi"] that ok block_dict_keys(3) [of "fr_column_type r" "?bs ! bi"] by (auto split: if_splits)
    show ?thesis using st True some ok block_dict_keys(1,4) [of "fr_column_type r" b0] maps key
      by (intro exI [of _ "keys_of b0"]) (auto simp: remap_value_def)
  next
    case False
    have many: "length ?bs > 1" using False length_filter_le [of "\<lambda>b. cb_dict b \<noteq> None" ?bs] by linarith
    let ?K = "merged_keys ?bs"
    have K: "dict_keys_ok ?K" "length (write_dict ?K) < 2 ^ 32" using merged_keys_ok(2) [OF ok] merged_dict_size [OF ok] sz by simp_all
    have lK: "length ?K < 2 ^ 32" using K(2) length_write_dict [of ?K] by simp
    have "\<exists>p < length ?K. ?K ! p = keys_of (?bs ! bi) ! i \<and> remap_value (column_maps r ! bi) (word_of_nat i) = word_of_nat p"
      if b: "bi < length ?bs" "i < length (keys_of (?bs ! bi))" for bi i
    proof -
      have "keys_of (?bs ! bi) ! i \<in> set ?K" unfolding merged_keys_ok(3) [OF ok] using nth_mem [OF b(1)] nth_mem [OF b(2)] by blast
      then obtain p where p: "p < length ?K" "?K ! p = keys_of (?bs ! bi) ! i" by (auto simp: in_set_conv_nth)
      have "i < 2 ^ 32" using small [of "?bs ! bi"] b by simp
      then have u: "unat (word_of_nat i :: u64) = i" "(word_of_nat i :: u64) \<noteq> FAST_FIELD_MISSING"
        using unat_missing by (auto simp: unat_of_nat dest!: arg_cong [of _ _ unat])
      have "column_maps r ! bi = map (\<lambda>s. as_u32 (merged_position ?bs s)) (keys_of (?bs ! bi))"
        using st False wf(2) many b(1) by (simp add: column_maps_def)
      then have "remap_value (column_maps r ! bi) (word_of_nat i) = word_of_nat p"
        using u b(2) merged_position_nth [OF K(1) p(1)] p lK by (auto simp: remap_value_def as_u32_def)
      then show ?thesis using p by blast
    qed
    moreover have "ts_global_dict state = new_lazy (write_dict ?K) (length ?K)" using st(2) False lK by (simp add: as_u32_def)
    ultimately show ?thesis using K st(1) by blast
  qed
qed

lemma column_map_length:
  assumes wf: "reader_wf r" "bi < length (fr_blocks r)"
  shows "length (column_maps r ! bi) < 2 ^ 32"
proof -
  have dk: "block_dict_ok (fr_column_type r) (fr_blocks r ! bi)" using wf by (simp add: reader_wf_def)
  have "length (keys_of (fr_blocks r ! bi)) < 2 ^ 32"
    using block_dict_keys(4) [OF dk] length_write_dict [of "keys_of (fr_blocks r ! bi)"] by simp
  then show ?thesis using build_text_state_ok [OF wf_dicts [OF wf(1)]] wf(2) by (auto simp: column_maps_def split: if_splits)
qed

lemma text_ordinal_of_doc:
  assumes wf: "reader_wf r" "fr_column_type r = ColTextOrdinal"
    and sz: "sum_list (map (\<lambda>b. length (cb_raw_dict b)) (fr_blocks r)) < 2 ^ 32"
  shows "\<exists>keys. dict_keys_ok keys \<and> (\<forall>doc s ord. get_text r doc = Some (Some s) \<longrightarrow> get_u64 r doc = Some ord \<longrightarrow> unat ord < 2 ^ 32 \<longrightarrow>
    text_ordinal r s = Some (Some (unat ord)) \<and> unat ord < length keys \<and> keys ! unat ord = s)"
proof (cases "\<exists>b0 \<in> set (fr_blocks r). cb_dict b0 \<noteq> None")
  case True
  then obtain keys where K: "dict_keys_ok keys" "length (write_dict keys) < 2 ^ 32"
      "\<exists>state. build_text_state (fr_blocks r) = Some state \<and> ts_global_dict state = new_lazy (write_dict keys) (length keys)"
      "\<forall>bi < length (fr_blocks r). \<forall>i < length (keys_of (fr_blocks r ! bi)). \<exists>p < length keys.
        keys ! p = keys_of (fr_blocks r ! bi) ! i \<and> remap_value (column_maps r ! bi) (word_of_nat i) = word_of_nat p"
    using global_dictionary [OF wf sz] by blast
  have lK: "length keys < 2 ^ 32" using K(2) length_write_dict [of keys] by simp
  have "text_ordinal r s = Some (Some (unat ord)) \<and> unat ord < length keys \<and> keys ! unat ord = s"
    if d: "get_text r doc = Some (Some s)" "get_u64 r doc = Some ord" "unat ord < 2 ^ 32" for doc s ord
  proof -
    have "doc < fr_num_docs r" using d(1) beyond_docs(5) by fastforce
    then obtain bi local where fb: "bi < length (fr_blocks r)" "local < cb_num_docs (fr_blocks r ! bi)"
        "doc = cb_cumulative_docs (fr_blocks r ! bi) + local" using wf_find_block [OF wf(1)] by blast
    let ?b = "fr_blocks r ! bi" and ?m = "column_maps r ! bi"
    obtain raw rest where raw: "block_raws (fr_multi r) ?b local = raw # rest" "raw \<noteq> FAST_FIELD_MISSING"
        "as_u32 (unat raw) < length (keys_of ?b)" "s = keys_of ?b ! as_u32 (unat raw)"
      using doc_reads(2) [OF wf(1) fb(1,2)] d(1) fb(3) by (auto simp: text_of_def split: list.splits if_splits)
    have ord: "ord = remap_value ?m raw" using doc_reads(1) [OF wf(1) fb(1,2)] d(2) fb(3) raw(1) by (simp add: first_value_def)
    have "unat raw < 2 ^ 32"
    proof (rule ccontr)
      assume big: "\<not> unat raw < 2 ^ 32"
      have "?m = [] \<or> length ?m \<le> unat raw"
        using column_map_length [OF wf(1) fb(1)] big by auto
      then have "ord = raw \<or> ord = FAST_FIELD_MISSING" using ord by (auto simp: remap_value_def)
      then show False using d(3) big unat_missing by auto
    qed
    then have a: "as_u32 (unat raw) = unat raw" by (simp add: as_u32_def)
    obtain p where p: "p < length keys" "keys ! p = keys_of ?b ! unat raw" "remap_value ?m (word_of_nat (unat raw)) = word_of_nat p"
      using K(4) [rule_format, OF fb(1), of "unat raw"] raw(3) unfolding a by blast
    then have "unat ord = p" using ord lK by (simp add: unat_of_nat)
    moreover have "text_ordinal r s = Some (Some p)"
    proof -
      obtain x where x: "dict_ordinal (new_lazy (write_dict keys) (length keys)) s = Some x"
          "\<forall>i. x = Some i \<longleftrightarrow> i < length keys \<and> keys ! i = s" using written_dict_ordinal [OF K(1,2)] by blast
      have "keys ! p = s" using p(2) raw(4) a by simp
      then have "x = Some p" using x(2) p(1) by blast
      then show ?thesis using K(3) x(1) wf(2) by (auto simp: text_ordinal_def)
    qed
    ultimately show ?thesis using p raw(4) a by simp
  qed
  then show ?thesis using K(1) by blast
next
  case False
  have "get_text r doc \<noteq> Some (Some s)" for doc s
  proof
    assume t: "get_text r doc = Some (Some s)"
    then have "doc < fr_num_docs r" using beyond_docs(5) by fastforce
    then obtain bi local where fb: "bi < length (fr_blocks r)" "local < cb_num_docs (fr_blocks r ! bi)"
        "doc = cb_cumulative_docs (fr_blocks r ! bi) + local" using wf_find_block [OF wf(1)] by blast
    have "keys_of (fr_blocks r ! bi) = []" using False fb(1) by (simp add: keys_of_def)
    then show False using doc_reads(2) [OF wf(1) fb(1,2)] t fb(3) by (auto simp: text_of_def split: list.splits)
  qed
  then show ?thesis by (intro exI [of _ "[]"]) (simp add: dict_keys_ok_def)
qed

section \<open>Properties of an opened column\<close>

definition constant_data :: "u64 \<Rightarrow> bytes" where
  "constant_data v = codec_code Constant # u64_le v"

lemma constant_data_reads:
  "validate_auto (constant_data v) n = Inr ()" "auto_read (constant_data v) i = Some v" "length (constant_data v) = 9"
  by (simp_all add: constant_data_def validate_auto_def auto_read_def codec_from_u8_def slice_simps le_u64_def)

text \<open>A two-block text column, one document and one string each, that the examples below open.\<close>

definition text_block :: "nat \<Rightarrow> str \<Rightarrow> column_block" where
  "text_block cumulative s = \<lparr>cb_cumulative_docs = cumulative, cb_num_docs = 1, cb_data = constant_data 0,
     cb_offset_data = [], cb_value_data = [], cb_dict = Some (new_lazy (write_dict [s]) 1), cb_raw_dict = write_dict [s]\<rparr>"

definition two_texts :: "column_block list" where
  "two_texts = [text_block 0 [98], text_block 1 [97]]"

definition two_texts_toc :: fast_field_toc_entry where
  "two_texts_toc = block_toc ColTextOrdinal False 0 64 2"

lemma text_block_fields [simp]:
  "cb_cumulative_docs (text_block c s) = c" "cb_num_docs (text_block c s) = 1" "cb_data (text_block c s) = constant_data 0"
  "cb_offset_data (text_block c s) = []" "cb_value_data (text_block c s) = []" "cb_raw_dict (text_block c s) = write_dict [s]"
  "cb_dict (text_block c s) = Some (new_lazy (write_dict [s]) 1)"
  by (simp_all add: text_block_def)

lemma stored_text_block:
  assumes "utf8_valid s" "length s < 100"
  shows "stored False ColTextOrdinal (text_block c s)"
  using assms constant_data_reads
  by (auto simp: stored_def block_ok_def parts_ok_def block_dict_ok_def dict_keys_ok_def intro!: exI [of _ "[s]"])

lemma keys_text_block:
  assumes "utf8_valid s" "length s < 100"
  shows "keys_of (text_block c s) = [s]"
proof -
  have "dict_keys_ok [s]" "length (write_dict [s]) < 2 ^ 32" using assms by (simp_all add: dict_keys_ok_def)
  from written_dict_reads(2) [OF this] show ?thesis by (simp add: keys_of_def)
qed

lemma two_texts_open:
  "\<exists>r. reader_open (column_bytes two_texts) two_texts_toc = Some (Inr r) \<and> fr_column_type r = ColTextOrdinal \<and> \<not> fr_multi r \<and>
     fr_num_docs r = 2 \<and> fr_blocks r = two_texts"
proof -
  have u: "utf8_valid [98]" "utf8_valid [97]" by code_simp+
  have "length (column_bytes two_texts) = 64"
    by (simp add: length_column_bytes two_texts_def constant_data_reads)
  moreover have "chained two_texts" by (auto simp: chained_def two_texts_def less_Suc_eq)
  moreover have "sum_list (map cb_num_docs two_texts) = 2" "length two_texts = 2" by (simp_all add: two_texts_def)
  ultimately show ?thesis
    using reader_open_stored [of "column_bytes two_texts" "[]" two_texts "[]" two_texts_toc] stored_text_block u
    by (simp add: two_texts_toc_def block_toc_def) (simp add: two_texts_def)
qed

lemma two_texts_reads:
  assumes "reader_open (column_bytes two_texts) two_texts_toc = Some (Inr r)"
  shows "fr_column_type r = ColTextOrdinal" "\<not> fr_multi r" "fr_num_docs r = 2" "fr_blocks r = two_texts"
    "get_text r 0 = Some (Some [98])" "get_text r 1 = Some (Some [97])"
proof -
  show o: "fr_column_type r = ColTextOrdinal" "\<not> fr_multi r" "fr_num_docs r = 2" "fr_blocks r = two_texts"
    using two_texts_open assms by auto
  have k: "keys_of (text_block 0 [98]) = [[98]]" "keys_of (text_block 1 [97]) = [[97]]"
    by (rule keys_text_block; code_simp)+
  have t: "text_of [s] [0] = Some s" for s by (simp add: text_of_def FAST_FIELD_MISSING_def as_u32_def)
  show "get_text r 0 = Some (Some [98])" "get_text r 1 = Some (Some [97])"
    using doc_reads(2) [OF reader_open_wf [OF assms], of 0 0] doc_reads(2) [OF reader_open_wf [OF assms], of 1 0] o k t
    by (simp_all add: two_texts_def block_raws_def constant_data_reads)
qed

lemma two_texts_ordinals:
  assumes r: "reader_open (column_bytes two_texts) two_texts_toc = Some (Inr r)"
  shows "sum_list (map (\<lambda>b. length (cb_raw_dict b)) (fr_blocks r)) < 2 ^ 32"
    and "bi < 2 \<Longrightarrow> \<exists>v. get_u64 r bi = Some v \<and> unat v < 2 ^ 32"
proof -
  note rd = two_texts_reads [OF r] and wf = reader_open_wf [OF r]
  show sz: "sum_list (map (\<lambda>b. length (cb_raw_dict b)) (fr_blocks r)) < 2 ^ 32" by (simp add: rd(4) two_texts_def)
  have k: "keys_of (two_texts ! 0) = [[98]]" "keys_of (two_texts ! 1) = [[97]]"
    unfolding two_texts_def nth_Cons_0 One_nat_def nth_Cons_Suc by (rule keys_text_block; code_simp)+
  show "\<exists>v. get_u64 r bi = Some v \<and> unat v < 2 ^ 32" if "bi < 2"
  proof -
    have b: "bi < length (fr_blocks r)" "0 < cb_num_docs (fr_blocks r ! bi)" "length (keys_of (fr_blocks r ! bi)) = 1"
        "cb_cumulative_docs (fr_blocks r ! bi) = bi" "block_raws False (fr_blocks r ! bi) 0 = [0]"
      using that k by (auto simp: rd(4) two_texts_def less_2_cases_iff block_raws_def constant_data_reads)
    have "\<exists>p. remap_value (column_maps r ! bi) 0 = word_of_nat p \<and> p < 2 ^ 32"
      using global_dictionary [OF wf rd(1) sz, of "two_texts ! 0"] b(1,3) length_write_dict
      by (force simp: rd(4) two_texts_def)
    then show ?thesis using doc_reads(1) [OF wf b(1,2)] b(4,5) rd(2) by (auto simp: first_value_def unat_of_nat)
  qed
qed

text \<open>
  C18. Whatever bytes a column was opened from, if opening it succeeds then no accessor
  panics, at any document number, in range or not.
\<close>

theorem opened_column_never_panics:
  assumes "reader_open file toc = Some (Inr r)"
  shows "get_u64 r doc \<noteq> None \<and> get_multi_values r doc \<noteq> None \<and> has_value r doc \<noteq> None \<and>
    for_each_multi_value r doc f s \<noteq> None \<and> get_text r doc \<noteq> None \<and> get_i64 r doc \<noteq> None \<and> get_f64 r doc \<noteq> None"
proof (cases "doc < fr_num_docs r")
  case True
  note wf = reader_open_wf [OF assms]
  obtain bi local where b: "bi < length (fr_blocks r)" "local < cb_num_docs (fr_blocks r ! bi)"
      "doc = cb_cumulative_docs (fr_blocks r ! bi) + local" using wf_find_block [OF wf True] by blast
  note rd = doc_reads [OF wf b(1,2), folded b(3)]
  show ?thesis
  proof (cases "fr_multi r")
    case True
    from multi_doc_reads(1-3) [OF wf True b(1,2), folded b(3)] multi_doc_reads(4) [OF wf True b(1,2), folded b(3), of f s] rd(2) show ?thesis by (simp add: get_i64_def get_f64_def)
  next
    case False
    then show ?thesis using rd
      by (auto simp: get_i64_def get_f64_def has_value_def get_multi_values_def for_each_multi_value_def block_value_range_def)
  qed
qed (simp add: beyond_docs get_i64_def get_f64_def)

theorem opened_column_never_panics_witness:
  "\<exists>r. reader_open (column_bytes two_texts) two_texts_toc = Some (Inr r) \<and> get_u64 r 0 \<noteq> None \<and> get_text r 7 \<noteq> None"
  using opened_column_never_panics [of "column_bytes two_texts" two_texts_toc, where f = "\<lambda>_ _. ((), False)"] two_texts_open by blast

text \<open>
  The values of a document of a multi-valued column are the same through every
  accessor: the list, the first value, the presence test and the visitor with its
  early exit all agree.
\<close>

lemma multi_value_accessors_agree:
  assumes "reader_open file toc = Some (Inr r)" "fr_multi r"
  shows "\<exists>vs. get_multi_values r doc = Some vs \<and> get_u64 r doc = Some (case vs of [] \<Rightarrow> FAST_FIELD_MISSING | v # _ \<Rightarrow> v) \<and>
    has_value r doc = Some (vs \<noteq> []) \<and> (\<forall>f (s :: 's). for_each_multi_value r doc f s = Some (visit_until f s vs))"
proof (cases "doc < fr_num_docs r")
  case True
  note wf = reader_open_wf [OF assms(1)]
  obtain bi local where b: "bi < length (fr_blocks r)" "local < cb_num_docs (fr_blocks r ! bi)"
      "doc = cb_cumulative_docs (fr_blocks r ! bi) + local" using wf_find_block [OF wf True] by blast
  have "\<forall>f (s :: 's). for_each_multi_value r doc f s =
      Some (visit_until f s (map (remap_value (column_maps r ! bi)) (block_raws True (fr_blocks r ! bi) local)))"
    using multi_doc_reads(4) [OF wf assms(2) b(1,2), folded b(3)] by blast
  then show ?thesis using multi_doc_reads(1-3) [OF wf assms(2) b(1,2), folded b(3)] by (auto simp: first_value_def)
qed (simp add: beyond_docs)

text \<open>
  C25. The bulk access paths of a single-valued column read what random access reads. A
  full scan visits every document once, in order, with the value a random access to
  that document returns, and stops at the first error of the visitor. A cursor in
  any state its reads can bring it to reads the values that random access returns,
  fills nothing past the end of the block it is in, and makes progress on every
  non-empty request inside the column.
\<close>

theorem bulk_reads_equal_random_access:
  assumes "reader_open file toc = Some (Inr r)" "\<not> fr_multi r"
  shows "try_scan_single_values r f s =
      Some (visit_values f 0 (map (\<lambda>doc. the (get_u64 r doc)) [0..<fr_num_docs r]) s) \<and>
    (cursor_reach r cur \<longrightarrow>
      (\<exists>cur' count. cursor_read_batch r cur start out =
          Some (cur', map (\<lambda>doc. the (get_u64 r doc)) [start..<start + count] @ drop count out, count) \<and>
        count \<le> length out \<and> (count = 0 \<longleftrightarrow> out = [] \<or> start \<ge> fr_num_docs r)))"
  using scan_values [OF reader_open_wf [OF assms(1)] assms(2), of f s]
    cursor_read [OF reader_open_wf [OF assms(1)] assms(2) cursor_reach_ok [OF reader_open_wf [OF assms(1)] assms(2)], of cur start out]
  by blast

theorem bulk_reads_equal_random_access_witness:
  "\<exists>r cur. reader_open (column_bytes two_texts) two_texts_toc = Some (Inr r) \<and> \<not> fr_multi r \<and> cursor_reach r cur \<and>
     try_scan_single_values r (\<lambda>seen doc v. Inr (seen @ [v])) [] = Some (Inr [the (get_u64 r 0), the (get_u64 r 1)] :: unit + u64 list) \<and>
     (\<exists>cur' count. cursor_read_batch r cur 1 [0, 0] = Some (cur', map (\<lambda>doc. the (get_u64 r doc)) [1..<1 + count] @ drop count [0, 0], count) \<and>
        count \<noteq> 0)"
proof -
  obtain r where r: "reader_open (column_bytes two_texts) two_texts_toc = Some (Inr r)" using two_texts_open by blast
  note rd = two_texts_reads [OF r]
  obtain cur where c: "cursor_reach r cur" using cursor_reach.fresh [of r] rd(2) by (simp add: cursor_new_def)
  have "\<not> (1::nat) \<ge> fr_num_docs r" using rd(3) by simp
  note bulk = bulk_reads_equal_random_access [OF r rd(2), of "\<lambda>seen doc v. Inr (seen @ [v]) :: unit + u64 list" "[]" cur 1 "[0, 0]"]
  have "try_scan_single_values r (\<lambda>seen doc v. Inr (seen @ [v])) [] = Some (Inr [the (get_u64 r 0), the (get_u64 r 1)] :: unit + u64 list)"
    using bulk rd by (auto simp: numeral_2_eq_2)
  then show ?thesis using bulk r rd(2) c \<open>\<not> (1::nat) \<ge> fr_num_docs r\<close> by blast
qed

text \<open>
  C23. In a text column stacked from several blocks, each with its own dictionary, the
  ordinal a document reads is the ordinal of its string in the merged dictionary,
  and ordinals compare as the strings do.
\<close>

theorem merged_ordinals_name_the_text:
  assumes "reader_open file toc = Some (Inr r)" "fr_column_type r = ColTextOrdinal"
    "sum_list (map (\<lambda>b. length (cb_raw_dict b)) (fr_blocks r)) < 2 ^ 32"
    "get_text r d1 = Some (Some s1)" "get_u64 r d1 = Some o1" "unat o1 < 2 ^ 32"
    "get_text r d2 = Some (Some s2)" "get_u64 r d2 = Some o2" "unat o2 < 2 ^ 32"
  shows "text_ordinal r s1 = Some (Some (unat o1)) \<and> (o1 < o2 \<longleftrightarrow> s1 < s2)"
proof -
  obtain keys where K: "dict_keys_ok keys" "text_ordinal r s1 = Some (Some (unat o1))" "unat o1 < length keys" "keys ! unat o1 = s1"
      "unat o2 < length keys" "keys ! unat o2 = s2"
    using text_ordinal_of_doc [OF reader_open_wf [OF assms(1)] assms(2,3)] assms(4-9) by blast
  have srt: "strictly_sorted keys" using K(1) by (simp add: dict_keys_ok_def)
  have lt: "keys ! i < keys ! j" if "i < j" "j < length keys" for i j
    using srt that by (simp add: sorted_wrt_iff_nth_less)
  have "unat o1 < unat o2 \<longleftrightarrow> s1 < s2"
  proof
    assume "s1 < s2"
    then have "unat o1 \<noteq> unat o2" using K(4,6) by auto
    moreover have "\<not> unat o2 < unat o1" using lt [of "unat o2" "unat o1"] K(3,4,6) \<open>s1 < s2\<close> by auto
    ultimately show "unat o1 < unat o2" by simp
  qed (use lt K in auto)
  then show ?thesis using K(2) by (simp add: word_less_nat_alt)
qed


theorem merged_ordinals_name_the_text_witness:
  "\<exists>r o1 o2. reader_open (column_bytes two_texts) two_texts_toc = Some (Inr r) \<and> get_text r 0 = Some (Some [98]) \<and>
     get_u64 r 0 = Some o1 \<and> get_u64 r 1 = Some o2 \<and> text_ordinal r [98] = Some (Some (unat o1)) \<and> \<not> o1 < o2"
proof -
  obtain r where r: "reader_open (column_bytes two_texts) two_texts_toc = Some (Inr r)" using two_texts_open by blast
  note rd = two_texts_reads [OF r]
  note small = two_texts_ordinals(2) [OF r] and sz = two_texts_ordinals(1) [OF r]
  obtain o1 o2 where o: "get_u64 r 0 = Some o1" "unat o1 < 2 ^ 32" "get_u64 r 1 = Some o2" "unat o2 < 2 ^ 32"
    using small [of 0] small [of 1] by auto
  have "text_ordinal r [98] = Some (Some (unat o1)) \<and> (o1 < o2 \<longleftrightarrow> [98::u8] < [97])"
    using merged_ordinals_name_the_text [OF r rd(1) sz rd(5) o(1,2) rd(6) o(3,4)] .
  then show ?thesis using r rd(5) o by auto
qed

end
