(* ===== verification/FastFieldRoundTrip.thy ===== *)
theory FastFieldRoundTrip
  imports FastFieldAccess
begin

text \<open>
  From the calls that fill a \<open>FastFieldWriter\<close> to the answers of the \<open>FastFieldReader\<close>
  that opens its bytes, for the four kinds of column: numeric and text, with one and
  with several values per document. The bytes may stand anywhere in a file.
\<close>

section \<open>A written block\<close>

lemma block_bytes_column:
  "block_bytes (cb_num_docs b) (cb_data b) (length (keys_of b)) (cb_raw_dict b) = column_bytes [b]"
  by (simp add: block_bytes_def column_bytes_def block_entry_def)

lemma open_written:
  assumes b: "stored multi ct b" "cb_cumulative_docs b = 0" and f: "length pre + length post < 2 ^ 60"
  defines "bs \<equiv> block_bytes (cb_num_docs b) (cb_data b) (length (keys_of b)) (cb_raw_dict b)"
  shows "\<exists>r. reader_open (pre @ bs @ post) (block_toc ct multi (word_of_nat (length pre))
      (20 + length (cb_data b) + length (cb_raw_dict b)) (cb_num_docs b)) = Some (Inr r) \<and>
    fr_column_type r = ct \<and> fr_multi r = multi \<and> fr_num_docs r = cb_num_docs b \<and> fr_blocks r = [b]"
proof -
  have k: "length (cb_data b) < 2 ^ 32" "length (cb_raw_dict b) < 2 ^ 32" "cb_num_docs b < 2 ^ 32"
    using b(1) block_dict_keys(2,4) [of ct b] by (auto simp: stored_def block_ok_def)
  define len where "len = 20 + length (cb_data b) + length (cb_raw_dict b)"
  have l: "length (column_bytes [b]) = len" by (simp add: length_column_bytes len_def)
  have "len < 2 ^ 60" using k by (simp add: len_def)
  then have "unat (word_of_nat (length pre) :: u64) = length pre" "unat (word_of_nat (cb_num_docs b) :: u32) = cb_num_docs b"
      "unat (word_of_nat len :: u64) = len" "length pre + (len + length post) < 2 ^ 64"
    using f k by (simp_all add: unat_of_nat)
  then show ?thesis
    using reader_open_stored [of "pre @ bs @ post" pre "[b]" post "block_toc ct multi (word_of_nat (length pre)) len (cb_num_docs b)"] b k l
    unfolding len_def [symmetric] by (simp add: bs_def block_bytes_column block_toc_def chained_def)
qed

lemma single_raws:
  assumes "single_block vs (cb_data b)" "local < length vs"
  shows "block_raws False b local = [vs ! local]"
  using assms by (simp add: block_raws_def single_block_def)

text \<open>Offsets and values of a multi-valued block, as the writer lays them out.\<close>

definition written_multi :: "(nat \<times> 'a) list \<Rightarrow> u64 list \<Rightarrow> column_block \<Rightarrow> bool" where
  "written_multi adds vs b \<longleftrightarrow> single_block (map (word_of_nat \<circ> value_offset adds) [0..<cb_num_docs b + 1]) (cb_offset_data b) \<and>
     single_block vs (cb_value_data b) \<and> length vs = length adds \<and>
     cb_data b = u32_le (word_of_nat (length (cb_offset_data b))) @ cb_offset_data b @ cb_value_data b \<and>
     length (cb_offset_data b) \<le> 2 ^ 30 + 100 \<and> length (cb_value_data b) \<le> 2 ^ 30 + 100"

lemma written_multi_ok:
  assumes w: "written_multi adds vs b" and d: "\<forall>(x, _) \<in> set adds. x < cb_num_docs b" and n: "length adds < 2 ^ 27" "cb_num_docs b < 2 ^ 27"
    and dk: "block_dict_ok ct b"
  shows "stored True ct b"
    and "sorted (map fst adds) \<Longrightarrow> local < cb_num_docs b \<Longrightarrow>
      block_raws True b local = map (\<lambda>i. vs ! i) [value_offset adds local..<value_offset adds (local + 1)]"
proof -
  define offs where "offs = map (value_offset adds) [0..<cb_num_docs b + 1]"
  have lt: "value_offset adds i < 2 ^ 32" for i using value_offset_le [of adds i] n by simp
  have rd: "auto_read (cb_offset_data b) i = Some (word_of_nat (value_offset adds i))" if "i \<le> cb_num_docs b" for i
    using w that by (auto simp: written_multi_def single_block_def simp del: upt_Suc)
  have srt: "sorted offs" by (auto simp: offs_def sorted_iff_nth_mono value_offset_mono simp del: upt_Suc)
  have o: "offsets_ok (cb_offset_data b) (cb_num_docs b) offs"
    using rd lt srt by (auto simp: offsets_ok_def offs_def simp del: upt_Suc)
  have "value_offset adds (cb_num_docs b) = length adds" using value_offset_all d by blast
  then have v: "validate_auto (cb_value_data b) (offs ! cb_num_docs b) = Inr ()"
    using w by (auto simp: written_multi_def single_block_def offs_def simp del: upt_Suc)
  have k: "le_u32 (cb_data b) 0 = Some (length (cb_offset_data b))"
    using w by (simp add: written_multi_def le_u32_here unat_of_nat)
  have "length (cb_data b) < 2 ^ 32" using w by (simp add: written_multi_def)
  then show "stored True ct b"
    using o v k w dk n by (auto simp: stored_def block_ok_def parts_ok_def written_multi_def single_block_def)
  have ro: "read_as_u32 (cb_offset_data b) i = Some (value_offset adds i)" if "i \<le> cb_num_docs b" for i
    using rd [OF that] lt [of i] by (simp add: read_as_u32_def as_u32_def unat_of_nat)
  show "block_raws True b local = map (\<lambda>i. vs ! i) [value_offset adds local..<value_offset adds (local + 1)]"
    if "sorted (map fst adds)" "local < cb_num_docs b"
  proof -
    have "value_offset adds (local + 1) \<le> length vs" using value_offset_le [of adds] w by (simp add: written_multi_def)
    then show ?thesis using ro [of local] ro [of "local + 1"] that w
      by (auto simp: block_raws_def written_multi_def single_block_def)
  qed
qed

lemma multi_block_written:
  assumes "fw_multi w" "fw_multi_values w = vs" "fw_multi_offsets w = map (value_offset adds) [0..<n + 1]" "length vs = length adds"
    "n < 2 ^ 27 - 1" "length adds < 2 ^ 27"
  shows "\<exists>b. column_block_data w = Some (Inr (cb_data b)) \<and> cb_cumulative_docs b = 0 \<and> cb_num_docs b = n \<and>
    cb_raw_dict b = raw \<and> cb_dict b = dict \<and> written_multi adds vs b"
proof -
  obtain od vd where data: "column_block_data w = Some (Inr (u32_le (word_of_nat (length od)) @ od @ vd))"
      "single_block (map word_of_nat (fw_multi_offsets w)) od" "single_block vs vd"
      "length od \<le> 10 + 8 * (n + 1)" "length vd \<le> 10 + 8 * length adds"
    using column_multi_block [of w] assms by auto
  then show ?thesis using assms
    by (intro exI [of _ "\<lparr>cb_cumulative_docs = 0, cb_num_docs = n, cb_data = u32_le (word_of_nat (length od)) @ od @ vd,
      cb_offset_data = od, cb_value_data = vd, cb_dict = dict, cb_raw_dict = raw\<rparr>"]) (simp add: written_multi_def o_def del: upt_Suc)
qed

text \<open>A column of one block reads what the block holds.\<close>

lemma one_block_reads:
  assumes r: "reader_open file toc = Some (Inr r)" "fr_blocks r = [b]" "cb_cumulative_docs b = 0" and d: "doc < cb_num_docs b"
  shows "get_u64 r doc = Some (first_value (block_raws (fr_multi r) b doc))"
    "get_text r doc = Some (text_of (keys_of b) (block_raws (fr_multi r) b doc))"
    "fr_multi r \<Longrightarrow> get_multi_values r doc = Some (block_raws True b doc)"
proof -
  have m: "column_maps r ! 0 = []" using r(2) by (simp add: column_maps_def)
  have id: "map (remap_value []) vs = vs" for vs by (simp add: map_idI remap_value_def)
  show "get_u64 r doc = Some (first_value (block_raws (fr_multi r) b doc))"
    "get_text r doc = Some (text_of (keys_of b) (block_raws (fr_multi r) b doc))"
    using doc_reads [OF reader_open_wf [OF r(1)], of 0 doc] r(2,3) d m id by simp_all
  show "get_multi_values r doc = Some (block_raws True b doc)" if "fr_multi r"
    using multi_doc_reads(1) [OF reader_open_wf [OF r(1)] that, of 0 doc] r(2,3) d m id by simp
qed

section \<open>Numeric columns\<close>

lemma recorded_outside:
  assumes "\<forall>(d, _) \<in> set adds. d < n" "n \<le> doc"
  shows "recorded x adds doc = x"
proof -
  have "fold (\<lambda>(d, v) m. m(d := v)) adds m doc = m doc" for m
    using assms by (induction adds arbitrary: m) auto
  then show ?thesis by (simp add: recorded_def)
qed

lemma doc_values_outside: "\<forall>(d, _) \<in> set adds. d < n \<Longrightarrow> n \<le> doc \<Longrightarrow> doc_values adds doc = []"
  by (auto simp: doc_values_def filter_empty_conv)

lemma numeric_block_dict:
  "cb_dict b = None \<Longrightarrow> cb_raw_dict b = [] \<Longrightarrow> block_dict_ok ct b" "cb_dict b = None \<Longrightarrow> keys_of b = []"
  by (simp_all add: block_dict_ok_def keys_of_def)

text \<open>
  C7. A numeric column that is filled, padded, serialised at any offset of a file and
  opened again returns for every document the last value recorded for it, and the
  missing-value marker for a document without one.
\<close>

theorem numeric_column_round_trip:
  assumes "\<forall>(d, _) \<in> set adds. d < n" "n < 2 ^ 27" "ct \<noteq> ColTextOrdinal" "length pre + length post < 2 ^ 60"
  shows "\<exists>w toc bs r. pad_to (add_all (new_numeric ct) adds) n = Some w \<and>
    writer_serialize w (word_of_nat (length pre)) = Some (Inr (toc, bs)) \<and> reader_open (pre @ bs @ post) toc = Some (Inr r) \<and>
    fr_num_docs r = n \<and> (\<forall>doc. get_u64 r doc = Some (recorded FAST_FIELD_MISSING adds doc))"
proof -
  define vs where "vs = map (recorded FAST_FIELD_MISSING adds) [0..<n]"
  define w where "w = (new_numeric ct)\<lparr>fw_values := vs\<rparr>"
  have lv: "length vs = n" by (simp add: vs_def)
  have fw: "fw_values w = vs" "\<not> fw_multi w" "fw_column_type w = ct" by (simp_all add: w_def new_numeric_def)
  obtain data where data: "column_block_data w = Some (Inr data)" "single_block vs data" "length data \<le> 10 + 8 * n"
    using column_single_block [of w] fw lv assms(2) by auto
  define b where "b = \<lparr>cb_cumulative_docs = 0, cb_num_docs = n, cb_data = data, cb_offset_data = [], cb_value_data = [],
    cb_dict = None, cb_raw_dict = []\<rparr>"
  have b: "cb_cumulative_docs b = 0" "cb_num_docs b = n" "cb_data b = data" "cb_raw_dict b = []" "cb_dict b = None" "keys_of b = []"
    by (simp_all add: b_def keys_of_def)
  have st: "stored False ct b" using data lv assms(2) numeric_block_dict [of b]
    by (simp add: stored_def block_ok_def parts_ok_def single_block_def b_def)
  have nd: "writer_num_docs w = n" using fw lv assms(2) by (simp add: writer_num_docs_def as_u32_def)
  obtain r where r: "reader_open (pre @ block_bytes n data 0 [] @ post) (block_toc ct False (word_of_nat (length pre)) (20 + length data) n) =
      Some (Inr r)" "\<not> fr_multi r" "fr_num_docs r = n" "fr_blocks r = [b]"
    using open_written [OF st b(1) assms(4)] by (auto simp: b)
  have "get_u64 r doc = Some (recorded FAST_FIELD_MISSING adds doc)" for doc
  proof (cases "doc < n")
    case True
    then show ?thesis using one_block_reads(1) [OF r(1,4) b(1), of doc] single_raws [of vs b doc] data(2) lv r(2)
      by (simp add: b first_value_def vs_def)
  next
    case False
    then show ?thesis using beyond_docs(1) [of doc r] r(3) recorded_outside [OF assms(1)] by simp
  qed
  moreover have "writer_serialize w (word_of_nat (length pre)) =
      Some (Inr (block_toc ct False (word_of_nat (length pre)) (20 + length data) n, block_bytes n data 0 []))"
    using writer_serialize_numeric [of w data] fw assms(3) data(1) nd by simp
  ultimately show ?thesis using single_column [OF assms(1), of ct] r(1,3) by (auto simp: w_def vs_def)
qed

theorem numeric_column_round_trip_witness:
  "\<exists>w toc bs r. pad_to (add_all (new_numeric ColU64) [(2, 7), (0, 9)]) 4 = Some w \<and>
    writer_serialize w 1 = Some (Inr (toc, bs)) \<and> reader_open ([0] @ bs @ [1]) toc = Some (Inr r) \<and>
    get_u64 r 0 = Some 9 \<and> get_u64 r 1 = Some FAST_FIELD_MISSING \<and> get_u64 r 2 = Some 7"
  using numeric_column_round_trip [of "[(2, 7), (0, 9)]" 4 ColU64 "[0]" "[1]"] by (force simp: recorded_def)

text \<open>
  C8. A multi-valued numeric column, filled in document order, returns for every document
  the values recorded for it, in the order they were added.
\<close>

theorem multi_column_round_trip:
  assumes "sorted (map fst adds)" "\<forall>(d, _) \<in> set adds. d < n" "n < 2 ^ 27 - 1" "length adds < 2 ^ 27" "ct \<noteq> ColTextOrdinal"
    "length pre + length post < 2 ^ 60"
  shows "\<exists>w toc bs r. pad_to (add_all (new_numeric_multi ct) adds) n = Some w \<and>
    writer_serialize w (word_of_nat (length pre)) = Some (Inr (toc, bs)) \<and> reader_open (pre @ bs @ post) toc = Some (Inr r) \<and>
    fr_num_docs r = n \<and> (\<forall>doc. get_multi_values r doc = Some (doc_values adds doc))"
proof -
  define w where "w = (new_numeric_multi ct)\<lparr>fw_multi_values := map snd adds, fw_multi_offsets := map (value_offset adds) [0..<n + 1],
    fw_multi_current_doc := n\<rparr>"
  have fw: "fw_multi w" "fw_column_type w = ct" "fw_multi_values w = map snd adds" "fw_multi_offsets w = map (value_offset adds) [0..<n + 1]"
    by (simp_all add: w_def new_numeric_multi_def)
  obtain b where b: "column_block_data w = Some (Inr (cb_data b))" "cb_cumulative_docs b = 0" "cb_num_docs b = n" "cb_raw_dict b = []"
      "cb_dict b = None" "written_multi adds (map snd adds) b"
    using multi_block_written [OF fw(1,3,4) _ assms(3,4)] by fastforce
  have kb: "keys_of b = []" using b(5) by (simp add: keys_of_def)
  note ok = written_multi_ok [OF b(6) _ assms(4) _ numeric_block_dict(1) [OF b(5,4)], unfolded b(3)]
  have nd: "writer_num_docs w = n" using fw assms(3) by (simp add: writer_num_docs_def as_u32_def)
  let ?len = "20 + length (cb_data b)"
  obtain r where r: "reader_open (pre @ block_bytes n (cb_data b) 0 [] @ post) (block_toc ct True (word_of_nat (length pre)) ?len n) =
      Some (Inr r)" "fr_multi r" "fr_num_docs r = n" "fr_blocks r = [b]"
    using open_written [OF ok(1) b(2) assms(6)] assms(2,3) by (auto simp: b kb)
  have "get_multi_values r doc = Some (doc_values adds doc)" for doc
  proof (cases "doc < n")
    case True
    then show ?thesis using one_block_reads(3) [OF r(1,4) b(2) _ r(2), of doc] ok(2) [of doc] assms(1-3) doc_values_slice [OF assms(1), of doc]
      by (simp add: b)
  next
    case False
    then show ?thesis using beyond_docs(2) [of doc r] r(3) doc_values_outside [OF assms(2)] by simp
  qed
  moreover have "writer_serialize w (word_of_nat (length pre)) =
      Some (Inr (block_toc ct True (word_of_nat (length pre)) ?len n, block_bytes n (cb_data b) 0 []))"
    using writer_serialize_numeric [of w "cb_data b"] fw(1,2) assms(5) b(1) nd by simp
  moreover have "n < 2 ^ 32 - 1" "length adds < 2 ^ 32" using assms(3,4) by simp_all
  ultimately show ?thesis using multi_column [OF assms(1,2), of ct] r(1,3) by (auto simp: w_def)
qed

theorem multi_column_round_trip_witness:
  "\<exists>w toc bs r. pad_to (add_all (new_numeric_multi ColU64) [(0, 5), (2, 9), (2, 3)]) 4 = Some w \<and>
    writer_serialize w 0 = Some (Inr (toc, bs)) \<and> reader_open ([] @ bs @ []) toc = Some (Inr r) \<and>
    get_multi_values r 0 = Some [5] \<and> get_multi_values r 1 = Some [] \<and> get_multi_values r 2 = Some [9, 3]"
  using multi_column_round_trip [of "[(0, 5), (2, 9), (2, 3)]" 4 ColU64 "[]" "[]"] by (force simp: doc_values_def)

section \<open>Text columns\<close>

lemma sum_image_le: "(\<Sum>k \<in> snd ` set adds. g k) \<le> sum_list (map (\<lambda>(_, s). g s) adds)" for g :: "'a \<Rightarrow> nat"
proof (induction adds)
  case (Cons a adds)
  then show ?case by (cases a) (auto simp: sum.insert_if)
qed simp

lemma written_dictionary:
  assumes d: "dict_of dict (snd ` set adds)" and u: "\<forall>(_, s) \<in> set adds. utf8_valid s"
    and sz: "sum_list (map (\<lambda>(_, s). 4 + length s) adds) < 2 ^ 32"
  defines "keys \<equiv> map fst dict"
  shows "dict_keys_ok keys" "length (write_dict keys) < 2 ^ 32" "length dict < 2 ^ 32"
    "\<forall>s \<in> snd ` set adds. \<exists>i < length dict. keys ! i = s \<and> sorted_ordinal dict s = Some (word_of_nat i)"
proof -
  have k: "strictly_sorted keys" "set keys = snd ` set adds" using d by (simp_all add: dict_of_def keys_def)
  have le: "(\<Sum>k \<in> set keys. 4 + length k) < 2 ^ 32" using sum_image_le [of "\<lambda>k. 4 + length k" adds] sz k(2) by simp
  have "length k < 2 ^ 32" if "k \<in> set keys" for k using member_le_sum [OF that, of "\<lambda>k. 4 + length k"] le by simp
  then show ok: "dict_keys_ok keys" using k u by (auto simp: dict_keys_ok_def)
  show sd: "length (write_dict keys) < 2 ^ 32" using length_write_dict_set [OF ok] le by simp
  then show "length dict < 2 ^ 32" using length_write_dict [of keys] by (simp add: keys_def)
  show "\<forall>s \<in> snd ` set adds. \<exists>i < length dict. keys ! i = s \<and> sorted_ordinal dict s = Some (word_of_nat i)"
    using sorted_ordinal_mem [of dict] k by (auto simp: keys_def)
qed

lemma dictionary_block:
  assumes "dict_keys_ok keys" "length (write_dict keys) < 2 ^ 32" "cb_raw_dict b = write_dict keys"
    "cb_dict b = (if keys = [] then None else Some (new_lazy (write_dict keys) (length keys)))"
  shows "block_dict_ok ColTextOrdinal b" "keys_of b = keys"
  using assms written_dict_reads(2) [OF assms(1,2)] by (auto simp: block_dict_ok_def keys_of_def)

lemma recorded_mem: "recorded None (map (\<lambda>(d, s). (d, Some s)) adds) doc = Some s \<Longrightarrow> s \<in> snd ` set adds"
proof -
  have "fold (\<lambda>(d, v) m. m(d := v)) (map (\<lambda>(d, s). (d, Some s)) adds) m doc = Some s \<Longrightarrow> s \<in> snd ` set adds \<or> m doc = Some s" for m
  proof (induction adds arbitrary: m)
    case (Cons a adds)
    obtain d t where a: "a = (d, t)" by (cases a)
    then show ?case using Cons.IH [of "m(d := Some t)"] Cons.prems by (simp split: if_splits) blast
  qed simp
  then show "recorded None (map (\<lambda>(d, s). (d, Some s)) adds) doc = Some s \<Longrightarrow> s \<in> snd ` set adds" by (auto simp: recorded_def)
qed

lemma text_of_ordinal:
  assumes "i < length keys" "i < 2 ^ 32"
  shows "text_of keys (word_of_nat i # rest) = Some (keys ! i)"
proof -
  have u: "unat (word_of_nat i :: u64) = i" using assms(2) by (simp add: unat_of_nat)
  then have "(word_of_nat i :: u64) \<noteq> FAST_FIELD_MISSING" using assms(2) unat_missing by auto
  then show ?thesis using assms u by (simp add: text_of_def as_u32_def)
qed

lemma dictionary_ordinal:
  assumes "dict_of dict (snd ` set adds)" "\<forall>(_, s) \<in> set adds. utf8_valid s"
    "sum_list (map (\<lambda>(_, s). 4 + length s) adds) < 2 ^ 32" "s \<in> snd ` set adds"
  shows "sorted_ordinal dict s = Some (the (sorted_ordinal dict s))"
    "text_of (map fst dict) (the (sorted_ordinal dict s) # rest) = Some s"
    "map fst dict ! unat (the (sorted_ordinal dict s)) = s"
proof -
  obtain i where "i < length dict" "map fst dict ! i = s" "sorted_ordinal dict s = Some (word_of_nat i)"
    using written_dictionary(4) [OF assms(1-3)] assms(4) by blast
  then show "sorted_ordinal dict s = Some (the (sorted_ordinal dict s))"
    "text_of (map fst dict) (the (sorted_ordinal dict s) # rest) = Some s"
    "map fst dict ! unat (the (sorted_ordinal dict s)) = s"
    using text_of_ordinal [of i "map fst dict" rest] written_dictionary(3) [OF assms(1-3)] by (simp_all add: unat_of_nat)
qed

lemma doc_ordinals:
  fixes doc
  assumes "sorted (map fst adds)" "dict_of dict (snd ` set adds)" "\<forall>(_, s) \<in> set adds. utf8_valid s"
    "sum_list (map (\<lambda>(_, s). 4 + length s) adds) < 2 ^ 32"
  defines "os \<equiv> map (\<lambda>i. map (\<lambda>(_, s). the (sorted_ordinal dict s)) adds ! i) [value_offset adds doc..<value_offset adds (doc + 1)]"
  shows "map (\<lambda>ord. map fst dict ! unat ord) os = doc_values adds doc"
    "text_of (map fst dict) os = (case doc_values adds doc of [] \<Rightarrow> None | s # _ \<Rightarrow> Some s)"
proof -
  have os: "os = map (\<lambda>s. the (sorted_ordinal dict s)) (doc_values adds doc)"
    unfolding os_def doc_values_slice [OF assms(1), of doc] using value_offset_le [of adds "doc + 1"]
    by (auto simp: case_prod_unfold)
  have mem: "set (doc_values adds doc) \<subseteq> snd ` set adds" by (auto simp: doc_values_def)
  show "map (\<lambda>ord. map fst dict ! unat ord) os = doc_values adds doc"
    unfolding os using dictionary_ordinal(3) [OF assms(2-4)] mem by (auto intro!: map_idI simp: subset_iff)
  show "text_of (map fst dict) os = (case doc_values adds doc of [] \<Rightarrow> None | s # _ \<Rightarrow> Some s)"
    unfolding os using dictionary_ordinal(2) [OF assms(2-4)] mem by (cases "doc_values adds doc") (simp_all add: text_of_def [of _ "[]"])
qed

text \<open>
  C10. A text column returns for every document the last string recorded for it, whatever
  the order of the calls and however many documents share a string.
\<close>

theorem text_column_round_trip:
  assumes "\<forall>(d, _) \<in> set adds. d < n" "n < 2 ^ 27" "\<forall>(_, s) \<in> set adds. utf8_valid s"
    "sum_list (map (\<lambda>(_, s). 4 + length s) adds) < 2 ^ 32" "length pre + length post < 2 ^ 60"
  shows "\<exists>w toc bs r. pad_to (add_texts new_text adds) n = Some w \<and>
    writer_serialize w (word_of_nat (length pre)) = Some (Inr (toc, bs)) \<and> reader_open (pre @ bs @ post) toc = Some (Inr r) \<and>
    fr_num_docs r = n \<and> (\<forall>doc. get_text r doc = Some (recorded None (map (\<lambda>(d, s). (d, Some s)) adds) doc))"
proof -
  define tx where "tx = recorded None (map (\<lambda>(d, s). (d, Some s)) adds)"
  obtain vs dict where w0: "pad_to (add_texts new_text adds) n = Some (new_text\<lparr>fw_values := vs, fw_text_values := Some dict,
      fw_text_per_doc := Some (map tx [0..<n])\<rparr>)" "length vs = n" "dict_of dict (snd ` set adds)"
    using text_column [OF assms(1)] unfolding tx_def by blast
  define keys where "keys = map fst dict"
  note dk = written_dictionary [OF w0(3) assms(3,4), folded keys_def]
  define ord where "ord = (\<lambda>s. the (sorted_ordinal dict s))"
  define ords where "ords = map (\<lambda>doc. case tx doc of None \<Rightarrow> FAST_FIELD_MISSING | Some s \<Rightarrow> ord s) [0..<n]"
  have pos: "sorted_ordinal dict s = Some (ord s)" "text_of keys (ord s # rest) = Some s" if "tx doc = Some s" for doc s rest
    unfolding ord_def keys_def
    by (rule dictionary_ordinal [OF w0(3) assms(3,4)], rule recorded_mem [of adds doc], rule that [unfolded tx_def])+
  have mem: "\<forall>s. Some s \<in> set (map tx [0..<n]) \<longrightarrow> sorted_ordinal dict s = Some (ord s)" using pos(1) [OF sym] by auto
  define w where "w = new_text\<lparr>fw_values := ords, fw_text_values := Some dict, fw_text_per_doc := Some (map tx [0..<n])\<rparr>"
  have res: "resolve_text_ordinals (new_text\<lparr>fw_values := vs, fw_text_values := Some dict, fw_text_per_doc := Some (map tx [0..<n])\<rparr>) = Some w"
    using resolve_single_eq [of 0 "map tx [0..<n]" vs dict ord] w0(2) mem
    by (simp add: resolve_text_ordinals_def new_text_def w_def ords_def o_def)
  have fw: "fw_values w = ords" "\<not> fw_multi w" "fw_column_type w = ColTextOrdinal" "fw_text_values w = Some dict" "length ords = n"
    by (simp_all add: w_def new_text_def ords_def)
  obtain data where data: "column_block_data w = Some (Inr data)" "single_block ords data" "length data \<le> 10 + 8 * n"
    using column_single_block [of w] fw assms(2) by auto
  define b where "b = \<lparr>cb_cumulative_docs = 0, cb_num_docs = n, cb_data = data, cb_offset_data = [], cb_value_data = [],
    cb_dict = (if keys = [] then None else Some (new_lazy (write_dict keys) (length keys))), cb_raw_dict = write_dict keys\<rparr>"
  have b: "cb_cumulative_docs b = 0" "cb_num_docs b = n" "cb_data b = data" "cb_raw_dict b = write_dict keys" by (simp_all add: b_def)
  have kb: "block_dict_ok ColTextOrdinal b" "keys_of b = keys" using dictionary_block [OF dk(1,2)] by (simp_all add: b_def)
  have st: "stored False ColTextOrdinal b" using data fw assms(2) kb(1)
    by (simp add: stored_def block_ok_def parts_ok_def single_block_def b_def)
  let ?len = "20 + length data + length (write_dict keys)"
  obtain r where r: "reader_open (pre @ block_bytes n data (length dict) (write_dict keys) @ post)
      (block_toc ColTextOrdinal False (word_of_nat (length pre)) ?len n) = Some (Inr r)" "\<not> fr_multi r" "fr_num_docs r = n" "fr_blocks r = [b]"
    using open_written [OF st b(1) assms(5)] by (auto simp: b kb(2) keys_def)
  have "get_text r doc = Some (tx doc)" for doc
  proof (cases "doc < n")
    case True
    have "text_of keys [ords ! doc] = tx doc"
      using True pos(2) [of doc] by (cases "tx doc") (simp_all add: ords_def text_of_def)
    then show ?thesis using one_block_reads(2) [OF r(1,4) b(1), of doc] single_raws [of ords b doc] data(2) fw(5) r(2) True
      by (simp add: b kb(2))
  next
    case False
    have "\<forall>(d, _) \<in> set (map (\<lambda>(d, s). (d, Some s)) adds). d < n" using assms(1) by auto
    from recorded_outside [OF this, of doc None] show ?thesis using False beyond_docs(5) [of doc r] r(3) by (simp add: tx_def)
  qed
  moreover have "writer_serialize (new_text\<lparr>fw_values := vs, fw_text_values := Some dict, fw_text_per_doc := Some (map tx [0..<n])\<rparr>)
      (word_of_nat (length pre)) = Some (Inr (block_toc ColTextOrdinal False (word_of_nat (length pre)) ?len n,
        block_bytes n data (length dict) (write_dict keys)))"
    using writer_serialize_text [OF _ res fw(3,4) data(1)] fw dk(3) assms(2)
    by (simp add: new_text_def keys_def writer_num_docs_def as_u32_def)
  ultimately show ?thesis using w0(1) r(1,3) unfolding tx_def by blast
qed

theorem text_column_round_trip_witness:
  "\<exists>w toc bs r. pad_to (add_texts new_text [(2, [98]), (0, [97]), (1, [98])]) 4 = Some w \<and>
    writer_serialize w 0 = Some (Inr (toc, bs)) \<and> reader_open ([] @ bs @ []) toc = Some (Inr r) \<and>
    get_text r 0 = Some (Some [97]) \<and> get_text r 2 = Some (Some [98]) \<and> get_text r 3 = Some None"
proof -
  have "\<forall>(_, s) \<in> set [(2::nat, [98]), (0, [97]), (1, [98])]. utf8_valid s" by code_simp
  then show ?thesis using text_column_round_trip [of "[(2, [98]), (0, [97]), (1, [98])]" 4 "[]" "[]"] by (force simp: recorded_def)
qed

text \<open>
  C13. A multi-valued text column returns for every document the ordinals of the strings
  recorded for it, in the order they were added, and its first string as the text.
\<close>

theorem text_multi_column_round_trip:
  assumes "sorted (map fst adds)" "\<forall>(d, _) \<in> set adds. d < n" "n < 2 ^ 27 - 1" "length adds < 2 ^ 27"
    "\<forall>(_, s) \<in> set adds. utf8_valid s" "sum_list (map (\<lambda>(_, s). 4 + length s) adds) < 2 ^ 32" "length pre + length post < 2 ^ 60"
  shows "\<exists>w toc bs r keys. pad_to (add_texts new_text_multi adds) n = Some w \<and>
    writer_serialize w (word_of_nat (length pre)) = Some (Inr (toc, bs)) \<and> reader_open (pre @ bs @ post) toc = Some (Inr r) \<and>
    fr_num_docs r = n \<and> dict_keys_ok keys \<and>
    (\<forall>doc. \<exists>ords. get_multi_values r doc = Some ords \<and> map (\<lambda>ord. keys ! unat ord) ords = doc_values adds doc \<and>
      get_text r doc = Some (case doc_values adds doc of [] \<Rightarrow> None | s # _ \<Rightarrow> Some s))"
proof -
  have bounds: "n < 2 ^ 32 - 1" "length adds < 2 ^ 32" using assms(3,4) by simp_all
  obtain dict where w0: "pad_to (add_texts new_text_multi adds) n =
      Some (new_text_multi\<lparr>fw_multi_values := replicate (length adds) 0, fw_multi_offsets := map (value_offset adds) [0..<n + 1],
        fw_multi_current_doc := n, fw_text_values := Some dict, fw_text_multi_values := Some (map snd adds)\<rparr>)"
      "dict_of dict (snd ` set adds)"
    using text_multi_column [OF assms(1,2) bounds] by blast
  define ords where "ords = map (\<lambda>(_, s). the (sorted_ordinal dict s)) adds"
  define w where "w = new_text_multi\<lparr>fw_multi_values := ords, fw_multi_offsets := map (value_offset adds) [0..<n + 1],
    fw_multi_current_doc := n, fw_text_values := Some dict, fw_text_multi_values := Some (map snd adds)\<rparr>"
  define keys where "keys = map fst dict"
  note dk = written_dictionary [OF w0(2) assms(5,6), folded keys_def] and pos = dictionary_ordinal [OF w0(2) assms(5,6), folded keys_def]
  have res: "resolve_text_ordinals (new_text_multi\<lparr>fw_multi_values := replicate (length adds) 0,
      fw_multi_offsets := map (value_offset adds) [0..<n + 1], fw_multi_current_doc := n, fw_text_values := Some dict,
      fw_text_multi_values := Some (map snd adds)\<rparr>) = Some w"
    using resolve_multi_eq [of 0 "map snd adds" "replicate (length adds) 0" dict "\<lambda>s. the (sorted_ordinal dict s)"] pos(1)
    by (simp add: resolve_text_ordinals_def new_text_multi_def w_def ords_def case_prod_unfold o_def)
  have fw: "fw_multi w" "fw_column_type w = ColTextOrdinal" "fw_multi_values w = ords" "fw_multi_offsets w = map (value_offset adds) [0..<n + 1]"
      "fw_text_values w = Some dict" "length ords = length adds"
    by (simp_all add: w_def new_text_multi_def ords_def)
  obtain b where b: "column_block_data w = Some (Inr (cb_data b))" "cb_cumulative_docs b = 0" "cb_num_docs b = n"
      "cb_raw_dict b = write_dict keys" "cb_dict b = (if keys = [] then None else Some (new_lazy (write_dict keys) (length keys)))"
      "written_multi adds ords b"
    using multi_block_written [OF fw(1,3,4,6) assms(3,4)] by blast
  note kb = dictionary_block [OF dk(1,2) b(4,5)]
  note ok = written_multi_ok [OF b(6) _ assms(4) _ kb(1), unfolded b(3)]
  have nd: "writer_num_docs w = n" using fw assms(3) by (simp add: writer_num_docs_def as_u32_def)
  let ?len = "20 + length (cb_data b) + length (write_dict keys)"
  obtain r where r: "reader_open (pre @ block_bytes n (cb_data b) (length dict) (write_dict keys) @ post)
      (block_toc ColTextOrdinal True (word_of_nat (length pre)) ?len n) = Some (Inr r)" "fr_multi r" "fr_num_docs r = n" "fr_blocks r = [b]"
    using open_written [OF ok(1) b(2) assms(7)] assms(2,3) by (auto simp: b kb(2) keys_def)
  have each: "\<exists>os. get_multi_values r doc = Some os \<and> map (\<lambda>ord. keys ! unat ord) os = doc_values adds doc \<and>
      get_text r doc = Some (case doc_values adds doc of [] \<Rightarrow> None | s # _ \<Rightarrow> Some s)" for doc
  proof (cases "doc < n")
    case True
    then show ?thesis using one_block_reads(2,3) [OF r(1,4) b(2), of doc] ok(2) [of doc] assms(1-3) r(2)
        doc_ordinals [OF assms(1) w0(2) assms(5,6), of doc] by (simp add: b(3) kb(2) keys_def ords_def)
  next
    case False
    then show ?thesis using beyond_docs(2,5) [of doc r] r(3) doc_values_outside [OF assms(2)] by simp
  qed
  moreover have "writer_serialize (new_text_multi\<lparr>fw_multi_values := replicate (length adds) 0,
      fw_multi_offsets := map (value_offset adds) [0..<n + 1], fw_multi_current_doc := n, fw_text_values := Some dict,
      fw_text_multi_values := Some (map snd adds)\<rparr>) (word_of_nat (length pre)) =
      Some (Inr (block_toc ColTextOrdinal True (word_of_nat (length pre)) ?len n, block_bytes n (cb_data b) (length dict) (write_dict keys)))"
    using writer_serialize_text [OF _ res fw(2,5) b(1)] fw(1) nd dk(3) by (simp add: new_text_multi_def keys_def as_u32_def)
  ultimately show ?thesis using w0(1) r(1,3) dk(1) by blast
qed

theorem text_multi_column_round_trip_witness:
  "\<exists>w toc bs r. pad_to (add_texts new_text_multi [(0, [98]), (0, [97]), (2, [98])]) 4 = Some w \<and>
    writer_serialize w 0 = Some (Inr (toc, bs)) \<and> reader_open ([] @ bs @ []) toc = Some (Inr r) \<and>
    get_text r 0 = Some (Some [98]) \<and> get_text r 1 = Some None \<and> get_text r 2 = Some (Some [98])"
proof -
  have u: "\<forall>(_, s) \<in> set [(0::nat, [98]), (0, [97]), (2, [98])]. utf8_valid s" by code_simp
  obtain w toc bs r where w: "pad_to (add_texts new_text_multi [(0, [98]), (0, [97]), (2, [98])]) 4 = Some w"
      "writer_serialize w 0 = Some (Inr (toc, bs))" "reader_open ([] @ bs @ []) toc = Some (Inr r)"
      "\<forall>doc. get_text r doc = Some (case doc_values [(0, [98]), (0, [97]), (2, [98])] doc of [] \<Rightarrow> None | s # _ \<Rightarrow> Some s)"
    using text_multi_column_round_trip [of "[(0, [98]), (0, [97]), (2, [98])]" 4 "[]" "[]"] u by simp blast
  then show ?thesis by (intro exI [of _ w] exI [of _ toc] exI [of _ bs] exI [of _ r]) (simp add: doc_values_def)
qed

section \<open>The table of contents\<close>

lemma toc_footer_reads:
  assumes "unat off = length data" "length entries < 2 ^ 32" "length data < 2 ^ 60"
  defines "file \<equiv> data @ write_fast_field_toc_and_footer off entries"
  shows "read_fast_field_footer file = Inr (off, word_of_nat (length entries)) \<and>
    read_fast_field_toc file off (word_of_nat (length entries)) = Some (Inr entries)"
proof
  let ?toc = "concat (map toc_write_to entries)" and ?foot = "u64_le off @ u32_le (word_of_nat (length entries)) @ u32_le FAST_FIELD_MAGIC"
  have f: "file = (data @ ?toc) @ ?foot" "length ?foot = 16" by (simp_all add: file_def write_fast_field_toc_and_footer_def)
  have m: "read_u32 (u32_le FAST_FIELD_MAGIC) = Inr (FAST_FIELD_MAGIC, [])" using read_u32_le [of FAST_FIELD_MAGIC "[]"] by simp
  show "read_fast_field_footer file = Inr (off, word_of_nat (length entries))"
    using f by (simp add: read_fast_field_footer_def FAST_FIELD_FOOTER_SIZE_def rbind_def rreturn_def le_simps m)
  have l: "length ?toc = length entries * FAST_FIELD_TOC_ENTRY_SIZE" by (simp add: length_concat sum_list_triv o_def)
  have n: "unat (word_of_nat (length entries) :: u32) = length entries" using assms(2) by (simp add: unat_of_nat)
  have s: "slice file (length data) (length data + length entries * FAST_FIELD_TOC_ENTRY_SIZE) = Some ?toc"
    using slice_append [of data _ _ ?toc ?foot] l by (simp add: f(1))
  have rr: "rreplicate (length entries) toc_read_from ?toc = Inr (entries, [])"
    using rreplicate_concat [of entries toc_read_from toc_write_to "[]"] toc_entry_round by simp
  have "usize_fits (length data + length entries * FAST_FIELD_TOC_ENTRY_SIZE)" "usize_fits (length entries * FAST_FIELD_TOC_ENTRY_SIZE)"
    using assms(2,3) by (simp_all add: usize_fits_def FAST_FIELD_TOC_ENTRY_SIZE_def)
  moreover have "\<not> length data + length entries * FAST_FIELD_TOC_ENTRY_SIZE > length file" using l f by simp
  ultimately show "read_fast_field_toc file off (word_of_nat (length entries)) = Some (Inr entries)"
    unfolding read_fast_field_toc_def Let_def assms(1) n by (simp add: s rr ok_def)
qed

text \<open>
  The footer and table of contents written behind the columns of a file are read
  back: the footer gives the offset and the number of columns, and reading the table
  there gives the entries that were written.
\<close>

lemma toc_footer_round_trip:
  assumes "unat off = length data" "length entries < 2 ^ 32" "length data < 2 ^ 60"
  shows "read_fast_field_footer (data @ write_fast_field_toc_and_footer off entries) = Inr (off, word_of_nat (length entries)) \<and>
    read_fast_field_toc (data @ write_fast_field_toc_and_footer off entries) off (word_of_nat (length entries)) = Some (Inr entries)"
  by (rule toc_footer_reads [OF assms])

end
