(* ===== verification/FastFieldMerge.thy ===== *)
theory FastFieldMerge
  imports FastFieldRoundTrip
begin

text \<open>
  Merging the columns of segments (\<open>segment/merger/fast_fields.rs\<close>): the blocks of the
  sources are stacked byte for byte, a segment without the field contributes one
  block that stands for missing values, and the merged column answers for every
  document what its source column answered.
\<close>

section \<open>Definitions\<close>

datatype field_type = FText | FU64 | FI64 | FF64 | FBytes | FSparseVector | FDenseVector | FJson | FBinaryDenseVector

record field_entry =
  fe_field_type :: field_type
  fe_multi :: bool
  fe_fast :: bool

text \<open>What the merger reads of a segment: its documents and its columns by field.\<close>

record merge_segment =
  ms_num_docs :: nat
  ms_fast_fields :: "(nat \<times> fast_field_reader) list"
  ms_row_stats :: "(nat \<times> fast_field_reader) list"

datatype source_block =
    RawBlock (sb_num_docs: nat) (sb_data: bytes) (sb_dict_count: nat) (sb_dict_bytes: bytes)
  | MissingBlock (sb_num_docs: nat)

definition is_missing :: "source_block \<Rightarrow> bool" where
  "is_missing b = (case b of MissingBlock _ \<Rightarrow> True | RawBlock _ _ _ _ \<Rightarrow> False)"

definition raw_block :: "column_block \<Rightarrow> source_block" where
  "raw_block b = RawBlock (cb_num_docs b) (cb_data b) (case cb_dict b of Some d \<Rightarrow> text_dict_len d | None \<Rightarrow> 0) (cb_raw_dict b)"

definition source_entry :: "bytes \<Rightarrow> source_block \<Rightarrow> block_index_entry" where
  "source_entry missing_data b =
     (case b of
        RawBlock num_docs data dict_count dict_bytes \<Rightarrow>
          \<lparr>bie_num_docs = word_of_nat num_docs, bie_data_len = word_of_nat (length data),
           bie_dict_count = word_of_nat dict_count, bie_dict_len = word_of_nat (length dict_bytes)\<rparr>
      | MissingBlock num_docs \<Rightarrow>
          \<lparr>bie_num_docs = word_of_nat num_docs, bie_data_len = word_of_nat (length missing_data),
           bie_dict_count = 0, bie_dict_len = 0\<rparr>)"

definition source_bytes :: "bytes \<Rightarrow> source_block \<Rightarrow> bytes" where
  "source_bytes missing_data b =
     (case b of RawBlock _ data _ dict_bytes \<Rightarrow> data @ dict_bytes | MissingBlock _ \<Rightarrow> missing_data)"

definition write_merged_column :: "bool \<Rightarrow> source_block list \<Rightarrow> (bytes \<times> nat) fallible" where
  "write_merged_column is_multi blocks =
     tbind (if list_ex is_missing blocks then missing_block_data is_multi else ok []) (\<lambda>missing_data.
     if length blocks \<ge> 2 ^ 32 then err InvalidData ''too many fast-field blocks''
     else let out = u32_le (word_of_nat (length blocks)) @ concat (map (block_index_write_to \<circ> source_entry missing_data) blocks) @
                    concat (map (source_bytes missing_data) blocks);
              total_len = 4 + length blocks * BLOCK_INDEX_ENTRY_SIZE + sum_list (map (length \<circ> source_bytes missing_data) blocks)
          in ok (out, total_len))"

definition segment_sources :: "nat \<Rightarrow> merge_segment \<Rightarrow> source_block list" where
  "segment_sources field_id segment =
     (case map_of (ms_fast_fields segment) field_id of
        Some reader \<Rightarrow> map raw_block (fr_blocks reader)
      | None \<Rightarrow> if ms_num_docs segment > 0 then [MissingBlock (ms_num_docs segment)] else [])"

definition source_blocks :: "nat \<Rightarrow> merge_segment list \<Rightarrow> source_block list" where
  "source_blocks field_id segments = concat (map (segment_sources field_id) segments)"

definition column_type_of :: "field_type \<Rightarrow> fast_field_column_type option" where
  "column_type_of ft = (case ft of FU64 \<Rightarrow> Some ColU64 | FI64 \<Rightarrow> Some ColI64 | FF64 \<Rightarrow> Some ColF64 | FText \<Rightarrow> Some ColTextOrdinal | _ \<Rightarrow> None)"

type_synonym 'a merging = "(summa_error + 'a) option"

definition merge_io :: "'a fallible \<Rightarrow> 'a merging" where
  "merge_io m = map_option (map_sum Io id) m"

text \<open>The loop over the fields. \<open>cancelled k\<close> is what the cancellation flag reads at the
  \<open>k\<close>-th field.\<close>

primrec merge_columns ::
  "(nat \<Rightarrow> bool) \<Rightarrow> merge_segment list \<Rightarrow> (nat \<times> field_entry) list \<Rightarrow> nat \<Rightarrow> bytes \<Rightarrow> nat \<Rightarrow> fast_field_toc_entry list \<Rightarrow>
   (bytes \<times> nat \<times> fast_field_toc_entry list) merging" where
  "merge_columns cancelled segments [] k out current_offset toc = Some (Inr (out, current_offset, toc))"
| "merge_columns cancelled segments (field # cols) k out current_offset toc =
     (if cancelled k then Some (Inl IndexClosed)
      else case column_type_of (fe_field_type (snd field)) of
        None \<Rightarrow> merge_columns cancelled segments cols (k + 1) out current_offset toc
      | Some column_type \<Rightarrow>
          (case merge_io (write_merged_column (fe_multi (snd field)) (source_blocks (fst field) segments)) of
             None \<Rightarrow> None
           | Some (Inl e) \<Rightarrow> Some (Inl e)
           | Some (Inr (column, bytes_written)) \<Rightarrow>
               merge_columns cancelled segments cols (k + 1) (out @ column) (current_offset + bytes_written)
                 (toc @ [\<lparr>toc_field_id = word_of_nat (fst field), toc_column_type = column_type, toc_multi = fe_multi (snd field),
                          toc_data_offset = word_of_nat current_offset, toc_data_len = word_of_nat bytes_written,
                          toc_num_docs = word_of_nat (sum_list (map ms_num_docs segments)), toc_dict_offset = 0, toc_dict_count = 0\<rparr>])))"

definition fast_fields_of :: "(nat \<times> field_entry) list \<Rightarrow> (nat \<times> field_entry) list" where
  "fast_fields_of schema =
     sort_key fst (filter (\<lambda>(_, entry). fe_fast entry \<and> column_type_of (fe_field_type entry) \<noteq> None) schema)"

text \<open>The bytes of the merged \<open>.fast\<close> file; \<open>None\<close> when no file is written.\<close>

definition merge_fast_fields ::
  "(nat \<Rightarrow> bool) \<Rightarrow> (nat \<times> field_entry) list \<Rightarrow> merge_segment list \<Rightarrow> bytes option merging" where
  "merge_fast_fields cancelled schema segments =
     (if fast_fields_of schema = [] then Some (Inr None)
      else if \<not> list_ex (\<lambda>s. ms_fast_fields s \<noteq> []) segments then Some (Inr None)
      else case merge_columns cancelled segments (fast_fields_of schema) 0 [] 0 [] of
        None \<Rightarrow> None
      | Some (Inl e) \<Rightarrow> Some (Inl e)
      | Some (Inr (out, toc_offset, toc)) \<Rightarrow> Some (Inr (Some (out @ write_fast_field_toc_and_footer (word_of_nat toc_offset) toc))))"

definition row_stat_blocks :: "nat \<Rightarrow> merge_segment list \<Rightarrow> source_block list" where
  "row_stat_blocks field segments =
     concat (map (\<lambda>column. map (\<lambda>block. RawBlock (cb_num_docs block) (cb_data block) 0 []) (fr_blocks column))
       (List.map_filter (\<lambda>s. map_of (ms_row_stats s) field) segments))"

primrec merge_row_columns ::
  "merge_segment list \<Rightarrow> nat list \<Rightarrow> bytes \<Rightarrow> fast_field_toc_entry list \<Rightarrow> (bytes \<times> fast_field_toc_entry list) fallible" where
  "merge_row_columns segments [] out toc = ok (out, toc)"
| "merge_row_columns segments (field # cols) out toc =
     tbind (write_merged_column False (row_stat_blocks field segments)) (\<lambda>(column, len).
       merge_row_columns segments cols (out @ column)
         (toc @ [\<lparr>toc_field_id = word_of_nat field, toc_column_type = ColU64, toc_multi = False,
                  toc_data_offset = word_of_nat (length out), toc_data_len = word_of_nat len,
                  toc_num_docs = word_of_nat (sum_list (map ms_num_docs segments)), toc_dict_offset = 0, toc_dict_count = 0\<rparr>]))"

definition merge_row_stats :: "merge_segment list \<Rightarrow> bytes option fallible" where
  "merge_row_stats segments =
     (let cols = sorted_list_of_set (set (concat (map (map fst \<circ> ms_row_stats) segments)))
      in if cols = [] then ok None
         else tbind (merge_row_columns segments cols [] []) (\<lambda>(out, toc).
           ok (Some (out @ write_fast_field_toc_and_footer (word_of_nat (length out)) toc))))"

section \<open>Stacked blocks\<close>

fun rebase :: "nat \<Rightarrow> column_block list \<Rightarrow> column_block list" where
  "rebase c [] = []"
| "rebase c (b # bs) = b\<lparr>cb_cumulative_docs := c\<rparr> # rebase (c + cb_num_docs b) bs"

lemma length_rebase [simp]: "length (rebase c bs) = length bs"
  by (induction bs arbitrary: c) auto

lemma docs_rebase [simp]: "map cb_num_docs (rebase c bs) = map cb_num_docs bs"
  by (induction bs arbitrary: c) auto

lemma rebase_append: "rebase c (xs @ ys) = rebase c xs @ rebase (c + sum_list (map cb_num_docs xs)) ys"
  by (induction xs arbitrary: c) (auto simp: add.assoc)

lemma nth_rebase: "i < length bs \<Longrightarrow> rebase c bs ! i = (bs ! i)\<lparr>cb_cumulative_docs := c + sum_list (map cb_num_docs (take i bs))\<rparr>"
proof (induction bs arbitrary: c i)
  case (Cons b bs)
  then show ?case by (cases i) (auto simp: add.assoc)
qed simp

lemma take_rebase: "map cb_num_docs (take i (rebase c bs)) = map cb_num_docs (take i bs)"
  by (metis docs_rebase take_map)

lemma chained_rebase: "chained (rebase 0 bs)"
  by (simp add: chained_def nth_rebase take_rebase)

lemma keys_rebased [simp]: "keys_of (b\<lparr>cb_cumulative_docs := c\<rparr>) = keys_of b"
  by (simp add: keys_of_def)

lemma raws_rebased [simp]: "block_raws multi (b\<lparr>cb_cumulative_docs := c\<rparr>) local = block_raws multi b local"
  by (simp add: block_raws_def)

lemma stored_rebased [simp]: "stored multi ct (b\<lparr>cb_cumulative_docs := c\<rparr>) = stored multi ct b"
  by (simp add: stored_def block_ok_def parts_ok_def block_dict_ok_def split: option.split)

lemma rebase_stored: "\<forall>b \<in> set bs. stored multi ct b \<Longrightarrow> \<forall>b \<in> set (rebase c bs). stored multi ct b"
  by (induction bs arbitrary: c) auto

lemma column_bytes_rebase: "column_bytes (rebase c bs) = column_bytes bs"
proof -
  have "map (block_index_write_to \<circ> block_entry) (rebase c bs) = map (block_index_write_to \<circ> block_entry) bs" for c
    by (induction bs arbitrary: c) (auto simp: block_entry_def)
  moreover have "map (\<lambda>b. cb_data b @ cb_raw_dict b) (rebase c bs) = map (\<lambda>b. cb_data b @ cb_raw_dict b) bs" for c
    by (induction bs arbitrary: c) auto
  ultimately show ?thesis by (simp add: column_bytes_def)
qed

section \<open>Missing blocks\<close>

definition missing_column_block :: "bool \<Rightarrow> nat \<Rightarrow> column_block" where
  "missing_column_block multi n =
     (if multi then \<lparr>cb_cumulative_docs = 0, cb_num_docs = n, cb_data = u32_le 9 @ constant_data 0 @ 1 # u64_le 0 @ [0],
        cb_offset_data = constant_data 0, cb_value_data = 1 # u64_le 0 @ [0], cb_dict = None, cb_raw_dict = []\<rparr>
      else \<lparr>cb_cumulative_docs = 0, cb_num_docs = n, cb_data = constant_data FAST_FIELD_MISSING, cb_offset_data = [],
        cb_value_data = [], cb_dict = None, cb_raw_dict = []\<rparr>)"

lemma missing_block_bytes: "missing_block_data multi = ok (cb_data (missing_column_block multi n))"
proof -
  have "missing_block_data True = ok (u32_le 9 @ constant_data 0 @ 1 # u64_le 0 @ [0])"
    "missing_block_data False = ok (constant_data FAST_FIELD_MISSING)" by code_simp+
  then show ?thesis by (cases multi) (simp_all add: missing_column_block_def)
qed

lemma missing_fields [simp]:
  "cb_num_docs (missing_column_block multi n) = n" "cb_raw_dict (missing_column_block multi n) = []"
  "cb_dict (missing_column_block multi n) = None" "keys_of (missing_column_block multi n) = []"
  by (simp_all add: missing_column_block_def keys_of_def)

lemma missing_stored:
  assumes "n < 2 ^ 32"
  shows "stored multi ct (missing_column_block multi n)"
proof -
  have "offsets_ok (constant_data 0) n (replicate (n + 1) 0)"
    by (auto simp: offsets_ok_def constant_data_reads nth_append simp flip: replicate_Suc replicate_append_same)
  moreover have "validate_auto (1 # u64_le 0 @ [0]) 0 = Inr ()"
    by (simp add: validate_auto_def codec_from_u8_def packed_len_def usize_fits_def nth_append)
  moreover have "replicate (n + 1) 0 ! n = (0 :: nat)" by (rule nth_replicate) simp
  ultimately have "\<exists>offs. offsets_ok (constant_data 0) n offs \<and> validate_auto (1 # u64_le 0 @ [0]) (offs ! n) = Inr ()" by metis
  then show ?thesis using assms
    by (cases multi) (simp_all add: stored_def block_ok_def parts_ok_def block_dict_ok_def missing_column_block_def constant_data_reads le_u32_here)
qed

lemma missing_raws: "block_raws multi (missing_column_block multi n) i = (if multi then [] else [FAST_FIELD_MISSING])"
  by (simp add: block_raws_def missing_column_block_def constant_data_reads read_as_u32_def)

section \<open>Merging one column\<close>

definition segment_blocks :: "bool \<Rightarrow> nat \<Rightarrow> merge_segment \<Rightarrow> column_block list" where
  "segment_blocks multi field_id segment =
     (case map_of (ms_fast_fields segment) field_id of
        Some reader \<Rightarrow> fr_blocks reader
      | None \<Rightarrow> if ms_num_docs segment > 0 then [missing_column_block multi (ms_num_docs segment)] else [])"

text \<open>A segment whose column for the field, if it has one, was opened and covers its documents.\<close>

definition segment_ok :: "bool \<Rightarrow> fast_field_column_type \<Rightarrow> nat \<Rightarrow> merge_segment \<Rightarrow> bool" where
  "segment_ok multi ct field_id segment \<longleftrightarrow> ms_num_docs segment < 2 ^ 32 \<and>
     (case map_of (ms_fast_fields segment) field_id of
        None \<Rightarrow> True
      | Some r \<Rightarrow> (\<exists>file toc. reader_open file toc = Some (Inr r)) \<and> fr_column_type r = ct \<and> fr_multi r = multi \<and>
          fr_num_docs r = ms_num_docs segment)"

lemma block_docs_le: "b \<in> set bs \<Longrightarrow> cb_num_docs b \<le> sum_list (map cb_num_docs bs)"
  by (simp add: member_le_sum_list)

lemma segment_blocks_ok:
  assumes "segment_ok multi ct f s"
  shows "\<forall>b \<in> set (segment_blocks multi f s). stored multi ct b" "sum_list (map cb_num_docs (segment_blocks multi f s)) = ms_num_docs s"
proof -
  have "(\<forall>b \<in> set (segment_blocks multi f s). stored multi ct b) \<and>
      sum_list (map cb_num_docs (segment_blocks multi f s)) = ms_num_docs s"
  proof (cases "map_of (ms_fast_fields s) f")
    case None
    then show ?thesis using assms missing_stored by (simp add: segment_blocks_def segment_ok_def)
  next
    case (Some r)
    then obtain fl toc where r: "reader_open fl toc = Some (Inr r)" "fr_column_type r = ct" "fr_multi r = multi"
        "fr_num_docs r = ms_num_docs s" "ms_num_docs s < 2 ^ 32" using assms by (auto simp: segment_ok_def)
    have n: "fr_num_docs r = sum_list (map cb_num_docs (fr_blocks r))" using reader_open_wf [OF r(1)] by (simp add: reader_wf_def)
    then have "\<forall>b \<in> set (fr_blocks r). stored multi ct b"
      using reader_open_wf [OF r(1)] r(2-5) block_docs_le [of _ "fr_blocks r"]
      by (fastforce simp: reader_wf_def stored_def)
    then show ?thesis using n r(4) Some by (simp add: segment_blocks_def)
  qed
  then show "\<forall>b \<in> set (segment_blocks multi f s). stored multi ct b" "sum_list (map cb_num_docs (segment_blocks multi f s)) = ms_num_docs s"
    by simp_all
qed

text \<open>The bytes of each source are those of the block it stands for.\<close>

lemma segment_sources_bytes:
  assumes s: "segment_ok multi ct f s" and m: "list_ex is_missing (segment_sources f s) \<Longrightarrow> ok missing = missing_block_data multi"
  shows "map (source_entry missing) (segment_sources f s) = map block_entry (segment_blocks multi f s)"
    "map (source_bytes missing) (segment_sources f s) = map (\<lambda>b. cb_data b @ cb_raw_dict b) (segment_blocks multi f s)"
proof -
  have raw: "source_entry missing (raw_block b) = block_entry b" if "stored multi ct b" for b
  proof -
    have dk: "block_dict_ok ct b" using that by (simp add: stored_def)
    show ?thesis using block_dict_get(2) [OF dk] by (auto simp: source_entry_def raw_block_def block_entry_def keys_of_def split: option.split)
  qed
  have md: "missing = cb_data (missing_column_block multi n)" if "map_of (ms_fast_fields s) f = None" "ms_num_docs s > 0" for n
    using m that missing_block_bytes [of multi n] by (simp add: segment_sources_def is_missing_def ok_def)
  show "map (source_entry missing) (segment_sources f s) = map block_entry (segment_blocks multi f s)"
    using raw segment_blocks_ok(1) [OF s] md
    by (auto simp: segment_sources_def segment_blocks_def source_entry_def [of _ "MissingBlock _"] block_entry_def [of "missing_column_block _ _"] split: option.splits)
  show "map (source_bytes missing) (segment_sources f s) = map (\<lambda>b. cb_data b @ cb_raw_dict b) (segment_blocks multi f s)"
    using md by (auto simp: segment_sources_def segment_blocks_def source_bytes_def raw_block_def split: option.splits)
qed

lemma merged_column_bytes:
  assumes s: "\<forall>s \<in> set segments. segment_ok multi ct f s"
    and n: "length (concat (map (segment_blocks multi f) segments)) < 2 ^ 32"
  shows "write_merged_column multi (source_blocks f segments) =
    ok (column_bytes (concat (map (segment_blocks multi f) segments)), length (column_bytes (concat (map (segment_blocks multi f) segments))))"
proof -
  define missing where "missing = (if list_ex is_missing (source_blocks f segments) then cb_data (missing_column_block multi 0) else [])"
  have md: "(if list_ex is_missing (source_blocks f segments) then missing_block_data multi else ok []) = ok missing"
    using missing_block_bytes [of multi 0] by (simp add: missing_def)
  have each: "list_ex is_missing (segment_sources f s) \<Longrightarrow> ok missing = missing_block_data multi" if "s \<in> set segments" for s
    using md that by (auto simp: source_blocks_def list_ex_iff split: if_splits)
  let ?bs = "concat (map (segment_blocks multi f) segments)"
  have e: "map (source_entry missing) (source_blocks f segments) = map block_entry ?bs"
    "map (source_bytes missing) (source_blocks f segments) = map (\<lambda>b. cb_data b @ cb_raw_dict b) ?bs"
  proof -
    have "map (source_entry missing) (segment_sources f s) = map block_entry (segment_blocks multi f s)"
      "map (source_bytes missing) (segment_sources f s) = map (\<lambda>b. cb_data b @ cb_raw_dict b) (segment_blocks multi f s)"
      if "s \<in> set segments" for s
      by (rule segment_sources_bytes [of multi ct]; use s each that in blast)+
    then show "map (source_entry missing) (source_blocks f segments) = map block_entry ?bs"
      "map (source_bytes missing) (source_blocks f segments) = map (\<lambda>b. cb_data b @ cb_raw_dict b) ?bs"
      by (auto simp: source_blocks_def map_concat intro!: arg_cong [of _ _ concat])
  qed
  have l: "length (source_blocks f segments) = length ?bs" using arg_cong [OF e(1), of length] by simp
  have "concat (map (block_index_write_to \<circ> source_entry missing) (source_blocks f segments)) = concat (map (block_index_write_to \<circ> block_entry) ?bs)"
    using arg_cong [OF e(1), of "map block_index_write_to"] by (simp add: o_def)
  moreover have "sum_list (map (length \<circ> source_bytes missing) (source_blocks f segments)) = sum_list (map (\<lambda>b. length (cb_data b) + length (cb_raw_dict b)) ?bs)"
    using arg_cong [OF e(2), of "map length"] by (simp add: o_def)
  ultimately show ?thesis using n unfolding write_merged_column_def md
    by (simp add: l e(2) Let_def column_bytes_def [symmetric] length_column_bytes BLOCK_INDEX_ENTRY_SIZE_def mult.commute)
qed

text \<open>What a document of a stacked block reads in the merged column.\<close>

lemma stacked_doc:
  assumes wf: "reader_wf r" "fr_blocks r = rebase 0 (xs @ bs @ ys)" and b: "bi < length bs" "local < cb_num_docs (bs ! bi)"
  defines "doc \<equiv> sum_list (map cb_num_docs xs) + sum_list (map cb_num_docs (take bi bs)) + local"
  shows "get_text r doc = Some (text_of (keys_of (bs ! bi)) (block_raws (fr_multi r) (bs ! bi) local))"
    "fr_column_type r \<noteq> ColTextOrdinal \<Longrightarrow> get_u64 r doc = Some (first_value (block_raws (fr_multi r) (bs ! bi) local))"
    "fr_column_type r \<noteq> ColTextOrdinal \<Longrightarrow> fr_multi r \<Longrightarrow> get_multi_values r doc = Some (block_raws True (bs ! bi) local)"
proof -
  let ?k = "length xs + bi"
  have blk: "fr_blocks r ! ?k = (bs ! bi)\<lparr>cb_cumulative_docs := sum_list (map cb_num_docs xs) + sum_list (map cb_num_docs (take bi bs))\<rparr>"
    using b(1) by (simp add: wf(2) nth_rebase nth_append)
  have k: "?k < length (fr_blocks r)" "local < cb_num_docs (fr_blocks r ! ?k)" using b unfolding blk by (simp_all add: wf(2))
  have doc: "cb_cumulative_docs (fr_blocks r ! ?k) + local = doc" by (simp add: blk doc_def)
  show "get_text r doc = Some (text_of (keys_of (bs ! bi)) (block_raws (fr_multi r) (bs ! bi) local))"
    using doc_reads(2) [OF wf(1) k] unfolding doc by (simp add: blk)
  have id: "map (remap_value (column_maps r ! ?k)) vs = vs" if "fr_column_type r \<noteq> ColTextOrdinal" for vs
    using that k(1) by (simp add: column_maps_def remap_value_def map_idI)
  show "get_u64 r doc = Some (first_value (block_raws (fr_multi r) (bs ! bi) local))" if "fr_column_type r \<noteq> ColTextOrdinal"
    using doc_reads(1) [OF wf(1) k] id [OF that] unfolding doc by (simp add: blk)
  show "get_multi_values r doc = Some (block_raws True (bs ! bi) local)" if "fr_column_type r \<noteq> ColTextOrdinal" "fr_multi r"
    using multi_doc_reads(1) [OF wf(1) that(2) k] id [OF that(1)] unfolding doc by (simp add: blk)
qed

text \<open>A reader reads its own blocks in the same way.\<close>

lemma rebase_own: "chained bs \<Longrightarrow> rebase 0 bs = bs"
  by (rule nth_equalityI) (simp_all add: nth_rebase chained_def)

lemma source_doc:
  assumes s: "segment_ok multi ct f s" and d: "d < ms_num_docs s"
  defines "bs \<equiv> segment_blocks multi f s" and "source \<equiv> map_of (ms_fast_fields s) f"
  shows "\<exists>bi local. bi < length bs \<and> local < cb_num_docs (bs ! bi) \<and> d = sum_list (map cb_num_docs (take bi bs)) + local \<and>
    (case source of Some src \<Rightarrow> get_text src d | None \<Rightarrow> Some None) = Some (text_of (keys_of (bs ! bi)) (block_raws multi (bs ! bi) local)) \<and>
    (ct \<noteq> ColTextOrdinal \<longrightarrow>
      (case source of Some src \<Rightarrow> get_u64 src d | None \<Rightarrow> Some FAST_FIELD_MISSING) = Some (first_value (block_raws multi (bs ! bi) local)) \<and>
      (multi \<longrightarrow> (case source of Some src \<Rightarrow> get_multi_values src d | None \<Rightarrow> Some []) = Some (block_raws True (bs ! bi) local)))"
proof (cases source)
  case None
  then have "bs = [missing_column_block multi (ms_num_docs s)]" using d by (simp add: bs_def source_def segment_blocks_def)
  then show ?thesis using None d missing_raws [of multi] by (auto simp: text_of_def first_value_def)
next
  case (Some r)
  then obtain fl toc where r: "reader_open fl toc = Some (Inr r)" "fr_column_type r = ct" "fr_multi r = multi" "fr_num_docs r = ms_num_docs s"
    using s by (auto simp: segment_ok_def source_def)
  note wf = reader_open_wf [OF r(1)]
  have bs: "fr_blocks r = bs" using Some by (simp add: bs_def source_def segment_blocks_def)
  have ch: "chained bs" using wf by (simp add: reader_wf_def bs)
  obtain bi local where b: "bi < length bs" "local < cb_num_docs (bs ! bi)" "d = cb_cumulative_docs (bs ! bi) + local"
    using wf_find_block [OF wf, of d] d r(4) unfolding bs by auto
  have dd: "d = sum_list (map cb_num_docs (take bi bs)) + local" using b(1,3) ch by (simp add: chained_def)
  have rb: "fr_blocks r = rebase 0 ([] @ bs @ [])" using rebase_own [OF ch] bs by simp
  show ?thesis using b(1,2) dd Some stacked_doc [OF wf rb b(1,2)] r(2,3)
    by (intro exI [of _ bi] exI [of _ local]) simp
qed

lemma concat_split_at: "k < length xss \<Longrightarrow> concat xss = concat (take k xss) @ (xss ! k) @ concat (drop (Suc k) xss)"
  by (metis append_take_drop_id concat.simps(2) concat_append Cons_nth_drop_Suc)

lemma stacked_docs:
  assumes "\<forall>s \<in> set segments. segment_ok multi ct f s"
  shows "sum_list (map cb_num_docs (concat (map (segment_blocks multi f) segments))) = sum_list (map ms_num_docs segments)"
  using assms segment_blocks_ok(2) by (induction segments) auto

text \<open>A column reads as its sources: every document of every segment, at its number in the
  merged segment, has the text, the number and the list of numbers it has in its source.\<close>

definition reads_as_sources :: "bool \<Rightarrow> fast_field_column_type \<Rightarrow> nat \<Rightarrow> merge_segment list \<Rightarrow> fast_field_reader \<Rightarrow> bool" where
  "reads_as_sources multi ct f segments r \<longleftrightarrow>
     (\<forall>k < length segments. \<forall>d < ms_num_docs (segments ! k).
        let doc = sum_list (map ms_num_docs (take k segments)) + d; source = map_of (ms_fast_fields (segments ! k)) f
        in get_text r doc = (case source of Some src \<Rightarrow> get_text src d | None \<Rightarrow> Some None) \<and>
           (ct \<noteq> ColTextOrdinal \<longrightarrow>
              get_u64 r doc = (case source of Some src \<Rightarrow> get_u64 src d | None \<Rightarrow> Some FAST_FIELD_MISSING) \<and>
              (multi \<longrightarrow> get_multi_values r doc = (case source of Some src \<Rightarrow> get_multi_values src d | None \<Rightarrow> Some []))))"

lemma merged_doc:
  assumes segs: "\<forall>s \<in> set segments. segment_ok multi ct f s" and k: "k < length segments" "d < ms_num_docs (segments ! k)"
    and r: "reader_wf r" "fr_blocks r = rebase 0 (concat (map (segment_blocks multi f) segments))" "fr_multi r = multi" "fr_column_type r = ct"
  defines "doc \<equiv> sum_list (map ms_num_docs (take k segments)) + d" and "source \<equiv> map_of (ms_fast_fields (segments ! k)) f"
  shows "get_text r doc = (case source of Some src \<Rightarrow> get_text src d | None \<Rightarrow> Some None) \<and>
    (ct \<noteq> ColTextOrdinal \<longrightarrow>
      get_u64 r doc = (case source of Some src \<Rightarrow> get_u64 src d | None \<Rightarrow> Some FAST_FIELD_MISSING) \<and>
      (multi \<longrightarrow> get_multi_values r doc = (case source of Some src \<Rightarrow> get_multi_values src d | None \<Rightarrow> Some [])))"
proof -
  let ?sb = "segment_blocks multi f"
  have sk: "segment_ok multi ct f (segments ! k)" using segs k(1) by simp
  have split: "concat (map ?sb segments) = concat (map ?sb (take k segments)) @ ?sb (segments ! k) @ concat (map ?sb (drop (Suc k) segments))"
    using concat_split_at [of k "map ?sb segments"] k(1) by (simp add: take_map drop_map)
  have base: "sum_list (map cb_num_docs (concat (map ?sb (take k segments)))) = sum_list (map ms_num_docs (take k segments))"
    using segs by (intro stacked_docs) (auto dest: in_set_takeD)
  obtain bi local where b: "bi < length (?sb (segments ! k))" "local < cb_num_docs (?sb (segments ! k) ! bi)"
      "d = sum_list (map cb_num_docs (take bi (?sb (segments ! k)))) + local"
      "(case source of Some src \<Rightarrow> get_text src d | None \<Rightarrow> Some None) =
        Some (text_of (keys_of (?sb (segments ! k) ! bi)) (block_raws multi (?sb (segments ! k) ! bi) local))"
      "ct \<noteq> ColTextOrdinal \<longrightarrow>
      (case source of Some src \<Rightarrow> get_u64 src d | None \<Rightarrow> Some FAST_FIELD_MISSING) = Some (first_value (block_raws multi (?sb (segments ! k) ! bi) local)) \<and>
      (multi \<longrightarrow> (case source of Some src \<Rightarrow> get_multi_values src d | None \<Rightarrow> Some []) = Some (block_raws True (?sb (segments ! k) ! bi) local))"
    using source_doc [OF sk k(2)] unfolding source_def by blast
  have doc: "doc = sum_list (map cb_num_docs (concat (map ?sb (take k segments)))) +
      sum_list (map cb_num_docs (take bi (?sb (segments ! k)))) + local"
    using base b(3) by (simp add: doc_def)
  note st = stacked_doc [OF r(1) r(2) [unfolded split] b(1,2), folded doc]
  show ?thesis using st b(4,5) r(3,4) by simp
qed

lemma merged_reads:
  assumes "\<forall>s \<in> set segments. segment_ok multi ct f s" "reader_wf r"
    "fr_blocks r = rebase 0 (concat (map (segment_blocks multi f) segments))" "fr_multi r = multi" "fr_column_type r = ct"
  shows "reads_as_sources multi ct f segments r"
  unfolding reads_as_sources_def Let_def using merged_doc [OF assms(1) _ _ assms(2-5)] by blast

lemma merged_opens:
  assumes segs: "\<forall>s \<in> set segments. segment_ok multi ct f s" and docs: "sum_list (map ms_num_docs segments) < 2 ^ 32"
    and small: "length (concat (map (segment_blocks multi f) segments)) < 2 ^ 28" "length pre + length post < 2 ^ 60"
  defines "bs \<equiv> concat (map (segment_blocks multi f) segments)"
  assumes toc: "toc_column_type toc = ct" "toc_multi toc = multi" "toc_data_offset toc = word_of_nat (length pre)"
    "toc_data_len toc = word_of_nat (length (column_bytes bs))" "toc_num_docs toc = word_of_nat (sum_list (map ms_num_docs segments))"
  shows "\<exists>r. reader_open (pre @ column_bytes bs @ post) toc = Some (Inr r) \<and> fr_column_type r = ct \<and> fr_multi r = multi \<and>
    fr_num_docs r = sum_list (map ms_num_docs segments) \<and> fr_blocks r = rebase 0 bs"
proof -
  have st: "\<forall>b \<in> set bs. stored multi ct b" using segs segment_blocks_ok(1) by (auto simp: bs_def)
  have "length (cb_data b) + length (cb_raw_dict b) \<le> 2 ^ 33" if "b \<in> set bs" for b
    using st that block_dict_keys(2,4) [of ct b] by (fastforce simp: stored_def block_ok_def)
  then have "sum_list (map (\<lambda>b. length (cb_data b) + length (cb_raw_dict b)) bs) \<le> length bs * 2 ^ 33"
    using sum_list_mono [of bs "\<lambda>b. length (cb_data b) + length (cb_raw_dict b)" "\<lambda>_. 2 ^ 33"] by (simp add: sum_list_triv)
  then have len: "length (column_bytes bs) < 2 ^ 62" using small(1) length_column_bytes [of bs] by (simp add: bs_def)
  have u: "unat (word_of_nat (length (column_bytes bs)) :: u64) = length (column_bytes bs)" "unat (word_of_nat (length pre) :: u64) = length pre"
      "unat (word_of_nat (sum_list (map ms_num_docs segments)) :: u32) = sum_list (map ms_num_docs segments)"
    using len small(2) docs by (simp_all add: unat_of_nat)
  have n: "sum_list (map cb_num_docs bs) = sum_list (map ms_num_docs segments)" using stacked_docs [OF segs] by (simp add: bs_def)
  show ?thesis
    using reader_open_stored [of "pre @ column_bytes bs @ post" pre "rebase 0 bs" post toc]
      rebase_stored [OF st, of 0] chained_rebase [of bs] n small len docs toc u
    by (simp add: column_bytes_rebase bs_def [symmetric])
qed

text \<open>Two segments for the examples: three documents without the column, and the text column of
  two documents.\<close>

definition two_segments :: "fast_field_reader \<Rightarrow> merge_segment list" where
  "two_segments src = [\<lparr>ms_num_docs = 3, ms_fast_fields = [], ms_row_stats = []\<rparr>,
     \<lparr>ms_num_docs = 2, ms_fast_fields = [(0, src)], ms_row_stats = []\<rparr>]"

lemma two_segments_ok:
  assumes "reader_open (column_bytes two_texts) two_texts_toc = Some (Inr src)"
  shows "\<forall>s \<in> set (two_segments src). segment_ok False ColTextOrdinal 0 s" "sum_list (map ms_num_docs (two_segments src)) = 5"
    "concat (map (segment_blocks False 0) (two_segments src)) = missing_column_block False 3 # two_texts"
  using assms two_texts_reads [OF assms] by (auto simp: two_segments_def segment_ok_def segment_blocks_def)

text \<open>
  C1. Merging a column: the stacked bytes of any number of segments, wherever they stand in
  the merged file, open again, and every document of every source segment, at its
  document number in the merged segment, reads the same text, the same number and
  the same list of numbers as in its source. A document of a segment without the
  column reads as missing.
\<close>

theorem merged_column_preserves_documents:
  assumes segs: "\<forall>s \<in> set segments. segment_ok multi ct f s"
    and docs: "sum_list (map ms_num_docs segments) < 2 ^ 32"
    and small: "length (concat (map (segment_blocks multi f) segments)) < 2 ^ 28" "length pre + length post < 2 ^ 60"
  shows "\<exists>column len r. write_merged_column multi (source_blocks f segments) = Some (Inr (column, len)) \<and>
    reader_open (pre @ column @ post) (block_toc ct multi (word_of_nat (length pre)) len (sum_list (map ms_num_docs segments))) = Some (Inr r) \<and>
    fr_num_docs r = sum_list (map ms_num_docs segments) \<and> reads_as_sources multi ct f segments r"
proof -
  let ?bs = "concat (map (segment_blocks multi f) segments)"
  have lt: "length ?bs < 2 ^ 32" using small(1) by simp
  obtain r where r: "reader_open (pre @ column_bytes ?bs @ post)
        (block_toc ct multi (word_of_nat (length pre)) (length (column_bytes ?bs)) (sum_list (map ms_num_docs segments))) = Some (Inr r)"
      "fr_column_type r = ct" "fr_multi r = multi" "fr_num_docs r = sum_list (map ms_num_docs segments)" "fr_blocks r = rebase 0 ?bs"
    using merged_opens [OF segs docs small, of "block_toc ct multi (word_of_nat (length pre)) (length (column_bytes ?bs))
        (sum_list (map ms_num_docs segments))"] by (auto simp: block_toc_def)
  have "reads_as_sources multi ct f segments r" by (rule merged_reads [OF segs reader_open_wf [OF r(1)] r(5,3,2)])
  then show ?thesis using merged_column_bytes [OF segs lt] r(1,4) by (auto simp: ok_def)
qed

theorem merged_column_preserves_documents_witness:
  "\<exists>src column len r. reader_open (column_bytes two_texts) two_texts_toc = Some (Inr src) \<and>
    write_merged_column False (source_blocks 0 (two_segments src)) = Some (Inr (column, len)) \<and>
    reader_open ([] @ column @ []) (block_toc ColTextOrdinal False 0 len 5) = Some (Inr r) \<and>
    get_text r 0 = Some None \<and> get_text r 3 = Some (Some [98]) \<and> get_text r 4 = Some (Some [97])"
proof -
  obtain src where src: "reader_open (column_bytes two_texts) two_texts_toc = Some (Inr src)" using two_texts_open by blast
  note rd = two_texts_reads [OF src]
  define segments where "segments = two_segments src"
  note ok = two_segments_ok [OF src, folded segments_def]
  have n: "sum_list (map ms_num_docs segments) = 5" using ok(2) by simp
  then have docs: "sum_list (map ms_num_docs segments) < 2 ^ 32" by simp
  have small: "length (concat (map (segment_blocks False 0) segments)) < 2 ^ 28" "length [] + length [] < (2 :: nat) ^ 60"
    using ok(3) by (simp_all add: two_texts_def)
  obtain column len r where m: "write_merged_column False (source_blocks 0 segments) = Some (Inr (column, len))"
      "reader_open ([] @ column @ []) (block_toc ColTextOrdinal False 0 len 5) = Some (Inr r)"
      "reads_as_sources False ColTextOrdinal 0 segments r"
    using merged_column_preserves_documents [OF ok(1) docs small] unfolding n by auto
  have doc: "get_text r (sum_list (map ms_num_docs (take k segments)) + d) =
      (case map_of (ms_fast_fields (segments ! k)) 0 of Some src \<Rightarrow> get_text src d | None \<Rightarrow> Some None)"
    if "k < length segments" "d < ms_num_docs (segments ! k)" for k d
    using m(3) that unfolding reads_as_sources_def Let_def by blast
  have "get_text r 0 = Some None" "get_text r 3 = Some (Some [98])" "get_text r 4 = Some (Some [97])"
    using doc [of 0 0] doc [of 1 0] doc [of 1 1] rd(5,6) by (simp_all add: segments_def two_segments_def)
  then show ?thesis using src m(1,2) unfolding segments_def by blast
qed

section \<open>The merged file\<close>

definition merged_column :: "merge_segment list \<Rightarrow> nat \<times> field_entry \<Rightarrow> bytes" where
  "merged_column segments field = column_bytes (concat (map (segment_blocks (fe_multi (snd field)) (fst field)) segments))"

definition merged_toc :: "merge_segment list \<Rightarrow> nat \<Rightarrow> nat \<times> field_entry \<Rightarrow> fast_field_toc_entry" where
  "merged_toc segments off field = \<lparr>toc_field_id = word_of_nat (fst field),
     toc_column_type = the (column_type_of (fe_field_type (snd field))), toc_multi = fe_multi (snd field),
     toc_data_offset = word_of_nat off, toc_data_len = word_of_nat (length (merged_column segments field)),
     toc_num_docs = word_of_nat (sum_list (map ms_num_docs segments)), toc_dict_offset = 0, toc_dict_count = 0\<rparr>"

primrec merged_tocs :: "merge_segment list \<Rightarrow> nat \<Rightarrow> (nat \<times> field_entry) list \<Rightarrow> fast_field_toc_entry list" where
  "merged_tocs segments off [] = []"
| "merged_tocs segments off (field # cols) =
     merged_toc segments off field # merged_tocs segments (off + length (merged_column segments field)) cols"

text \<open>Every segment has an opened column of the field's type, or none, for each fast field.\<close>

definition mergeable :: "merge_segment list \<Rightarrow> nat \<times> field_entry \<Rightarrow> bool" where
  "mergeable segments field \<longleftrightarrow> (\<exists>ct. column_type_of (fe_field_type (snd field)) = Some ct \<and>
     (\<forall>s \<in> set segments. segment_ok (fe_multi (snd field)) ct (fst field) s)) \<and>
     length (concat (map (segment_blocks (fe_multi (snd field)) (fst field)) segments)) < 2 ^ 28"

lemma merge_columns_result:
  assumes "\<forall>field \<in> set cols. mergeable segments field" "\<forall>i. \<not> cancelled i"
  shows "merge_columns cancelled segments cols k out (length out) toc =
    Some (Inr (out @ concat (map (merged_column segments) cols), length (out @ concat (map (merged_column segments) cols)),
      toc @ merged_tocs segments (length out) cols))"
  using assms(1)
proof (induction cols arbitrary: k out toc)
  case (Cons field cols)
  obtain ct where ct: "column_type_of (fe_field_type (snd field)) = Some ct" "\<forall>s \<in> set segments. segment_ok (fe_multi (snd field)) ct (fst field) s"
      "length (concat (map (segment_blocks (fe_multi (snd field)) (fst field)) segments)) < 2 ^ 32"
    using Cons.prems by (auto simp: mergeable_def)
  have w: "merge_io (write_merged_column (fe_multi (snd field)) (source_blocks (fst field) segments)) =
      Some (Inr (merged_column segments field, length (merged_column segments field)))"
    unfolding merged_column_bytes [OF ct(2,3)] by (simp add: merge_io_def ok_def merged_column_def)
  show ?case using Cons.IH [of "k + 1" "out @ merged_column segments field" "toc @ [merged_toc segments (length out) field]"]
      Cons.prems assms(2) ct(1) by (simp add: w merged_toc_def)
qed simp

lemma length_merged_tocs [simp]: "length (merged_tocs segments off cols) = length cols"
  by (induction cols arbitrary: off) auto

lemma nth_merged_tocs:
  "i < length cols \<Longrightarrow> merged_tocs segments off cols ! i =
     merged_toc segments (off + length (concat (map (merged_column segments) (take i cols)))) (cols ! i)"
proof (induction cols arbitrary: off i)
  case (Cons field cols)
  then show ?case by (cases i) (simp_all add: add.assoc)
qed simp

text \<open>
  C2. The merged \<open>.fast\<close> file of mergeable segments reads back as a whole: the footer leads to a
  table of contents with one entry per fast field in field order, every entry opens,
  and the opened column has the documents of all segments, each reading as in its source.
\<close>

theorem merged_file_reads_back:
  assumes fields: "fast_fields_of schema = cols" "cols \<noteq> []" "\<forall>field \<in> set cols. mergeable segments field" "length cols < 2 ^ 32"
    and "list_ex (\<lambda>s. ms_fast_fields s \<noteq> []) segments" "\<forall>i. \<not> cancelled i" "sum_list (map ms_num_docs segments) < 2 ^ 32"
    and "length (concat (map (merged_column segments) cols)) < 2 ^ 59"
  shows "\<exists>file off n toc. merge_fast_fields cancelled schema segments = Some (Inr (Some file)) \<and>
    read_fast_field_footer file = Inr (off, n) \<and> read_fast_field_toc file off n = Some (Inr toc) \<and> length toc = length cols \<and>
    (\<forall>i < length cols. toc_field_id (toc ! i) = word_of_nat (fst (cols ! i)) \<and>
      (\<exists>r. reader_open file (toc ! i) = Some (Inr r) \<and> fr_num_docs r = sum_list (map ms_num_docs segments) \<and>
        reads_as_sources (fe_multi (snd (cols ! i))) (toc_column_type (toc ! i)) (fst (cols ! i)) segments r))"
proof -
  define out toc where "out = concat (map (merged_column segments) cols)" and "toc = merged_tocs segments 0 cols"
  define fl where "fl = out @ write_fast_field_toc_and_footer (word_of_nat (length out)) toc"
  have lo: "length out < 2 ^ 59" "unat (word_of_nat (length out) :: u64) = length out" using assms(8) by (simp_all add: out_def unat_of_nat)
  have m: "merge_fast_fields cancelled schema segments = Some (Inr (Some fl))"
    using fields(1,2) assms(5) merge_columns_result [OF fields(3) assms(6), of 0 "[]" "[]"]
    by (simp add: merge_fast_fields_def fl_def out_def toc_def)
  have ft: "read_fast_field_footer fl = Inr (word_of_nat (length out), word_of_nat (length toc))"
      "read_fast_field_toc fl (word_of_nat (length out)) (word_of_nat (length toc)) = Some (Inr toc)"
    using toc_footer_reads [of "word_of_nat (length out)" out toc] lo fields(4) by (simp_all add: fl_def toc_def)
  have lt: "length (write_fast_field_toc_and_footer (word_of_nat (length out)) toc) < 2 ^ 59"
    using fields(4) by (simp add: write_fast_field_toc_and_footer_def toc_def length_concat sum_list_triv o_def FAST_FIELD_TOC_ENTRY_SIZE_def)
  have "toc_field_id (toc ! i) = word_of_nat (fst (cols ! i)) \<and>
      (\<exists>r. reader_open fl (toc ! i) = Some (Inr r) \<and> fr_num_docs r = sum_list (map ms_num_docs segments) \<and>
        reads_as_sources (fe_multi (snd (cols ! i))) (toc_column_type (toc ! i)) (fst (cols ! i)) segments r)"
    if i: "i < length cols" for i
  proof -
    define pre where "pre = concat (map (merged_column segments) (take i cols))"
    define post where "post = concat (map (merged_column segments) (drop (Suc i) cols)) @ write_fast_field_toc_and_footer (word_of_nat (length out)) toc"
    have f: "fl = pre @ merged_column segments (cols ! i) @ post"
      using concat_split_at [of i "map (merged_column segments) cols"] i by (simp add: fl_def out_def pre_def post_def take_map drop_map)
    have t: "toc ! i = merged_toc segments (length pre) (cols ! i)" using nth_merged_tocs [OF i, of segments 0] by (simp add: toc_def pre_def)
    have "length pre + length post < 2 ^ 60" using arg_cong [OF f, of length] lo(1) lt by (simp add: fl_def)
    obtain ct where ct: "column_type_of (fe_field_type (snd (cols ! i))) = Some ct"
        "\<forall>s \<in> set segments. segment_ok (fe_multi (snd (cols ! i))) ct (fst (cols ! i)) s"
        "length (concat (map (segment_blocks (fe_multi (snd (cols ! i))) (fst (cols ! i))) segments)) < 2 ^ 28"
      using fields(3) i nth_mem [OF i] unfolding mergeable_def by blast
    obtain r where r: "reader_open fl (toc ! i) = Some (Inr r)" "fr_column_type r = ct" "fr_multi r = fe_multi (snd (cols ! i))"
        "fr_num_docs r = sum_list (map ms_num_docs segments)"
        "fr_blocks r = rebase 0 (concat (map (segment_blocks (fe_multi (snd (cols ! i))) (fst (cols ! i))) segments))"
      using merged_opens [OF ct(2) assms(7) ct(3) \<open>length pre + length post < 2 ^ 60\<close>, of "toc ! i"] ct(1)
      by (auto simp: t merged_toc_def f merged_column_def)
    show ?thesis using merged_reads [OF ct(2) reader_open_wf [OF r(1)] r(5,3,2)] r(1,4) ct(1) by (auto simp: t merged_toc_def)
  qed
  then show ?thesis using m ft by (auto simp: toc_def)
qed

theorem merged_file_reads_back_witness:
  "\<exists>src fl off n toc r. reader_open (column_bytes two_texts) two_texts_toc = Some (Inr src) \<and>
    merge_fast_fields (\<lambda>_. False) [(0, \<lparr>fe_field_type = FText, fe_multi = False, fe_fast = True\<rparr>)] (two_segments src) = Some (Inr (Some fl)) \<and>
    read_fast_field_footer fl = Inr (off, n) \<and> read_fast_field_toc fl off n = Some (Inr [toc]) \<and>
    reader_open fl toc = Some (Inr r) \<and> fr_num_docs r = 5"
proof -
  obtain src where src: "reader_open (column_bytes two_texts) two_texts_toc = Some (Inr src)" using two_texts_open by blast
  note ok = two_segments_ok [OF src]
  let ?col = "(0, \<lparr>fe_field_type = FText, fe_multi = False, fe_fast = True\<rparr>) :: nat \<times> field_entry"
  have cols: "fast_fields_of [?col] = [?col]" by (simp add: fast_fields_of_def column_type_of_def)
  have m: "\<forall>field \<in> set [?col]. mergeable (two_segments src) field"
    using ok(1) by (simp add: mergeable_def column_type_of_def ok(3) two_texts_def)
  have l: "length (concat (map (merged_column (two_segments src)) [?col])) < 2 ^ 59"
    by (simp add: merged_column_def ok(3) length_column_bytes two_texts_def missing_column_block_def constant_data_reads)
  have ne: "list_ex (\<lambda>s. ms_fast_fields s \<noteq> []) (two_segments src)" by (simp add: two_segments_def)
  have d: "sum_list (map ms_num_docs (two_segments src)) < 2 ^ 32" using ok(2) by simp
  obtain fl off n toc where f: "merge_fast_fields (\<lambda>_. False) [?col] (two_segments src) = Some (Inr (Some fl))"
      "read_fast_field_footer fl = Inr (off, n)" "read_fast_field_toc fl off n = Some (Inr toc)" "length toc = length [?col]"
      "\<exists>r. reader_open fl (toc ! 0) = Some (Inr r) \<and> fr_num_docs r = sum_list (map ms_num_docs (two_segments src))"
    using merged_file_reads_back [OF cols _ m _ ne _ d l, of "\<lambda>_. False"] by (auto simp: less_Suc_eq)
  then obtain e where "toc = [e]" by (cases toc) auto
  then show ?thesis using src f ok(2) by auto
qed

end
