(* ===== verification/SegmentTracker.thy ===== *)
theory SegmentTracker
  imports Summa_Prelude
begin

text \<open>
  Segment lifecycle (\<open>segment/tracker.rs\<close>) with segment identities (\<open>segment/types.rs\<close>):
  reference counts, deferred deletion, and the snapshots that hold references. The
  system around the tracker publishes segments, takes and drops snapshots, retires
  segments and completes deletions, in any order. In every reachable state no
  segment a snapshot holds has been handed out for deletion, and once the snapshots
  are dropped every retired segment has been handed out exactly once.
\<close>

section \<open>Segment identities\<close>

type_synonym segment_id = "128 word"

definition hex_digit :: "char \<Rightarrow> nat option" where
  "hex_digit c =
     (let n = of_char c
      in if 48 \<le> n \<and> n \<le> 57 then Some (n - 48)
         else if 97 \<le> n \<and> n \<le> 102 then Some (n - 87)
         else if 65 \<le> n \<and> n \<le> 70 then Some (n - 55) else None)"

primrec parse_hex :: "string \<Rightarrow> nat \<Rightarrow> nat option" where
  "parse_hex [] acc = Some acc"
| "parse_hex (c # cs) acc =
     (case hex_digit c of
        None \<Rightarrow> None
      | Some d \<Rightarrow> if acc * 16 + d < 2 ^ 128 then parse_hex cs (acc * 16 + d) else None)"

text \<open>\<open>u128::from_str_radix\<close> takes one leading plus sign and rejects the empty number.\<close>

definition from_hex :: "string \<Rightarrow> segment_id option" where
  "from_hex s =
     (let digits = (case s of c # cs \<Rightarrow> if c = CHR ''+'' then cs else s | [] \<Rightarrow> s)
      in if digits = [] then None else map_option word_of_nat (parse_hex digits 0))"

definition hex_char :: "nat \<Rightarrow> char" where
  "hex_char d = char_of (if d < 10 then 48 + d else 87 + d)"

primrec hex_digits :: "nat \<Rightarrow> nat \<Rightarrow> string" where
  "hex_digits 0 n = []"
| "hex_digits (Suc k) n = hex_digits k (n div 16) @ [hex_char (n mod 16)]"

definition to_hex :: "segment_id \<Rightarrow> string" where
  "to_hex x = hex_digits 32 (unat x)"

section \<open>The tracker\<close>

record tracker =
  ref_counts :: "string \<rightharpoonup> nat"
  pending_deletions :: "string \<rightharpoonup> segment_id"
  scheduled_deletions :: "string set"

definition tracker_new :: tracker where
  "tracker_new = \<lparr>ref_counts = Map.empty, pending_deletions = Map.empty, scheduled_deletions = {}\<rparr>"

definition register :: "tracker \<Rightarrow> string \<Rightarrow> tracker" where
  "register t s = (case ref_counts t s of None \<Rightarrow> t\<lparr>ref_counts := (ref_counts t)(s \<mapsto> 0)\<rparr> | Some _ \<Rightarrow> t)"

definition is_pending_deletion :: "tracker \<Rightarrow> string \<Rightarrow> bool" where
  "is_pending_deletion t s \<longleftrightarrow> pending_deletions t s \<noteq> None"

definition is_deletion_protected :: "tracker \<Rightarrow> string \<Rightarrow> bool" where
  "is_deletion_protected t s \<longleftrightarrow> pending_deletions t s \<noteq> None \<or> s \<in> scheduled_deletions t"

definition ref_count :: "tracker \<Rightarrow> string \<Rightarrow> nat" where
  "ref_count t s = (case ref_counts t s of Some c \<Rightarrow> c | None \<Rightarrow> 0)"

primrec acquire :: "tracker \<Rightarrow> string list \<Rightarrow> tracker \<times> string list" where
  "acquire t [] = (t, [])"
| "acquire t (s # ids) =
     (if pending_deletions t s \<noteq> None \<or> s \<in> scheduled_deletions t then acquire t ids
      else let (t', acquired) = acquire (t\<lparr>ref_counts := (ref_counts t)(s \<mapsto> ref_count t s + 1)\<rparr>) ids
           in (t', s # acquired))"

primrec release :: "tracker \<Rightarrow> string list \<Rightarrow> tracker \<times> segment_id list" where
  "release t [] = (t, [])"
| "release t (s # ids) =
     (case ref_counts t s of
        None \<Rightarrow> release t ids
      | Some count \<Rightarrow>
          let t1 = t\<lparr>ref_counts := (ref_counts t)(s \<mapsto> count - 1)\<rparr>
          in if count - 1 = 0
             then (case pending_deletions t1 s of
                     Some segment_id \<Rightarrow>
                       let (t', ready) = release (t1\<lparr>ref_counts := (ref_counts t1)(s := None),
                                                     pending_deletions := (pending_deletions t1)(s := None),
                                                     scheduled_deletions := insert s (scheduled_deletions t1)\<rparr>) ids
                       in (t', segment_id # ready)
                   | None \<Rightarrow> release t1 ids)
             else release t1 ids)"

primrec mark_for_deletion :: "tracker \<Rightarrow> string list \<Rightarrow> tracker \<times> segment_id list" where
  "mark_for_deletion t [] = (t, [])"
| "mark_for_deletion t (s # ids) =
     (case from_hex s of
        None \<Rightarrow> mark_for_deletion t ids
      | Some segment_id \<Rightarrow>
          (case ref_counts t s of
             None \<Rightarrow> mark_for_deletion t ids
           | Some ref \<Rightarrow>
               if ref = 0
               then let (t', ready) = mark_for_deletion (t\<lparr>ref_counts := (ref_counts t)(s := None),
                                                           scheduled_deletions := insert s (scheduled_deletions t)\<rparr>) ids
                    in (t', segment_id # ready)
               else mark_for_deletion (t\<lparr>pending_deletions := (pending_deletions t)(s \<mapsto> segment_id)\<rparr>) ids))"

definition complete_deletion :: "tracker \<Rightarrow> segment_id list \<Rightarrow> tracker" where
  "complete_deletion t ids = foldl (\<lambda>t x. t\<lparr>scheduled_deletions := scheduled_deletions t - {to_hex x}\<rparr>) t ids"

text \<open>The wait for the deletions scheduled at its start: the tracker states it finds each time it looks, on entry and
  after every notification. True once it has returned, false while it is still waiting.\<close>

fun wait_loop :: "string set \<Rightarrow> tracker list \<Rightarrow> bool" where
  "wait_loop scheduled [] \<longleftrightarrow> False"
| "wait_loop scheduled (t # ts) \<longleftrightarrow> scheduled_deletions t \<inter> scheduled = {} \<or> wait_loop scheduled ts"

definition wait_for_scheduled_deletions :: "tracker \<Rightarrow> tracker list \<Rightarrow> bool" where
  "wait_for_scheduled_deletions t seen \<longleftrightarrow> scheduled_deletions t = {} \<or> wait_loop (scheduled_deletions t) seen"

section \<open>Snapshots\<close>

record snapshot =
  ss_segment_ids :: "string list"
  ss_deletion_ids :: "string list"
  ss_delete_fn :: bool

definition snapshot_new :: "string list \<Rightarrow> snapshot" where
  "snapshot_new ids = \<lparr>ss_segment_ids = ids, ss_deletion_ids = [], ss_delete_fn = False\<rparr>"

definition with_delete_fn :: "string list \<Rightarrow> snapshot" where
  "with_delete_fn ids = \<lparr>ss_segment_ids = ids, ss_deletion_ids = [], ss_delete_fn = True\<rparr>"

definition with_deletions :: "tracker \<Rightarrow> snapshot \<Rightarrow> string list \<Rightarrow> tracker \<times> snapshot" where
  "with_deletions t ss deletion_ids =
     (let (t', acquired) = acquire t deletion_ids in (t', ss\<lparr>ss_deletion_ids := acquired\<rparr>))"

text \<open>Dropping a snapshot takes the tracker's lock twice, once per release. The second part gives
  the ids of both to the delete callback (none without one).\<close>

definition drop_segments :: "tracker \<Rightarrow> snapshot \<Rightarrow> tracker \<times> segment_id list" where
  "drop_segments t ss = release t (ss_segment_ids ss)"

definition drop_deletions :: "tracker \<Rightarrow> snapshot \<Rightarrow> segment_id list \<Rightarrow> tracker \<times> segment_id list" where
  "drop_deletions t ss ready =
     (let (t', more) = release t (ss_deletion_ids ss); to_delete = ready @ more
      in (t', if to_delete \<noteq> [] \<and> ss_delete_fn ss then to_delete else []))"

section \<open>Hexadecimal round trip\<close>

lemma hex_digit_char: "d < 16 \<Longrightarrow> hex_digit (hex_char d) = Some d"
  by (auto simp: hex_digit_def hex_char_def)

lemma parse_hex_append: "parse_hex (xs @ ys) acc = Option.bind (parse_hex xs acc) (parse_hex ys)"
  by (induction xs arbitrary: acc) (auto split: option.split)

lemma parse_hex_digits: "n < 16 ^ k \<Longrightarrow> k \<le> 32 \<Longrightarrow> parse_hex (hex_digits k n) 0 = Some n"
proof (induction k arbitrary: n)
  case (Suc k)
  have "n div 16 < 16 ^ k" using Suc.prems(1) by (simp add: less_mult_imp_div_less mult.commute)
  then have ih: "parse_hex (hex_digits k (n div 16)) 0 = Some (n div 16)" using Suc by simp
  have "(16 :: nat) ^ Suc k \<le> 16 ^ 32" using Suc.prems(2) by (intro power_increasing) simp_all
  then have "n < 2 ^ 128" using Suc.prems(1) by simp
  then show ?case using ih hex_digit_char [of "n mod 16"] by (simp add: parse_hex_append)
qed simp

lemma length_hex_digits [simp]: "length (hex_digits k n) = k"
  by (induction k arbitrary: n) auto

lemma hex_char_plus: "hex_char (n mod 16) \<noteq> CHR ''+''"
proof
  assume "hex_char (n mod 16) = CHR ''+''"
  then show False using hex_digit_char [of "n mod 16"] by (simp add: hex_digit_def)
qed

lemma hd_hex_digits: "c \<in> set (hex_digits k n) \<Longrightarrow> c \<noteq> CHR ''+''"
  by (induction k arbitrary: n) (auto simp: hex_char_plus hex_char_plus [symmetric])

lemma from_to_hex [simp]: "from_hex (to_hex x) = Some x"
proof -
  have "unat x < 16 ^ 32" using unsigned_less [of x, where ?'a = nat] by simp
  then have p: "parse_hex (to_hex x) 0 = Some (unat x)" using parse_hex_digits [of "unat x" 32] by (simp add: to_hex_def)
  obtain c cs where s: "to_hex x = c # cs" by (metis length_hex_digits to_hex_def length_0_conv neq_Nil_conv zero_neq_numeral)
  then have "c \<noteq> CHR ''+''" using hd_hex_digits [of c 32 "unat x"] by (simp add: to_hex_def)
  then show ?thesis using p s by (simp add: from_hex_def)
qed

lemma to_hex_inject: "to_hex x = to_hex y \<longleftrightarrow> x = y"
  by (metis from_to_hex option.inject)

section \<open>The system around the tracker\<close>

text \<open>
  The ids of the published metadata, the snapshots alive, the snapshots whose drop is
  between its two critical sections with the ids it has collected, the ids handed to
  a deletion callback in the order they were handed, and every id ever published.
  Every step is one critical section of the tracker.
\<close>

record tracked_system =
  sys_tracker :: tracker
  sys_published :: "string set"
  sys_live :: "snapshot list"
  sys_dropping :: "(snapshot \<times> segment_id list) list"
  sys_handed :: "segment_id list"
  sys_known :: "string set"

definition sys_init :: tracked_system where
  "sys_init = \<lparr>sys_tracker = tracker_new, sys_published = {}, sys_live = [], sys_dropping = [], sys_handed = [], sys_known = {}\<rparr>"

definition sys_register :: "segment_id \<Rightarrow> tracked_system \<Rightarrow> tracked_system" where
  "sys_register x s = s\<lparr>sys_tracker := register (sys_tracker s) (to_hex x),
                        sys_published := insert (to_hex x) (sys_published s),
                        sys_known := insert (to_hex x) (sys_known s)\<rparr>"

definition sys_snapshot :: "string list \<Rightarrow> tracked_system \<Rightarrow> tracked_system" where
  "sys_snapshot ids s =
     (let (t, acquired) = acquire (sys_tracker s) ids
      in s\<lparr>sys_tracker := t, sys_live := with_delete_fn acquired # sys_live s\<rparr>)"

definition sys_deletions :: "nat \<Rightarrow> string list \<Rightarrow> tracked_system \<Rightarrow> tracked_system" where
  "sys_deletions i dels s =
     (let (t, ss) = with_deletions (sys_tracker s) (sys_live s ! i) dels
      in s\<lparr>sys_tracker := t, sys_live := (sys_live s)[i := ss]\<rparr>)"

definition remove_nth :: "nat \<Rightarrow> 'a list \<Rightarrow> 'a list" where
  "remove_nth i xs = take i xs @ drop (Suc i) xs"

definition sys_drop_begin :: "nat \<Rightarrow> tracked_system \<Rightarrow> tracked_system" where
  "sys_drop_begin i s =
     (let ss = sys_live s ! i; (t, ready) = drop_segments (sys_tracker s) ss
      in s\<lparr>sys_tracker := t, sys_live := remove_nth i (sys_live s), sys_dropping := (ss, ready) # sys_dropping s\<rparr>)"

definition sys_drop_finish :: "nat \<Rightarrow> tracked_system \<Rightarrow> tracked_system" where
  "sys_drop_finish i s =
     (let (ss, ready) = sys_dropping s ! i; (t, handed) = drop_deletions (sys_tracker s) ss ready
      in s\<lparr>sys_tracker := t, sys_dropping := remove_nth i (sys_dropping s), sys_handed := sys_handed s @ handed\<rparr>)"

definition sys_retire :: "string list \<Rightarrow> tracked_system \<Rightarrow> tracked_system" where
  "sys_retire ids s =
     (let (t, handed) = mark_for_deletion (sys_tracker s) ids
      in s\<lparr>sys_tracker := t, sys_published := sys_published s - set ids, sys_handed := sys_handed s @ handed\<rparr>)"

definition sys_complete :: "segment_id list \<Rightarrow> tracked_system \<Rightarrow> tracked_system" where
  "sys_complete xs s = s\<lparr>sys_tracker := complete_deletion (sys_tracker s) xs\<rparr>"

inductive tracker_step :: "tracked_system \<Rightarrow> tracked_system \<Rightarrow> bool" where
  step_register: "to_hex x \<notin> sys_known s \<Longrightarrow> tracker_step s (sys_register x s)"
| step_snapshot: "set ids \<subseteq> sys_published s \<Longrightarrow> tracker_step s (sys_snapshot ids s)"
| step_deletions: "i < length (sys_live s) \<Longrightarrow> ss_deletion_ids (sys_live s ! i) = [] \<Longrightarrow> set dels \<subseteq> sys_published s \<Longrightarrow>
    tracker_step s (sys_deletions i dels s)"
| step_drop_begin: "i < length (sys_live s) \<Longrightarrow> tracker_step s (sys_drop_begin i s)"
| step_drop_finish: "i < length (sys_dropping s) \<Longrightarrow> tracker_step s (sys_drop_finish i s)"
| step_retire: "set ids \<subseteq> sys_published s \<Longrightarrow> tracker_step s (sys_retire ids s)"
| step_complete: "set xs \<subseteq> set (sys_handed s) \<Longrightarrow> tracker_step s (sys_complete xs s)"

inductive tracker_reach :: "tracked_system \<Rightarrow> bool" where
  reach_init: "tracker_reach sys_init"
| reach_step: "tracker_reach s \<Longrightarrow> tracker_step s s' \<Longrightarrow> tracker_reach s'"

text \<open>The references held: those of the live snapshots, and the deletion files of the snapshots being dropped.\<close>

definition snapshot_ids :: "snapshot \<Rightarrow> string list" where
  "snapshot_ids ss = ss_segment_ids ss @ ss_deletion_ids ss"

definition held_ids :: "tracked_system \<Rightarrow> string list" where
  "held_ids s = concat (map snapshot_ids (sys_live s)) @ concat (map (\<lambda>(ss, _). ss_deletion_ids ss) (sys_dropping s))"

definition holders :: "tracked_system \<Rightarrow> string \<Rightarrow> nat" where
  "holders s = count_list (held_ids s)"

section \<open>What each tracker operation does to the counts\<close>

text \<open>The tracker state a published set and a count of holders determine.\<close>

definition tracker_ok :: "tracker \<Rightarrow> string set \<Rightarrow> (string \<Rightarrow> nat) \<Rightarrow> bool" where
  "tracker_ok t P c \<longleftrightarrow>
     (\<forall>s. ref_counts t s = (if s \<in> P \<or> 0 < c s then Some (c s) else None)) \<and>
     (\<forall>s. pending_deletions t s = (if s \<notin> P \<and> 0 < c s then from_hex s else None)) \<and>
     (\<forall>s \<in> scheduled_deletions t. s \<notin> P \<and> c s = 0)"

definition canonical :: "string \<Rightarrow> bool" where
  "canonical s \<longleftrightarrow> (\<exists>x. s = to_hex x)"

lemma canonical_from_hex: "canonical s \<Longrightarrow> \<exists>x. from_hex s = Some x \<and> to_hex x = s"
  by (auto simp: canonical_def)

lemma canonical_to_hex [simp]: "canonical (to_hex x)"
  by (auto simp: canonical_def)

lemma tracker_ok_ref_count: "tracker_ok t P c \<Longrightarrow> ref_count t s = c s"
  by (simp add: tracker_ok_def ref_count_def)

lemma tracker_ok_register:
  "tracker_ok t P c \<Longrightarrow> c s = 0 \<Longrightarrow> s \<notin> scheduled_deletions t \<Longrightarrow> tracker_ok (register t s) (insert s P) c"
  by (auto simp: tracker_ok_def register_def split: option.split)

lemma tracker_ok_acquire:
  assumes "tracker_ok t P c" "set ids \<subseteq> P"
  shows "\<exists>t'. acquire t ids = (t', ids) \<and> tracker_ok t' P (\<lambda>s. c s + count_list ids s) \<and>
              scheduled_deletions t' = scheduled_deletions t"
  using assms
proof (induction ids arbitrary: t c)
  case (Cons a ids)
  let ?t = "t\<lparr>ref_counts := (ref_counts t)(a \<mapsto> ref_count t a + 1)\<rparr>"
  have free: "pending_deletions t a = None" "a \<notin> scheduled_deletions t"
    using Cons.prems by (auto simp: tracker_ok_def)
  have ok: "tracker_ok ?t P (c(a := c a + 1))"
    using Cons.prems tracker_ok_ref_count [OF Cons.prems(1), of a] by (auto simp: tracker_ok_def)
  obtain t' where t': "acquire ?t ids = (t', ids)"
      "tracker_ok t' P (\<lambda>s. (c(a := c a + 1)) s + count_list ids s)"
      "scheduled_deletions t' = scheduled_deletions t"
    using Cons.IH [OF ok] Cons.prems(2) by auto
  have "(\<lambda>s. (c(a := c a + 1)) s + count_list ids s) = (\<lambda>s. c s + count_list (a # ids) s)" by auto
  then show ?case using t' free by auto
qed auto

lemma tracker_ok_release:
  assumes "tracker_ok t P c" "\<forall>s. count_list ids s \<le> c s" "\<forall>s \<in> set ids. canonical s"
  shows "\<exists>t' ready. release t ids = (t', ready) \<and> tracker_ok t' P (\<lambda>s. c s - count_list ids s) \<and>
           distinct ready \<and> to_hex ` set ready = {s \<in> set ids. s \<notin> P \<and> c s = count_list ids s} \<and>
           scheduled_deletions t' = scheduled_deletions t \<union> to_hex ` set ready"
  using assms
proof (induction ids arbitrary: t c)
  case (Cons a ids)
  have ca: "0 < c a" using Cons.prems(2) [THEN spec, of a] by simp
  then have ref: "ref_counts t a = Some (c a)" using Cons.prems(1) by (simp add: tracker_ok_def)
  let ?c = "c(a := c a - 1)"
  let ?t1 = "t\<lparr>ref_counts := (ref_counts t)(a \<mapsto> c a - 1)\<rparr>"
  have le: "\<forall>s. count_list ids s \<le> ?c s" using Cons.prems(2) by (auto simp: le_diff_conv2 split: if_splits)
  have step: "(\<lambda>s. ?c s - count_list ids s) = (\<lambda>s. c s - count_list (a # ids) s)" by auto
  obtain x where x: "from_hex a = Some x" "to_hex x = a" using Cons.prems(3) canonical_from_hex by auto
  show ?case
  proof (cases "c a = 1 \<and> a \<notin> P")
    case True
    let ?t2 = "?t1\<lparr>ref_counts := (ref_counts ?t1)(a := None), pending_deletions := (pending_deletions ?t1)(a := None),
                    scheduled_deletions := insert a (scheduled_deletions ?t1)\<rparr>"
    have ok: "tracker_ok ?t2 P ?c" using Cons.prems(1) True by (auto simp: tracker_ok_def)
    obtain t' ready where r: "release ?t2 ids = (t', ready)" "tracker_ok t' P (\<lambda>s. ?c s - count_list ids s)"
        "distinct ready" "to_hex ` set ready = {s \<in> set ids. s \<notin> P \<and> ?c s = count_list ids s}"
        "scheduled_deletions t' = insert a (scheduled_deletions t) \<union> to_hex ` set ready"
      using Cons.IH [OF ok le] Cons.prems(3) by auto
    have fresh: "a \<notin> set ids" "count_list ids a = 0" using le [THEN spec, of a] True by (auto simp: count_list_0_iff)
    then have "x \<notin> set ready" "to_hex ` set (x # ready) = {s \<in> set (a # ids). s \<notin> P \<and> c s = count_list (a # ids) s}"
      using r(4) x True by (auto simp: count_list_0_iff)
    moreover have "pending_deletions t a = Some x" using Cons.prems(1) True x by (simp add: tracker_ok_def)
    ultimately show ?thesis using r True ref x fresh unfolding step by (auto simp: Let_def)
  next
    case False
    have ok: "tracker_ok ?t1 P ?c" using Cons.prems(1) False ca by (auto simp: tracker_ok_def)
    obtain t' ready where r: "release ?t1 ids = (t', ready)" "tracker_ok t' P (\<lambda>s. ?c s - count_list ids s)"
        "distinct ready" "to_hex ` set ready = {s \<in> set ids. s \<notin> P \<and> ?c s = count_list ids s}"
        "scheduled_deletions t' = scheduled_deletions t \<union> to_hex ` set ready"
      using Cons.IH [OF ok le] Cons.prems(3) by auto
    have "{s \<in> set ids. s \<notin> P \<and> ?c s = count_list ids s} = {s \<in> set (a # ids). s \<notin> P \<and> c s = count_list (a # ids) s}"
      using False ca by (auto simp: count_list_0_iff split: if_splits)
    moreover have "c a - 1 = 0 \<Longrightarrow> pending_deletions t a = None" using Cons.prems(1) False ca by (auto simp: tracker_ok_def)
    ultimately show ?thesis using r ref unfolding step by (auto simp: Let_def)
  qed
qed auto

lemma tracker_ok_mark:
  assumes "tracker_ok t P c" "\<forall>s \<in> set ids. canonical s"
  shows "\<exists>t' ready. mark_for_deletion t ids = (t', ready) \<and> tracker_ok t' (P - set ids) c \<and>
           distinct ready \<and> to_hex ` set ready = {s \<in> set ids. s \<in> P \<and> c s = 0} \<and>
           scheduled_deletions t' = scheduled_deletions t \<union> to_hex ` set ready"
  using assms
proof (induction ids arbitrary: t P)
  case (Cons a ids)
  obtain x where x: "from_hex a = Some x" "to_hex x = a" using Cons.prems(2) canonical_from_hex [of a] by auto
  consider (gone) "a \<notin> P" "c a = 0" | (idle) "a \<in> P" "c a = 0" | (held) "0 < c a" by blast
  then show ?case
  proof cases
    case gone
    then have "ref_counts t a = None" using Cons.prems(1) by (simp add: tracker_ok_def)
    moreover have "P - set (a # ids) = P - set ids" using gone by auto
    ultimately show ?thesis using Cons.IH [OF Cons.prems(1)] Cons.prems gone x by auto
  next
    case idle
    let ?t = "t\<lparr>ref_counts := (ref_counts t)(a := None), scheduled_deletions := insert a (scheduled_deletions t)\<rparr>"
    have ok: "tracker_ok ?t (P - {a}) c" using Cons.prems(1) idle by (auto simp: tracker_ok_def)
    obtain t' ready where r: "mark_for_deletion ?t ids = (t', ready)" "tracker_ok t' (P - {a} - set ids) c"
        "distinct ready" "to_hex ` set ready = {s \<in> set ids. s \<in> P - {a} \<and> c s = 0}"
        "scheduled_deletions t' = insert a (scheduled_deletions t) \<union> to_hex ` set ready"
      using Cons.IH [OF ok] Cons.prems by auto
    have "P - {a} - set ids = P - set (a # ids)" by auto
    moreover have "ref_counts t a = Some 0" using Cons.prems(1) idle by (simp add: tracker_ok_def)
    moreover have "x \<notin> set ready" "to_hex ` set (x # ready) = {s \<in> set (a # ids). s \<in> P \<and> c s = 0}"
      using r(4) x idle by auto
    ultimately show ?thesis using r x by auto
  next
    case held
    let ?t = "t\<lparr>pending_deletions := (pending_deletions t)(a \<mapsto> x)\<rparr>"
    have ok: "tracker_ok ?t (P - {a}) c" using Cons.prems(1) held x by (auto simp: tracker_ok_def)
    obtain t' ready where r: "mark_for_deletion ?t ids = (t', ready)" "tracker_ok t' (P - {a} - set ids) c"
        "distinct ready" "to_hex ` set ready = {s \<in> set ids. s \<in> P - {a} \<and> c s = 0}"
        "scheduled_deletions t' = scheduled_deletions t \<union> to_hex ` set ready"
      using Cons.IH [OF ok] Cons.prems by auto
    have "P - {a} - set ids = P - set (a # ids)" by auto
    moreover have "ref_counts t a = Some (c a)" using Cons.prems(1) held by (simp add: tracker_ok_def)
    moreover have "{s \<in> set ids. s \<in> P - {a} \<and> c s = 0} = {s \<in> set (a # ids). s \<in> P \<and> c s = 0}" using held by auto
    ultimately show ?thesis using r x held by auto
  qed
qed auto

lemma complete_deletion_schedule:
  "complete_deletion t xs = t\<lparr>scheduled_deletions := scheduled_deletions t - to_hex ` set xs\<rparr>"
  unfolding complete_deletion_def by (induction xs arbitrary: t) (simp_all add: Diff_insert2 [symmetric])

section \<open>The invariant of the system\<close>

text \<open>The tracker, the published and the known ids, a count of holders, and the ids taken out for deletion.\<close>

definition core_ok :: "tracker \<Rightarrow> string set \<Rightarrow> string set \<Rightarrow> (string \<Rightarrow> nat) \<Rightarrow> segment_id list \<Rightarrow> bool" where
  "core_ok t P K h out \<longleftrightarrow>
     tracker_ok t P h \<and> P \<subseteq> K \<and> (\<forall>x \<in> K. canonical x) \<and>
     distinct out \<and> to_hex ` set out = {x \<in> K. x \<notin> P \<and> h x = 0} \<and>
     scheduled_deletions t \<subseteq> to_hex ` set out \<and> (\<forall>x. 0 < h x \<longrightarrow> x \<in> K)"

lemma core_okD:
  assumes "core_ok t P K h out"
  shows "tracker_ok t P h" "P \<subseteq> K" "\<forall>x \<in> K. canonical x" "distinct out" "to_hex ` set out = {x \<in> K. x \<notin> P \<and> h x = 0}"
    "scheduled_deletions t \<subseteq> to_hex ` set out" "\<forall>x. 0 < h x \<longrightarrow> x \<in> K"
  using assms unfolding core_ok_def by - (elim conjE; assumption)+

lemma core_ok_permute: "core_ok t P K h out \<Longrightarrow> distinct out' \<Longrightarrow> set out' = set out \<Longrightarrow> core_ok t P K h out'"
  unfolding core_ok_def by metis

lemma distinct_out:
  assumes "distinct a" "distinct b" "to_hex ` set a \<inter> to_hex ` set b = {}"
  shows "distinct (a @ b)"
  using assms by auto

lemma core_ok_register:
  assumes ok: "core_ok t P K h out" and new: "to_hex x \<notin> K"
  shows "core_ok (register t (to_hex x)) (insert (to_hex x) P) (insert (to_hex x) K) h out"
proof -
  note c = core_okD [OF ok]
  have "h (to_hex x) = 0" "to_hex x \<notin> scheduled_deletions t" using c(5-7) new by auto
  then have "tracker_ok (register t (to_hex x)) (insert (to_hex x) P) h" using c(1) by (intro tracker_ok_register)
  moreover have "scheduled_deletions (register t (to_hex x)) = scheduled_deletions t"
    by (simp add: register_def split: option.split)
  moreover have "{y \<in> insert (to_hex x) K. y \<notin> insert (to_hex x) P \<and> h y = 0} = {y \<in> K. y \<notin> P \<and> h y = 0}" using new by auto
  ultimately show ?thesis using c unfolding core_ok_def by auto
qed

lemma core_ok_acquire:
  assumes ok: "core_ok t P K h out" and sub: "set ids \<subseteq> P"
  shows "\<exists>t'. acquire t ids = (t', ids) \<and> core_ok t' P K (\<lambda>x. h x + count_list ids x) out"
proof -
  note c = core_okD [OF ok]
  obtain t' where t': "acquire t ids = (t', ids)" "tracker_ok t' P (\<lambda>x. h x + count_list ids x)"
      "scheduled_deletions t' = scheduled_deletions t" using tracker_ok_acquire [OF c(1) sub] by auto
  have none: "count_list ids x = 0" if "x \<notin> P" for x using sub that by (auto simp: count_list_0_iff)
  have "{x \<in> K. x \<notin> P \<and> h x + count_list ids x = 0} = {x \<in> K. x \<notin> P \<and> h x = 0}" using none by auto
  moreover have "x \<in> K" if "0 < h x + count_list ids x" for x
    using that c(2,7) none [of x] by (cases "x \<in> P") auto
  ultimately show ?thesis using t' c unfolding core_ok_def by auto
qed

lemma core_ok_release:
  assumes ok: "core_ok t P K h out" and le: "\<forall>x. count_list ids x \<le> h x"
  shows "\<exists>t' ready. release t ids = (t', ready) \<and> core_ok t' P K (\<lambda>x. h x - count_list ids x) (out @ ready)"
proof -
  note c = core_okD [OF ok]
  have pos: "0 < h x" if "x \<in> set ids" for x
    using le [THEN spec, of x] that by (simp add: count_list_0_iff neq0_conv [symmetric] del: neq0_conv) (metis count_list_0_iff le_zero_eq)
  have "\<forall>x \<in> set ids. canonical x" using pos c(3,7) by blast
  from tracker_ok_release [OF c(1) le this] obtain t' ready where r: "release t ids = (t', ready)"
      "tracker_ok t' P (\<lambda>x. h x - count_list ids x)" "distinct ready"
      "to_hex ` set ready = {x \<in> set ids. x \<notin> P \<and> h x = count_list ids x}"
      "scheduled_deletions t' = scheduled_deletions t \<union> to_hex ` set ready" by blast
  have "to_hex ` set out \<inter> to_hex ` set ready = {}" unfolding c(5) r(4) using pos by fastforce
  then have "distinct (out @ ready)" by (rule distinct_out [OF c(4) r(3)])
  moreover have "to_hex ` set (out @ ready) = {x \<in> K. x \<notin> P \<and> h x - count_list ids x = 0}"
  proof (intro set_eqI)
    fix x
    show "x \<in> to_hex ` set (out @ ready) \<longleftrightarrow> x \<in> {x \<in> K. x \<notin> P \<and> h x - count_list ids x = 0}"
      using le [THEN spec, of x] pos [of x] c(7) unfolding set_append image_Un c(5) r(4)
      by (cases "x \<in> set ids") (auto simp: count_list_0_iff)
  qed
  moreover have "scheduled_deletions t' \<subseteq> to_hex ` set (out @ ready)" unfolding r(5) set_append image_Un using c(6) by blast
  moreover have "\<forall>x. 0 < h x - count_list ids x \<longrightarrow> x \<in> K" using c(7) by simp
  ultimately show ?thesis using r(1,2) c(2,3) unfolding core_ok_def by blast
qed

lemma core_ok_mark:
  assumes ok: "core_ok t P K h out" and sub: "set ids \<subseteq> P"
  shows "\<exists>t' ready. mark_for_deletion t ids = (t', ready) \<and> core_ok t' (P - set ids) K h (out @ ready)"
proof -
  note c = core_okD [OF ok]
  have "\<forall>x \<in> set ids. canonical x" using sub c(2,3) by blast
  from tracker_ok_mark [OF c(1) this] obtain t' ready where r: "mark_for_deletion t ids = (t', ready)"
      "tracker_ok t' (P - set ids) h" "distinct ready" "to_hex ` set ready = {x \<in> set ids. x \<in> P \<and> h x = 0}"
      "scheduled_deletions t' = scheduled_deletions t \<union> to_hex ` set ready" by blast
  have "to_hex ` set out \<inter> to_hex ` set ready = {}" unfolding c(5) r(4) by auto
  then have "distinct (out @ ready)" by (rule distinct_out [OF c(4) r(3)])
  moreover have "to_hex ` set (out @ ready) = {x \<in> K. x \<notin> P - set ids \<and> h x = 0}"
    unfolding set_append image_Un c(5) r(4) using sub c(2) by auto
  moreover have "scheduled_deletions t' \<subseteq> to_hex ` set (out @ ready)" unfolding r(5) set_append image_Un using c(6) by blast
  ultimately show ?thesis using r(1,2) c(2,3,7) unfolding core_ok_def by blast
qed

text \<open>The system: what was handed out and what the snapshots being dropped have collected is taken out.\<close>

definition collected :: "tracked_system \<Rightarrow> segment_id list" where
  "collected s = concat (map snd (sys_dropping s))"

definition sys_ok :: "tracked_system \<Rightarrow> bool" where
  "sys_ok s \<longleftrightarrow>
     core_ok (sys_tracker s) (sys_published s) (sys_known s) (holders s) (sys_handed s @ collected s) \<and>
     (\<forall>ss \<in> set (sys_live s) \<union> fst ` set (sys_dropping s). ss_delete_fn ss)"

lemma sys_okD:
  assumes "sys_ok s"
  shows "core_ok (sys_tracker s) (sys_published s) (sys_known s) (holders s) (sys_handed s @ collected s)"
    "\<forall>ss \<in> set (sys_live s). ss_delete_fn ss" "\<forall>d \<in> set (sys_dropping s). ss_delete_fn (fst d)"
  using assms by (simp_all add: sys_ok_def ball_Un)

lemma count_list_remove_nth:
  assumes "i < length xs"
  shows "count_list (concat (map f xs)) x = count_list (f (xs ! i)) x + count_list (concat (map f (remove_nth i xs))) x"
proof -
  have "concat (map f xs) = concat (map f (take i xs)) @ f (xs ! i) @ concat (map f (drop (Suc i) xs))"
    using arg_cong [OF id_take_nth_drop [OF assms], of "\<lambda>ys. concat (map f ys)"] by simp
  then show ?thesis by (simp add: remove_nth_def)
qed

lemma set_remove_nth: "set (remove_nth i xs) \<subseteq> set xs"
  by (auto simp: remove_nth_def dest: in_set_takeD in_set_dropD)

lemma length_remove_nth [simp]: "i < length xs \<Longrightarrow> length (remove_nth i xs) = length xs - 1"
  by (simp add: remove_nth_def)

lemma holders_pos: "0 < holders s x \<longleftrightarrow> x \<in> set (held_ids s)"
  using count_list_0_iff [of "held_ids s" x] by (auto simp: holders_def)

lemma holders_live: "ss \<in> set (sys_live s) \<Longrightarrow> x \<in> set (snapshot_ids ss) \<Longrightarrow> 0 < holders s x"
  unfolding holders_pos held_ids_def by auto

lemma holders_dropping: "d \<in> set (sys_dropping s) \<Longrightarrow> x \<in> set (ss_deletion_ids (fst d)) \<Longrightarrow> 0 < holders s x"
  unfolding holders_pos held_ids_def by (simp add: split_beta) blast

lemma sys_ok_init: "sys_ok sys_init"
  by (auto simp: sys_ok_def core_ok_def sys_init_def tracker_ok_def tracker_new_def holders_def held_ids_def collected_def)

lemma sys_ok_register:
  assumes "sys_ok s" "to_hex x \<notin> sys_known s"
  shows "sys_ok (sys_register x s)"
  using assms core_ok_register [of "sys_tracker s" "sys_published s" "sys_known s" "holders s" "sys_handed s @ collected s" x]
  by (simp add: sys_ok_def sys_register_def holders_def held_ids_def collected_def)

lemma sys_ok_snapshot:
  assumes "sys_ok s" "set ids \<subseteq> sys_published s"
  shows "sys_ok (sys_snapshot ids s)"
proof -
  obtain t where t: "acquire (sys_tracker s) ids = (t, ids)"
      "core_ok t (sys_published s) (sys_known s) (\<lambda>x. holders s x + count_list ids x) (sys_handed s @ collected s)"
    using core_ok_acquire [OF sys_okD(1) [OF assms(1)] assms(2)] by blast
  have eq: "sys_snapshot ids s = s\<lparr>sys_tracker := t, sys_live := with_delete_fn ids # sys_live s\<rparr>"
    using t(1) by (simp add: sys_snapshot_def)
  have "holders (sys_snapshot ids s) = (\<lambda>x. holders s x + count_list ids x)"
    by (auto simp: eq holders_def held_ids_def snapshot_ids_def with_delete_fn_def)
  then show ?thesis using t(2) assms(1) unfolding sys_ok_def by (simp add: eq collected_def with_delete_fn_def)
qed

lemma sys_ok_deletions:
  assumes s: "sys_ok s" and i: "i < length (sys_live s)" "ss_deletion_ids (sys_live s ! i) = []" and sub: "set dels \<subseteq> sys_published s"
  shows "sys_ok (sys_deletions i dels s)"
proof -
  obtain t where t: "acquire (sys_tracker s) dels = (t, dels)"
      "core_ok t (sys_published s) (sys_known s) (\<lambda>x. holders s x + count_list dels x) (sys_handed s @ collected s)"
    using core_ok_acquire [OF sys_okD(1) [OF s] sub] by blast
  let ?ss = "(sys_live s ! i)\<lparr>ss_deletion_ids := dels\<rparr>"
  have eq: "sys_deletions i dels s = s\<lparr>sys_tracker := t, sys_live := (sys_live s)[i := ?ss]\<rparr>"
    using t(1) by (simp add: sys_deletions_def with_deletions_def)
  have "count_list (concat (map snapshot_ids ((sys_live s)[i := ?ss]))) x =
      count_list (concat (map snapshot_ids (sys_live s))) x + count_list dels x" for x
  proof -
    have "remove_nth i ((sys_live s)[i := ?ss]) = remove_nth i (sys_live s)" by (simp add: remove_nth_def)
    then show ?thesis using i count_list_remove_nth [of i "sys_live s" snapshot_ids x]
        count_list_remove_nth [of i "(sys_live s)[i := ?ss]" snapshot_ids x] by (simp add: snapshot_ids_def)
  qed
  then have "holders (sys_deletions i dels s) = (\<lambda>x. holders s x + count_list dels x)"
    by (auto simp: eq holders_def held_ids_def)
  moreover have "\<forall>ss \<in> set ((sys_live s)[i := ?ss]). ss_delete_fn ss"
    using s i(1) unfolding sys_ok_def by (auto dest!: set_update_subset_insert [THEN subsetD])
  ultimately show ?thesis using t(2) s unfolding sys_ok_def by (auto simp: eq collected_def)
qed

lemma sys_ok_drop_begin:
  assumes s: "sys_ok s" and i: "i < length (sys_live s)"
  shows "sys_ok (sys_drop_begin i s)"
proof -
  let ?ss = "sys_live s ! i"
  have live: "?ss \<in> set (sys_live s)" using i by simp
  have count: "count_list (concat (map snapshot_ids (sys_live s))) x =
      count_list (snapshot_ids ?ss) x + count_list (concat (map snapshot_ids (remove_nth i (sys_live s)))) x" for x
    by (rule count_list_remove_nth [OF i])
  have "\<forall>x. count_list (ss_segment_ids ?ss) x \<le> holders s x" by (simp add: holders_def held_ids_def count snapshot_ids_def)
  from core_ok_release [OF sys_okD(1) [OF s] this] obtain t ready where r: "release (sys_tracker s) (ss_segment_ids ?ss) = (t, ready)"
      "core_ok t (sys_published s) (sys_known s) (\<lambda>x. holders s x - count_list (ss_segment_ids ?ss) x) ((sys_handed s @ collected s) @ ready)"
    by blast
  have eq: "sys_drop_begin i s = s\<lparr>sys_tracker := t, sys_live := remove_nth i (sys_live s), sys_dropping := (?ss, ready) # sys_dropping s\<rparr>"
    using r(1) by (simp add: sys_drop_begin_def drop_segments_def)
  have "holders (sys_drop_begin i s) = (\<lambda>x. holders s x - count_list (ss_segment_ids ?ss) x)"
    by (auto simp: eq holders_def held_ids_def count snapshot_ids_def)
  moreover have "core_ok t (sys_published s) (sys_known s) (\<lambda>x. holders s x - count_list (ss_segment_ids ?ss) x)
      (sys_handed s @ ready @ collected s)"
    using core_okD(4) [OF r(2)] by (intro core_ok_permute [OF r(2)]) auto
  ultimately show ?thesis using s live set_remove_nth [of i "sys_live s"] unfolding sys_ok_def by (auto simp: eq collected_def)
qed

lemma sys_ok_drop_finish:
  assumes s: "sys_ok s" and i: "i < length (sys_dropping s)"
  shows "sys_ok (sys_drop_finish i s)"
proof -
  let ?dels = "\<lambda>(ss, _). ss_deletion_ids ss"
  obtain ss ready where d: "sys_dropping s ! i = (ss, ready)" by force
  then have mem: "(ss, ready) \<in> set (sys_dropping s)" using i by (metis nth_mem)
  have fn: "ss_delete_fn ss" using sys_okD(3) [OF s] mem by fastforce
  have count: "count_list (concat (map ?dels (sys_dropping s))) x =
      count_list (ss_deletion_ids ss) x + count_list (concat (map ?dels (remove_nth i (sys_dropping s)))) x" for x
    using count_list_remove_nth [OF i, of ?dels x] by (simp add: d)
  have "\<forall>x. count_list (ss_deletion_ids ss) x \<le> holders s x" by (simp add: holders_def held_ids_def count)
  from core_ok_release [OF sys_okD(1) [OF s] this] obtain t more where r: "release (sys_tracker s) (ss_deletion_ids ss) = (t, more)"
      "core_ok t (sys_published s) (sys_known s) (\<lambda>x. holders s x - count_list (ss_deletion_ids ss) x) ((sys_handed s @ collected s) @ more)"
    by blast
  have eq: "sys_drop_finish i s = s\<lparr>sys_tracker := t, sys_dropping := remove_nth i (sys_dropping s), sys_handed := sys_handed s @ ready @ more\<rparr>"
    using r(1) fn by (auto simp: sys_drop_finish_def drop_deletions_def d Let_def)
  have "holders (sys_drop_finish i s) = (\<lambda>x. holders s x - count_list (ss_deletion_ids ss) x)"
    by (auto simp: eq holders_def held_ids_def count)
  moreover obtain before after where "collected s = before @ ready @ after"
      "concat (map snd (remove_nth i (sys_dropping s))) = before @ after"
    using arg_cong [OF id_take_nth_drop [OF i], of "\<lambda>ys. concat (map snd ys)"]
    by (simp add: collected_def remove_nth_def d)
  then have "core_ok t (sys_published s) (sys_known s) (\<lambda>x. holders s x - count_list (ss_deletion_ids ss) x)
      ((sys_handed s @ ready @ more) @ concat (map snd (remove_nth i (sys_dropping s))))"
    using core_okD(4) [OF r(2)] by (intro core_ok_permute [OF r(2)]) auto
  ultimately show ?thesis using s set_remove_nth [of i "sys_dropping s"] unfolding sys_ok_def by (auto simp: eq collected_def)
qed

lemma sys_ok_retire:
  assumes s: "sys_ok s" and sub: "set ids \<subseteq> sys_published s"
  shows "sys_ok (sys_retire ids s)"
proof -
  obtain t ready where r: "mark_for_deletion (sys_tracker s) ids = (t, ready)"
      "core_ok t (sys_published s - set ids) (sys_known s) (holders s) ((sys_handed s @ collected s) @ ready)"
    using core_ok_mark [OF sys_okD(1) [OF s] sub] by blast
  have "core_ok t (sys_published s - set ids) (sys_known s) (holders s) ((sys_handed s @ ready) @ collected s)"
    using core_okD(4) [OF r(2)] by (intro core_ok_permute [OF r(2)]) auto
  then show ?thesis using s r(1) by (simp add: sys_ok_def sys_retire_def holders_def held_ids_def collected_def)
qed

lemma sys_ok_complete: "sys_ok s \<Longrightarrow> sys_ok (sys_complete xs s)"
  by (auto simp: sys_ok_def core_ok_def sys_complete_def complete_deletion_schedule holders_def held_ids_def collected_def tracker_ok_def)

lemma sys_ok_step: "tracker_step s s' \<Longrightarrow> sys_ok s \<Longrightarrow> sys_ok s'"
  by (induction rule: tracker_step.induct)
    (auto intro: sys_ok_register sys_ok_snapshot sys_ok_deletions sys_ok_drop_begin sys_ok_drop_finish sys_ok_retire sys_ok_complete)

lemma tracker_reach_ok: "tracker_reach s \<Longrightarrow> sys_ok s"
  by (induction rule: tracker_reach.induct) (auto intro: sys_ok_init sys_ok_step)

section \<open>Dropping every snapshot\<close>

text \<open>The critical sections of the drops of all live snapshots, in any order and interleaving.\<close>

datatype drop_event = Begin nat | Finish nat

fun drop_step :: "drop_event \<Rightarrow> tracked_system \<Rightarrow> tracked_system" where
  "drop_step (Begin i) s = sys_drop_begin i s"
| "drop_step (Finish i) s = sys_drop_finish i s"

fun drains :: "drop_event list \<Rightarrow> nat \<Rightarrow> nat \<Rightarrow> bool" where
  "drains [] live dropping \<longleftrightarrow> live = 0 \<and> dropping = 0"
| "drains (Begin i # es) live dropping \<longleftrightarrow> i < live \<and> drains es (live - 1) (dropping + 1)"
| "drains (Finish i # es) live dropping \<longleftrightarrow> i < dropping \<and> drains es live (dropping - 1)"

lemma drop_begin_fields:
  assumes "i < length (sys_live s)"
  shows "length (sys_live (sys_drop_begin i s)) = length (sys_live s) - 1"
    "length (sys_dropping (sys_drop_begin i s)) = length (sys_dropping s) + 1"
    "sys_published (sys_drop_begin i s) = sys_published s" "sys_known (sys_drop_begin i s) = sys_known s"
  using assms by (simp_all add: sys_drop_begin_def split_beta Let_def)

lemma drop_finish_fields:
  assumes "i < length (sys_dropping s)"
  shows "sys_live (sys_drop_finish i s) = sys_live s"
    "length (sys_dropping (sys_drop_finish i s)) = length (sys_dropping s) - 1"
    "sys_published (sys_drop_finish i s) = sys_published s" "sys_known (sys_drop_finish i s) = sys_known s"
  using assms by (simp_all add: sys_drop_finish_def split_beta Let_def)

lemma drains_reach:
  "tracker_reach s \<Longrightarrow> drains es (length (sys_live s)) (length (sys_dropping s)) \<Longrightarrow>
     tracker_reach (fold drop_step es s) \<and> sys_live (fold drop_step es s) = [] \<and> sys_dropping (fold drop_step es s) = [] \<and>
     sys_published (fold drop_step es s) = sys_published s \<and> sys_known (fold drop_step es s) = sys_known s"
proof (induction es arbitrary: s)
  case (Cons e es)
  show ?case
  proof (cases e)
    case (Begin i)
    then have i: "i < length (sys_live s)" using Cons.prems(2) by simp
    note f = drop_begin_fields [OF i]
    have "tracker_reach (sys_drop_begin i s)" using Cons.prems(1) step_drop_begin [OF i] by (rule reach_step)
    then show ?thesis using Cons.IH [of "sys_drop_begin i s"] Cons.prems(2) f by (simp add: Begin)
  next
    case (Finish i)
    then have i: "i < length (sys_dropping s)" using Cons.prems(2) by simp
    note f = drop_finish_fields [OF i]
    have "tracker_reach (sys_drop_finish i s)" using Cons.prems(1) step_drop_finish [OF i] by (rule reach_step)
    then show ?thesis using Cons.IH [of "sys_drop_finish i s"] Cons.prems(2) f by (simp add: Finish)
  qed
qed simp

text \<open>
  C3. Held segments are never deleted. In every state the tracker can reach by
  publishing, taking and dropping snapshots, retiring segments and completing
  deletions, one critical section of the tracker at a time and in any order, a segment
  or deletion file that a live snapshot holds, or a deletion file that a snapshot
  still holds while it is being dropped, has a reference count equal to its number of
  holders, has never been handed to a deletion callback, and is protected from the
  orphan sweep unless it is still published; no id is handed out twice, and none
  while it is published.
\<close>

theorem held_segments_never_deleted:
  assumes "tracker_reach s"
  shows "(\<forall>ss \<in> set (sys_live s). \<forall>x \<in> set (snapshot_ids ss).
            x \<notin> to_hex ` set (sys_handed s) \<and> (x \<in> sys_published s \<or> is_deletion_protected (sys_tracker s) x)) \<and>
         (\<forall>d \<in> set (sys_dropping s). \<forall>x \<in> set (ss_deletion_ids (fst d)).
            x \<notin> to_hex ` set (sys_handed s) \<and> (x \<in> sys_published s \<or> is_deletion_protected (sys_tracker s) x)) \<and>
         (\<forall>x. ref_count (sys_tracker s) x = holders s x) \<and>
         distinct (sys_handed s) \<and> to_hex ` set (sys_handed s) \<inter> sys_published s = {}"
proof -
  have ok: "core_ok (sys_tracker s) (sys_published s) (sys_known s) (holders s) (sys_handed s @ collected s)"
    using tracker_reach_ok [OF assms] by (simp add: sys_ok_def)
  note c = core_okD [OF ok]
  have out: "to_hex ` set (sys_handed s) \<subseteq> {x \<in> sys_known s. x \<notin> sys_published s \<and> holders s x = 0}"
    unfolding c(5) [symmetric] by auto
  have "is_deletion_protected (sys_tracker s) x" if "0 < holders s x" "x \<notin> sys_published s" for x
    using c(1,3,7) that canonical_from_hex [of x] by (auto simp: tracker_ok_def is_deletion_protected_def)
  moreover have "x \<notin> to_hex ` set (sys_handed s)" if "0 < holders s x" for x
    using out that by auto
  moreover have "ref_count (sys_tracker s) x = holders s x" for x
    using tracker_ok_ref_count [OF c(1)] .
  moreover have "distinct (sys_handed s)" "to_hex ` set (sys_handed s) \<inter> sys_published s = {}"
    using c(4) out by auto
  ultimately show ?thesis using holders_live [of _ s] holders_dropping [of _ s] by blast
qed

text \<open>
  C4. Every retired segment is deleted once its readers are gone. From every
  reachable state, dropping the live snapshots, with the critical sections of the
  drops in any order and interleaving, ends in a state where
  nothing is pending, the ids handed to deletion callbacks are exactly those
  published at some time and retired since, each handed once, and after the
  callbacks report completion the wait for scheduled deletions returns and nothing
  is left protected.
\<close>

theorem retired_segments_are_deleted:
  assumes "tracker_reach s" and "drains es (length (sys_live s)) (length (sys_dropping s))"
    and "s' = fold drop_step es s" and "s'' = sys_complete (sys_handed s') s'"
  shows "pending_deletions (sys_tracker s') = Map.empty \<and> distinct (sys_handed s') \<and>
         to_hex ` set (sys_handed s') = sys_known s - sys_published s \<and>
         wait_for_scheduled_deletions (sys_tracker s') [sys_tracker s''] \<and>
         (\<forall>x. \<not> is_deletion_protected (sys_tracker s'') x)"
proof -
  have r: "tracker_reach s'" "sys_live s' = []" "sys_dropping s' = []" "sys_published s' = sys_published s" "sys_known s' = sys_known s"
    using drains_reach [OF assms(1,2)] assms(3) by auto
  have none: "holders s' = (\<lambda>_. 0)" "collected s' = []" using r(2,3) by (auto simp: holders_def held_ids_def collected_def)
  have "core_ok (sys_tracker s') (sys_published s) (sys_known s) (\<lambda>_. 0) (sys_handed s')"
    using tracker_reach_ok [OF r(1)] r(4,5) none by (simp add: sys_ok_def)
  note c = core_okD [OF this]
  have "pending_deletions (sys_tracker s') = Map.empty" using c(1) by (auto simp: tracker_ok_def)
  moreover have "scheduled_deletions (sys_tracker s'') = {}" "pending_deletions (sys_tracker s'') = pending_deletions (sys_tracker s')"
    using c(6) assms(4) by (auto simp: sys_complete_def complete_deletion_schedule)
  ultimately show ?thesis using c(4,5)
    by (auto simp: wait_for_scheduled_deletions_def is_deletion_protected_def)
qed

text \<open>
  A run: two segments are published, a reader takes both, the first is retired while
  held, then a second reader takes the one that is left.
\<close>

definition sample_run :: tracked_system where
  "sample_run = sys_snapshot [to_hex 2] (sys_retire [to_hex 1] (sys_snapshot [to_hex 1, to_hex 2] (sys_register 2 (sys_register 1 sys_init))))"

lemma sample_run_state:
  "sys_live sample_run = [\<lparr>ss_segment_ids = [to_hex 2], ss_deletion_ids = [], ss_delete_fn = True\<rparr>,
                          \<lparr>ss_segment_ids = [to_hex 1, to_hex 2], ss_deletion_ids = [], ss_delete_fn = True\<rparr>]"
  "sys_dropping sample_run = []" "sys_published sample_run = {to_hex 2}" "sys_known sample_run = {to_hex 1, to_hex 2}"
  by (auto simp: sample_run_def sys_snapshot_def sys_retire_def sys_register_def sys_init_def tracker_new_def register_def
      with_delete_fn_def ref_count_def to_hex_inject Let_def)

lemma sample_run_reach: "tracker_reach sample_run"
  unfolding sample_run_def
  by (rule reach_step [OF _ step_snapshot] reach_step [OF _ step_retire] reach_step [OF _ step_register] reach_init |
      simp add: sys_snapshot_def sys_retire_def sys_register_def sys_init_def to_hex_inject split_beta)+

theorem held_segments_never_deleted_witness:
  "to_hex 1 \<notin> sys_published sample_run \<and> to_hex 1 \<notin> to_hex ` set (sys_handed sample_run) \<and>
   is_deletion_protected (sys_tracker sample_run) (to_hex 1) \<and> ref_count (sys_tracker sample_run) (to_hex 2) = 2"
proof -
  let ?ss = "\<lparr>ss_segment_ids = [to_hex 1, to_hex 2], ss_deletion_ids = [], ss_delete_fn = True\<rparr>"
  have "?ss \<in> set (sys_live sample_run)" "to_hex 1 \<in> set (snapshot_ids ?ss)" "to_hex 1 \<notin> sys_published sample_run"
    "holders sample_run (to_hex 2) = 2"
    by (simp_all add: sample_run_state snapshot_ids_def holders_def held_ids_def to_hex_inject)
  then show ?thesis using held_segments_never_deleted [OF sample_run_reach] by metis
qed

theorem retired_segments_are_deleted_witness:
  "to_hex ` set (sys_handed (fold drop_step [Begin 1, Begin 0, Finish 1, Finish 0] sample_run)) = {to_hex 1}"
  using retired_segments_are_deleted [OF sample_run_reach, of "[Begin 1, Begin 0, Finish 1, Finish 0]", OF _ refl refl]
  by (auto simp: sample_run_state to_hex_inject)

end
