(* ===== verification/RowDeletion.thy ===== *)
theory RowDeletion
  imports SegmentTracker DocBitset FastFieldAccess
begin

text \<open>
  Row deletion (\<open>segment/deletion.rs\<close>): the immutable visibility file of a segment
  with its checksum, the remapping of tombstones into the row space of a merged
  segment, and the resolution of primary keys to rows through the dictionary of a
  fast-field column. A directory is a map from paths to file contents.
\<close>

section \<open>Visibility files\<close>

type_synonym directory = "string \<rightharpoonup> bytes"

record deletion_meta =
  dm_id :: string
  dm_num_deleted :: nat

definition meta_path :: "deletion_meta \<Rightarrow> summa_error + string" where
  "meta_path m =
     (case from_hex (dm_id m) of
        None \<Rightarrow> Inl (Corruption ''invalid deletion file identity'')
      | Some x \<Rightarrow> Inr (''seg_'' @ to_hex x @ ''.del''))"

definition checksum :: "bytes \<Rightarrow> u64" where
  "checksum bs = foldl (\<lambda>hash byte. (hash XOR ucast byte) * 0x100000001b3) 0xcbf29ce484222325 bs"

definition deletion_magic :: bytes where
  "deletion_magic = [0x48, 0x44, 0x45, 0x4C, 1, 0, 0, 0]"

definition decode :: "bytes \<Rightarrow> nat \<Rightarrow> nat \<Rightarrow> summa_error + doc_bitset" where
  "decode bs num_docs num_deleted =
     (let invalid = Inl (Corruption ''invalid row deletion bitset'');
          expected = 24 + div_ceil num_docs 64 * 8
      in if num_deleted > num_docs \<or> length bs \<noteq> expected \<or> take 8 bs \<noteq> deletion_magic then invalid
         else let read_u32 = (\<lambda>at. unat (of_le (take 4 (drop at bs)) :: u32))
              in if read_u32 8 \<noteq> num_docs \<or> read_u32 12 \<noteq> num_deleted then invalid
                 else let stop = length bs - 8
                      in if checksum (take stop bs) \<noteq> of_le (drop stop bs) then invalid
                         else let alive = \<lparr>bits = map of_le (chunks_exact 8 (take (stop - 16) (drop 16 bs)))\<rparr>
                              in if bitset_count alive \<noteq> num_docs - num_deleted \<or> next_set_bit alive num_docs \<noteq> None
                                 then invalid else Inr alive)"

definition deletion_load :: "directory \<Rightarrow> deletion_meta \<Rightarrow> nat \<Rightarrow> summa_error + doc_bitset" where
  "deletion_load dir m num_docs =
     (if dm_num_deleted m = 0 \<or> dm_num_deleted m > num_docs then Inl (Corruption ''invalid deletion count'')
      else case meta_path m of
             Inl e \<Rightarrow> Inl e
           | Inr path \<Rightarrow>
               (case dir path of
                  None \<Rightarrow> Inl (Corruption (''referenced deletion file '' @ dm_id m @ '' is missing''))
                | Some bs \<Rightarrow>
                    if length bs \<noteq> 24 + div_ceil num_docs 64 * 8 then Inl (Corruption ''invalid deletion file length'')
                    else decode bs num_docs (dm_num_deleted m)))"

definition deletion_header :: "nat \<Rightarrow> nat \<Rightarrow> bytes" where
  "deletion_header num_docs num_deleted = deletion_magic @ u32_le (word_of_nat num_docs) @ u32_le (word_of_nat num_deleted)"

definition deletion_write ::
  "directory \<Rightarrow> segment_id \<Rightarrow> nat \<Rightarrow> doc_bitset \<Rightarrow> summa_error + deletion_meta \<times> directory" where
  "deletion_write dir ident num_docs alive =
     (if num_docs < bitset_count alive then Inl (Corruption ''deletion population exceeds row count'')
      else let num_deleted = num_docs - bitset_count alive
           in if num_deleted = 0 \<or> length (bits alive) \<noteq> div_ceil num_docs 64 \<or> next_set_bit alive num_docs \<noteq> None
              then Inl (Corruption ''invalid deletion output'')
              else let m = \<lparr>dm_id = to_hex ident, dm_num_deleted = num_deleted\<rparr>;
                       header = deletion_header num_docs num_deleted;
                       digest = checksum (header @ concat (map u64_le (bits alive)))
                   in (case meta_path m of
                         Inl e \<Rightarrow> Inl e
                       | Inr path \<Rightarrow> Inr (m, dir(path \<mapsto> header @ concat (map u64_le (bits alive)) @ u64_le digest))))"

section \<open>Tombstones of a merged segment\<close>

fun append_dead_words :: "nat \<Rightarrow> nat \<Rightarrow> (nat \<times> u64) list \<Rightarrow> doc_bitset \<Rightarrow> doc_bitset option" where
  "append_dead_words num_docs offset [] t = Some t"
| "append_dead_words num_docs offset ((word_index, word) # ws) t =
     (if num_docs < word_index * 64 then None
      else let valid = min (num_docs - word_index * 64) 64;
               padding = (if valid = 64 then - 1 else push_bit valid 1 - 1);
               dead = NOT word AND padding;
               start = offset + word_index * 64;
               out = start div 64;
               shift = start mod 64
           in if out < length (bits t)
              then let t1 = t\<lparr>bits := (bits t)[out := bits t ! out AND NOT (push_bit shift dead)]\<rparr>;
                       t2 = (if shift \<noteq> 0 \<and> out + 1 < length (bits t1)
                             then t1\<lparr>bits := (bits t1)[out + 1 := bits t1 ! (out + 1) AND NOT (drop_bit (64 - shift) dead)]\<rparr>
                             else t1)
                   in append_dead_words num_docs offset ws t2
              else None)"

definition append_dead_rows ::
  "doc_bitset \<Rightarrow> doc_bitset \<Rightarrow> nat \<Rightarrow> nat \<Rightarrow> (summa_error + doc_bitset) option" where
  "append_dead_rows target source num_docs offset =
     (if div_ceil (offset + num_docs) 64 > length (bits target)
      then Some (Inl (Corruption ''deletion remap exceeds output row space''))
      else map_option Inr (append_dead_words num_docs offset (enumerate 0 (bits source)) target))"

section \<open>Rows of deleted keys\<close>

text \<open>
  \<open>check\<close> gives the answer of each poll of the cancellation callback, in order. The
  bitset of a scan that fails is dropped, as every caller drops it.
\<close>

fun target_ordinals_loop ::
  "fast_field_reader \<Rightarrow> (nat \<Rightarrow> summa_error option) \<Rightarrow> nat \<Rightarrow> str list \<Rightarrow> u64 set \<Rightarrow> (summa_error + u64 set) option" where
  "target_ordinals_loop column check i [] ordinals = Some (Inr ordinals)"
| "target_ordinals_loop column check i (key # ks) ordinals =
     (case (if i mod 4096 = 0 then check (i div 4096) else None) of
        Some e \<Rightarrow> Some (Inl e)
      | None \<Rightarrow>
          (case text_ordinal column key of
             None \<Rightarrow> None
           | Some None \<Rightarrow> target_ordinals_loop column check (i + 1) ks ordinals
           | Some (Some ordinal) \<Rightarrow> target_ordinals_loop column check (i + 1) ks (insert (word_of_nat ordinal) ordinals)))"

definition target_ordinals ::
  "fast_field_reader \<Rightarrow> nat \<Rightarrow> str list \<Rightarrow> (nat \<Rightarrow> summa_error option) \<Rightarrow> (summa_error + u64 set) option" where
  "target_ordinals column num_docs ks check =
     (if fr_num_docs column \<noteq> num_docs \<or> fr_multi column \<or> fr_column_type column \<noteq> ColTextOrdinal
      then Some (Inl (Corruption ''primary-key column must contain one text value per physical row''))
      else target_ordinals_loop column check 0 ks {})"

definition clear_row ::
  "u64 set \<Rightarrow> (nat \<Rightarrow> summa_error option) \<Rightarrow> doc_bitset \<times> bool \<Rightarrow> nat \<Rightarrow> u64 \<Rightarrow> summa_error + doc_bitset \<times> bool" where
  "clear_row ordinals check s doc ordinal =
     (case (if doc mod 4096 = 0 then check (doc div 4096) else None) of
        Some e \<Rightarrow> Inl e
      | None \<Rightarrow> if bitset_contains (fst s) doc \<and> ordinal \<in> ordinals then Inr (bitset_clear (fst s) doc, True) else Inr s)"

definition clear_target_rows ::
  "fast_field_reader \<Rightarrow> u64 set \<Rightarrow> doc_bitset \<Rightarrow> (nat \<Rightarrow> summa_error option) \<Rightarrow> (summa_error + doc_bitset \<times> bool) option" where
  "clear_target_rows column ordinals alive check = try_scan_single_values column (clear_row ordinals check) (alive, False)"

section \<open>The checksum\<close>

lemma fnv_multiplier: "(0x100000001b3 :: u64) * 0xce965057aff6957b = 1"
  by simp

lemma fnv_step_inject: "x * 0x100000001b3 = y * (0x100000001b3 :: u64) \<longleftrightarrow> x = y"
proof
  assume "x * 0x100000001b3 = y * (0x100000001b3 :: u64)"
  then have "x * (0x100000001b3 * 0xce965057aff6957b) = y * (0x100000001b3 * 0xce965057aff6957b)"
    by (simp only: mult.assoc [symmetric])
  then show "x = y" by (simp only: fnv_multiplier mult_1_right)
qed simp

lemma xor_cancel: "(h XOR x :: u64) = h' XOR x \<longleftrightarrow> h = h'" "(h XOR x :: u64) = h XOR y \<longleftrightarrow> x = y"
  by (auto simp: bit_eq_iff bit_xor_iff)

lemma fnv_fold_inject:
  "foldl (\<lambda>hash byte. (hash XOR ucast byte) * 0x100000001b3) (h :: u64) (bs :: bytes) =
   foldl (\<lambda>hash byte. (hash XOR ucast byte) * 0x100000001b3) h' bs \<longleftrightarrow> h = h'"
  by (induction bs arbitrary: h h') (simp_all add: fnv_step_inject xor_cancel)

lemma ucast_u8_inject: "(ucast b :: u64) = ucast (c :: u8) \<longleftrightarrow> b = c"
proof
  assume eq: "(ucast b :: u64) = ucast c"
  show "b = c"
  proof (rule bit_word_eqI)
    fix n assume "n < LENGTH(8)"
    then show "bit b n \<longleftrightarrow> bit c n" using arg_cong [OF eq, of "\<lambda>w. bit w n"] by (simp add: bit_ucast_iff)
  qed
qed simp

lemma checksum_one_byte:
  assumes "i < length bs" "b \<noteq> bs ! i"
  shows "checksum (bs[i := b]) \<noteq> checksum bs"
proof -
  let ?f = "\<lambda>hash byte. (hash XOR ucast byte) * 0x100000001b3 :: u64"
  have "checksum (bs[i := b]) = foldl ?f (?f (foldl ?f 0xcbf29ce484222325 (take i bs)) b) (drop (Suc i) bs)"
    using assms(1) by (simp add: checksum_def upd_conv_take_nth_drop)
  moreover have "checksum bs = foldl ?f (?f (foldl ?f 0xcbf29ce484222325 (take i bs)) (bs ! i)) (drop (Suc i) bs)"
    unfolding checksum_def using arg_cong [OF id_take_nth_drop [OF assms(1)], of "foldl ?f 0xcbf29ce484222325"] by simp
  moreover have "(ucast b :: u64) \<noteq> ucast (bs ! i)" using assms(2) ucast_u8_inject by blast
  ultimately show ?thesis by (simp add: fnv_fold_inject fnv_step_inject xor_cancel)
qed

section \<open>Decoding what was written\<close>

lemma chunks_u64_le: "chunks_exact 8 (concat (map u64_le ws)) = map u64_le ws"
proof -
  have "chunks 8 (concat (map u64_le ws)) = map u64_le ws"
  proof (induction ws)
    case (Cons w ws)
    have "u64_le w \<noteq> []" using length_u64_le [of w] by (metis list.size(3) zero_neq_numeral)
    then show ?case using Cons by (simp add: chunks_step)
  qed simp
  then show ?thesis by (simp add: chunks_exact_def filter_map comp_def)
qed

lemma length_concat_u64 [simp]: "length (concat (map u64_le ws)) = length ws * 8"
  by (induction ws) simp_all

lemma length_chunks_8: "length xs = k * 8 \<Longrightarrow> length (chunks_exact 8 xs) = k"
  by (simp add: chunks_exact_eq length_chunks div_ceil_def)

lemma bitset_wf_bounds:
  assumes "n \<le> TERMINATED" "length (bits b) = div_ceil n 64"
  shows "next_set_bit b n = None \<longleftrightarrow> bitset_docs b \<subseteq> {..<n}"
proof -
  have len: "length (bits b) * 64 \<le> 2 ^ 32"
  proof -
    have "(n + 64 - 1) div 64 \<le> (4294967295 + 64 - 1) div 64"
      using assms(1) by (intro div_le_mono) (simp add: TERMINATED_def)
    then show ?thesis using assms(2) by (simp add: div_ceil_def)
  qed
  show ?thesis
  proof
    assume "next_set_bit b n = None"
    then show "bitset_docs b \<subseteq> {..<n}" using next_set_bit_None [OF len] by (meson lessThan_iff not_less subsetI)
  next
    assume sub: "bitset_docs b \<subseteq> {..<n}"
    show "next_set_bit b n = None"
      using next_set_bit_Some [OF len] sub by (cases "next_set_bit b n") force+
  qed
qed

definition deletion_bytes :: "nat \<Rightarrow> nat \<Rightarrow> u64 list \<Rightarrow> bytes" where
  "deletion_bytes n d ws = (let body = deletion_header n d @ concat (map u64_le ws) in body @ u64_le (checksum body))"

lemma length_deletion_header [simp]: "length (deletion_header n d) = 16" "length deletion_magic = 8"
  by (simp_all add: deletion_header_def deletion_magic_def)

lemma decode_written:
  assumes "n \<le> TERMINATED" "d \<le> n" "length (bits alive) = div_ceil n 64"
    "bitset_count alive = n - d" "next_set_bit alive n = None"
  shows "decode (deletion_bytes n d (bits alive)) n d = Inr alive"
proof -
  let ?body = "deletion_header n d @ concat (map u64_le (bits alive))" and ?bs = "deletion_bytes n d (bits alive)"
  have bs: "?bs = ?body @ u64_le (checksum ?body)" by (simp add: deletion_bytes_def Let_def)
  have len: "length ?bs = 24 + div_ceil n 64 * 8" using assms(3) by (simp add: bs)
  have head: "take 8 ?bs = deletion_magic" "take 4 (drop 8 ?bs) = u32_le (word_of_nat n)" "take 4 (drop 12 ?bs) = u32_le (word_of_nat d)"
    by (simp_all add: bs deletion_header_def)
  have u: "unat (word_of_nat n :: u32) = n" "unat (word_of_nat d :: u32) = d"
    using assms(1,2) by (auto simp: unat_of_nat TERMINATED_def)
  have stop: "length ?bs - 8 = length ?body" by (simp add: bs)
  have words: "map of_le (chunks_exact 8 (take (length ?body - 16) (drop 16 ?bs))) = bits alive"
    by (simp add: bs chunks_u64_le o_def)
  have tail: "take (length ?body) ?bs = ?body" "drop (length ?body) ?bs = u64_le (checksum ?body)" by (simp_all add: bs)
  show ?thesis
    unfolding decode_def Let_def stop words tail head using assms u len by (cases alive) simp
qed

lemma decode_accepts:
  assumes "decode bs n d = Inr alive" "n \<le> TERMINATED"
  shows "bitset_wf n alive" "card (bitset_docs alive) = n - d" "d \<le> n"
    "checksum (take (length bs - 8) bs) = of_le (drop (length bs - 8) bs)" "length bs = 24 + div_ceil n 64 * 8"
proof -
  have len: "length bs = 24 + div_ceil n 64 * 8" and d: "d \<le> n"
    and sum: "checksum (take (length bs - 8) bs) = of_le (drop (length bs - 8) bs)"
    and al: "alive = \<lparr>bits = map of_le (chunks_exact 8 (take (length bs - 8 - 16) (drop 16 bs)))\<rparr>"
    and c: "bitset_count alive = n - d" "next_set_bit alive n = None"
    using assms(1) unfolding decode_def Let_def by (simp_all split: if_splits)
  have "length (take (length bs - 8 - 16) (drop 16 bs)) = div_ceil n 64 * 8" using len by simp
  then have "length (bits alive) = div_ceil n 64" unfolding al by (simp add: length_chunks_8 del: length_take)
  then show wf: "bitset_wf n alive" using bitset_wf_bounds [OF assms(2), of alive] c(2) assms(2) by (simp add: bitset_wf_iff)
  show "card (bitset_docs alive) = n - d" using bitset_count_docs [OF wf] c(1) by simp
  show "d \<le> n" "checksum (take (length bs - 8) bs) = of_le (drop (length bs - 8) bs)" "length bs = 24 + div_ceil n 64 * 8"
    by (fact d, fact sum, fact len)
qed

lemma write_accepts:
  assumes "bitset_wf n alive" "card (bitset_docs alive) < n"
  shows "deletion_write dir ident n alive =
    Inr (\<lparr>dm_id = to_hex ident, dm_num_deleted = n - card (bitset_docs alive)\<rparr>,
         dir((''seg_'' @ to_hex ident @ ''.del'') \<mapsto> deletion_bytes n (n - card (bitset_docs alive)) (bits alive)))"
  using assms bitset_wf_bounds [of n alive] bitset_count_docs [OF assms(1)]
  by (simp add: deletion_write_def Let_def meta_path_def bitset_wf_iff deletion_bytes_def)

lemma of_le_inject: "length xs = 8 \<Longrightarrow> length ys = 8 \<Longrightarrow> (of_le xs :: u64) = of_le ys \<longleftrightarrow> xs = ys"
proof
  assume len: "length xs = 8" "length ys = 8" and "(of_le xs :: u64) = of_le ys"
  then have "to_le 8 (of_le xs :: u64) = to_le 8 (of_le ys :: u64)" by (simp only:)
  then show "xs = ys" using to_le_of_le [OF len(1), where 'a = 64] to_le_of_le [OF len(2), where 'a = 64] by simp
qed simp

text \<open>
  C21. A visibility file reads back: writing a bitset of \<open>n\<close> rows with at least one
  row deleted succeeds, touches no other file, records the number of deleted
  rows, and loading it through the recorded metadata returns the same bitset.
\<close>

theorem deletion_file_round_trip:
  assumes "bitset_wf n alive" and "card (bitset_docs alive) < n"
  shows "\<exists>m dir'. deletion_write dir ident n alive = Inr (m, dir') \<and> dm_id m = to_hex ident \<and>
    dm_num_deleted m = n - card (bitset_docs alive) \<and> deletion_load dir' m n = Inr alive \<and>
    (\<forall>path. path \<noteq> ''seg_'' @ to_hex ident @ ''.del'' \<longrightarrow> dir' path = dir path)"
proof -
  have b: "n \<le> TERMINATED" "length (bits alive) = div_ceil n 64" using assms(1) by (auto simp: bitset_wf_iff)
  have "decode (deletion_bytes n (n - card (bitset_docs alive)) (bits alive)) n (n - card (bitset_docs alive)) = Inr alive"
    using decode_written [of n "n - card (bitset_docs alive)" alive] assms bitset_wf_bounds [OF b] bitset_count_docs [OF assms(1)] b
    by (simp add: bitset_wf_iff)
  moreover have "length (deletion_bytes n d (bits alive)) = 24 + div_ceil n 64 * 8" for d
    using b(2) by (simp add: deletion_bytes_def Let_def)
  ultimately show ?thesis using assms(2) by (auto simp: write_accepts [OF assms] deletion_load_def meta_path_def)
qed

text \<open>
  C27. Loading never yields a malformed bitset: whatever bytes the directory holds,
  a bitset that loads has exactly the words its rows need, no bit beyond the last
  row, and as many rows alive as the metadata says.
\<close>

theorem loaded_bitset_well_formed:
  assumes "deletion_load dir m n = Inr alive" and "n \<le> TERMINATED"
  shows "bitset_wf n alive \<and> card (bitset_docs alive) = n - dm_num_deleted m \<and> card (bitset_docs alive) < n"
proof -
  obtain bs where "decode bs n (dm_num_deleted m) = Inr alive" "dm_num_deleted m \<noteq> 0"
    using assms(1) by (auto simp: deletion_load_def split: if_splits sum.splits option.splits)
  then show ?thesis using decode_accepts [OF _ assms(2), of bs "dm_num_deleted m" alive] by simp
qed

text \<open>
  C28. The checksum detects every change of a single byte: if a file decodes, the file
  with any one byte replaced by a different one is rejected.
\<close>

theorem decode_rejects_changed_byte:
  assumes "decode bs n d = Inr alive" and "n \<le> TERMINATED" and "i < length bs" and "b \<noteq> bs ! i"
  shows "decode (bs[i := b]) n d = Inl (Corruption ''invalid row deletion bitset'')"
proof -
  note acc = decode_accepts [OF assms(1,2)]
  let ?stop = "length bs - 8"
  have "checksum (take ?stop (bs[i := b])) \<noteq> of_le (drop ?stop (bs[i := b]))"
  proof (cases "i < ?stop")
    case True
    then have "checksum ((take ?stop bs)[i := b]) \<noteq> checksum (take ?stop bs)"
      using assms(4) by (intro checksum_one_byte) simp_all
    then show ?thesis using acc(4) True by (simp add: take_update_swap)
  next
    case False
    then have "drop ?stop (bs[i := b]) = (drop ?stop bs)[i - ?stop := b]" by (simp add: drop_update_swap)
    moreover have "(drop ?stop bs)[i - ?stop := b] \<noteq> drop ?stop bs"
      using False assms(3,4) by (metis add_diff_inverse_nat diff_le_self length_drop less_diff_conv2 nth_drop nth_list_update_eq
          diff_less_mono not_less)
    moreover have "length (drop ?stop bs) = 8" using acc(5) by simp
    ultimately have "of_le (drop ?stop (bs[i := b])) \<noteq> (of_le (drop ?stop bs) :: u64)" by (simp add: of_le_inject)
    then show ?thesis using acc(4) False by simp
  qed
  then show ?thesis unfolding decode_def Let_def by (simp add: acc(5))
qed

section \<open>Remapped tombstones\<close>

lemma wbit_clear_mask:
  fixes ws :: "u64 list"
  assumes "i < length ws"
  shows "wbit (ws[i := ws ! i AND NOT m]) k \<longleftrightarrow> wbit ws k \<and> \<not> (k div 64 = i \<and> bit m (k mod 64))"
  using wbit_update [OF assms, of "ws ! i AND NOT m" k] assms by (auto simp: bit_and_iff bit_not_iff) (auto simp: wbit_def)

lemma shifted_mask_bits:
  fixes dead :: u64
  assumes "out = start div 64" "shift = start mod 64"
  shows "k div 64 = out \<and> bit (push_bit shift dead) (k mod 64) \<or>
         shift \<noteq> 0 \<and> k div 64 = out + 1 \<and> bit (drop_bit (64 - shift) dead) (k mod 64) \<longleftrightarrow>
         start \<le> k \<and> bit dead (k - start)"
proof -
  have s: "start = out * 64 + shift" "shift < 64" using assms by auto
  have d64: "\<not> bit dead j" if "64 \<le> j" for j using bit_imp_le_length [of dead j] that by auto
  have k: "k = k div 64 * 64 + k mod 64" "k mod 64 < 64" by simp_all
  consider "k div 64 < out" | "k div 64 = out" | "k div 64 = out + 1" | "out + 2 \<le> k div 64" by linarith
  then show ?thesis
  proof cases
    case 1
    then have "k < start" using s k by linarith
    then show ?thesis using 1 by simp
  next
    case 2
    have "start \<le> k \<longleftrightarrow> shift \<le> k mod 64" "k - start = k mod 64 - shift" using 2 s k by linarith+
    then show ?thesis using 2 by (auto simp: bit_push_bit_iff)
  next
    case 3
    have "start \<le> k" "k - start = 64 - shift + k mod 64" using 3 s k by linarith+
    then show ?thesis using 3 d64 [of "64 + k mod 64"] by (cases "shift = 0") (auto simp: bit_drop_bit_eq)
  next
    case 4
    then have "64 \<le> k - start" using s k by linarith
    then show ?thesis using 4 d64 by simp
  qed
qed

lemma bit_padding: "v \<le> 64 \<Longrightarrow> j < 64 \<Longrightarrow> bit (if v = 64 then - 1 else push_bit v 1 - 1 :: u64) j \<longleftrightarrow> j < v"
  using bit_below [of v j, where 'a = 64] by auto

text \<open>The documents of one source word that are dead.\<close>

definition dead_rows :: "nat \<Rightarrow> nat \<Rightarrow> (nat \<times> u64) list \<Rightarrow> nat set" where
  "dead_rows num_docs offset ws =
     {k. \<exists>(i, w) \<in> set ws. offset + i * 64 \<le> k \<and> k < offset + i * 64 + 64 \<and> k < offset + num_docs \<and> \<not> bit w (k - (offset + i * 64))}"

lemma append_dead_words_docs:
  assumes "\<forall>(i, w) \<in> set ws. i * 64 < n" "offset + n \<le> length (bits t) * 64"
  shows "\<exists>t'. append_dead_words n offset ws t = Some t' \<and> length (bits t') = length (bits t) \<and>
    bitset_docs t' = bitset_docs t - dead_rows n offset ws"
  using assms
proof (induction n offset ws t rule: append_dead_words.induct)
  case (2 n offset i w ws t)
  define valid where "valid = min (n - i * 64) 64"
  define dead where "dead = NOT w AND (if valid = 64 then - 1 else push_bit valid 1 - 1 :: u64)"
  define start where "start = offset + i * 64"
  define out where "out = start div 64"
  define shift where "shift = start mod 64"
  define t1 where "t1 = t\<lparr>bits := (bits t)[out := bits t ! out AND NOT (push_bit shift dead)]\<rparr>"
  define t2 where "t2 = (if shift \<noteq> 0 \<and> out + 1 < length (bits t1)
    then t1\<lparr>bits := (bits t1)[out + 1 := bits t1 ! (out + 1) AND NOT (drop_bit (64 - shift) dead)]\<rparr> else t1)"
  have i: "i * 64 < n" using 2(2) by simp
  have out: "out < length (bits t)" using i 2(3) by (simp add: out_def start_def div_less_iff_less_mult)
  have step: "append_dead_words n offset ((i, w) # ws) t = append_dead_words n offset ws t2"
    using i out by (simp add: Let_def valid_def [symmetric] dead_def [symmetric] start_def [symmetric] out_def [symmetric]
        shift_def [symmetric] t1_def [symmetric]) (simp add: t2_def t1_def)
  have len: "length (bits t2) = length (bits t)" by (simp add: t2_def t1_def)
  have d: "bit dead j \<longleftrightarrow> j < 64 \<and> i * 64 + j < n \<and> \<not> bit w j" for j
  proof (cases "j < 64")
    case True
    then show ?thesis using bit_padding [of valid j] i by (auto simp: dead_def bit_and_iff bit_not_iff valid_def)
  next
    case False
    then show ?thesis using bit_imp_le_length [of dead j] by auto
  qed
  have dr: "k \<in> dead_rows n offset [(i, w)] \<longleftrightarrow> start \<le> k \<and> bit dead (k - start)" for k
  proof (cases "start \<le> k")
    case True
    then obtain j where "k = start + j" using le_Suc_ex by blast
    then show ?thesis by (simp add: dead_rows_def d start_def)
  qed (simp add: dead_rows_def start_def)
  have t2: "wbit (bits t2) k \<longleftrightarrow> wbit (bits t) k \<and> \<not> (start \<le> k \<and> bit dead (k - start))" for k
  proof -
    have t1: "wbit (bits t1) k \<longleftrightarrow> wbit (bits t) k \<and> \<not> (k div 64 = out \<and> bit (push_bit shift dead) (k mod 64))"
      using wbit_clear_mask [OF out] by (simp add: t1_def)
    have "wbit (bits t2) k \<longleftrightarrow> wbit (bits t1) k \<and> \<not> (shift \<noteq> 0 \<and> k div 64 = out + 1 \<and> bit (drop_bit (64 - shift) dead) (k mod 64))"
    proof (cases "shift \<noteq> 0 \<and> out + 1 < length (bits t1)")
      case True
      then show ?thesis using wbit_clear_mask [of "out + 1" "bits t1"] by (simp add: t2_def)
    next
      case False
      then show ?thesis using wbit_bound [of "bits t1" k] by (auto simp: t2_def wbit_def)
    qed
    then show ?thesis using t1 shifted_mask_bits [OF out_def shift_def, of k dead] by blast
  qed
  have docs: "bitset_docs t2 = bitset_docs t - dead_rows n offset [(i, w)]"
    by (rule set_eqI) (simp add: bitset_docs_wbit t2 dr)
  obtain t' where "append_dead_words n offset ws t2 = Some t'" "length (bits t') = length (bits t2)"
      "bitset_docs t' = bitset_docs t2 - dead_rows n offset ws"
    using 2(1) [OF _ valid_def _ dead_def start_def out_def shift_def out t1_def t2_def] i 2(2,3) len by auto
  then show ?case using step docs len by (auto simp: dead_rows_def)
qed (simp add: dead_rows_def)

text \<open>
  C20. Tombstones survive a merge: copying the visibility of a source into the row
  space of the merged segment at any offset, aligned to a bitmap word or not,
  clears exactly the rows that were dead in the source and no other row; an offset
  outside the target is an error.
\<close>

theorem append_dead_rows_docs:
  assumes "bitset_wf n source"
  shows "if offset + n \<le> length (bits target) * 64
    then \<exists>t'. append_dead_rows target source n offset = Some (Inr t') \<and> length (bits t') = length (bits target) \<and>
      bitset_docs t' = bitset_docs target - (\<lambda>d. offset + d) ` ({..<n} - bitset_docs source)
    else append_dead_rows target source n offset = Some (Inl (Corruption ''deletion remap exceeds output row space''))"
proof -
  have room: "div_ceil (offset + n) 64 > length (bits target) \<longleftrightarrow> \<not> offset + n \<le> length (bits target) * 64"
    by (auto simp: div_ceil_def less_eq_div_iff_mult_less_eq Suc_le_eq [symmetric] not_le)
  have len: "length (bits source) = div_ceil n 64" using assms by (simp add: bitset_wf_iff)
  have words: "\<forall>(i, w) \<in> set (enumerate 0 (bits source)). i * 64 < n"
    by (auto simp: in_set_enumerate_eq len div_ceil_def less_eq_div_iff_mult_less_eq Suc_le_eq [symmetric])
  have "dead_rows n offset (enumerate 0 (bits source)) = (\<lambda>d. offset + d) ` ({..<n} - bitset_docs source)" (is "?l = ?r")
  proof (rule set_eqI)
    fix k
    show "k \<in> ?l \<longleftrightarrow> k \<in> ?r"
    proof (cases "offset \<le> k")
      case True
      then obtain d where k: "k = offset + d" using le_Suc_ex by blast
      have pos: "(i * 64 \<le> d \<and> d < i * 64 + 64) \<longleftrightarrow> i = d div 64" for i by auto
      have "k \<in> ?l \<longleftrightarrow> d < n \<and> (\<exists>i < length (bits source). (i * 64 \<le> d \<and> d < i * 64 + 64) \<and> \<not> bit (bits source ! i) (d - i * 64))"
        by (auto simp: dead_rows_def in_set_enumerate_eq k)
      also have "\<dots> \<longleftrightarrow> d < n \<and> \<not> wbit (bits source) d"
        unfolding pos wbit_def using in_words [of d n] len by (auto simp: minus_div_mult_eq_mod)
      also have "\<dots> \<longleftrightarrow> k \<in> ?r" by (auto simp: k mem_bitset_docs)
      finally show ?thesis .
    qed (auto simp: dead_rows_def)
  qed
  then show ?thesis using append_dead_words_docs [OF words, of offset target] room by (auto simp: append_dead_rows_def)
qed

section \<open>Deleting by key\<close>

lemma text_ordinal_lookup:
  assumes wf: "reader_wf r" "fr_column_type r = ColTextOrdinal"
    and sz: "sum_list (map (\<lambda>b. length (cb_raw_dict b)) (fr_blocks r)) < 2 ^ 32"
  shows "\<exists>ks. length ks < 2 ^ 32 \<and> (\<forall>s. \<exists>x. text_ordinal r s = Some x \<and> (\<forall>p. x = Some p \<longleftrightarrow> p < length ks \<and> ks ! p = s))"
proof -
  obtain ks where K: "dict_keys_ok ks" "length (write_dict ks) < 2 ^ 32"
      "\<exists>state. build_text_state (fr_blocks r) = Some state \<and> ts_global_dict state = new_lazy (write_dict ks) (length ks)"
  proof (cases "\<exists>b0 \<in> set (fr_blocks r). cb_dict b0 \<noteq> None")
    case True
    then show thesis using global_dictionary [OF wf sz] that by blast
  next
    case False
    then have "filter (\<lambda>b. cb_dict b \<noteq> None) (fr_blocks r) = []" "List.find (\<lambda>b. cb_dict b \<noteq> None) (fr_blocks r) = None"
      by (auto simp: find_None_iff filter_empty_conv)
    then show thesis using that [of "[]"] by (auto simp: build_text_state_def dict_keys_ok_def)
  qed
  have "length ks < 2 ^ 32" using K(2) length_write_dict [of ks] by simp
  moreover have "\<exists>x. text_ordinal r s = Some x \<and> (\<forall>p. x = Some p \<longleftrightarrow> p < length ks \<and> ks ! p = s)" for s
    using written_dict_ordinal [OF K(1,2), of s] K(3) wf(2) by (auto simp: text_ordinal_def)
  ultimately show ?thesis by blast
qed

text \<open>Every row holds a string through a 32-bit ordinal, or nothing.\<close>

definition text_rows_ok :: "fast_field_reader \<Rightarrow> bool" where
  "text_rows_ok r \<longleftrightarrow> (\<forall>doc < fr_num_docs r. case get_text r doc of
     Some (Some s) \<Rightarrow> (case get_u64 r doc of Some ord \<Rightarrow> unat ord < 2 ^ 32 | None \<Rightarrow> False)
   | _ \<Rightarrow> get_u64 r doc = Some FAST_FIELD_MISSING)"

lemma target_ordinals_loop_eq:
  assumes "\<forall>s. \<exists>x. text_ordinal r s = Some x" "\<forall>i. check i = None"
  shows "target_ordinals_loop r check i ks ords = Some (Inr (ords \<union> {word_of_nat p | p k. k \<in> set ks \<and> text_ordinal r k = Some (Some p)}))"
  using assms(1)
proof (induction ks arbitrary: i ords)
  case (Cons k ks)
  obtain x where x: "text_ordinal r k = Some x" using assms(1) by blast
  then show ?case using Cons assms(2) by (cases x) (auto split: option.split)
qed simp

lemma text_row_hit:
  assumes wf: "reader_wf r" "fr_column_type r = ColTextOrdinal"
    and sz: "sum_list (map (\<lambda>b. length (cb_raw_dict b)) (fr_blocks r)) < 2 ^ 32" and rows: "text_rows_ok r"
    and D: "length dict < 2 ^ 32" "\<forall>s. \<exists>x. text_ordinal r s = Some x \<and> (\<forall>p. x = Some p \<longleftrightarrow> p < length dict \<and> dict ! p = s)"
    and doc: "doc < fr_num_docs r"
  shows "(\<exists>p k. the (get_u64 r doc) = word_of_nat p \<and> k \<in> K \<and> text_ordinal r k = Some (Some p)) \<longleftrightarrow>
    (\<exists>k \<in> K. get_text r doc = Some (Some k))"
proof -
  have small: "unat (word_of_nat p :: u64) = p" "p < 2 ^ 32" "dict ! p = k" if "text_ordinal r k = Some (Some p)" for p k
  proof -
    obtain x where x: "text_ordinal r k = Some x" "\<forall>p. x = Some p \<longleftrightarrow> p < length dict \<and> dict ! p = k" using D(2) by blast
    have "x = Some p" using x(1) that by simp
    then have "p < length dict \<and> dict ! p = k" using x(2) [THEN spec, of p] by simp
    then show "p < 2 ^ 32" "dict ! p = k" using D(1) by simp_all
    then show "unat (word_of_nat p :: u64) = p" by (simp add: unat_of_nat)
  qed
  show ?thesis
  proof (cases "\<exists>s. get_text r doc = Some (Some s)")
    case True
    then obtain s where s: "get_text r doc = Some (Some s)" by blast
    then obtain ord where o: "get_u64 r doc = Some ord" "unat ord < 2 ^ 32"
      using rows [unfolded text_rows_ok_def, rule_format, OF doc] by (auto split: option.splits)
    have ts: "text_ordinal r s = Some (Some (unat ord))" using text_ordinal_of_doc [OF wf sz] s o by blast
    show ?thesis
    proof
      assume "\<exists>p k. the (get_u64 r doc) = word_of_nat p \<and> k \<in> K \<and> text_ordinal r k = Some (Some p)"
      then obtain p k where k: "ord = word_of_nat p" "k \<in> K" "text_ordinal r k = Some (Some p)" using o by auto
      then have "unat ord = p" using small(1) by simp
      then have "k = s" using small(3) [OF k(3)] small(3) [OF ts] by simp
      then show "\<exists>k \<in> K. get_text r doc = Some (Some k)" using s k(2) by blast
    next
      assume "\<exists>k \<in> K. get_text r doc = Some (Some k)"
      then have "s \<in> K" using s by auto
      moreover have "ord = word_of_nat (unat ord)" by simp
      ultimately show "\<exists>p k. the (get_u64 r doc) = word_of_nat p \<and> k \<in> K \<and> text_ordinal r k = Some (Some p)"
        using ts o(1) by (metis option.sel)
    qed
  next
    case False
    then have o: "get_u64 r doc = Some FAST_FIELD_MISSING"
      using rows [unfolded text_rows_ok_def, rule_format, OF doc] by (auto split: option.splits)
    have "FAST_FIELD_MISSING \<noteq> word_of_nat p" if "text_ordinal r k = Some (Some p)" for p k
      using small(1,2) [OF that] unat_missing by (auto dest!: arg_cong [of _ _ unat])
    then show ?thesis using False o by auto
  qed
qed

lemma clear_rows_docs:
  assumes "\<forall>i. check i = None"
  shows "\<exists>alive'. visit_values (clear_row ords check) start vs (alive, changed) =
      Inr (alive', changed \<or> (\<exists>i < length vs. vs ! i \<in> ords \<and> start + i \<in> bitset_docs alive)) \<and>
    length (bits alive') = length (bits alive) \<and> bitset_docs alive' = bitset_docs alive - {start + i | i. i < length vs \<and> vs ! i \<in> ords}"
proof (induction vs arbitrary: start alive changed)
  case (Cons v vs)
  show ?case
  proof (cases "start \<in> bitset_docs alive \<and> v \<in> ords")
    case True
    have r: "clear_row ords check (alive, changed) start v = Inr (bitset_clear alive start, True)"
      using True assms by (simp add: clear_row_def bitset_docs_def)
    obtain alive' where a: "visit_values (clear_row ords check) (Suc start) vs (bitset_clear alive start, True) = Inr (alive', True)"
        "length (bits alive') = length (bits alive)"
        "bitset_docs alive' = bitset_docs alive - {start} - {Suc start + i | i. i < length vs \<and> vs ! i \<in> ords}"
      using Cons.IH [of "Suc start" "bitset_clear alive start" True] by (auto simp: bitset_clear_docs)
    have "{start + i | i. i < length (v # vs) \<and> (v # vs) ! i \<in> ords} = insert start {Suc start + i | i. i < length vs \<and> vs ! i \<in> ords}"
      using True by (force simp: less_Suc_eq_0_disj)
    moreover have "\<exists>i < length (v # vs). (v # vs) ! i \<in> ords \<and> start + i \<in> bitset_docs alive" using True by (intro exI [of _ 0]) simp
    ultimately show ?thesis using a r by auto
  next
    case False
    have r: "clear_row ords check (alive, changed) start v = Inr (alive, changed)"
      using False assms by (auto simp: clear_row_def bitset_docs_def)
    have ex: "(\<exists>i < length (v # vs). (v # vs) ! i \<in> ords \<and> start + i \<in> bitset_docs alive) \<longleftrightarrow>
        (\<exists>i < length vs. vs ! i \<in> ords \<and> Suc start + i \<in> bitset_docs alive)"
      using False by (auto simp: less_Suc_eq_0_disj)
    have "bitset_docs alive - {start + i | i. i < length (v # vs) \<and> (v # vs) ! i \<in> ords} =
        bitset_docs alive - {Suc start + i | i. i < length vs \<and> vs ! i \<in> ords}"
      using False by (force simp: less_Suc_eq_0_disj)
    then show ?thesis using Cons.IH [of "Suc start" alive changed] r unfolding ex by simp
  qed
qed simp

text \<open>
  C6. Deleting by primary key: resolving a list of keys through the dictionary of an
  opened text column and scanning the column clears exactly the rows whose text is
  one of the keys, in whichever block they lie, and reports a change exactly when
  a row that was alive is cleared.
\<close>

theorem delete_keys_clears_rows:
  assumes "reader_open file toc = Some (Inr r)" "\<not> fr_multi r" "fr_column_type r = ColTextOrdinal"
    "sum_list (map (\<lambda>b. length (cb_raw_dict b)) (fr_blocks r)) < 2 ^ 32" "text_rows_ok r" "\<forall>i. check i = None"
  shows "\<exists>ordinals alive' changed. target_ordinals r (fr_num_docs r) ks check = Some (Inr ordinals) \<and>
    clear_target_rows r ordinals alive check = Some (Inr (alive', changed)) \<and> length (bits alive') = length (bits alive) \<and>
    bitset_docs alive' = bitset_docs alive - {doc. \<exists>k \<in> set ks. get_text r doc = Some (Some k)} \<and>
    (changed \<longleftrightarrow> bitset_docs alive' \<noteq> bitset_docs alive)"
proof -
  note wf = reader_open_wf [OF assms(1)]
  obtain dict where D: "length dict < 2 ^ 32" "\<forall>s. \<exists>x. text_ordinal r s = Some x \<and> (\<forall>p. x = Some p \<longleftrightarrow> p < length dict \<and> dict ! p = s)"
    using text_ordinal_lookup [OF wf assms(3,4)] by blast
  define ords :: "u64 set" where "ords = {word_of_nat p | p k. k \<in> set ks \<and> text_ordinal r k = Some (Some p)}"
  have t: "target_ordinals r (fr_num_docs r) ks check = Some (Inr ords)"
    using target_ordinals_loop_eq [OF _ assms(6), of r 0 ks "{}"] D(2) assms(2,3) by (auto simp: target_ordinals_def ords_def)
  have hit: "the (get_u64 r doc) \<in> ords \<longleftrightarrow> (\<exists>k \<in> set ks. get_text r doc = Some (Some k))" if doc: "doc < fr_num_docs r" for doc
    using text_row_hit [OF wf assms(3,4,5) D doc] by (simp add: ords_def)
  let ?vs = "map (\<lambda>doc. the (get_u64 r doc)) [0..<fr_num_docs r]"
  have rows: "{0 + i | i. i < length ?vs \<and> ?vs ! i \<in> ords} = {doc. \<exists>k \<in> set ks. get_text r doc = Some (Some k)}" (is "?l = ?r")
  proof (rule set_eqI)
    fix doc
    show "doc \<in> ?l \<longleftrightarrow> doc \<in> ?r" using hit [of doc] beyond_docs(5) [of doc r] by (cases "doc < fr_num_docs r") auto
  qed
  obtain alive' where a: "visit_values (clear_row ords check) 0 ?vs (alive, False) =
      Inr (alive', \<exists>i < length ?vs. ?vs ! i \<in> ords \<and> 0 + i \<in> bitset_docs alive)"
      "length (bits alive') = length (bits alive)" "bitset_docs alive' = bitset_docs alive - ?l"
    using clear_rows_docs [OF assms(6), of ords 0 ?vs alive False] by auto
  have "clear_target_rows r ords alive check = Some (Inr (alive', \<exists>i < length ?vs. ?vs ! i \<in> ords \<and> 0 + i \<in> bitset_docs alive))"
    using scan_values [OF wf assms(2), of "clear_row ords check" "(alive, False)"] a(1) by (simp add: clear_target_rows_def)
  moreover have "(\<exists>i < length ?vs. ?vs ! i \<in> ords \<and> 0 + i \<in> bitset_docs alive) \<longleftrightarrow> bitset_docs alive' \<noteq> bitset_docs alive"
    unfolding a(3) by blast
  ultimately show ?thesis using t a(2,3) unfolding rows by blast
qed

section \<open>Examples\<close>

definition one_dead :: doc_bitset where
  "one_dead = bitset_clear (bitset_all 65) 0"

lemma one_dead_wf: "bitset_wf 65 one_dead" "bitset_docs one_dead = {1..<65}" "card (bitset_docs one_dead) = 64"
proof -
  show d: "bitset_docs one_dead = {1..<65}" by (auto simp: one_dead_def bitset_clear_docs bitset_all_docs)
  then show "card (bitset_docs one_dead) = 64" by simp
  show "bitset_wf 65 one_dead" using d by (auto simp: bitset_wf_iff TERMINATED_def one_dead_def)
qed

theorem deletion_file_round_trip_witness:
  "\<exists>m dir'. deletion_write Map.empty 7 65 one_dead = Inr (m, dir') \<and> dm_num_deleted m = 1 \<and> deletion_load dir' m 65 = Inr one_dead"
  using deletion_file_round_trip [OF one_dead_wf(1), of Map.empty 7] one_dead_wf(3) by auto

lemma one_dead_file:
  "\<exists>m dir'. deletion_load dir' m 65 = Inr one_dead \<and> dm_num_deleted m = 1"
  "decode (deletion_bytes 65 1 (bits one_dead)) 65 1 = Inr one_dead"
proof -
  have w: "bitset_count one_dead = 64" "next_set_bit one_dead 65 = None" "length (bits one_dead) = div_ceil 65 64"
    using one_dead_wf bitset_count_docs [OF one_dead_wf(1)] bitset_wf_bounds [of 65 one_dead] by (auto simp: bitset_wf_iff)
  show dec: "decode (deletion_bytes 65 1 (bits one_dead)) 65 1 = Inr one_dead"
    using decode_written [of 65 1 one_dead] w by (simp add: TERMINATED_def)
  let ?m = "\<lparr>dm_id = to_hex 7, dm_num_deleted = 1\<rparr>"
  have "length (deletion_bytes 65 1 (bits one_dead)) = 24 + div_ceil 65 64 * 8" using w(3) by (simp add: deletion_bytes_def Let_def)
  then have "deletion_load [''seg_'' @ to_hex 7 @ ''.del'' \<mapsto> deletion_bytes 65 1 (bits one_dead)] ?m 65 = Inr one_dead"
    using dec by (simp add: deletion_load_def meta_path_def)
  then show "\<exists>m dir'. deletion_load dir' m 65 = Inr one_dead \<and> dm_num_deleted m = 1"
    by (intro exI [of _ ?m] exI [of _ "[''seg_'' @ to_hex 7 @ ''.del'' \<mapsto> deletion_bytes 65 1 (bits one_dead)]"]) simp
qed

theorem loaded_bitset_well_formed_witness:
  "\<exists>m dir. deletion_load dir m 65 = Inr one_dead \<and> card (bitset_docs one_dead) = 65 - dm_num_deleted m"
  using loaded_bitset_well_formed [of _ _ 65 one_dead] one_dead_file(1) by (auto simp: TERMINATED_def)

theorem decode_rejects_changed_byte_witness:
  "decode ((deletion_bytes 65 1 (bits one_dead))[0 := 3]) 65 1 = Inl (Corruption ''invalid row deletion bitset'')"
  using decode_rejects_changed_byte [OF one_dead_file(2), of 0 3]
  by (simp add: TERMINATED_def deletion_bytes_def Let_def deletion_header_def deletion_magic_def)

theorem append_dead_rows_docs_witness:
  "\<exists>t'. append_dead_rows (bitset_all 130) one_dead 65 63 = Some (Inr t') \<and> bitset_docs t' = {..<130} - {63}"
proof -
  have "{..<65} - bitset_docs one_dead = {0}" unfolding one_dead_wf(2) by auto
  then show ?thesis using append_dead_rows_docs [OF one_dead_wf(1), of 63 "bitset_all 130"]
    by (auto simp: bitset_all_docs div_ceil_def)
qed

theorem delete_keys_clears_rows_witness:
  "\<exists>r ordinals alive'. reader_open (column_bytes two_texts) two_texts_toc = Some (Inr r) \<and>
     target_ordinals r 2 [[97], [99]] (\<lambda>_. None) = Some (Inr ordinals) \<and>
     clear_target_rows r ordinals (bitset_all 2) (\<lambda>_. None) = Some (Inr (alive', True)) \<and> bitset_docs alive' = {0}"
proof -
  obtain r where r: "reader_open (column_bytes two_texts) two_texts_toc = Some (Inr r)" using two_texts_open by blast
  note rd = two_texts_reads [OF r]
  have ok: "text_rows_ok r"
    using two_texts_ordinals(2) [OF r, of 0] two_texts_ordinals(2) [OF r, of 1] rd(3,5,6) by (auto simp: text_rows_ok_def less_2_cases_iff)
  have go: "\<forall>i. (\<lambda>_. None :: summa_error option) i = None" by simp
  have gone: "bitset_docs (bitset_all 2) - {doc. \<exists>k \<in> set [[97], [99]]. get_text r doc = Some (Some k)} = {0}"
    using rd(5,6) by (auto simp: bitset_all_docs less_2_cases_iff)
  from delete_keys_clears_rows [OF r rd(2,1) two_texts_ordinals(1) [OF r] ok go, of "[[97], [99]]" "bitset_all 2"]
  obtain ordinals alive' changed where d: "target_ordinals r (fr_num_docs r) [[97], [99]] (\<lambda>_. None) = Some (Inr ordinals)"
      "clear_target_rows r ordinals (bitset_all 2) (\<lambda>_. None) = Some (Inr (alive', changed))"
      "bitset_docs alive' = bitset_docs (bitset_all 2) - {doc. \<exists>k \<in> set [[97], [99]]. get_text r doc = Some (Some k)}"
      "changed \<longleftrightarrow> bitset_docs alive' \<noteq> bitset_docs (bitset_all 2)"
    by blast
  have "1 \<in> bitset_docs (bitset_all 2)" by (simp add: bitset_all_docs)
  then have "bitset_docs (bitset_all 2) \<noteq> {0}" by (metis empty_iff insert_iff one_neq_zero)
  then have "changed" using d(3,4) unfolding gone by simp
  then show ?thesis using r d(1,2) d(3) [unfolded gone] rd(3) by (intro exI [of _ r] exI [of _ ordinals] exI [of _ alive']) simp
qed

end
