(* ===== verification/Monotone.thy ===== *)
theory Monotone
  imports FastFieldBatch "HOL-Library.Monad_Syntax"
begin

text \<open>
  Blocks of monotone 32-bit integers (\<open>structures/monotone.rs\<close>): a directory of
  fixed-size entries followed by one payload per 128 values, each bit-packed or in
  the Elias-Fano layout of low bits and a unary bitmap of high parts, whichever is
  smaller. The theorems read every value back through random access and through
  block decoding, and show the two-level binary search to be the lower bound.
\<close>

section \<open>Reading\<close>

definition BLOCK :: nat where "BLOCK = 128"

definition ENTRY :: nat where "ENTRY = 16"

definition mono_invalid :: summa_error where
  "mono_invalid = Corruption ''invalid monotone integer block''"

definition packed :: "nat \<Rightarrow> nat \<Rightarrow> nat" where
  "packed count bits = div_ceil (count * bits) 8"

record mono_block =
  mb_bytes :: bytes
  mb_base :: nat
  mb_count :: nat
  mb_bits :: nat
  mb_codec :: u8

text \<open>Subtractions below zero and shifts by 64 or more panic, as slices out of range do.\<close>

definition block_at :: "bytes \<Rightarrow> nat \<Rightarrow> nat \<Rightarrow> mono_block option" where
  "block_at bytes count block = do {
     entry \<leftarrow> slice bytes (block * ENTRY) (block * ENTRY + ENTRY);
     if count < block * BLOCK then None
     else do {
       base \<leftarrow> le_u32 entry 0;
       top \<leftarrow> le_u32 entry 4;
       offset \<leftarrow> le_u32 entry 8;
       let n = min (count - block * BLOCK) BLOCK;
       let bits = unat (entry ! 12);
       if entry ! 13 = 1 \<and> (top < base \<or> bits \<ge> 64) then None
       else do {
         let len = packed n bits + (if entry ! 13 = 1 then div_ceil (drop_bit bits (top - base) + n) 8 else 0);
         bs \<leftarrow> slice bytes offset (offset + len);
         Some \<lparr>mb_bytes = bs, mb_base = base, mb_count = n, mb_bits = bits, mb_codec = entry ! 13\<rparr> } } }"

definition high_word :: "bytes \<Rightarrow> u64" where
  "high_word chunk = of_le (chunk @ replicate (8 - length chunk) 0)"

fun select_high :: "(nat \<times> bytes) list \<Rightarrow> nat \<Rightarrow> nat option" where
  "select_high [] remaining = None"
| "select_high ((i, chunk) # cs) remaining =
     (let w = high_word chunk; count = count_ones w
      in if remaining < count then Some (i * 64 + trailing_zeros (((\<lambda>w. w AND (w - 1)) ^^ remaining) w))
         else select_high cs (remaining - count))"

definition block_offset :: "mono_block \<Rightarrow> nat \<Rightarrow> u64 option" where
  "block_offset b index = do {
     let low_bytes = packed (mb_count b) (mb_bits b);
     lows \<leftarrow> slice (mb_bytes b) 0 low_bytes;
     let low = (ucast (ucast (bitpack_read lows (mb_bits b) index) :: u32) :: u64);
     if mb_codec b = 0 then Some low
     else do {
       highs \<leftarrow> slice_from (mb_bytes b) low_bytes;
       p \<leftarrow> select_high (enumerate 0 (chunks 8 highs)) index;
       if p < index then None else Some (push_bit (mb_bits b) (word_of_nat (p - index)) OR low) } }"

definition block_get :: "mono_block \<Rightarrow> nat \<Rightarrow> nat option" where
  "block_get b index = map_option (\<lambda>offset. as_u32 (mb_base b + unat (ucast offset :: u32))) (block_offset b index)"

definition mono_get :: "bytes \<Rightarrow> nat \<Rightarrow> nat \<Rightarrow> nat option" where
  "mono_get bytes count index =
     (if index < count then do { b \<leftarrow> block_at bytes count (index div BLOCK); block_get b (index mod BLOCK) } else None)"

text \<open>The calls of the visitor, in order.\<close>

definition for_each_offset :: "mono_block \<Rightarrow> (nat \<times> u64) list option" where
  "for_each_offset b = do {
     let low_bytes = packed (mb_count b) (mb_bits b);
     lows \<leftarrow> slice (mb_bytes b) 0 low_bytes;
     if mb_codec b = 0 then Some (map (\<lambda>i. (i, bitpack_read lows (mb_bits b) i)) [0..<mb_count b])
     else do {
       highs \<leftarrow> slice_from (mb_bytes b) low_bytes;
       let ps = concat (map (\<lambda>(word, chunk). map (\<lambda>t. word * 64 + t) (drain_bits (high_word chunk))) (enumerate 0 (chunks 8 highs)));
       if list_ex (\<lambda>(i, p). p < i) (enumerate 0 ps) then None
       else Some (map (\<lambda>(i, p). (i, push_bit (mb_bits b) (word_of_nat (p - i)) OR bitpack_read lows (mb_bits b) i)) (enumerate 0 ps)) } }"

fun write_offsets :: "nat \<Rightarrow> (nat \<times> u64) list \<Rightarrow> nat list \<Rightarrow> nat list option" where
  "write_offsets base [] out = Some out"
| "write_offsets base ((i, offset) # os) out =
     (if i < length out then write_offsets base os (out[i := as_u32 (base + unat (ucast offset :: u32))]) else None)"

definition decode_block :: "bytes \<Rightarrow> nat \<Rightarrow> nat \<Rightarrow> nat list \<Rightarrow> nat list option" where
  "decode_block bytes count block out = do {
     b \<leftarrow> block_at bytes count block;
     if length out \<noteq> mb_count b then None
     else do { os \<leftarrow> for_each_offset b; write_offsets (mb_base b) os out } }"

function bisect :: "(nat \<Rightarrow> bool option) \<Rightarrow> nat \<Rightarrow> nat \<Rightarrow> nat option" where
  "bisect below low high =
     (if low < high
      then let mid = low + (high - low) div 2
           in case below mid of
                None \<Rightarrow> None
              | Some lt \<Rightarrow> if lt then bisect below (mid + 1) high else bisect below low mid
      else Some low)"
  by pat_completeness auto
termination
  by (relation "measure (\<lambda>(below, low, high). high - low)") auto

declare bisect.simps [simp del]

definition lower_bound :: "bytes \<Rightarrow> nat \<Rightarrow> nat \<Rightarrow> nat option" where
  "lower_bound bytes count v = do {
     let blocks = div_ceil count BLOCK;
     low \<leftarrow> bisect (\<lambda>mid. map_option (\<lambda>top. top < v) (le_u32 bytes (mid * ENTRY + 4))) 0 blocks;
     if low = blocks then Some count
     else do {
       b \<leftarrow> block_at bytes count low;
       i \<leftarrow> bisect (\<lambda>mid. map_option (\<lambda>x. x < v) (block_get b mid)) 0 (mb_count b);
       Some (low * BLOCK + i) } }"

section \<open>Writing\<close>

definition mono_width :: "u64 list \<Rightarrow> nat" where
  "mono_width vs = bits_needed_u64 (last vs - hd vs)"

definition mono_lower :: "u64 list \<Rightarrow> nat" where
  "mono_lower vs = bits_needed_u64 ((last vs - hd vs + 1) div word_of_nat (length vs)) - 1"

definition mono_upper_bits :: "u64 list \<Rightarrow> nat" where
  "mono_upper_bits vs = unat (drop_bit (mono_lower vs) (last vs - hd vs)) + length vs"

definition mono_codec :: "u64 list \<Rightarrow> u8" where
  "mono_codec vs =
     (if packed (length vs) (mono_lower vs) + div_ceil (mono_upper_bits vs) 8 < packed (length vs) (mono_width vs) then 1 else 0)"

definition mono_bits :: "u64 list \<Rightarrow> nat" where
  "mono_bits vs = (if mono_codec vs = 1 then mono_lower vs else mono_width vs)"

fun set_high_bits :: "u64 \<Rightarrow> nat \<Rightarrow> nat \<Rightarrow> (nat \<times> u64) list \<Rightarrow> bytes \<Rightarrow> bytes option" where
  "set_high_bits base bits start [] out = Some out"
| "set_high_bits base bits start ((j, v) # vs) out =
     (let p = unat (drop_bit bits (v - base)) + j; at = start + p div 8
      in if at < length out
         then set_high_bits base bits start vs (out[at := out ! at OR push_bit (p mod 8) 1])
         else None)"

definition mono_lows :: "u64 list \<Rightarrow> u64 list" where
  "mono_lows vs = map (\<lambda>v. (v - hd vs) AND (push_bit (mono_bits vs) 1 - 1)) vs"

definition encode_payload :: "u64 list \<Rightarrow> bytes \<Rightarrow> bytes option" where
  "encode_payload vs out =
     (case bitpack_write (mono_lows vs) (mono_bits vs) out of
        None \<Rightarrow> None
      | Some out' \<Rightarrow>
          if mono_codec vs = 1
          then set_high_bits (hd vs) (mono_bits vs) (length out') (enumerate 0 vs)
                 (out' @ replicate (div_ceil (mono_upper_bits vs) 8) 0)
          else Some out')"

definition encode_entry :: "u64 list \<Rightarrow> nat \<Rightarrow> bytes" where
  "encode_entry vs offset =
     u32_le (ucast (hd vs)) @ u32_le (ucast (last vs)) @ u32_le (word_of_nat offset) @ [word_of_nat (mono_bits vs), mono_codec vs]"

definition encode_block :: "nat \<Rightarrow> u64 list \<Rightarrow> bytes \<Rightarrow> (summa_error + bytes) option" where
  "encode_block i vs out =
     (if length out \<ge> 2 ^ 32 then Some (Inl mono_invalid)
      else if length out < i * ENTRY + ENTRY then None
      else map_option Inr (encode_payload vs
             (take (i * ENTRY) out @ encode_entry vs (length out) @ drop (i * ENTRY + 14) out)))"

fun encode_blocks :: "(nat \<times> u64 list) list \<Rightarrow> bytes \<Rightarrow> (summa_error + bytes) option" where
  "encode_blocks [] out = Some (Inr out)"
| "encode_blocks ((i, vs) # bs) out =
     (case encode_block i vs out of
        None \<Rightarrow> None
      | Some (Inl e) \<Rightarrow> Some (Inl e)
      | Some (Inr out') \<Rightarrow> encode_blocks bs out')"

definition encode :: "u64 list \<Rightarrow> (summa_error + bytes) option" where
  "encode vs =
     (if list_ex (\<lambda>v. v > 0xFFFFFFFF) vs \<or> list_ex (\<lambda>(a, b). a > b) (zip vs (tl vs)) then Some (Inl mono_invalid)
      else encode_blocks (enumerate 0 (chunks BLOCK vs)) (replicate (div_ceil (length vs) BLOCK * ENTRY) 0))"

section \<open>The bitmap of high parts\<close>

lemma select_high_nth:
  "select_high (enumerate n cs) r =
     (if r < length (wpositions (map high_word cs)) then Some (n * 64 + wpositions (map high_word cs) ! r) else None)"
proof (induction cs arbitrary: n r)
  case (Cons c cs)
  show ?case
  proof (cases "r < count_ones (high_word c)")
    case True
    then have "r < length (bit_positions (high_word c))" by (simp add: count_ones_def)
    then show ?thesis using True clear_lowest_positions [OF True] by (simp add: wpositions_Cons nth_append Let_def)
  next
    case False
    then show ?thesis using Cons.IH [of "Suc n" "r - count_ones (high_word c)"]
      by (auto simp: wpositions_Cons nth_append Let_def count_ones_def)
  qed
qed simp

lemma bit_high_word: "length c \<le> 8 \<Longrightarrow> bit (high_word c) j \<longleftrightarrow> wbit c j"
  unfolding high_word_def by (subst bit_of_le_wbit) (auto simp: wbit_append dest: wbit_bound)

lemma wbit_chunks: "wbit (map high_word (chunks 8 bs)) k \<longleftrightarrow> wbit bs k"
proof (induction "8 :: nat" bs arbitrary: k rule: chunks.induct)
  case (1 bs)
  show ?case
  proof (cases "bs = []")
    case False
    have "wbit bs k \<longleftrightarrow> wbit (take 8 bs @ drop 8 bs) k" by simp
    also have "\<dots> \<longleftrightarrow> (if k < 64 then wbit (take 8 bs) k else wbit (drop 8 bs) (k - 64))"
    proof (cases "length bs < 8")
      case True
      then have "drop 8 bs = []" "take 8 bs = bs" by simp_all
      moreover have "\<not> wbit bs k" if "64 \<le> k" using wbit_bound [of bs k] True that by auto
      ultimately show ?thesis by (auto simp: wbit_def)
    next
      case False
      then show ?thesis unfolding wbit_append by simp
    qed
    finally show ?thesis using False "1.hyps" by (simp add: chunks_step wbit_Cons bit_high_word)
  qed (simp add: wbit_def)
qed

lemma enumerate_of_map: "enumerate n (map f xs) = map (\<lambda>(i, x). (i, f x)) (enumerate n xs)"
  by (induction xs arbitrary: n) simp_all

lemma wbit_ext: "length xs = length ys \<Longrightarrow> (\<And>k. wbit xs k \<longleftrightarrow> wbit (ys :: 'a::len word list) k) \<Longrightarrow> xs = ys"
proof (rule nth_equalityI)
  fix i assume len: "length xs = length ys" and eq: "\<And>k. wbit xs k \<longleftrightarrow> wbit ys k" and i: "i < length xs"
  show "xs ! i = ys ! i"
  proof (rule bit_word_eqI)
    fix j assume "j < LENGTH('a)"
    then have "(i * LENGTH('a) + j) div LENGTH('a) = i" "(i * LENGTH('a) + j) mod LENGTH('a) = j" by simp_all
    then show "bit (xs ! i) j \<longleftrightarrow> bit (ys ! i) j" using eq [of "i * LENGTH('a) + j"] i len by (simp add: wbit_def)
  qed
qed

lemma set_high_bits_wbit:
  assumes "\<forall>(j, v) \<in> set js. unat (drop_bit bits (v - base)) + j < length buf * 8"
  shows "\<exists>buf'. set_high_bits base bits (length pre) js (pre @ buf) = Some (pre @ buf') \<and> length buf' = length buf \<and>
    (\<forall>k. wbit buf' k \<longleftrightarrow> wbit buf k \<or> k \<in> (\<lambda>(j, v). unat (drop_bit bits (v - base)) + j) ` set js)"
  using assms
proof (induction js arbitrary: buf)
  case (Cons jv js)
  obtain j v where jv: "jv = (j, v)" by (cases jv)
  define p where "p = unat (drop_bit bits (v - base)) + j"
  have p: "p div 8 < length buf" using Cons.prems by (simp add: jv p_def div_less_iff_less_mult)
  let ?buf = "buf[p div 8 := buf ! (p div 8) OR push_bit (p mod 8) 1]"
  have "(pre @ buf)[length pre + p div 8 := (pre @ buf) ! (length pre + p div 8) OR push_bit (p mod 8) 1] = pre @ ?buf"
    by (simp add: list_update_append)
  then have step: "set_high_bits base bits (length pre) (jv # js) (pre @ buf) = set_high_bits base bits (length pre) js (pre @ ?buf)"
    using p by (simp add: jv p_def [symmetric] Let_def)
  have "wbit ?buf k \<longleftrightarrow> wbit buf k \<or> k = p" for k using wbit_set_bit [of p buf k] p by simp
  then show ?case using Cons.IH [of ?buf] Cons.prems unfolding step by (auto simp: jv p_def [symmetric])
qed simp

section \<open>One block\<close>

definition mono_ok :: "u64 list \<Rightarrow> bool" where
  "mono_ok vs \<longleftrightarrow> vs \<noteq> [] \<and> length vs \<le> BLOCK \<and> sorted vs \<and> (\<forall>v \<in> set vs. unat v < 2 ^ 32)"

definition payload_length :: "u64 list \<Rightarrow> nat" where
  "payload_length vs =
     packed (length vs) (mono_bits vs) + (if mono_codec vs = 1 then div_ceil (mono_upper_bits vs) 8 else 0)"

definition block_of :: "u64 list \<Rightarrow> bytes \<Rightarrow> mono_block" where
  "block_of vs pay = \<lparr>mb_bytes = pay, mb_base = unat (hd vs), mb_count = length vs, mb_bits = mono_bits vs, mb_codec = mono_codec vs\<rparr>"

lemma mono_codec_cases: "mono_codec vs = 0 \<or> mono_codec vs = 1"
  by (simp add: mono_codec_def)

lemma mono_order:
  assumes "mono_ok vs" "i \<le> j" "j < length vs"
  shows "vs ! i \<le> vs ! j" "hd vs \<le> vs ! j" "vs ! j \<le> last vs" "vs ! i - hd vs \<le> vs ! j - hd vs"
    "unat (vs ! j - hd vs) = unat (vs ! j) - unat (hd vs)" "unat (vs ! j - hd vs) < 2 ^ 32"
proof -
  have srt: "sorted vs" and ne: "vs \<noteq> []" and small: "unat (vs ! j) < 2 ^ 32"
    using assms nth_mem [of j vs] by (auto simp: mono_ok_def)
  have h: "hd vs \<le> vs ! k" if "k < length vs" for k
    using sorted_nth_mono [OF srt, of 0 k] that ne by (simp add: hd_conv_nth)
  show ij: "vs ! i \<le> vs ! j" using sorted_nth_mono [OF srt assms(2,3)] .
  show hj: "hd vs \<le> vs ! j" using h assms(3) by blast
  show "vs ! j \<le> last vs" using sorted_nth_mono [OF srt, of j "length vs - 1"] assms(3) ne by (simp add: last_conv_nth)
  show u: "unat (vs ! j - hd vs) = unat (vs ! j) - unat (hd vs)" using hj by (rule unat_sub)
  show "vs ! i - hd vs \<le> vs ! j - hd vs"
    using ij h [of i] assms(2,3) u unat_sub [of "hd vs" "vs ! i"] by (simp add: word_le_nat_alt)
  show "unat (vs ! j - hd vs) < 2 ^ 32" using u small by simp
qed

lemma mono_last: "mono_ok vs \<Longrightarrow> last vs = vs ! (length vs - 1) \<and> length vs - 1 < length vs"
  by (simp add: mono_ok_def last_conv_nth)

lemma mono_bits_le: "mono_ok vs \<Longrightarrow> mono_bits vs \<le> 32"
proof -
  assume ok: "mono_ok vs"
  let ?span = "last vs - hd vs"
  have "unat ?span < 2 ^ 32" using mono_order(6) [OF ok, of "length vs - 1" "length vs - 1"] mono_last [OF ok] by simp
  moreover have "unat (?span + 1) \<le> unat ?span + 1" unfolding unat_word_ariths by (rule order_trans [OF mod_less_eq_dividend]) simp
  moreover have "unat ((?span + 1) div word_of_nat (length vs)) \<le> unat (?span + 1)" by (simp add: unat_div)
  ultimately have "unat ((?span + 1) div word_of_nat (length vs)) \<le> 2 ^ 32" by linarith
  then have "bits_needed_u64 ((?span + 1) div word_of_nat (length vs)) \<le> 33" by (simp add: bits_needed_le_iff)
  then have "mono_lower vs \<le> 32" by (simp add: mono_lower_def)
  moreover have "mono_width vs \<le> 32" using \<open>unat ?span < 2 ^ 32\<close> by (simp add: mono_width_def bits_needed_le_iff)
  ultimately show ?thesis by (simp add: mono_bits_def)
qed

lemma split_bits: "push_bit b (drop_bit b w) OR (w AND (push_bit b 1 - 1)) = (w :: u64)"
  by (rule bit_word_eqI) (auto simp: bit_or_iff bit_and_iff bit_push_bit_iff bit_drop_bit_eq bit_low_mask)

lemma low_bits: "unat (w AND (push_bit b 1 - 1) :: u64) < 2 ^ b" "unat w < 2 ^ b \<Longrightarrow> w AND (push_bit b 1 - 1) = w"
  by (auto simp: unat_less_power_bits bit_and_iff bit_low_mask intro!: bit_word_eqI) (meson not_less)

lemma ucast_back: "unat (w :: u64) < 2 ^ 32 \<Longrightarrow> ucast (ucast w :: u32) = w" "unat w < 2 ^ 32 \<Longrightarrow> unat (ucast w :: u32) = unat w"
proof -
  assume "unat w < 2 ^ 32"
  then show u: "unat (ucast w :: u32) = unat w" by (simp add: unsigned_ucast_eq take_bit_nat_eq_self_iff)
  show "ucast (ucast w :: u32) = w"
  proof (rule bit_word_eqI)
    fix j assume "j < LENGTH(64)"
    then show "bit (ucast (ucast w :: u32) :: u64) j \<longleftrightarrow> bit w j"
      using \<open>unat w < 2 ^ 32\<close> [unfolded unat_less_power_bits] by (cases "j < 32") (auto simp: bit_ucast_iff)
  qed
qed

text \<open>The positions the unary bitmap holds, one per value.\<close>

definition high_position :: "u64 list \<Rightarrow> nat \<Rightarrow> nat" where
  "high_position vs j = unat (drop_bit (mono_lower vs) (vs ! j - hd vs)) + j"

lemma drop_bit_mono_u64: "v \<le> w \<Longrightarrow> unat (drop_bit b v) \<le> unat (drop_bit b (w :: u64))"
  unfolding unat_drop_bit_eq by (simp add: drop_bit_eq_div word_le_nat_alt div_le_mono)

lemma high_position_less:
  assumes "mono_ok vs"
  shows "j < length vs \<Longrightarrow> high_position vs j < mono_upper_bits vs"
    and "i < j \<Longrightarrow> j < length vs \<Longrightarrow> high_position vs i < high_position vs j"
proof -
  have "j < length vs \<Longrightarrow> vs ! j - hd vs \<le> last vs - hd vs"
    using mono_order(4) [OF assms, of j "length vs - 1"] mono_last [OF assms] by simp
  then show "j < length vs \<Longrightarrow> high_position vs j < mono_upper_bits vs"
    using drop_bit_mono_u64 [of "vs ! j - hd vs" "last vs - hd vs" "mono_lower vs"]
    by (simp add: high_position_def mono_upper_bits_def)
  show "i < j \<Longrightarrow> j < length vs \<Longrightarrow> high_position vs i < high_position vs j"
    using drop_bit_mono_u64 [OF mono_order(4) [OF assms, of i j], of "mono_lower vs"] by (simp add: high_position_def)
qed

lemma high_positions:
  assumes "mono_ok vs" "\<forall>k. wbit buf k \<longleftrightarrow> k \<in> high_position vs ` {..<length vs}"
  shows "wpositions (map high_word (chunks 8 buf)) = map (high_position vs) [0..<length vs]"
proof (rule strict_sorted_equal)
  show "sorted_wrt (<) (map (high_position vs) [0..<length vs])"
    using high_position_less(2) [OF assms(1)] by (auto simp: sorted_wrt_iff_nth_less)
  show "set (wpositions (map high_word (chunks 8 buf))) = set (map (high_position vs) [0..<length vs])"
    using assms(2) by (auto simp: set_wpositions wbit_chunks)
qed simp

lemma encoded_payload:
  assumes ok: "mono_ok vs"
  shows "\<exists>pay. length pay = payload_length vs \<and>
    (\<forall>out. encode_payload vs out = Some (out @ pay)) \<and>
    (\<forall>i < length vs. block_offset (block_of vs pay) i = Some (vs ! i - hd vs)) \<and>
    for_each_offset (block_of vs pay) = Some (map (\<lambda>i. (i, vs ! i - hd vs)) [0..<length vs])"
proof -
  define b where "b = mono_bits vs"
  define n where "n = length vs"
  define lows where "lows = mono_lows vs"
  have lows: "lows = map (\<lambda>v. (v - hd vs) AND (push_bit b 1 - 1)) vs" by (simp add: lows_def mono_lows_def b_def)
  have b: "b \<le> 32" using mono_bits_le [OF ok] by (simp add: b_def)
  have len: "length lows = n" by (simp add: lows n_def)
  have b64: "b \<le> 64" and fit: "\<forall>v \<in> set lows. unat v < 2 ^ b" using b low_bits(1) by (auto simp: lows)
  obtain buf where w: "bitpack_write lows b [] = Some ([] @ buf)" "length buf = div_ceil (length lows * b) 8"
      "\<forall>rest. \<forall>i < length lows. bitpack_read (buf @ rest) b i = lows ! i"
    using bitpack_round_trip_append [OF b64 fit, of "[]"] by blast
  have buf: "bitpack_write lows b [] = Some buf" "length buf = packed n b" "\<forall>i < n. bitpack_read buf b i = lows ! i"
    using w(1,2) w(3) [THEN spec, of "[]"] by (simp_all add: packed_def len)
  have wr: "bitpack_write lows b out1 = Some (out1 @ buf)" for out1
    using buf(1) by (auto simp: bitpack_write_def split: if_splits)
  have low: "lows ! i = (vs ! i - hd vs) AND (push_bit b 1 - 1)" if "i < n" for i using that by (simp add: lows n_def)
  have low32: "ucast (ucast (lows ! i) :: u32) = lows ! i" if "i < n" for i
  proof (rule ucast_back(1))
    have "unat (lows ! i) < 2 ^ b" using low_bits(1) low [OF that] by simp
    also have "\<dots> \<le> 2 ^ 32" using b by (intro power_increasing) simp_all
    finally show "unat (lows ! i) < 2 ^ 32" .
  qed
  consider (plain) "mono_codec vs = 0" | (ef) "mono_codec vs = 1" using mono_codec_cases by blast
  then show ?thesis
  proof cases
    case plain
    have full: "lows ! i = vs ! i - hd vs" if "i < n" for i
    proof -
      have "vs ! i - hd vs \<le> last vs - hd vs"
        using mono_order(4) [OF ok, of i "n - 1"] mono_last [OF ok] that by (simp add: n_def)
      then have "unat (vs ! i - hd vs) < 2 ^ b"
        using plain bits_needed_mono bits_needed_le_iff by (metis b_def mono_bits_def mono_width_def zero_neq_one)
      then show ?thesis using low [OF that] low_bits(2) by simp
    qed
    have pl: "payload_length vs = packed n b" using plain by (simp add: payload_length_def n_def b_def)
    have "slice buf 0 (packed n b) = Some buf" using buf(2) by (simp add: slice_def)
    then have "block_offset (block_of vs buf) i = Some (vs ! i - hd vs)" if "i < n" for i
      using plain buf(3) low32 [OF that] full [OF that] that
      by (simp add: block_offset_def block_of_def n_def [symmetric] b_def [symmetric])
    moreover have "for_each_offset (block_of vs buf) = Some (map (\<lambda>i. (i, vs ! i - hd vs)) [0..<n])"
      using plain buf(3) full \<open>slice buf 0 (packed n b) = Some buf\<close>
      by (simp add: for_each_offset_def block_of_def n_def [symmetric] b_def [symmetric])
    ultimately show ?thesis using plain wr buf(2) pl
      by (intro exI [of _ buf]) (simp add: encode_payload_def n_def [symmetric] b_def [symmetric] lows_def [symmetric])
  next
    case ef
    then have bl: "b = mono_lower vs" by (simp add: b_def mono_bits_def)
    let ?m = "div_ceil (mono_upper_bits vs) 8"
    have room: "\<forall>(j, v) \<in> set (enumerate 0 vs). unat (drop_bit b (v - hd vs)) + j < length (replicate ?m (0 :: u8)) * 8"
    proof (intro ballI, clarify)
      fix j v assume "(j, v) \<in> set (enumerate 0 vs)"
      then have "v = vs ! j" "j < length vs" by (auto simp: in_set_enumerate_eq)
      then have "unat (drop_bit b (v - hd vs)) + j < mono_upper_bits vs"
        using high_position_less(1) [OF ok, of j] by (simp add: high_position_def bl)
      also have "\<dots> \<le> ?m * 8" using div_ceil_mult_ge [of 8 "mono_upper_bits vs"] by simp
      finally show "unat (drop_bit b (v - hd vs)) + j < length (replicate ?m (0 :: u8)) * 8" by simp
    qed
    have img: "(\<lambda>(j, v). unat (drop_bit b (v - hd vs)) + j) ` set (enumerate 0 vs) = high_position vs ` {..<n}"
      by (force simp: in_set_enumerate_eq high_position_def bl n_def image_iff)
    obtain hb where hb: "set_high_bits (hd vs) b 0 (enumerate 0 vs) (replicate ?m 0) = Some hb" "length hb = ?m"
        "\<forall>k. wbit hb k \<longleftrightarrow> k \<in> high_position vs ` {..<n}"
      using set_high_bits_wbit [OF room, of "[]"] unfolding img by auto
    have hbs: "set_high_bits (hd vs) b (length pre) (enumerate 0 vs) (pre @ replicate ?m 0) = Some (pre @ hb)" for pre
    proof -
      obtain hb' where h': "set_high_bits (hd vs) b (length pre) (enumerate 0 vs) (pre @ replicate ?m 0) = Some (pre @ hb')"
          "length hb' = ?m" "\<forall>k. wbit hb' k \<longleftrightarrow> k \<in> high_position vs ` {..<n}"
        using set_high_bits_wbit [OF room, of pre] unfolding img by auto
      have "hb' = hb" by (rule wbit_ext) (use h' hb in auto)
      then show ?thesis using h'(1) by simp
    qed
    have pos: "wpositions (map high_word (chunks 8 hb)) = map (high_position vs) [0..<n]"
      using high_positions [OF ok] hb(3) by (simp add: n_def)
    have parts: "slice (buf @ hb) 0 (packed n b) = Some buf" "slice_from (buf @ hb) (packed n b) = Some hb"
      using buf(2) by (simp_all add: slice_def slice_from_def)
    have val: "push_bit b (word_of_nat (high_position vs i - i)) OR lows ! i = vs ! i - hd vs" if "i < n" for i
      using split_bits [of b "vs ! i - hd vs"] by (simp add: high_position_def bl [symmetric] low [OF that])
    have sel: "select_high (enumerate 0 (chunks 8 hb)) i = Some (high_position vs i)" if "i < n" for i
      using that unfolding select_high_nth pos by simp
    have ge: "\<not> high_position vs i < i" for i by (simp add: high_position_def)
    have off: "block_offset (block_of vs (buf @ hb)) i = Some (vs ! i - hd vs)" if "i < n" for i
      using ef parts buf(3) low32 [OF that] val [OF that] sel [OF that] ge that
      by (simp add: block_offset_def block_of_def n_def [symmetric] b_def [symmetric])
    have ps: "concat (map (\<lambda>(word, chunk). map (\<lambda>t. word * 64 + t) (drain_bits (high_word chunk))) (enumerate 0 (chunks 8 hb))) =
        map (high_position vs) [0..<n]"
      using wpositions_enumerate [of "map high_word (chunks 8 hb)"] pos by (simp add: enumerate_of_map o_def case_prod_unfold)
    have "for_each_offset (block_of vs (buf @ hb)) = Some (map (\<lambda>i. (i, vs ! i - hd vs)) [0..<n])"
      using ef parts ps buf(3) val ge
      by (simp add: for_each_offset_def block_of_def n_def [symmetric] b_def [symmetric] enumerate_map_upt list_ex_iff)
    moreover have "encode_payload vs out = Some (out @ buf @ hb)" for out
      using ef wr hbs [of "out @ buf"] by (simp add: encode_payload_def b_def [symmetric] lows_def [symmetric])
    ultimately show ?thesis using ef buf(2) hb(2) off
      by (intro exI [of _ "buf @ hb"]) (simp add: n_def [symmetric] b_def [symmetric] payload_length_def)
  qed
qed

section \<open>The directory\<close>

definition payload_ok :: "u64 list \<times> bytes \<Rightarrow> bool" where
  "payload_ok = (\<lambda>(vs, pay). mono_ok vs \<and> length pay = payload_length vs \<and> (\<forall>out. encode_payload vs out = Some (out @ pay)) \<and>
     (\<forall>i < length vs. block_offset (block_of vs pay) i = Some (vs ! i - hd vs)) \<and>
     for_each_offset (block_of vs pay) = Some (map (\<lambda>i. (i, vs ! i - hd vs)) [0..<length vs]))"

fun entries :: "nat \<Rightarrow> (u64 list \<times> bytes) list \<Rightarrow> bytes" where
  "entries off [] = []"
| "entries off ((vs, pay) # bs) = encode_entry vs off @ [0, 0] @ entries (off + length pay) bs"

definition layout :: "(u64 list \<times> bytes) list \<Rightarrow> bytes" where
  "layout bs = entries (length bs * ENTRY) bs @ concat (map snd bs)"

definition pay_offset :: "(u64 list \<times> bytes) list \<Rightarrow> nat \<Rightarrow> nat" where
  "pay_offset bs k = length bs * ENTRY + sum_list (map (length \<circ> snd) (take k bs))"

lemma length_encode_entry [simp]: "length (encode_entry vs off) = 14"
  by (simp add: encode_entry_def)

lemma length_entries [simp]: "length (entries off bs) = length bs * ENTRY"
  by (induction off bs rule: entries.induct) (simp_all add: ENTRY_def)

lemma encode_blocks_layout:
  assumes "\<forall>bp \<in> set bs. payload_ok bp" "length E = i * ENTRY"
    "length E + length bs * ENTRY + length P + sum_list (map (length \<circ> snd) bs) < 2 ^ 32"
  shows "encode_blocks (enumerate i (map fst bs)) (E @ replicate (length bs * ENTRY) 0 @ P) =
    Some (Inr (E @ entries (length E + length bs * ENTRY + length P) bs @ P @ concat (map snd bs)))"
  using assms
proof (induction bs arbitrary: E i P)
  case (Cons bp bs)
  obtain vs pay where bp: "bp = (vs, pay)" by (cases bp)
  let ?out = "E @ replicate (length (bp # bs) * ENTRY) 0 @ P" and ?Z = "replicate (length bs * ENTRY) (0 :: u8)"
  let ?entry = "encode_entry vs (length ?out) @ [0, 0]"
  have enc: "encode_payload vs out = Some (out @ pay)" for out using Cons.prems(1) by (simp add: bp payload_ok_def)
  have out: "?out = E @ replicate 16 0 @ ?Z @ P" by (simp add: ENTRY_def replicate_add)
  have "drop 14 (replicate 16 (0 :: u8)) = [0, 0]" by (simp add: numeral_eq_Suc)
  then have cut: "take (i * ENTRY) ?out = E" "drop (i * ENTRY + 14) ?out = [0, 0] @ ?Z @ P"
    unfolding out using Cons.prems(2) by simp_all
  have room: "length ?out < 2 ^ 32" "\<not> length ?out < i * ENTRY + ENTRY" using Cons.prems(2,3) by (simp_all add: ENTRY_def)
  have "encode_block i vs ?out = Some (Inr ((E @ ?entry) @ ?Z @ P @ pay))"
    using room enc unfolding encode_block_def cut by (simp add: cut)
  moreover have "encode_blocks (enumerate (Suc i) (map fst bs)) ((E @ ?entry) @ ?Z @ P @ pay) =
      Some (Inr ((E @ ?entry) @ entries (length (E @ ?entry) + length bs * ENTRY + length (P @ pay)) bs @ (P @ pay) @ concat (map snd bs)))"
    using Cons.IH [of "E @ ?entry" "Suc i" "P @ pay"] Cons.prems by (simp add: ENTRY_def bp)
  ultimately show ?case by (simp add: bp ENTRY_def algebra_simps)
qed simp

lemma entries_nth:
  "k < length bs \<Longrightarrow> take 16 (drop (k * 16) (entries off bs)) =
     encode_entry (fst (bs ! k)) (off + sum_list (map (length \<circ> snd) (take k bs))) @ [0, 0]"
proof (induction off bs arbitrary: k rule: entries.induct)
  case (2 off vs pay bs)
  show ?case
  proof (cases k)
    case (Suc k')
    have "drop (k * 16) (entries off ((vs, pay) # bs)) = drop (k' * 16) (entries (off + length pay) bs)" by (simp add: Suc)
    then show ?thesis using 2 by (simp add: Suc add.assoc)
  qed simp
qed simp

lemma layout_entry:
  assumes "k < length bs"
  shows "slice (layout bs) (k * ENTRY) (k * ENTRY + ENTRY) = Some (encode_entry (fst (bs ! k)) (pay_offset bs k) @ [0, 0])"
proof -
  have "k * 16 + 16 \<le> length bs * 16" using assms by simp
  then show ?thesis using entries_nth [OF assms, of "length bs * ENTRY"]
    by (simp add: slice_def layout_def pay_offset_def ENTRY_def take_append drop_append)
qed

lemma layout_payload:
  assumes "k < length bs"
  shows "slice (layout bs) (pay_offset bs k) (pay_offset bs k + length (snd (bs ! k))) = Some (snd (bs ! k))"
proof -
  have split: "concat (map snd bs) = concat (map snd (take k bs)) @ snd (bs ! k) @ concat (map snd (drop (Suc k) bs))"
    by (subst id_take_nth_drop [OF assms]) simp
  have "length (concat (map snd (take k bs))) = sum_list (map (length \<circ> snd) (take k bs))" by (simp add: length_concat o_def)
  then show ?thesis by (simp add: layout_def split pay_offset_def slice_def)
qed

section \<open>Reading an encoded list\<close>

lemma sorted_adjacent: "(\<forall>(a, b) \<in> set (zip vs (tl vs)). a \<le> b) \<longleftrightarrow> sorted (vs :: 'a::linorder list)"
proof (induction vs)
  case (Cons a vs)
  then show ?case by (cases vs) (auto, meson order_trans)
qed simp

lemma payload_length_le: "mono_ok vs \<Longrightarrow> payload_length vs \<le> 512"
proof -
  assume ok: "mono_ok vs"
  have "unat (last vs - hd vs) < 2 ^ 32" using mono_order(6) [OF ok, of "length vs - 1" "length vs - 1"] mono_last [OF ok] by simp
  then have w: "mono_width vs \<le> 32" by (simp add: mono_width_def bits_needed_le_iff)
  have "length vs * mono_width vs \<le> 128 * 32" using ok w by (intro mult_le_mono) (simp_all add: mono_ok_def BLOCK_def)
  then have "packed (length vs) (mono_width vs) \<le> div_ceil (128 * 32) 8" unfolding packed_def by (intro div_ceil_mono) simp
  then have "packed (length vs) (mono_width vs) \<le> 512" by (simp add: div_ceil_def)
  then show ?thesis by (auto simp: payload_length_def mono_bits_def mono_codec_def split: if_splits)
qed

lemma chunk_mono_ok:
  assumes "sorted vs" "\<forall>v \<in> set vs. unat v < 2 ^ 32" "c \<in> set (chunks BLOCK vs)"
  shows "mono_ok c"
proof -
  have B: "0 < BLOCK" by (simp add: BLOCK_def)
  obtain k where k: "k < length (chunks BLOCK vs)" "c = chunks BLOCK vs ! k" using assms(3) by (auto simp: in_set_conv_nth)
  have c: "c = take BLOCK (drop (k * BLOCK) vs)" using nth_chunks [OF B k(1)] k(2) by simp
  have "set c \<subseteq> set vs" using assms(3) by (metis B concat_chunks UN_upper set_concat)
  moreover have "c \<noteq> []" using chunk_lengths(2) [OF B k(1)] k(2) by auto
  ultimately show ?thesis using assms(1,2) by (auto simp: mono_ok_def c intro: sorted_wrt_take sorted_wrt_drop)
qed

lemma encode_layout:
  assumes "sorted vs" "\<forall>v \<in> set vs. unat v < 2 ^ 32" "length vs < 2 ^ 29"
  shows "\<exists>bs. map fst bs = chunks BLOCK vs \<and> (\<forall>bp \<in> set bs. payload_ok bp) \<and> encode vs = Some (Inr (layout bs)) \<and>
    length bs * ENTRY + sum_list (map (length \<circ> snd) bs) < 2 ^ 32"
proof -
  have "\<exists>bs. map fst bs = cs \<and> (\<forall>bp \<in> set bs. payload_ok bp)" if "\<forall>c \<in> set cs. mono_ok c" for cs
    using that
  proof (induction cs)
    case (Cons c cs)
    then obtain bs where bs: "map fst bs = cs" "\<forall>bp \<in> set bs. payload_ok bp" by auto
    obtain pay where "payload_ok (c, pay)" using encoded_payload [of c] Cons.prems by (auto simp: payload_ok_def)
    then show ?case using bs by (intro exI [of _ "(c, pay) # bs"]) simp
  qed simp
  then obtain bs where bs: "map fst bs = chunks BLOCK vs" "\<forall>bp \<in> set bs. payload_ok bp"
    using chunk_mono_ok [OF assms(1,2)] by blast
  have len: "length bs = div_ceil (length vs) BLOCK" using arg_cong [OF bs(1), of length] by (simp add: length_chunks BLOCK_def)
  have "\<forall>bp \<in> set bs. length (snd bp) \<le> 512" using bs(2) payload_length_le by (fastforce simp: payload_ok_def)
  then have "sum_list (map (length \<circ> snd) bs) \<le> sum_list (map (\<lambda>_. 512) bs)" by (intro sum_list_mono) auto
  then have "sum_list (map (length \<circ> snd) bs) \<le> length bs * 512" by (simp add: sum_list_triv)
  moreover have "length bs \<le> 2 ^ 22" using assms(3) by (simp add: len div_ceil_def BLOCK_def less_mult_imp_div_less order_less_imp_le)
  ultimately have sz: "length bs * ENTRY + sum_list (map (length \<circ> snd) bs) < 2 ^ 32" by (simp add: ENTRY_def)
  have "\<not> list_ex (\<lambda>v. v > 0xFFFFFFFF) vs" using assms(2) by (auto simp: list_ex_iff word_less_nat_alt)
  moreover have "\<not> list_ex (\<lambda>(a, b). a > b) (zip vs (tl vs))"
    using assms(1) unfolding sorted_adjacent [symmetric] by (auto simp: list_ex_iff)
  ultimately have "encode vs = Some (Inr (layout bs))"
    using encode_blocks_layout [OF bs(2), of "[]" 0 "[]"] sz by (simp add: encode_def bs(1) len [symmetric] layout_def)
  then show ?thesis using bs sz by blast
qed

lemma block_at_layout:
  assumes bs: "map fst bs = chunks BLOCK vs" "\<forall>bp \<in> set bs. payload_ok bp"
    "length bs * ENTRY + sum_list (map (length \<circ> snd) bs) < 2 ^ 32" and k: "k < length bs"
  shows "block_at (layout bs) (length vs) k = Some (block_of (fst (bs ! k)) (snd (bs ! k)))"
    and "le_u32 (layout bs) (k * ENTRY + 4) = Some (unat (last (fst (bs ! k))))"
proof -
  let ?vs = "fst (bs ! k)" and ?pay = "snd (bs ! k)"
  have B: "0 < BLOCK" by (simp add: BLOCK_def)
  have "payload_ok (bs ! k)" using bs(2) nth_mem [OF k] by blast
  then have ok: "mono_ok ?vs" "length ?pay = payload_length ?vs" by (simp_all add: payload_ok_def case_prod_unfold)
  have c: "?vs = chunks BLOCK vs ! k" "k < length (chunks BLOCK vs)" using bs(1) k by (metis length_map nth_map)+
  have n: "min (length vs - k * BLOCK) BLOCK = length ?vs" using chunk_lengths(1) [OF B c(2)] c(1) by simp
  have "k * BLOCK \<le> length vs" using chunk_lengths [OF B c(2)] by (simp add: BLOCK_def)
  have small: "unat (hd ?vs) < 2 ^ 32" "unat (last ?vs) < 2 ^ 32" using ok(1) by (auto simp: mono_ok_def)
  have po: "pay_offset bs k < 2 ^ 32"
  proof -
    have "sum_list (map (length \<circ> snd) (take k bs)) \<le> sum_list (map (length \<circ> snd) bs)"
      by (subst (2) append_take_drop_id [of k bs, symmetric]) (simp del: append_take_drop_id)
    then show ?thesis using bs(3) by (simp add: pay_offset_def)
  qed
  let ?e = "encode_entry ?vs (pay_offset bs k) @ [0, 0]"
  have rd: "le_u32 ?e 0 = Some (unat (hd ?vs))" "le_u32 ?e 4 = Some (unat (last ?vs))" "le_u32 ?e 8 = Some (pay_offset bs k)"
    using ucast_back(2) [OF small(1)] ucast_back(2) [OF small(2)] po by (simp_all add: encode_entry_def slice_simps unat_of_nat)
  have bits: "unat (?e ! 12) = mono_bits ?vs" "?e ! 13 = mono_codec ?vs"
    using mono_bits_le [OF ok(1)] by (simp_all add: encode_entry_def nth_append unat_of_nat)
  have span: "unat (last ?vs - hd ?vs) = unat (last ?vs) - unat (hd ?vs)" "unat (hd ?vs) \<le> unat (last ?vs)"
    using mono_order(2,5) [OF ok(1), of "length ?vs - 1" "length ?vs - 1"] mono_last [OF ok(1)] by (simp_all add: word_le_nat_alt)
  have pl: "packed (length ?vs) (mono_bits ?vs) +
      (if mono_codec ?vs = 1 then div_ceil (drop_bit (mono_bits ?vs) (unat (last ?vs) - unat (hd ?vs)) + length ?vs) 8 else 0) = length ?pay"
    using ok(2) span(1) by (simp add: payload_length_def mono_upper_bits_def mono_bits_def unat_drop_bit_eq)
  show "block_at (layout bs) (length vs) k = Some (block_of ?vs ?pay)"
    unfolding block_at_def layout_entry [OF k] Option.bind.simps rd bits n Let_def
    using \<open>k * BLOCK \<le> length vs\<close> span(2) mono_bits_le [OF ok(1)] layout_payload [OF k] pl by (simp add: block_of_def)
  have "take 4 (drop (k * ENTRY + 4) (layout bs)) = take 4 (drop 4 (take 16 (drop (k * ENTRY) (layout bs))))"
    by (simp add: drop_take add.commute)
  moreover have "take 16 (drop (k * ENTRY) (layout bs)) = ?e" "k * ENTRY + 16 \<le> length (layout bs)"
    using layout_entry [OF k] by (simp_all add: slice_def ENTRY_def split: if_splits)
  ultimately show "le_u32 (layout bs) (k * ENTRY + 4) = Some (unat (last ?vs))"
    using rd(2) by (simp add: le_u32_def)
qed

lemma block_get_layout:
  assumes "payload_ok (vs, pay)" "i < length vs"
  shows "block_get (block_of vs pay) i = Some (unat (vs ! i))"
proof -
  have ok: "mono_ok vs" "block_offset (block_of vs pay) i = Some (vs ! i - hd vs)" using assms by (simp_all add: payload_ok_def)
  note o = mono_order [OF ok(1) order_refl assms(2)]
  have "unat (vs ! i) < 2 ^ 32" using ok(1) assms(2) by (auto simp: mono_ok_def)
  then show ?thesis using ok(2) o(2,5) ucast_back(2) [OF o(6)]
    by (simp add: block_get_def block_of_def as_u32_def word_le_nat_alt)
qed

lemma write_offsets_upt:
  "length out = n \<Longrightarrow> k \<le> n \<Longrightarrow>
   write_offsets base (map (\<lambda>i. (i, f i)) [k..<n]) out =
     Some (take k out @ map (\<lambda>i. as_u32 (base + unat (ucast (f i) :: u32))) [k..<n])"
proof (induction "n - k" arbitrary: k out)
  case (Suc d)
  then have k: "k < n" by simp
  have "[k..<n] = k # [Suc k..<n]" using k by (simp add: upt_conv_Cons)
  moreover have "take (Suc k) (out[k := x]) = take k out @ [x]" for x using k Suc.prems(1) by (simp add: take_Suc_conv_app_nth)
  ultimately show ?case using Suc.hyps(1) [of "Suc k"] Suc.hyps(2) Suc.prems k by simp
qed simp

lemma bisect_first:
  assumes "\<forall>m. low \<le> m \<and> m < high \<longrightarrow> below m = Some (q m)" "\<forall>a b. a \<le> b \<and> b < high \<and> q b \<longrightarrow> q a" "low \<le> high"
  shows "\<exists>r. bisect below low high = Some r \<and> low \<le> r \<and> r \<le> high \<and> (\<forall>m. low \<le> m \<and> m < r \<longrightarrow> q m) \<and>
    (\<forall>m. r \<le> m \<and> m < high \<longrightarrow> \<not> q m)"
  using assms
proof (induction below low high rule: bisect.induct)
  case (1 below low high)
  show ?case
  proof (cases "low < high")
    case True
    define mid where "mid = low + (high - low) div 2"
    have mid: "low \<le> mid" "mid < high" using True by (auto simp: mid_def)
    have b: "below mid = Some (q mid)" using "1.prems"(1) mid by blast
    show ?thesis
    proof (cases "q mid")
      case q: True
      have h: "\<forall>m. mid + 1 \<le> m \<and> m < high \<longrightarrow> below m = Some (q m)" using "1.prems"(1) mid(1) by simp
      obtain r where r: "bisect below (mid + 1) high = Some r" "mid + 1 \<le> r" "r \<le> high"
          "\<forall>m. mid + 1 \<le> m \<and> m < r \<longrightarrow> q m" "\<forall>m. r \<le> m \<and> m < high \<longrightarrow> \<not> q m"
        using "1.IH"(1) [OF True mid_def b q h "1.prems"(2)] mid(2) by auto
      have "q m" if "m < r" for m
      proof (cases "m \<le> mid")
        case True
        then show ?thesis using "1.prems"(2) q mid(2) by blast
      next
        case False
        then show ?thesis using r(4) that by simp
      qed
      moreover have "bisect below low high = Some r"
        using True b q r(1) by (simp add: bisect.simps [of below low high] Let_def mid_def [symmetric])
      ultimately show ?thesis using r(2,3,5) mid by (intro exI [of _ r]) simp
    next
      case q: False
      have h: "\<forall>m. low \<le> m \<and> m < mid \<longrightarrow> below m = Some (q m)" "\<forall>a b. a \<le> b \<and> b < mid \<and> q b \<longrightarrow> q a"
        using "1.prems"(1,2) mid(2) by (meson less_trans)+
      obtain r where r: "bisect below low mid = Some r" "low \<le> r" "r \<le> mid"
          "\<forall>m. low \<le> m \<and> m < r \<longrightarrow> q m" "\<forall>m. r \<le> m \<and> m < mid \<longrightarrow> \<not> q m"
        using "1.IH"(2) [OF True mid_def b q h mid(1)] by blast
      have "\<not> q m" if "r \<le> m" "m < high" for m
      proof (cases "m < mid")
        case True
        then show ?thesis using r(5) that by simp
      next
        case False
        then show ?thesis using "1.prems"(2) q that by (meson not_less)
      qed
      moreover have "bisect below low high = Some r"
        using True b q r(1) by (simp add: bisect.simps [of below low high] Let_def mid_def [symmetric])
      ultimately show ?thesis using r(2,3,4) mid by (intro exI [of _ r]) simp
    qed
  next
    case False
    then have "bisect below low high = Some low" by (simp add: bisect.simps [of below low high])
    then show ?thesis using False "1.prems"(3) by (intro exI [of _ low]) auto
  qed
qed

lemma bisect_from_0:
  assumes "\<And>m. m < n \<Longrightarrow> below m = Some (q m)" "\<And>a b. a \<le> b \<Longrightarrow> b < n \<Longrightarrow> q b \<Longrightarrow> q a"
  obtains r where "bisect below 0 n = Some r" "r \<le> n" "\<forall>m < r. q m" "\<forall>m. r \<le> m \<and> m < n \<longrightarrow> \<not> q m"
proof -
  have "\<forall>m. 0 \<le> m \<and> m < n \<longrightarrow> below m = Some (q m)" "\<forall>a b. a \<le> b \<and> b < n \<and> q b \<longrightarrow> q a" "0 \<le> n" using assms by blast+
  from bisect_first [OF this] show thesis using that by auto
qed

lemma length_filter_prefix:
  assumes "r \<le> length xs" "\<forall>j < r. P (xs ! j)" "\<forall>j. r \<le> j \<and> j < length xs \<longrightarrow> \<not> P (xs ! j)"
  shows "length (filter P xs) = r"
proof -
  have "filter P (take r xs) = take r xs" using assms by (auto simp: filter_id_conv in_set_conv_nth)
  moreover have "filter P (drop r xs) = []" using assms by (auto simp: filter_empty_conv in_set_conv_nth)
  ultimately have "filter P (take r xs @ drop r xs) = take r xs" unfolding filter_append by simp
  then show ?thesis using assms(1) by simp
qed

text \<open>Every element of a sorted list lies between the first and the last of its chunk.\<close>

lemma chunk_last:
  assumes "sorted (vs :: u64 list)" "i < length vs"
  shows "vs ! i \<le> last (chunks BLOCK vs ! (i div BLOCK))"
proof -
  have B: "0 < BLOCK" by (simp add: BLOCK_def)
  let ?c = "chunks BLOCK vs ! (i div BLOCK)"
  have c: "i mod BLOCK < length ?c" "?c ! (i mod BLOCK) = vs ! i" using chunks_index(2,3) [OF B assms(2)] by auto
  have "sorted ?c" using nth_chunks [OF B chunks_index(1) [OF B assms(2)]] assms(1) by (simp add: sorted_wrt_take sorted_wrt_drop)
  moreover have "last ?c = ?c ! (length ?c - 1)" using c(1) by (intro last_conv_nth) auto
  ultimately show ?thesis using sorted_nth_mono [of ?c "i mod BLOCK" "length ?c - 1"] c by simp
qed

lemma lower_bound_layout:
  assumes vs: "sorted vs" "\<forall>v \<in> set vs. unat v < 2 ^ 32"
    and bs: "map fst bs = chunks BLOCK vs" "\<forall>bp \<in> set bs. payload_ok bp"
      "length bs * ENTRY + sum_list (map (length \<circ> snd) bs) < 2 ^ 32"
  shows "lower_bound (layout bs) (length vs) v = Some (length (filter (\<lambda>x. unat x < v) vs))"
proof -
  have B: "0 < BLOCK" by (simp add: BLOCK_def)
  let ?cs = "chunks BLOCK vs" and ?q = "\<lambda>k. unat (last (chunks BLOCK vs ! k)) < v"
  have len: "length bs = length ?cs" using arg_cong [OF bs(1), of length] by simp
  have N: "div_ceil (length vs) BLOCK = length bs" using len by (simp add: length_chunks B)
  have fst: "fst (bs ! k) = ?cs ! k" if "k < length bs" for k using that by (simp add: bs(1) [symmetric])
  have at: "vs ! (k * BLOCK + j) = ?cs ! k ! j" "k * BLOCK + j < length vs" if "k < length ?cs" "j < length (?cs ! k)" for k j
    using nth_chunks [OF B that(1)] that(2) by auto
  have lst: "last (?cs ! k) = vs ! (k * BLOCK + (length (?cs ! k) - 1))" "k * BLOCK + (length (?cs ! k) - 1) < length vs"
    if "k < length ?cs" for k
  proof -
    have l: "length (?cs ! k) - 1 < length (?cs ! k)" using chunk_lengths(2) [OF B that] by simp
    then have "last (?cs ! k) = ?cs ! k ! (length (?cs ! k) - 1)" by (intro last_conv_nth) auto
    then show "last (?cs ! k) = vs ! (k * BLOCK + (length (?cs ! k) - 1))" using at(1) [OF that l] by (simp only:)
    show "k * BLOCK + (length (?cs ! k) - 1) < length vs" by (rule at(2) [OF that l])
  qed
  have anti: "?q a" if "a \<le> b" "b < length bs" "?q b" for a b
  proof (cases "a = b")
    case False
    then have "a < b" "a < length ?cs" "b < length ?cs" using that len by auto
    then have "a * BLOCK + (length (?cs ! a) - 1) \<le> b * BLOCK + (length (?cs ! b) - 1)"
      using chunk_lengths(1) [OF B, of a vs] mult_le_mono1 [of "Suc a" b BLOCK] by simp
    then have "last (?cs ! a) \<le> last (?cs ! b)"
      using lst [OF \<open>a < length ?cs\<close>] lst [OF \<open>b < length ?cs\<close>] sorted_nth_mono [OF vs(1)] by simp
    then show ?thesis using that(3) by (simp add: word_le_nat_alt)
  qed (use that in simp)
  obtain L where L: "bisect (\<lambda>mid. map_option (\<lambda>top. top < v) (le_u32 (layout bs) (mid * ENTRY + 4))) 0 (length bs) = Some L"
      "L \<le> length bs" "\<forall>m < L. ?q m" "\<forall>m. L \<le> m \<and> m < length bs \<longrightarrow> \<not> ?q m"
  proof (rule bisect_from_0 [of "length bs" "\<lambda>mid. map_option (\<lambda>top. top < v) (le_u32 (layout bs) (mid * ENTRY + 4))" ?q])
    show "map_option (\<lambda>top. top < v) (le_u32 (layout bs) (m * ENTRY + 4)) = Some (?q m)" if "m < length bs" for m
      using block_at_layout(2) [OF bs that] fst [OF that] by simp
  qed (use anti that in blast)+
  have before: "unat (vs ! j) < v" if "j < length vs" "j div BLOCK < L" for j
    using chunk_last [OF vs(1) that(1)] L(3) that(2) by (auto simp: word_le_nat_alt intro: le_less_trans)
  show ?thesis
  proof (cases "L = length bs")
    case True
    have "unat (vs ! j) < v" if "j < length vs" for j using before [OF that] chunks_index(1) [OF B that] True len by simp
    then have "length (filter (\<lambda>x. unat x < v) vs) = length vs" by (intro length_filter_prefix) auto
    then show ?thesis using L(1) True by (simp add: lower_bound_def N)
  next
    case False
    then have Lb: "L < length bs" "L < length ?cs" using L(2) len by auto
    let ?c = "?cs ! L" and ?b = "block_of (?cs ! L) (snd (bs ! L))"
    have ok: "payload_ok (?c, snd (bs ! L))" using bs(2) nth_mem [OF Lb(1)] fst [OF Lb(1)] by (metis prod.collapse)
    have get: "block_get ?b j = Some (unat (?c ! j))" if "j < length ?c" for j using block_get_layout [OF ok that] .
    have srt: "sorted ?c" using ok by (simp add: payload_ok_def mono_ok_def)
    obtain i where i: "bisect (\<lambda>mid. map_option (\<lambda>x. x < v) (block_get ?b mid)) 0 (length ?c) = Some i" "i \<le> length ?c"
        "\<forall>m < i. unat (?c ! m) < v" "\<forall>m. i \<le> m \<and> m < length ?c \<longrightarrow> \<not> unat (?c ! m) < v"
    proof (rule bisect_from_0 [of "length ?c" "\<lambda>mid. map_option (\<lambda>x. x < v) (block_get ?b mid)" "\<lambda>m. unat (?c ! m) < v"])
      show "unat (?c ! a) < v" if "a \<le> b" "b < length ?c" "unat (?c ! b) < v" for a b
        using sorted_nth_mono [OF srt that(1,2)] that(3) by (simp add: word_le_nat_alt)
    qed (use get that in auto)
    have "i < length ?c"
      using i(2,3) L(4) Lb(1) chunk_lengths(2) [OF B Lb(2)] by (cases "i = length ?c") (auto simp: last_conv_nth)
    then have r: "L * BLOCK + i < length vs" "vs ! (L * BLOCK + i) = ?c ! i" using at [OF Lb(2)] by auto
    have "length (filter (\<lambda>x. unat x < v) vs) = L * BLOCK + i"
    proof (rule length_filter_prefix)
      show "\<forall>j < L * BLOCK + i. unat (vs ! j) < v"
      proof (intro allI impI)
        fix j assume j: "j < L * BLOCK + i"
        show "unat (vs ! j) < v"
        proof (cases "j < L * BLOCK")
          case True
          then show ?thesis using before [of j] r(1) j by (simp add: div_less_iff_less_mult B)
        next
          case False
          then have "vs ! j = ?c ! (j - L * BLOCK)" using at(1) [OF Lb(2), of "j - L * BLOCK"] j i(2) by simp
          then show ?thesis using i(3) False j by simp
        qed
      qed
      show "\<forall>j. L * BLOCK + i \<le> j \<and> j < length vs \<longrightarrow> \<not> unat (vs ! j) < v"
        using sorted_nth_mono [OF vs(1), of "L * BLOCK + i"] i(4) \<open>i < length ?c\<close> r(2)
        by (auto simp: word_le_nat_alt not_less) (meson order_refl order_trans not_less)
    qed (use r(1) in simp)
    then show ?thesis using L(1) False block_at_layout(1) [OF bs Lb(1)] fst [OF Lb(1)] i(1)
      by (simp add: lower_bound_def N block_of_def)
  qed
qed

text \<open>
  C31. Every sorted list of 32-bit values encodes, and the encoding gives the values
  back: by random access, whichever of the two layouts each block uses, and by
  decoding whole blocks. An unsorted list, or one with a larger value, is an error.
\<close>

theorem monotone_round_trip:
  assumes "length vs < 2 ^ 29"
  shows "if sorted vs \<and> (\<forall>v \<in> set vs. unat v < 2 ^ 32)
    then \<exists>bytes. encode vs = Some (Inr bytes) \<and>
      (\<forall>i < length vs. mono_get bytes (length vs) i = Some (unat (vs ! i))) \<and>
      (\<forall>k out. k < length (chunks BLOCK vs) \<and> length out = length (chunks BLOCK vs ! k) \<longrightarrow>
         decode_block bytes (length vs) k out = Some (map unat (chunks BLOCK vs ! k)))
    else encode vs = Some (Inl mono_invalid)"
proof (cases "sorted vs \<and> (\<forall>v \<in> set vs. unat v < 2 ^ 32)")
  case True
  then obtain bs where bs: "map fst bs = chunks BLOCK vs" "\<forall>bp \<in> set bs. payload_ok bp" "encode vs = Some (Inr (layout bs))"
      "length bs * ENTRY + sum_list (map (length \<circ> snd) bs) < 2 ^ 32" using encode_layout assms by blast
  have len: "length bs = length (chunks BLOCK vs)" using arg_cong [OF bs(1), of length] by simp
  have blk: "block_at (layout bs) (length vs) k = Some (block_of (chunks BLOCK vs ! k) (snd (bs ! k)))"
      "payload_ok (chunks BLOCK vs ! k, snd (bs ! k))" if "k < length bs" for k
    using block_at_layout(1) [OF bs(1,2,4) that] bs(2) nth_mem [OF that] that by (simp_all add: bs(1) [symmetric])
  have "mono_get (layout bs) (length vs) i = Some (unat (vs ! i))" if "i < length vs" for i
  proof -
    note c = chunks_index [of BLOCK, OF _ that]
    have B: "0 < BLOCK" by (simp add: BLOCK_def)
    have k: "i div BLOCK < length bs" using c(1) [OF B] len by simp
    show ?thesis using block_get_layout [OF blk(2) [OF k] c(2) [OF B]] blk(1) [OF k] c(3) [OF B] that by (simp add: mono_get_def)
  qed
  moreover have "decode_block (layout bs) (length vs) k out = Some (map unat (chunks BLOCK vs ! k))"
    if k: "k < length (chunks BLOCK vs)" "length out = length (chunks BLOCK vs ! k)" for k out
  proof -
    let ?c = "chunks BLOCK vs ! k"
    have kb: "k < length bs" using k(1) len by simp
    have "for_each_offset (block_of ?c (snd (bs ! k))) = Some (map (\<lambda>i. (i, ?c ! i - hd ?c)) [0..<length ?c])"
      using blk(2) [OF kb] by (simp add: payload_ok_def)
    moreover have "as_u32 (unat (hd ?c) + unat (ucast (?c ! i - hd ?c) :: u32)) = unat (?c ! i)" if "i < length ?c" for i
      using block_get_layout [OF blk(2) [OF kb] that] blk(2) [OF kb] that by (simp add: block_get_def block_of_def payload_ok_def)
    ultimately show ?thesis
      using write_offsets_upt [of out "length ?c" 0 "unat (hd ?c)" "\<lambda>i. ?c ! i - hd ?c"] blk(1) [OF kb] k(2)
      by (simp add: decode_block_def block_of_def map_equality_iff)
  qed
  ultimately show ?thesis using True bs(3) by auto
next
  case False
  have "list_ex (\<lambda>v. v > 0xFFFFFFFF) vs \<or> list_ex (\<lambda>(a, b). a > b) (zip vs (tl vs))"
    using False unfolding sorted_adjacent [symmetric] by (auto simp: list_ex_iff word_less_nat_alt not_le not_less Suc_le_eq [symmetric])
  then show ?thesis using False by (auto simp: encode_def)
qed

text \<open>
  C32. The two-level binary search is the lower bound: over the encoding of a sorted
  list it returns, for every value, the number of elements below that value.
\<close>

theorem monotone_lower_bound:
  assumes "sorted vs" "\<forall>v \<in> set vs. unat v < 2 ^ 32" "length vs < 2 ^ 29"
  shows "\<exists>bytes. encode vs = Some (Inr bytes) \<and>
    (\<forall>v. lower_bound bytes (length vs) v = Some (length (filter (\<lambda>x. unat x < v) vs)))"
proof -
  obtain bs where bs: "map fst bs = chunks BLOCK vs" "\<forall>bp \<in> set bs. payload_ok bp" "encode vs = Some (Inr (layout bs))"
      "length bs * ENTRY + sum_list (map (length \<circ> snd) bs) < 2 ^ 32" using encode_layout [OF assms] by blast
  have "lower_bound (layout bs) (length vs) v = Some (length (filter (\<lambda>x. unat x < v) vs))" for v
    by (rule lower_bound_layout [OF assms(1,2) bs(1,2,4)])
  then show ?thesis using bs(3) by blast
qed

definition sample_values :: "u64 list" where
  "sample_values = [3, 3, 1000, 70000]"

lemma sample_values_ok: "sorted sample_values" "\<forall>v \<in> set sample_values. unat v < 2 ^ 32" "length sample_values = 4"
  "chunks BLOCK sample_values = [sample_values]"
  by (simp_all add: sample_values_def BLOCK_def chunks_step)

theorem monotone_round_trip_witness:
  "\<exists>bytes. encode sample_values = Some (Inr bytes) \<and> mono_get bytes 4 2 = Some 1000 \<and>
     decode_block bytes 4 0 [0, 0, 0, 0] = Some [3, 3, 1000, 70000]"
proof -
  from monotone_round_trip [of sample_values] sample_values_ok
  obtain bytes where e: "encode sample_values = Some (Inr bytes)" and g: "\<forall>i < 4. mono_get bytes 4 i = Some (unat (sample_values ! i))"
    and d: "\<forall>k out. k < 1 \<and> length out = 4 \<longrightarrow> decode_block bytes 4 k out = Some (map unat sample_values)"
    by auto
  have "mono_get bytes 4 2 = Some 1000" using g [rule_format, of 2] by (simp add: sample_values_def)
  moreover have "decode_block bytes 4 0 [0, 0, 0, 0] = Some [3, 3, 1000, 70000]"
    using d [rule_format, of 0 "[0, 0, 0, 0]"] by (simp add: sample_values_def)
  ultimately show ?thesis using e by blast
qed

theorem monotone_lower_bound_witness:
  "\<exists>bytes. encode sample_values = Some (Inr bytes) \<and> lower_bound bytes 4 4 = Some 2 \<and> lower_bound bytes 4 70001 = Some 4"
proof -
  obtain bytes where e: "encode sample_values = Some (Inr bytes)"
      "\<forall>v. lower_bound bytes 4 v = Some (length (filter (\<lambda>x. unat x < v) sample_values))"
    using monotone_lower_bound [OF sample_values_ok(1,2)] sample_values_ok(3) by auto
  then show ?thesis by (intro exI [of _ bytes]) (simp add: sample_values_def)
qed

end
