(* ===== verification/EliasFano.thy ===== *)
theory EliasFano
  imports Summa_Bits Bitpack
begin

text \<open>
  Elias-Fano sequences (\<open>structures/postings/elias_fano.rs\<close>): a sorted list of 32-bit
  values split into low parts, packed in 64-bit words, and high parts, a unary bitmap.
  Random access gives the values back, \<open>next_geq\<close> finds the first value at or above a
  target although it starts at the bucket that \<open>select0\<close> names, the iterator yields
  the list, and the serialized form reads back.
\<close>

section \<open>Model\<close>

record elias_fano =
  ef_lower :: "u64 list"
  ef_upper :: "u64 list"
  ef_len :: u32
  ef_universe :: u64
  ef_width :: u8

definition lower_width :: "u64 \<Rightarrow> nat \<Rightarrow> nat" where
  "lower_width universe n =
     (if n = 0 then 0
      else let ratio = max universe 1 div max (of_nat n) 1
           in if ratio \<le> 1 then 0 else 64 - leading_zeros ratio - 1)"

definition lower_mask :: "nat \<Rightarrow> u64" where
  "lower_mask width = (if width = 0 then 0 else push_bit width 1 - 1)"

text \<open>Writing one value; an index out of range is a panic, \<open>None\<close>.\<close>

definition store_lower :: "nat \<Rightarrow> nat \<Rightarrow> u64 \<Rightarrow> u64 list \<Rightarrow> u64 list option" where
  "store_lower width i v ws =
     (let lower = v AND lower_mask width; bit_pos = i * width; word_idx = bit_pos div 64; bit_offset = bit_pos mod 64
      in if length ws \<le> word_idx then None
         else let ws1 = ws[word_idx := ws ! word_idx OR push_bit bit_offset lower]
              in Some (if 64 < bit_offset + width \<and> word_idx + 1 < length ws1
                       then ws1[word_idx + 1 := ws1 ! (word_idx + 1) OR drop_bit (64 - bit_offset) lower]
                       else ws1))"

definition store_upper :: "nat \<Rightarrow> nat \<Rightarrow> u64 \<Rightarrow> u64 list \<Rightarrow> u64 list" where
  "store_upper width i v ws =
     (let upper_pos = i + unat (drop_bit width v); word_idx = upper_pos div 64; bit_offset = upper_pos mod 64
      in if word_idx < length ws then ws[word_idx := ws ! word_idx OR push_bit bit_offset 1] else ws)"

fun store_values :: "nat \<Rightarrow> (nat \<times> u32) list \<Rightarrow> u64 list \<times> u64 list \<Rightarrow> (u64 list \<times> u64 list) option" where
  "store_values width [] (lower, upper) = Some (lower, upper)"
| "store_values width ((i, v) # ivs) (lower, upper) =
     (case (if 0 < width then store_lower width i (ucast v) lower else Some lower) of
        None \<Rightarrow> None
      | Some lower' \<Rightarrow> store_values width ivs (lower', store_upper width i (ucast v) upper))"

definition ef_from_sorted_slice :: "u32 list \<Rightarrow> elias_fano option" where
  "ef_from_sorted_slice values =
     (if values = [] then Some \<lparr>ef_lower = [], ef_upper = [], ef_len = 0, ef_universe = 0, ef_width = 0\<rparr>
      else let n = length values; max_val = ucast (last values) :: u64; universe = max_val + 1;
               width = lower_width universe n;
               lower_bits = replicate (div_ceil (n * width) 64) 0;
               upper_bits = replicate (div_ceil (n + unat (drop_bit width max_val) + 1) 64) 0
           in map_option (\<lambda>(lower, upper).
                \<lparr>ef_lower = lower, ef_upper = upper, ef_len = of_nat n, ef_universe = universe, ef_width = of_nat width\<rparr>)
                (store_values width (enumerate 0 values) (lower_bits, upper_bits)))"

definition ef_is_empty :: "elias_fano \<Rightarrow> bool" where
  "ef_is_empty ef \<longleftrightarrow> ef_len ef = 0"

definition load_lower :: "nat \<Rightarrow> nat \<Rightarrow> u64 list \<Rightarrow> u64 option" where
  "load_lower width i ws =
     (if width = 0 then Some 0
      else let bit_pos = i * width; word_idx = bit_pos div 64; bit_offset = bit_pos mod 64; mask = lower_mask width
           in if length ws \<le> word_idx then None
              else let v = drop_bit bit_offset (ws ! word_idx) AND mask
                   in Some (if 64 < bit_offset + width \<and> word_idx + 1 < length ws
                            then v OR (push_bit (64 - bit_offset) (ws ! (word_idx + 1)) AND mask) else v))"

definition select_in_word :: "u64 \<Rightarrow> nat \<Rightarrow> nat" where
  "select_in_word w k = trailing_zeros (((\<lambda>w. w AND (w - 1)) ^^ (k - 1)) w)"

fun select1_loop :: "u64 list \<Rightarrow> nat \<Rightarrow> nat \<Rightarrow> nat option" where
  "select1_loop [] remaining pos = None"
| "select1_loop (w # ws) remaining pos =
     (if remaining \<le> count_ones w then Some (pos + select_in_word w remaining)
      else select1_loop ws (remaining - count_ones w) (pos + 64))"

definition select1 :: "elias_fano \<Rightarrow> nat \<Rightarrow> nat option" where
  "select1 ef i = (if unat (ef_len ef) \<le> i then None else select1_loop (ef_upper ef) (i + 1) 0)"

definition ef_get :: "elias_fano \<Rightarrow> nat \<Rightarrow> u32 option option" where
  "ef_get ef i =
     (if unat (ef_len ef) \<le> i then Some None
      else case load_lower (unat (ef_width ef)) i (ef_lower ef) of
             None \<Rightarrow> None
           | Some lower \<Rightarrow>
               Some (case select1 ef i of
                       None \<Rightarrow> None
                     | Some pos \<Rightarrow> Some (ucast (push_bit (unat (ef_width ef)) (of_nat pos - of_nat i) OR lower :: u64))))"

text \<open>The bit loop of \<open>select0\<close> over the bits that are left of a word: the answer, or the counters at its end.\<close>

fun select0_bits :: "nat \<Rightarrow> nat \<Rightarrow> u64 \<Rightarrow> nat \<Rightarrow> nat \<Rightarrow> nat + nat \<times> nat" where
  "select0_bits i 0 w zeros ones = Inr (zeros, ones)"
| "select0_bits i (Suc left) w zeros ones =
     (if w AND 1 = 0
      then if zeros + 1 = i then Inl ones else select0_bits i left (drop_bit 1 w) (zeros + 1) ones
      else select0_bits i left (drop_bit 1 w) zeros (ones + 1))"

fun select0_loop :: "nat \<Rightarrow> nat \<Rightarrow> u64 list \<Rightarrow> nat \<Rightarrow> nat \<Rightarrow> nat" where
  "select0_loop len i [] zeros ones = len"
| "select0_loop len i (w # ws) zeros ones =
     (let zeros_in_word = 64 - count_ones w; ones_in_word = count_ones w
      in case (if i \<le> zeros + zeros_in_word then select0_bits i 64 w zeros ones else Inr (zeros, ones)) of
           Inl r \<Rightarrow> r
         | Inr (zeros', ones') \<Rightarrow> select0_loop len i ws (zeros' + zeros_in_word) (ones' + ones_in_word))"

definition select0 :: "elias_fano \<Rightarrow> nat \<Rightarrow> nat" where
  "select0 ef i = (if i = 0 then 0 else select0_loop (unat (ef_len ef)) i (ef_upper ef) 0 0)"

fun geq_scan :: "elias_fano \<Rightarrow> u32 \<Rightarrow> nat list \<Rightarrow> (nat \<times> u32) option option" where
  "geq_scan ef target [] = Some None"
| "geq_scan ef target (pos # rest) =
     (case ef_get ef pos of
        None \<Rightarrow> None
      | Some (Some v) \<Rightarrow> if target \<le> v then Some (Some (pos, v)) else geq_scan ef target rest
      | Some None \<Rightarrow> geq_scan ef target rest)"

definition next_geq :: "elias_fano \<Rightarrow> u32 \<Rightarrow> (nat \<times> u32) option option" where
  "next_geq ef target =
     (if ef_len ef = 0 then Some None
      else let target_upper = drop_bit (unat (ef_width ef)) (ucast target :: u64);
               bucket_start = select0 ef (unat (ucast target_upper :: u32))
           in geq_scan ef target [bucket_start..<unat (ef_len ef)])"

definition ef_serialize :: "elias_fano \<Rightarrow> bytes" where
  "ef_serialize ef =
     u32_le (ef_len ef) @ u64_le (ef_universe ef) @ [ef_width ef] @
     u32_le (of_nat (length (ef_lower ef))) @ concat (map u64_le (ef_lower ef)) @
     u32_le (of_nat (length (ef_upper ef))) @ concat (map u64_le (ef_upper ef))"

definition ef_deserialize :: "elias_fano reader" where
  "ef_deserialize =
     rbind read_u32 (\<lambda>len. rbind read_u64 (\<lambda>universe. rbind read_u8 (\<lambda>width.
     rbind read_u32 (\<lambda>lower_len. rbind (rreplicate (unat lower_len) read_u64) (\<lambda>lower.
     rbind read_u32 (\<lambda>upper_len. rbind (rreplicate (unat upper_len) read_u64) (\<lambda>upper.
       rreturn \<lparr>ef_lower = lower, ef_upper = upper, ef_len = len, ef_universe = universe, ef_width = width\<rparr>)))))))"

definition ef_size_bytes :: "elias_fano \<Rightarrow> nat" where
  "ef_size_bytes ef = length (ef_lower ef) * 8 + length (ef_upper ef) * 8 + 16"

definition ef_next :: "elias_fano \<Rightarrow> nat \<Rightarrow> (nat \<times> u32 option) option" where
  "ef_next ef pos =
     (if unat (ef_len ef) \<le> pos then Some (pos, None)
      else case ef_get ef pos of
             None \<Rightarrow> None
           | Some None \<Rightarrow> Some (pos, None)
           | Some (Some v) \<Rightarrow> Some (pos + 1, Some v))"


section \<open>Packed low parts\<close>

lemma unat_u32: "unat (v :: u32) < 2 ^ 32"
  by (rule order_less_le_trans [OF unsigned_less]) simp

lemma unat_ucast_u32: "unat (ucast (v :: u32) :: u64) = unat v"
  using unat_u32 [of v] by (simp add: unsigned_ucast_eq take_bit_nat_eq_self)

lemma ucast_ucast_u32: "ucast (ucast (v :: u32) :: u64) = v"
  by (rule bit_word_eqI) (simp add: bit_ucast_iff)

lemma bit_lower_mask: "width \<le> 32 \<Longrightarrow> bit (lower_mask width) j \<longleftrightarrow> j < width"
  by (cases "width = 0") (auto simp: lower_mask_def bit_low_mask)

lemma store_lower_spec:
  assumes w: "0 < w" "w \<le> 32" and len: "(i + 1) * w \<le> length ws * 64"
  shows "\<exists>ws'. store_lower w i v ws = Some ws' \<and> length ws' = length ws \<and>
    (\<forall>k. wbit ws' k \<longleftrightarrow> wbit ws k \<or> (i * w \<le> k \<and> k < i * w + w \<and> bit v (k - i * w)))"
proof -
  define p idx off lo where "p = i * w" and "idx = p div 64" and "off = p mod 64" and "lo = v AND lower_mask w"
  have p: "p = idx * 64 + off" "off < 64" by (simp_all add: idx_def off_def)
  have pl: "p + w \<le> length ws * 64" using len by (simp add: p_def)
  then have i: "idx < length ws" using p w by linarith
  have lo: "bit lo j \<longleftrightarrow> j < w \<and> bit v j" for j using w(2) by (auto simp: lo_def bit_simps bit_lower_mask)
  define ws1 where "ws1 = ws[idx := ws ! idx OR push_bit off lo]"
  define ws2 where "ws2 = (if 64 < off + w \<and> idx + 1 < length ws1 then ws1[idx + 1 := ws1 ! (idx + 1) OR drop_bit (64 - off) lo] else ws1)"
  have e: "store_lower w i v ws = Some ws2"
    using i by (simp add: store_lower_def Let_def p_def [symmetric] idx_def [symmetric] off_def [symmetric] lo_def [symmetric] ws1_def ws2_def)
  have l: "length ws2 = length ws" by (simp add: ws1_def ws2_def)
  have "wbit ws2 k \<longleftrightarrow> wbit ws k \<or> (p \<le> k \<and> k < p + w \<and> bit v (k - p))" for k
  proof -
    define a b where "a = k div 64" and "b = k mod 64"
    have k: "k = a * 64 + b" "b < 64" by (simp_all add: a_def b_def)
    have A: "k - p = b - off \<and> p \<le> k" if "a = idx" "off \<le> b" using that k p by simp
    have B: "k - p = b + (64 - off) \<and> p \<le> k" if "a = idx + 1" using that k p by simp
    have C: "a = idx \<and> off \<le> b \<or> a = idx + 1 \<and> 64 < off + w" if "p \<le> k" "k < p + w"
    proof -
      consider "a < idx" | "a = idx" | "a = idx + 1" | "idx + 2 \<le> a" by linarith
      then show ?thesis
      proof cases
        case 1
        then have "a * 64 + 64 \<le> idx * 64" by simp
        then show ?thesis using that k p by linarith
      next
        case 4
        then have "idx * 64 + 128 \<le> a * 64" by simp
        then show ?thesis using that k p w by linarith
      qed (use that k p in auto)
    qed
    have w1: "wbit ws1 k \<longleftrightarrow> wbit ws k \<or> (a = idx \<and> off \<le> b \<and> bit lo (b - off))"
      using i k(2) by (auto simp: ws1_def wbit_def nth_list_update a_def [symmetric] b_def [symmetric] bit_simps split: if_splits)
    show ?thesis
    proof (cases "64 < off + w \<and> idx + 1 < length ws1")
      case True
      then have "wbit ws2 k \<longleftrightarrow> wbit ws1 k \<or> (a = idx + 1 \<and> bit lo (b + (64 - off)))"
        by (auto simp: ws2_def wbit_def nth_list_update a_def [symmetric] b_def [symmetric] bit_simps add.commute split: if_splits)
      moreover have "(a = idx \<and> off \<le> b \<and> bit lo (b - off)) \<or> (a = idx + 1 \<and> bit lo (b + (64 - off))) \<longleftrightarrow>
          p \<le> k \<and> k < p + w \<and> bit v (k - p)"
        unfolding lo using A B C by auto
      ultimately show ?thesis using w1 by blast
    next
      case False
      then have ow: "off + w \<le> 64" using pl p i by (auto simp: ws1_def)
      have "a = idx \<and> off \<le> b \<and> bit lo (b - off) \<longleftrightarrow> p \<le> k \<and> k < p + w \<and> bit v (k - p)"
        unfolding lo using A C ow by auto
      moreover have "ws2 = ws1" unfolding ws2_def using False by (rule if_not_P)
      ultimately show ?thesis using w1 by simp
    qed
  qed
  then show ?thesis using e l by (auto simp: p_def)
qed

lemma wbit_at: "b < 64 \<Longrightarrow> wbit (ws :: u64 list) (b + a * 64) \<longleftrightarrow> a < length ws \<and> bit (ws ! a) b"
  by (simp add: wbit_def)

lemma load_lower_spec:
  assumes w: "0 < w" "w \<le> 32" and len: "(i + 1) * w \<le> length ws * 64"
  shows "\<exists>lo. load_lower w i ws = Some lo \<and> (\<forall>j. bit lo j \<longleftrightarrow> j < w \<and> wbit ws (i * w + j))"
proof -
  define p idx off where "p = i * w" and "idx = p div 64" and "off = p mod 64"
  have p: "p = idx * 64 + off" "off < 64" by (simp_all add: idx_def off_def)
  have pl: "p + w \<le> length ws * 64" using len by (simp add: p_def)
  then have i: "idx < length ws" using p w by linarith
  define v where "v = drop_bit off (ws ! idx) AND lower_mask w"
  define lo where "lo = (if 64 < off + w \<and> idx + 1 < length ws then v OR (push_bit (64 - off) (ws ! (idx + 1)) AND lower_mask w) else v)"
  have e: "load_lower w i ws = Some lo"
    using i w by (simp add: load_lower_def Let_def p_def [symmetric] idx_def [symmetric] off_def [symmetric] v_def lo_def)
  have v: "bit v j \<longleftrightarrow> j < w \<and> off + j < 64 \<and> bit (ws ! idx) (off + j)" for j
    using w(2) bit_imp_le_length [of "ws ! idx" "off + j"] by (auto simp: v_def bit_and_iff bit_drop_bit_eq bit_lower_mask)
  have "bit lo j \<longleftrightarrow> j < w \<and> wbit ws (p + j)" if j: "j < w" for j
  proof (cases "off + j < 64")
    case True
    have q: "p + j = (off + j) + idx * 64" using p by simp
    have "wbit ws (p + j) \<longleftrightarrow> bit (ws ! idx) (off + j)"
      unfolding q wbit_at [OF True] using i by blast
    moreover have "j < 64 - off" using True by linarith
    then have "\<not> bit (push_bit (64 - off) (ws ! (idx + 1))) j" by (simp add: bit_push_bit_iff)
    ultimately show ?thesis using v [of j] j True by (auto simp: lo_def bit_or_iff bit_and_iff)
  next
    case False
    have i1: "idx + 1 < length ws" using False j pl p by linarith
    have q: "p + j = (off + j - 64) + (idx + 1) * 64" "off + j - 64 < 64" using False p j w(2) by simp_all
    have "wbit ws (p + j) \<longleftrightarrow> bit (ws ! (idx + 1)) (off + j - 64)"
      unfolding q(1) wbit_at [OF q(2)] using i1 by blast
    moreover have "bit lo j \<longleftrightarrow> bit (ws ! (idx + 1)) (off + j - 64)"
      using False v [of j] j i1 w(2) p(2) by (auto simp: lo_def bit_simps bit_lower_mask diff_diff_right add.commute)
    ultimately show ?thesis using j by simp
  qed
  moreover have "\<not> bit lo j" if "\<not> j < w" for j
    using that v [of j] w(2) by (auto simp: lo_def bit_simps bit_lower_mask)
  ultimately show ?thesis using e by (auto simp: p_def)
qed

section \<open>Encoding\<close>

lemma store_upper_spec:
  assumes "i + unat (drop_bit w v) < length ws * 64"
  shows "length (store_upper w i v ws) = length ws"
    "wbit (store_upper w i v ws) k \<longleftrightarrow> wbit ws k \<or> k = i + unat (drop_bit w v)"
proof -
  let ?p = "i + unat (drop_bit w v)"
  have p: "?p div 64 < length ws" using assms by (simp add: div_less_iff_less_mult)
  show "length (store_upper w i v ws) = length ws" by (simp add: store_upper_def Let_def)
  show "wbit (store_upper w i v ws) k \<longleftrightarrow> wbit ws k \<or> k = ?p"
    using wbit_set_bit [of ?p ws k] p by (simp add: store_upper_def Let_def)
qed

lemma store_values_spec:
  assumes "w \<le> 32" "\<forall>(i, v) \<in> set ivs. (i + 1) * w \<le> length lower * 64 \<and> i + unat (drop_bit w (ucast v :: u64)) < length upper * 64"
  shows "\<exists>lower' upper'. store_values w ivs (lower, upper) = Some (lower', upper') \<and>
    length lower' = length lower \<and> length upper' = length upper \<and>
    (\<forall>k. wbit lower' k \<longleftrightarrow> wbit lower k \<or> (\<exists>(i, v) \<in> set ivs. i * w \<le> k \<and> k < i * w + w \<and> bit (ucast v :: u64) (k - i * w))) \<and>
    (\<forall>k. wbit upper' k \<longleftrightarrow> wbit upper k \<or> k \<in> (\<lambda>(i, v). i + unat (drop_bit w (ucast v :: u64))) ` set ivs)"
  using assms(2)
proof (induction ivs arbitrary: lower upper)
  case (Cons x ivs)
  obtain i v where x: "x = (i, v)" by force
  have b: "(i + 1) * w \<le> length lower * 64" "i + unat (drop_bit w (ucast v :: u64)) < length upper * 64"
    using Cons.prems by (simp_all add: x)
  obtain lower1 where l1: "(if 0 < w then store_lower w i (ucast v) lower else Some lower) = Some lower1"
    "length lower1 = length lower"
    "\<forall>k. wbit lower1 k \<longleftrightarrow> wbit lower k \<or> (i * w \<le> k \<and> k < i * w + w \<and> bit (ucast v :: u64) (k - i * w))"
    using store_lower_spec [OF _ assms(1) b(1)] by (cases "0 < w") auto
  let ?upper = "store_upper w i (ucast v) upper"
  note u1 = store_upper_spec [OF b(2)]
  have "\<forall>(i, v) \<in> set ivs. (i + 1) * w \<le> length lower1 * 64 \<and> i + unat (drop_bit w (ucast v :: u64)) < length ?upper * 64"
    using Cons.prems l1(2) u1(1) by (auto simp: x)
  then obtain lower' upper' where r: "store_values w ivs (lower1, ?upper) = Some (lower', upper')"
    "length lower' = length lower1" "length upper' = length ?upper"
    "\<forall>k. wbit lower' k \<longleftrightarrow> wbit lower1 k \<or> (\<exists>(i, v) \<in> set ivs. i * w \<le> k \<and> k < i * w + w \<and> bit (ucast v :: u64) (k - i * w))"
    "\<forall>k. wbit upper' k \<longleftrightarrow> wbit ?upper k \<or> k \<in> (\<lambda>(i, v). i + unat (drop_bit w (ucast v :: u64))) ` set ivs"
    using Cons.IH by blast
  have "store_values w (x # ivs) (lower, upper) = Some (lower', upper')" using l1(1) r(1) by (simp add: x)
  moreover have "wbit lower' k \<longleftrightarrow> wbit lower k \<or> (\<exists>(i, v) \<in> set (x # ivs). i * w \<le> k \<and> k < i * w + w \<and> bit (ucast v :: u64) (k - i * w))" for k
    using r(4) l1(3) by (simp add: x)
  moreover have "wbit upper' k \<longleftrightarrow> wbit upper k \<or> k \<in> (\<lambda>(i, v). i + unat (drop_bit w (ucast v :: u64))) ` set (x # ivs)" for k
    using r(5) u1(2) by (simp add: x)
  ultimately show ?case using r(2,3) l1(2) u1(1) by auto
qed simp

lemma lower_width_bits:
  assumes "0 < n" "ratio = max universe 1 div max (of_nat n) 1"
  shows "bits_needed_u64 ratio \<le> lower_width universe n + 1" "lower_width universe n \<le> bits_needed_u64 ratio - 1"
proof -
  have "bits_needed_u64 ratio = 64 - leading_zeros ratio" if "\<not> ratio \<le> 1" using that by (auto simp: bits_needed_u64_def)
  moreover have "bits_needed_u64 ratio \<le> 1" if "ratio \<le> 1" using that by (simp add: bits_needed_le_iff word_le_nat_alt)
  moreover have "lower_width universe n = (if ratio \<le> 1 then 0 else 64 - leading_zeros ratio - 1)"
    using assms by (simp add: lower_width_def Let_def)
  ultimately show "bits_needed_u64 ratio \<le> lower_width universe n + 1" "lower_width universe n \<le> bits_needed_u64 ratio - 1"
    by (simp_all split: if_splits)
qed

lemma lower_width_le:
  assumes "unat universe \<le> 2 ^ 32" "0 < n"
  shows "lower_width universe n \<le> 32"
proof -
  define ratio where "ratio = max universe 1 div max (of_nat n) (1 :: u64)"
  have "unat ratio \<le> unat (max universe 1)" by (simp add: ratio_def unat_div)
  also have "\<dots> \<le> 2 ^ 32" using assms by (auto simp: max_def)
  finally have "bits_needed_u64 ratio \<le> 33" by (simp add: bits_needed_le_iff)
  then show ?thesis using lower_width_bits(2) [OF assms(2) ratio_def] by linarith
qed

text \<open>The low part is wide enough for the high parts to stay below twice the number of values.\<close>

lemma lower_width_high_part:
  assumes n: "0 < n" "n < 2 ^ 64" and v: "v < unat universe"
  shows "v div 2 ^ lower_width universe n < 2 * n"
proof -
  define ratio where "ratio = max universe 1 div max (of_nat n) (1 :: u64)"
  have "1 \<le> universe" using v by (simp add: word_le_nat_alt)
  then have m: "max universe 1 = universe" by (rule max.absorb1)
  have "unat (of_nat n :: u64) = n" using n(2) by (simp add: unat_of_nat)
  moreover from this have "1 \<le> (of_nat n :: u64)" using n(1) by (simp add: word_le_nat_alt)
  then have "max (of_nat n) (1 :: u64) = of_nat n" by (rule max.absorb1)
  ultimately have r: "unat ratio = unat universe div n" by (simp add: ratio_def m unat_div)
  have "unat ratio < 2 ^ (lower_width universe n + 1)"
    using lower_width_bits(1) [OF n(1) ratio_def] by (simp add: bits_needed_le_iff)
  then have "unat universe < 2 ^ (lower_width universe n + 1) * n" using n(1) by (simp add: r div_less_iff_less_mult)
  then have "v < 2 * n * 2 ^ lower_width universe n" using v by (simp add: ac_simps)
  then show ?thesis by (simp add: less_mult_imp_div_less)
qed

text \<open>What an encoding holds: the low bits of every value, and one bit per value at its unary position.\<close>

definition unary_pos :: "nat \<Rightarrow> u32 list \<Rightarrow> nat \<Rightarrow> nat" where
  "unary_pos w vs i = i + unat (vs ! i) div 2 ^ w"

definition ef_encodes :: "elias_fano \<Rightarrow> u32 list \<Rightarrow> bool" where
  "ef_encodes ef vs \<longleftrightarrow> unat (ef_len ef) = length vs \<and> unat (ef_width ef) \<le> 32 \<and>
     length vs * unat (ef_width ef) \<le> length (ef_lower ef) * 64 \<and>
     length (ef_lower ef) < 2 ^ 32 \<and> length (ef_upper ef) * 64 < 2 ^ 32 \<and>
     (\<forall>i < length vs. \<forall>j < unat (ef_width ef). wbit (ef_lower ef) (i * unat (ef_width ef) + j) \<longleftrightarrow> bit (vs ! i) j) \<and>
     wpositions (ef_upper ef) = map (unary_pos (unat (ef_width ef)) vs) [0..<length vs]"

lemma unat_high_part: "unat (drop_bit w (ucast (v :: u32) :: u64)) = unat v div 2 ^ w"
  unfolding unat_drop_bit_eq unat_ucast_u32 by (rule drop_bit_eq_div)

lemma sorted_nth_le: "sorted vs \<Longrightarrow> i \<le> j \<Longrightarrow> j < length vs \<Longrightarrow> unat (vs ! i) \<le> unat ((vs :: u32 list) ! j)"
  using sorted_nth_mono [of vs i j] by (simp add: word_le_nat_alt)

lemma unary_pos_less: "sorted vs \<Longrightarrow> i < j \<Longrightarrow> j < length vs \<Longrightarrow> unary_pos w vs i < unary_pos w vs j"
  using sorted_nth_le [of vs i j] div_le_mono [of "unat (vs ! i)" "unat (vs ! j)" "2 ^ w"] by (simp add: unary_pos_def)

lemma same_slot: "i * w \<le> k \<Longrightarrow> k < i * w + w \<Longrightarrow> k div w = i \<and> k mod w = k - (i :: nat) * w"
  by (metis add_diff_cancel_left' div_nat_eqI le_add_diff_inverse minus_div_mult_eq_mod mult.commute mult_Suc nat_add_left_cancel_less add.commute)

lemma ef_from_sorted_slice_spec:
  assumes srt: "sorted vs" and len: "length vs < 2 ^ 30"
  shows "\<exists>ef. ef_from_sorted_slice vs = Some ef \<and> ef_encodes ef vs"
proof (cases "vs = []")
  case True
  then show ?thesis by (simp add: ef_from_sorted_slice_def ef_encodes_def)
next
  case False
  let ?n = "length vs" and ?max = "ucast (last vs) :: u64"
  define w where "w = lower_width (?max + 1) ?n"
  let ?lower = "replicate (div_ceil (?n * w) 64) 0 :: u64 list" and ?upper = "replicate (div_ceil (?n + unat (drop_bit w ?max) + 1) 64) 0 :: u64 list"
  have "unat (?max + 1) \<le> 2 ^ 32" using unat_ucast_u32 [of "last vs"] unat_u32 [of "last vs"] by (simp add: unat_word_ariths)
  then have w: "w \<le> 32" unfolding w_def by (rule lower_width_le) (use False in simp)
  have ll: "?n * w \<le> length ?lower * 64" using div_ceil_mult_ge [of 64 "?n * w"] by simp
  have "?n * w \<le> 2 ^ 30 * 32" using len w by (intro mult_le_mono) simp_all
  then have l32: "length ?lower < 2 ^ 32" by (simp add: div_ceil_def)
  have "unat (last vs) < unat (?max + 1)" using unat_ucast_u32 [of "last vs"] unat_u32 [of "last vs"] by (simp add: unat_word_ariths)
  then have "unat (drop_bit w ?max) < 2 * ?n"
    using lower_width_high_part [of ?n "unat (last vs)" "?max + 1"] len False by (simp add: w_def unat_high_part)
  then have u32: "length ?upper * 64 < 2 ^ 32" using len by (simp add: div_ceil_def)
  have bounds: "(i + 1) * w \<le> length ?lower * 64 \<and> i + unat (drop_bit w (ucast v :: u64)) < length ?upper * 64"
    if "(i, v) \<in> set (enumerate 0 vs)" for i v
  proof -
    have iv: "i < ?n" "v = vs ! i" using that by (auto simp: in_set_enumerate_eq)
    have "(i + 1) * w \<le> ?n * w" using iv(1) by (intro mult_le_mono1) simp
    moreover have "unat v \<le> unat (last vs)" using sorted_nth_le [OF srt, of i "?n - 1"] iv False by (simp add: last_conv_nth)
    then have "unat v div 2 ^ w \<le> unat (last vs) div 2 ^ w" by (rule div_le_mono)
    moreover have "?n + unat (last vs) div 2 ^ w + 1 \<le> length ?upper * 64"
      using div_ceil_mult_ge [of 64 "?n + unat (drop_bit w ?max) + 1"] by (simp add: unat_high_part)
    ultimately show ?thesis using ll iv(1) by (simp add: unat_high_part)
  qed
  obtain lower upper where r: "store_values w (enumerate 0 vs) (?lower, ?upper) = Some (lower, upper)"
    "length lower = length ?lower" "length upper = length ?upper"
    "\<forall>k. wbit lower k \<longleftrightarrow> wbit ?lower k \<or> (\<exists>(i, v) \<in> set (enumerate 0 vs). i * w \<le> k \<and> k < i * w + w \<and> bit (ucast v :: u64) (k - i * w))"
    "\<forall>k. wbit upper k \<longleftrightarrow> wbit ?upper k \<or> k \<in> (\<lambda>(i, v). i + unat (drop_bit w (ucast v :: u64))) ` set (enumerate 0 vs)"
    using store_values_spec [OF w, of "enumerate 0 vs" ?lower ?upper] bounds by blast
  let ?ef = "\<lparr>ef_lower = lower, ef_upper = upper, ef_len = of_nat ?n, ef_universe = ?max + 1, ef_width = of_nat w\<rparr>"
  have ww: "unat (ef_width ?ef) = w" using w by (simp add: unat_of_nat)
  have low: "wbit lower (i * w + j) \<longleftrightarrow> bit (vs ! i) j" if ij: "i < ?n" "j < w" for i j
  proof -
    have "wbit lower (i * w + j) \<longleftrightarrow> (\<exists>(i', v) \<in> set (enumerate 0 vs). i' = i \<and> bit (ucast v :: u64) j)"
    proof -
      have "i' * w \<le> i * w + j \<and> i * w + j < i' * w + w \<longleftrightarrow> i' = i" for i'
        using same_slot [of i' w "i * w + j"] same_slot [of i w "i * w + j"] ij(2) by auto
      then have "i' * w \<le> i * w + j \<and> i * w + j < i' * w + w \<and> bit x (i * w + j - i' * w) \<longleftrightarrow> i' = i \<and> bit x j"
        for i' and x :: u64 by (metis add_diff_cancel_left')
      moreover have "\<not> wbit ?lower (i * w + j)" by simp
      ultimately show ?thesis using r(4) by simp
    qed
    also have "\<dots> \<longleftrightarrow> bit (ucast (vs ! i) :: u64) j" using ij(1) by (force simp: in_set_enumerate_eq)
    also have "\<dots> \<longleftrightarrow> bit (vs ! i) j" using ij(2) w by (simp add: bit_ucast_iff)
    finally show ?thesis .
  qed
  have "wpositions upper = map (unary_pos w vs) [0..<?n]"
  proof (rule strict_sorted_equal)
    show "sorted_wrt (<) (map (unary_pos w vs) [0..<?n])"
      using unary_pos_less [OF srt] by (auto simp: sorted_wrt_iff_nth_less)
    show "set (wpositions upper) = set (map (unary_pos w vs) [0..<?n])"
    proof -
      have "set (enumerate 0 vs) = (\<lambda>i. (i, vs ! i)) ` {0..<?n}" by (auto simp: in_set_enumerate_eq)
      then have "(\<lambda>(i, v). i + unat (drop_bit w (ucast v :: u64))) ` set (enumerate 0 vs) = unary_pos w vs ` {0..<?n}"
        by (simp add: image_image unary_pos_def unat_high_part)
      then have "{k. wbit upper k} = unary_pos w vs ` {0..<?n}" using r(5) by simp
      then show ?thesis by (simp add: set_wpositions)
    qed
  qed simp
  then have "ef_encodes ?ef vs"
    unfolding ef_encodes_def ww using w ll r(2,3) low len l32 u32 by (simp add: unat_of_nat)
  moreover have "ef_from_sorted_slice vs = Some ?ef"
    using False r(1) by (simp add: ef_from_sorted_slice_def Let_def w_def [symmetric])
  ultimately show ?thesis by blast
qed

section \<open>Reading the values back\<close>

lemma select_in_word_eq: "0 < k \<Longrightarrow> k \<le> count_ones w \<Longrightarrow> select_in_word w k = bit_positions w ! (k - 1)"
  using clear_lowest_positions [of "k - 1" w] by (simp add: select_in_word_def)

lemma select1_loop_eq:
  "0 < remaining \<Longrightarrow> select1_loop ws remaining pos =
     (if remaining \<le> length (wpositions ws) then Some (pos + wpositions ws ! (remaining - 1)) else None)"
proof (induction ws arbitrary: remaining pos)
  case (Cons w ws)
  have c: "length (bit_positions w) = count_ones w" by (simp add: count_ones_def)
  show ?case
  proof (cases "remaining \<le> count_ones w")
    case True
    then have "remaining - 1 < count_ones w" using Cons.prems by linarith
    then show ?thesis using True Cons.prems c by (simp add: select_in_word_eq wpositions_Cons nth_append)
  next
    case False
    then have "\<not> remaining - 1 < count_ones w" by linarith
    then show ?thesis using Cons.IH [of "remaining - count_ones w" "pos + 64"] False c
      by (auto simp: wpositions_Cons nth_append)
  qed
qed simp

lemma select1_spec:
  assumes "ef_encodes ef vs" "i < length vs"
  shows "select1 ef i = Some (unary_pos (unat (ef_width ef)) vs i)"
  using assms by (simp add: ef_encodes_def select1_def select1_loop_eq)

lemma ef_get_spec:
  assumes e: "ef_encodes ef vs"
  shows "ef_get ef i = Some (if i < length vs then Some (vs ! i) else None)"
proof (cases "i < length vs")
  case True
  define w where "w = unat (ef_width ef)"
  have w: "w \<le> 32" and n: "unat (ef_len ef) = length vs" and ll: "length vs * w \<le> length (ef_lower ef) * 64"
    and low: "\<forall>j < w. wbit (ef_lower ef) (i * w + j) \<longleftrightarrow> bit (vs ! i) j"
    using e True by (simp_all add: ef_encodes_def w_def)
  have "(i + 1) * w \<le> length vs * w" using True by (intro mult_le_mono1) simp
  then have "(i + 1) * w \<le> length (ef_lower ef) * 64" using ll by simp
  then obtain lo where lo: "load_lower w i (ef_lower ef) = Some lo" "\<forall>j. bit lo j \<longleftrightarrow> j < w \<and> bit (vs ! i) j"
    using load_lower_spec [of w i "ef_lower ef"] w low by (cases "w = 0") (auto simp: load_lower_def)
  let ?v = "ucast (vs ! i) :: u64"
  have "of_nat (unary_pos w vs i) - of_nat i = (of_nat (unat (drop_bit w ?v)) :: u64)"
    by (simp add: unary_pos_def unat_high_part)
  then have "of_nat (unary_pos w vs i) - of_nat i = drop_bit w ?v" by simp
  moreover have "push_bit w (drop_bit w ?v) OR lo = ?v"
  proof (rule bit_word_eqI)
    fix j assume j: "j < LENGTH(64)"
    then have "bit ?v j \<longleftrightarrow> bit (vs ! i) j" by (simp add: bit_ucast_iff)
    moreover have "bit (push_bit w (drop_bit w ?v)) j \<longleftrightarrow> w \<le> j \<and> bit ?v j"
      using j by (cases "w \<le> j") (simp_all add: bit_push_bit_iff bit_drop_bit_eq)
    ultimately show "bit (push_bit w (drop_bit w ?v) OR lo) j \<longleftrightarrow> bit ?v j" unfolding bit_or_iff lo(2) [rule_format] by (meson not_le)
  qed
  ultimately have "ucast (push_bit w (of_nat (unary_pos w vs i) - of_nat i) OR lo) = vs ! i" by (simp add: ucast_ucast_u32)
  then show ?thesis using True n lo(1) select1_spec [OF e True] by (simp add: ef_get_def w_def)
qed (use e in \<open>simp add: ef_get_def ef_encodes_def\<close>)

section \<open>Skipping\<close>

definition zeros_before :: "u64 list \<Rightarrow> nat \<Rightarrow> nat" where
  "zeros_before ws p = length (filter (\<lambda>k. \<not> wbit ws k) [0..<p])"

definition ones_before :: "u64 list \<Rightarrow> nat \<Rightarrow> nat" where
  "ones_before ws p = length (filter (wbit ws) [0..<p])"

lemma ones_zeros_before: "ones_before ws p + zeros_before ws p = p"
  using sum_length_filter_compl [of "wbit ws" "[0..<p]"] by (simp add: ones_before_def zeros_before_def)

lemma length_filter_upt_mono: "p \<le> q \<Longrightarrow> length (filter P [0..<p]) \<le> length (filter P [0..<q])"
  using upt_add_eq_append [of 0 p "q - p"] by simp

lemma length_filter_Suc_shift:
  "length (filter P [0..<Suc p]) = (if P 0 then 1 else 0) + length (filter (\<lambda>k. P (Suc k)) [0..<p])"
proof -
  have "[0..<Suc p] = 0 # map Suc [0..<p]" by (simp only: upt_conv_Cons map_Suc_upt zero_less_Suc)
  then show ?thesis by (simp only: filter.simps filter_map comp_def) simp
qed

text \<open>A scan over the bits \<open>P 0, ..., P (n - 1)\<close>: the number of ones before the zero that brings the count of
  zeros to \<open>i\<close>, or all zeros counted.\<close>

definition scan_result :: "nat \<Rightarrow> nat \<Rightarrow> (nat \<Rightarrow> bool) \<Rightarrow> nat \<Rightarrow> nat \<Rightarrow> nat + nat \<times> nat \<Rightarrow> bool" where
  "scan_result i n P zeros ones res \<longleftrightarrow>
     (case res of
        Inl r \<Rightarrow> \<exists>p < n. r = ones + length (filter P [0..<p]) \<and> zeros + length (filter (\<lambda>k. \<not> P k) [0..<p]) + 1 = i
      | Inr (z, _) \<Rightarrow> z = zeros + length (filter (\<lambda>k. \<not> P k) [0..<n]) \<and> z < i)"

lemma scan_result_step:
  assumes "scan_result i n (\<lambda>k. P (Suc k)) (if P 0 then zeros else zeros + 1) (if P 0 then ones + 1 else ones) res"
  shows "scan_result i (Suc n) P zeros ones res"
proof (cases res)
  case (Inl r)
  then obtain p where "p < n" "r = (if P 0 then ones + 1 else ones) + length (filter (\<lambda>k. P (Suc k)) [0..<p])"
      "(if P 0 then zeros else zeros + 1) + length (filter (\<lambda>k. \<not> P (Suc k)) [0..<p]) + 1 = i"
    using assms by (auto simp: scan_result_def)
  then have "Suc p < Suc n \<and> r = ones + length (filter P [0..<Suc p]) \<and> zeros + length (filter (\<lambda>k. \<not> P k) [0..<Suc p]) + 1 = i"
    unfolding length_filter_Suc_shift by (auto split: if_splits)
  then show ?thesis unfolding scan_result_def Inl by auto
next
  case (Inr zo)
  then show ?thesis using assms unfolding scan_result_def length_filter_Suc_shift by (auto split: if_splits)
qed

lemma select0_bits_spec: "zeros < i \<Longrightarrow> scan_result i n (bit w) zeros ones (select0_bits i n w zeros ones)"
proof (induction i n w zeros ones rule: select0_bits.induct)
  case (1 i w zeros ones)
  then show ?case by (simp add: scan_result_def)
next
  case (2 i left w zeros ones)
  have sh: "bit (drop_bit 1 w) = (\<lambda>k. bit w (Suc k))" by (auto simp: bit_drop_bit_eq)
  have odd: "w AND 1 = 0 \<longleftrightarrow> \<not> bit w 0" by (simp add: and_one_eq bit_0 odd_iff_mod_2_eq_one)
  show ?case
  proof (cases "bit w 0")
    case True
    then have "scan_result i left (bit (drop_bit 1 w)) zeros (ones + 1) (select0_bits i left (drop_bit 1 w) zeros (ones + 1))"
      using "2.IH"(2) "2.prems" odd by simp
    then show ?thesis using True odd unfolding sh by (intro scan_result_step) simp
  next
    case zero: False
    show ?thesis
    proof (cases "zeros + 1 = i")
      case True
      then show ?thesis using zero odd by (auto simp: scan_result_def intro!: exI [of _ 0])
    next
      case False
      then have "scan_result i left (bit (drop_bit 1 w)) (zeros + 1) ones (select0_bits i left (drop_bit 1 w) (zeros + 1) ones)"
        using "2.IH"(1) "2.prems" odd zero by simp
      then show ?thesis using zero odd False unfolding sh by (intro scan_result_step) simp
    qed
  qed
qed

text \<open>The bits of a word followed by further words.\<close>

lemma upt_split_64: "[0..<64 + p] = [0..<64] @ map (\<lambda>k. k + 64) [0..<p]"
  using upt_add_eq_append [of 0 64 p] by (simp add: map_add_upt add.commute)

lemma before_word:
  "p \<le> 64 \<Longrightarrow> ones_before (w # ws) p = length (filter (bit w) [0..<p])"
  "p \<le> 64 \<Longrightarrow> zeros_before (w # ws) p = length (filter (\<lambda>k. \<not> bit w k) [0..<p])"
  unfolding ones_before_def zeros_before_def by (auto intro!: arg_cong [where f = length] filter_cong simp: wbit_Cons)

lemma before_words:
  "ones_before (w # ws) (64 + p) = ones_before (w # ws) 64 + ones_before ws p"
  "zeros_before (w # ws) (64 + p) = zeros_before (w # ws) 64 + zeros_before ws p"
  unfolding ones_before_def zeros_before_def upt_split_64 by (simp_all add: filter_map comp_def wbit_Cons)

lemma count_ones_before: "ones_before (w # ws) 64 = count_ones w" "zeros_before (w # ws) 64 = 64 - count_ones w"
proof -
  have "filter (bit w) [0..<64] = bit_positions w" by (simp add: bit_positions_def)
  then show one: "ones_before (w # ws) 64 = count_ones w" by (simp add: before_word count_ones_def)
  show "zeros_before (w # ws) 64 = 64 - count_ones w" using ones_zeros_before [of "w # ws" 64] one by simp
qed

lemma select0_loop_spec:
  assumes "zeros < i"
  shows "(\<exists>p < length ws * 64. select0_loop len i ws zeros ones = ones + ones_before ws p \<and> zeros + zeros_before ws p + 1 = i) \<or>
    select0_loop len i ws zeros ones = len \<and> zeros + zeros_before ws (length ws * 64) < i"
  using assms
proof (induction ws arbitrary: zeros ones)
  case (Cons w ws)
  note c = count_ones_before [of w ws]
  show ?case
  proof (cases "i \<le> zeros + (64 - count_ones w)")
    case True
    have "scan_result i 64 (bit w) zeros ones (select0_bits i 64 w zeros ones)" by (rule select0_bits_spec [OF Cons.prems])
    moreover have "zeros + length (filter (\<lambda>k. \<not> bit w k) [0..<64]) \<ge> i" using True c(2) before_word(2) [of 64 w ws] by simp
    ultimately obtain r p where r: "select0_bits i 64 w zeros ones = Inl r" "p < 64"
        "r = ones + ones_before (w # ws) p" "zeros + zeros_before (w # ws) p + 1 = i"
      by (auto simp: scan_result_def before_word split: sum.splits)
    have "select0_loop len i (w # ws) zeros ones = r" unfolding select0_loop.simps Let_def by (simp only: True r(1) if_True sum.case)
    then show ?thesis using r(2-4) by (intro disjI1 exI [of _ p]) simp
  next
    case False
    have e: "select0_loop len i (w # ws) zeros ones = select0_loop len i ws (zeros + zeros_before (w # ws) 64) (ones + ones_before (w # ws) 64)"
      unfolding select0_loop.simps Let_def c by (simp only: False if_False sum.case prod.case)
    have "zeros + zeros_before (w # ws) 64 < i" using False c by simp
    from Cons.IH [OF this, of "ones + ones_before (w # ws) 64"] show ?thesis
    proof (elim disjE exE conjE)
      fix p assume "p < length ws * 64" "select0_loop len i ws (zeros + zeros_before (w # ws) 64) (ones + ones_before (w # ws) 64) =
          ones + ones_before (w # ws) 64 + ones_before ws p" "zeros + zeros_before (w # ws) 64 + zeros_before ws p + 1 = i"
      then show ?thesis unfolding e by (intro disjI1 exI [of _ "64 + p"]) (simp add: before_words)
    next
      assume "select0_loop len i ws (zeros + zeros_before (w # ws) 64) (ones + ones_before (w # ws) 64) = len"
        "zeros + zeros_before (w # ws) 64 + zeros_before ws (length ws * 64) < i"
      then show ?thesis unfolding e by (intro disjI2) (simp add: before_words)
    qed
  qed
qed (simp add: zeros_before_def)

lemma before_unary:
  assumes "wpositions ws = map f [0..<n]" "e < n"
  shows "ones_before ws (f e) = e"
proof -
  have "filter (wbit ws) [0..<f e] = take e (wpositions ws)"
  proof (rule strict_sorted_equal)
    show "sorted_wrt (<) (filter (wbit ws) [0..<f e])" by (simp add: sorted_wrt_filter)
    show "sorted_wrt (<) (take e (wpositions ws))" using sorted_wpositions [of ws] by (simp add: sorted_wrt_take)
    have srt: "f i < f j" if "i < j" "j < n" for i j
      using sorted_wrt_nth_less [OF sorted_wpositions [of ws], of i j] that by (simp add: assms(1))
    have wb: "wbit ws k \<longleftrightarrow> k \<in> f ` {..<n}" for k
    proof -
      have "wbit ws k \<longleftrightarrow> k \<in> set (wpositions ws)" by (simp add: set_wpositions)
      then show ?thesis by (auto simp: assms(1))
    qed
    have le: "f i < f e \<longleftrightarrow> i < e" if "i < n" for i
      using srt [of i e] srt [of e i] that assms(2) by (metis less_asym' linorder_neqE_nat)
    have "{k. k < f e \<and> wbit ws k} = f ` {..<e}"
    proof (intro set_eqI iffI)
      fix k assume "k \<in> f ` {..<e}"
      then obtain i where i: "i < e" "k = f i" by auto
      then have "i < n" using assms(2) by simp
      then show "k \<in> {k. k < f e \<and> wbit ws k}" using i le [of i] by (simp add: wb)
    qed (auto simp: wb le)
    then show "set (filter (wbit ws) [0..<f e]) = set (take e (wpositions ws))"
      using assms(2) by (auto simp: assms(1) take_map)
  qed
  then show ?thesis using assms by (simp add: ones_before_def)
qed

text \<open>Every value before the position that \<open>select0\<close> returns has a smaller high part.\<close>

lemma select0_spec:
  assumes e: "ef_encodes ef vs" and j: "j < select0 ef i" "j < length vs"
  shows "unat (vs ! j) div 2 ^ unat (ef_width ef) < i"
proof -
  let ?ws = "ef_upper ef" and ?w = "unat (ef_width ef)"
  have pos: "wpositions ?ws = map (unary_pos ?w vs) [0..<length vs]" and n: "unat (ef_len ef) = length vs"
    using e by (simp_all add: ef_encodes_def)
  let ?p = "unary_pos ?w vs j"
  have one: "ones_before ?ws ?p = j" by (rule before_unary [OF pos j(2)])
  then have zero: "zeros_before ?ws ?p = unat (vs ! j) div 2 ^ ?w"
    using ones_zeros_before [of ?ws ?p] by (simp add: unary_pos_def)
  have i: "0 < i" using j(1) by (cases "i = 0") (simp_all add: select0_def)
  have "wbit ?ws ?p" using pos j(2) set_wpositions [of ?ws] by auto
  then have inside: "?p < length ?ws * 64" using wbit_bound [of ?ws ?p] by simp
  from select0_loop_spec [OF i, of ?ws "length vs" 0] show ?thesis
  proof (elim disjE exE conjE)
    fix p assume p: "select0_loop (length vs) i ?ws 0 0 = 0 + ones_before ?ws p" "0 + zeros_before ?ws p + 1 = i"
    have "ones_before ?ws ?p < ones_before ?ws p" using j(1) i p(1) one by (simp add: select0_def n)
    then have "?p \<le> p" using length_filter_upt_mono [of p ?p "wbit ?ws"] unfolding ones_before_def by linarith
    then have "zeros_before ?ws ?p \<le> zeros_before ?ws p" unfolding zeros_before_def by (rule length_filter_upt_mono)
    then show ?thesis using zero p(2) by simp
  next
    assume "0 + zeros_before ?ws (length ?ws * 64) < i"
    moreover have "zeros_before ?ws ?p \<le> zeros_before ?ws (length ?ws * 64)"
      unfolding zeros_before_def using inside by (intro length_filter_upt_mono) simp
    ultimately show ?thesis using zero by simp
  qed
qed

lemma geq_scan_spec:
  assumes "ef_encodes ef vs" "\<forall>i \<in> set is. i < length vs"
  shows "geq_scan ef t is = Some (map_option (\<lambda>i. (i, vs ! i)) (find (\<lambda>i. t \<le> vs ! i) is))"
  using assms(2) by (induction "is") (simp_all add: ef_get_spec [OF assms(1)])

lemma next_geq_spec:
  assumes e: "ef_encodes ef vs"
  shows "next_geq ef t = Some (map_option (\<lambda>i. (i, vs ! i)) (find (\<lambda>i. t \<le> vs ! i) [0..<length vs]))"
proof (cases "vs = []")
  case True
  then have "ef_len ef = 0" using e by (simp add: ef_encodes_def unat_eq_zero)
  then show ?thesis using True by (simp add: next_geq_def)
next
  case False
  let ?w = "unat (ef_width ef)" and ?n = "length vs"
  have n: "unat (ef_len ef) = ?n" using e by (simp add: ef_encodes_def)
  then have ne: "ef_len ef \<noteq> 0" using False by auto
  define h where "h = unat t div 2 ^ ?w"
  have h: "unat (ucast (drop_bit ?w (ucast t :: u64)) :: u32) = h"
  proof -
    have "h \<le> unat t" by (simp add: h_def)
    then have "h < 2 ^ 32" using unat_u32 [of t] by linarith
    then show ?thesis unfolding unsigned_ucast_eq unat_high_part by (simp add: h_def take_bit_nat_eq_self)
  qed
  define b where "b = select0 ef h"
  have skip: "\<not> t \<le> vs ! j" if "j < b" "j < ?n" for j
  proof
    assume "t \<le> vs ! j"
    then have "h \<le> unat (vs ! j) div 2 ^ ?w" unfolding h_def by (intro div_le_mono) (simp add: word_le_nat_alt)
    then show False using select0_spec [OF e, of j h] that by (simp add: b_def)
  qed
  have "next_geq ef t = geq_scan ef t [b..<?n]" using ne n h by (simp add: next_geq_def Let_def b_def)
  also have "\<dots> = Some (map_option (\<lambda>i. (i, vs ! i)) (find (\<lambda>i. t \<le> vs ! i) [b..<?n]))"
    by (rule geq_scan_spec [OF e]) simp
  also have "find (\<lambda>i. t \<le> vs ! i) [b..<?n] = find (\<lambda>i. t \<le> vs ! i) [0..<?n]"
  proof (cases "b \<le> ?n")
    case True
    have "[0..<?n] = [0..<b] @ [b..<?n]" using True upt_add_eq_append [of 0 b "?n - b"] by simp
    moreover have "find (\<lambda>i. t \<le> vs ! i) (xs @ ys) = find (\<lambda>i. t \<le> vs ! i) ys" if "\<forall>x \<in> set xs. \<not> t \<le> vs ! x" for xs ys
      using that by (induction xs) auto
    ultimately show ?thesis using skip True by simp
  next
    case False
    then have "find (\<lambda>i. t \<le> vs ! i) [0..<?n] = None" using skip by (auto simp: find_None_iff)
    then show ?thesis using False by simp
  qed
  finally show ?thesis .
qed

section \<open>The iterator and the stored form\<close>

lemma ef_next_spec:
  assumes "ef_encodes ef vs"
  shows "ef_next ef pos = Some (if pos < length vs then (pos + 1, Some (vs ! pos)) else (pos, None))"
  using assms ef_get_spec [OF assms] by (simp add: ef_next_def ef_encodes_def)

lemma ef_round_trip:
  assumes "length (ef_lower ef) < 2 ^ 32" "length (ef_upper ef) < 2 ^ 32"
  shows "ef_deserialize (ef_serialize ef @ bs) = Inr (ef, bs)"
proof -
  have "rreplicate (length ws) read_u64 (concat (map u64_le ws) @ more) = Inr (ws, more)" for ws more
    by (rule rreplicate_concat) (simp add: le_simps)
  then show ?thesis using assms
    by (simp add: ef_deserialize_def ef_serialize_def rbind_def le_simps rreturn_def unat_of_nat)
qed

section \<open>Properties\<close>

text \<open>
  C12. An Elias-Fano sequence is the sorted list it was built from, for up to \<open>2 ^ 30\<close>
  values, repetitions included: building it never indexes out of range, random access
  returns every value and \<open>None\<close> past the end, \<open>next_geq\<close> returns the position and the
  value of the first element at or above any target, the iterator yields the values
  in order, and the serialized bytes read back the same sequence and leave what
  follows them. The bitmap of high parts has fewer than \<open>2 ^ 32\<close> bits, so the 32-bit
  bit counters of the code do not overflow.
\<close>

theorem elias_fano_correct:
  assumes "sorted vs" "length vs < 2 ^ 30"
  shows "\<exists>ef. ef_from_sorted_slice vs = Some ef \<and> length (ef_upper ef) * 64 < 2 ^ 32 \<and>
    (\<forall>i. ef_get ef i = Some (if i < length vs then Some (vs ! i) else None)) \<and>
    (\<forall>t. next_geq ef t = Some (map_option (\<lambda>i. (i, vs ! i)) (find (\<lambda>i. t \<le> vs ! i) [0..<length vs]))) \<and>
    (\<forall>pos. ef_next ef pos = Some (if pos < length vs then (pos + 1, Some (vs ! pos)) else (pos, None))) \<and>
    (\<forall>bs. ef_deserialize (ef_serialize ef @ bs) = Inr (ef, bs))"
proof -
  obtain ef where ef: "ef_from_sorted_slice vs = Some ef" "ef_encodes ef vs"
    using ef_from_sorted_slice_spec [OF assms] by blast
  then have "length (ef_lower ef) < 2 ^ 32" "length (ef_upper ef) * 64 < 2 ^ 32" by (simp_all add: ef_encodes_def)
  then show ?thesis using ef ef_get_spec [OF ef(2)] next_geq_spec [OF ef(2)] ef_next_spec [OF ef(2)] ef_round_trip [of ef] by auto
qed

theorem elias_fano_correct_witness:
  "\<exists>ef. ef_from_sorted_slice [3, 3, 500, 70000] = Some ef \<and> ef_get ef 2 = Some (Some 500) \<and>
     next_geq ef 4 = Some (Some (2, 500)) \<and> next_geq ef 70001 = Some None"
proof -
  have s: "sorted [3, 3, 500, 70000 :: u32]" "length [3, 3, 500, 70000 :: u32] < 2 ^ 30" by simp_all
  from elias_fano_correct [OF s] obtain ef where ef: "ef_from_sorted_slice [3, 3, 500, 70000] = Some ef"
    "\<forall>i. ef_get ef i = Some (if i < length [3, 3, 500, 70000 :: u32] then Some ([3, 3, 500, 70000] ! i) else None)"
    "\<forall>t. next_geq ef t = Some (map_option (\<lambda>i. (i, [3, 3, 500, 70000] ! i))
       (find (\<lambda>i. t \<le> [3, 3, 500, 70000] ! i) [0..<length [3, 3, 500, 70000 :: u32]]))" by blast
  have u: "[0..<length [3, 3, 500, 70000 :: u32]] = [0, 1, 2, 3]" by (simp add: upt_rec)
  show ?thesis using ef(1) ef(2) [THEN spec, of 2] ef(3) [THEN spec, of 4] ef(3) [THEN spec, of 70001]
    unfolding u by (intro exI [of _ ef]) simp
qed

end
