(* ===== verification/Roaring.thy ===== *)
theory Roaring
  imports Summa_Bits Summa_Search
begin

text \<open>
  Roaring bitmaps (\<open>structures/postings/roaring.rs\<close>): sets of 32-bit values split by
  their high half into containers, each a sorted array, a bitmap of 1024 words or a
  list of runs. Every operation is shown to be the set operation it stands for, on
  every combination of representations, and to keep the invariant that containers
  are ordered, well-formed and non-empty. The locale \<open>set_rep\<close> is the contract that a
  container and a bitmap share; both are interpreted.
\<close>

section \<open>Containers\<close>

definition ARRAY_TO_BITMAP_THRESHOLD :: nat where
  "ARRAY_TO_BITMAP_THRESHOLD = 4096"

datatype container =
    Array "u16 list"
  | Bitmap "u64 list"
  | Runs "(u16 \<times> u16) list"

definition bitmap_test :: "u64 list \<Rightarrow> u16 \<Rightarrow> bool" where
  "bitmap_test bm v \<longleftrightarrow> drop_bit (unat (v mod 64)) (bm ! unat (v div 64)) AND 1 = 1"

definition bitmap_mark :: "u64 list \<Rightarrow> u16 \<Rightarrow> u64 list" where
  "bitmap_mark bm v = bm[unat (v div 64) := bm ! unat (v div 64) OR push_bit (unat (v mod 64)) 1]"

definition bitmap_cardinality :: "u64 list \<Rightarrow> u32" where
  "bitmap_cardinality bm = sum_list (map (\<lambda>w. of_nat (count_ones w)) bm)"

fun container_cardinality :: "container \<Rightarrow> u32" where
  "container_cardinality (Array arr) = of_nat (length arr)"
| "container_cardinality (Bitmap bm) = bitmap_cardinality bm"
| "container_cardinality (Runs runs) = sum_list (map (\<lambda>(_, len). ucast len + 1) runs)"

fun runs_contains :: "(u16 \<times> u16) list \<Rightarrow> u16 \<Rightarrow> bool" where
  "runs_contains [] v = False"
| "runs_contains ((start, len) # runs) v =
     (if start \<le> v \<and> v \<le> start + len then True
      else if v < start then False
      else runs_contains runs v)"

fun container_contains :: "container \<Rightarrow> u16 \<Rightarrow> bool" where
  "container_contains (Array arr) v = (case binary_search v arr of Inr _ \<Rightarrow> True | Inl _ \<Rightarrow> False)"
| "container_contains (Bitmap bm) v = bitmap_test bm v"
| "container_contains (Runs runs) v = runs_contains runs v"

definition array_insert :: "u16 list \<Rightarrow> u16 \<Rightarrow> u16 list \<times> bool" where
  "array_insert arr v =
     (case binary_search v arr of
        Inr _ \<Rightarrow> (arr, False)
      | Inl pos \<Rightarrow> (take pos arr @ v # drop pos arr, True))"

definition runs_to_array :: "(u16 \<times> u16) list \<Rightarrow> u16 list" where
  "runs_to_array runs = concat (map (\<lambda>(start, len). map (\<lambda>i. start + of_nat i) [0..<unat len + 1]) runs)"

definition bitmap_to_array :: "u64 list \<Rightarrow> u16 list" where
  "bitmap_to_array bm = concat (map (\<lambda>(word_idx, w). map (\<lambda>bit_idx. of_nat (word_idx * 64 + bit_idx)) (drain_bits w)) (enumerate 0 bm))"

fun container_insert :: "container \<Rightarrow> u16 \<Rightarrow> container \<times> bool" where
  "container_insert (Array arr) v = (let (arr', inserted) = array_insert arr v in (Array arr', inserted))"
| "container_insert (Bitmap bm) v =
     (let old = bm ! unat (v div 64); bm' = bitmap_mark bm v
      in (Bitmap bm', old \<noteq> bm' ! unat (v div 64)))"
| "container_insert (Runs runs) v =
     (let (arr', inserted) = array_insert (runs_to_array runs) v in (Array arr', inserted))"

fun take_run :: "u16 \<Rightarrow> u16 list \<Rightarrow> u16 \<times> u16 list" where
  "take_run e [] = (e, [])"
| "take_run e (v # vs) = (if v = e + 1 then take_run v vs else (e, v # vs))"

lemma take_run_length: "length (snd (take_run e vs)) \<le> length vs"
  by (induction e vs rule: take_run.induct) auto

function encode_runs :: "u16 list \<Rightarrow> (u16 \<times> u16) list" where
  "encode_runs [] = []"
| "encode_runs (start # vs) = (start, fst (take_run start vs) - start) # encode_runs (snd (take_run start vs))"
  by pat_completeness auto
termination
  by (relation "measure length") (auto simp: le_imp_less_Suc take_run_length)

definition try_run_encode :: "container \<Rightarrow> container" where
  "try_run_encode c =
     (case c of
        Array arr \<Rightarrow>
          if 4 \<le> length arr then
            let runs = encode_runs arr
            in if length runs * 4 < length arr * 2 then Runs runs else c
          else c
      | _ \<Rightarrow> c)"

definition container_optimize :: "container \<Rightarrow> container" where
  "container_optimize c =
     (let card = unat (container_cardinality c)
      in try_run_encode
           (case c of
              Array arr \<Rightarrow>
                if ARRAY_TO_BITMAP_THRESHOLD < card then Bitmap (foldl bitmap_mark (replicate 1024 0) arr) else c
            | Bitmap bm \<Rightarrow>
                if card \<le> ARRAY_TO_BITMAP_THRESHOLD then Array (bitmap_to_array bm) else c
            | Runs _ \<Rightarrow> c))"

fun container_serialize :: "container \<Rightarrow> bytes" where
  "container_serialize (Array arr) = 0 # u16_le (of_nat (length arr)) @ concat (map u16_le arr)"
| "container_serialize (Bitmap bm) = 1 # concat (map u64_le bm)"
| "container_serialize (Runs runs) =
     2 # u16_le (of_nat (length runs)) @ concat (map (\<lambda>(start, len). u16_le start @ u16_le len) runs)"

definition container_deserialize :: "container reader" where
  "container_deserialize =
     rbind read_u8 (\<lambda>tag.
       if tag = 0 then
         rbind read_u16 (\<lambda>len. rbind (rreplicate (unat len) read_u16) (\<lambda>arr. rreturn (Array arr)))
       else if tag = 1 then
         rbind (rreplicate 1024 read_u64) (\<lambda>bm. rreturn (Bitmap bm))
       else if tag = 2 then
         rbind read_u16 (\<lambda>len.
           rbind (rreplicate (unat len) (rbind read_u16 (\<lambda>start. rbind read_u16 (\<lambda>run_len. rreturn (start, run_len)))))
             (\<lambda>runs. rreturn (Runs runs)))
       else rfail (IoError InvalidData ''Invalid container type''))"

fun container_size_bytes :: "container \<Rightarrow> nat" where
  "container_size_bytes (Array arr) = length arr * 2 + 4"
| "container_size_bytes (Bitmap bm) = 8 * 1024 + 1"
| "container_size_bytes (Runs runs) = length runs * 4 + 4"

fun container_to_array :: "container \<Rightarrow> u16 list" where
  "container_to_array (Array arr) = arr"
| "container_to_array (Bitmap bm) = bitmap_to_array bm"
| "container_to_array (Runs runs) = runs_to_array runs"

fun intersect_arrays :: "u16 list \<Rightarrow> u16 list \<Rightarrow> u16 list" where
  "intersect_arrays (a # as) (b # bs) =
     (if a < b then intersect_arrays as (b # bs)
      else if b < a then intersect_arrays (a # as) bs
      else a # intersect_arrays as bs)"
| "intersect_arrays _ _ = []"

fun union_arrays :: "u16 list \<Rightarrow> u16 list \<Rightarrow> u16 list" where
  "union_arrays (a # as) (b # bs) =
     (if a < b then a # union_arrays as (b # bs)
      else if b < a then b # union_arrays (a # as) bs
      else a # union_arrays as bs)"
| "union_arrays as [] = as"
| "union_arrays [] bs = bs"

definition intersect_containers :: "container \<Rightarrow> container \<Rightarrow> container" where
  "intersect_containers c1 c2 =
     (case (c1, c2) of
        (Array a1, Array a2) \<Rightarrow> Array (intersect_arrays a1 a2)
      | (Bitmap b1, Bitmap b2) \<Rightarrow> container_optimize (Bitmap (map2 (AND) b1 b2))
      | (Array arr, Bitmap bm) \<Rightarrow> Array (filter (bitmap_test bm) arr)
      | (Bitmap bm, Array arr) \<Rightarrow> Array (filter (bitmap_test bm) arr)
      | _ \<Rightarrow> Array (intersect_arrays (container_to_array c1) (container_to_array c2)))"

definition union_containers :: "container \<Rightarrow> container \<Rightarrow> container" where
  "union_containers c1 c2 =
     (case (c1, c2) of
        (Bitmap b1, Bitmap b2) \<Rightarrow> Bitmap (map2 (OR) b1 b2)
      | _ \<Rightarrow> container_optimize (Array (union_arrays (container_to_array c1) (container_to_array c2))))"

section \<open>Bitmaps\<close>

type_synonym roaring = "(u16 \<times> container) list"

definition high :: "u32 \<Rightarrow> u16" where "high v = ucast (drop_bit 16 v)"

definition low :: "u32 \<Rightarrow> u16" where "low v = ucast v"

definition join :: "u16 \<Rightarrow> u16 \<Rightarrow> u32" where
  "join h l = push_bit 16 (ucast h) OR ucast l"

definition roaring_new :: roaring where
  "roaring_new = []"

fun from_sorted_loop :: "u32 list \<Rightarrow> u16 \<Rightarrow> container \<Rightarrow> roaring \<Rightarrow> roaring" where
  "from_sorted_loop [] current_high current_container acc =
     acc @ [(current_high, container_optimize current_container)]"
| "from_sorted_loop (v # vs) current_high current_container acc =
     (let (current_high', current_container', acc') =
        (if high v \<noteq> current_high
         then (high v, Array [], acc @ [(current_high, container_optimize current_container)])
         else (current_high, current_container, acc))
      in from_sorted_loop vs current_high' (fst (container_insert current_container' (low v))) acc')"

definition from_sorted_slice :: "u32 list \<Rightarrow> roaring" where
  "from_sorted_slice vs =
     (case vs of [] \<Rightarrow> roaring_new | v # _ \<Rightarrow> from_sorted_loop vs (high v) (Array []) roaring_new)"

definition roaring_insert :: "roaring \<Rightarrow> u32 \<Rightarrow> roaring \<times> bool" where
  "roaring_insert r v =
     (case binary_search_by_key (high v) fst r of
        Inr idx \<Rightarrow>
          let (c, inserted) = container_insert (snd (r ! idx)) (low v)
          in (r[idx := (fst (r ! idx), c)], inserted)
      | Inl idx \<Rightarrow>
          (take idx r @ (high v, fst (container_insert (Array []) (low v))) # drop idx r, True))"

definition roaring_contains :: "roaring \<Rightarrow> u32 \<Rightarrow> bool" where
  "roaring_contains r v =
     (case binary_search_by_key (high v) fst r of
        Inr idx \<Rightarrow> container_contains (snd (r ! idx)) (low v)
      | Inl _ \<Rightarrow> False)"

definition roaring_cardinality :: "roaring \<Rightarrow> u32" where
  "roaring_cardinality r = sum_list (map (\<lambda>(_, c). container_cardinality c) r)"

definition roaring_is_empty :: "roaring \<Rightarrow> bool" where
  "roaring_is_empty r \<longleftrightarrow> r = []"

definition roaring_optimize :: "roaring \<Rightarrow> roaring" where
  "roaring_optimize r = map (\<lambda>(h, c). (h, container_optimize c)) r"

fun roaring_and :: "roaring \<Rightarrow> roaring \<Rightarrow> roaring" where
  "roaring_and ((h1, c1) # r1) ((h2, c2) # r2) =
     (if h1 < h2 then roaring_and r1 ((h2, c2) # r2)
      else if h2 < h1 then roaring_and ((h1, c1) # r1) r2
      else let intersected = intersect_containers c1 c2
           in if 0 < container_cardinality intersected
              then (h1, intersected) # roaring_and r1 r2
              else roaring_and r1 r2)"
| "roaring_and _ _ = []"

fun roaring_or :: "roaring \<Rightarrow> roaring \<Rightarrow> roaring" where
  "roaring_or ((h1, c1) # r1) ((h2, c2) # r2) =
     (if h1 < h2 then (h1, c1) # roaring_or r1 ((h2, c2) # r2)
      else if h2 < h1 then (h2, c2) # roaring_or ((h1, c1) # r1) r2
      else (h1, union_containers c1 c2) # roaring_or r1 r2)"
| "roaring_or r1 [] = r1"
| "roaring_or [] r2 = r2"

definition roaring_serialize :: "roaring \<Rightarrow> bytes" where
  "roaring_serialize r =
     u32_le (of_nat (length r)) @ concat (map (\<lambda>(h, c). u16_le h @ container_serialize c) r)"

definition roaring_deserialize :: "roaring reader" where
  "roaring_deserialize =
     rbind read_u32 (\<lambda>num_containers.
       rreplicate (unat num_containers)
         (rbind read_u16 (\<lambda>h. rbind container_deserialize (\<lambda>c. rreturn (h, c)))))"

definition roaring_size_bytes :: "roaring \<Rightarrow> nat" where
  "roaring_size_bytes r = 4 + sum_list (map (\<lambda>(_, c). 2 + container_size_bytes c) r)"

section \<open>Sets of values\<close>

fun container_set :: "container \<Rightarrow> u16 set" where
  "container_set (Array arr) = set arr"
| "container_set (Bitmap bm) = {v. wbit bm (unat v)}"
| "container_set (Runs runs) = (\<Union>(start, len) \<in> set runs. {start .. start + len})"

definition runs_ok :: "(u16 \<times> u16) list \<Rightarrow> bool" where
  "runs_ok runs \<longleftrightarrow> (\<forall>(start, len) \<in> set runs. unat start + unat len < 65536) \<and>
     sorted_wrt (\<lambda>(start, len) (start', len'). unat start + unat len < unat start') runs"

fun container_ok :: "container \<Rightarrow> bool" where
  "container_ok (Array arr) = strictly_sorted arr"
| "container_ok (Bitmap bm) = (length bm = 1024)"
| "container_ok (Runs runs) = (runs_ok runs \<and> length runs < 65536)"

lemma u16_index: "unat (v div 64 :: u16) = unat v div 64" "unat (v mod 64 :: u16) = unat v mod 64"
  "unat v div 64 < 1024"
proof -
  show "unat (v div 64 :: u16) = unat v div 64" "unat (v mod 64 :: u16) = unat v mod 64"
    by (simp_all add: unat_div unat_mod)
  have "unat v < 2 ^ 16" using unsigned_less [of v] by simp
  then show "unat v div 64 < 1024" by simp
qed

lemma bitmap_test_wbit: "length bm = 1024 \<Longrightarrow> bitmap_test bm v \<longleftrightarrow> wbit bm (unat v)"
  using u16_index(3) [of v]
  by (simp add: bitmap_test_def wbit_def u16_index(1,2) and_one_eq odd_iff_mod_2_eq_one [symmetric] bit_iff_odd_drop_bit
      del: odd_iff_mod_2_eq_one)

lemma bitmap_mark_wbit: "length bm = 1024 \<Longrightarrow> wbit (bitmap_mark bm v) k \<longleftrightarrow> wbit bm k \<or> k = unat v"
  using wbit_set_bit [of "unat v" bm k] u16_index(3) [of v] by (simp add: bitmap_mark_def u16_index(1,2))

lemma unat_mem: "unat v \<in> unat ` A \<longleftrightarrow> (v :: 'a::len word) \<in> A"
  by (metis image_iff word_unat_eq_iff)

lemma bitmap_mark_set:
  "length bm = 1024 \<Longrightarrow> {w. wbit (bitmap_mark bm v) (unat w)} = insert v {w. wbit bm (unat w)}"
  by (auto simp: bitmap_mark_wbit word_unat_eq_iff)

lemma length_bitmap_mark [simp]: "length (bitmap_mark bm v) = length bm"
  by (simp add: bitmap_mark_def)

lemma bitmap_marks:
  "length bm = 1024 \<Longrightarrow> length (foldl bitmap_mark bm vs) = 1024 \<and>
     (\<forall>k. wbit (foldl bitmap_mark bm vs) k \<longleftrightarrow> wbit bm k \<or> k \<in> unat ` set vs)"
  by (induction vs arbitrary: bm) (auto simp: bitmap_mark_wbit)

lemma bitmap_to_array_wpositions: "bitmap_to_array bm = map of_nat (wpositions bm)"
  unfolding bitmap_to_array_def wpositions_enumerate
  by (simp add: map_concat comp_def case_prod_unfold)

lemma of_nat_u16: "k < 65536 \<Longrightarrow> unat (of_nat k :: u16) = k"
  by (simp add: unat_of_nat)

lemma wbit_u16: "length (bm :: u64 list) = 1024 \<Longrightarrow> wbit bm k \<Longrightarrow> k < 65536"
  using wbit_bound [of bm k] by simp

lemma bitmap_to_array_spec:
  assumes "length bm = 1024"
  shows "strictly_sorted (bitmap_to_array bm)" "set (bitmap_to_array bm) = {v. wbit bm (unat v)}"
proof -
  have b: "k < 65536" if "k \<in> set (wpositions bm)" for k
    using that wbit_u16 [OF assms] by (simp add: bits_simps)
  have "sorted_wrt (\<lambda>x y. (of_nat x :: u16) < of_nat y) (wpositions bm)"
    by (rule sorted_wrt_mono_rel [OF _ sorted_wpositions]) (auto simp: word_less_nat_alt of_nat_u16 dest!: b)
  then show "strictly_sorted (bitmap_to_array bm)" by (simp add: bitmap_to_array_wpositions sorted_wrt_map)
  show "set (bitmap_to_array bm) = {v. wbit bm (unat v)}"
  proof (rule set_eqI)
    fix v :: u16
    have "v \<in> of_nat ` {k. wbit bm k}" if "wbit bm (unat v)"
      using that by (intro image_eqI [of _ _ "unat v"]) simp_all
    then show "v \<in> set (bitmap_to_array bm) \<longleftrightarrow> v \<in> {v. wbit bm (unat v)}"
      using b by (auto simp: bitmap_to_array_wpositions bits_simps of_nat_u16)
  qed
qed

lemma run_values:
  assumes "unat start + unat len < 65536"
  shows "strictly_sorted (map (\<lambda>i. start + of_nat i) [0..<unat len + 1])"
    "set (map (\<lambda>i. start + of_nat i) [0..<unat len + 1]) = {start .. start + (len :: u16)}"
    "unat (start + len) = unat start + unat len"
proof -
  have a: "unat (start + of_nat i) = unat start + i" if "i \<le> unat len" for i
    using that assms by (simp add: unat_word_ariths unat_of_nat)
  show e: "unat (start + len) = unat start + unat len" using a [of "unat len"] by simp
  show "strictly_sorted (map (\<lambda>i. start + of_nat i) [0..<unat len + 1])"
    unfolding sorted_wrt_map
    by (rule sorted_wrt_mono_rel [OF _ sorted_wrt_upt]) (auto simp: word_less_nat_alt a e)
  have "v \<in> (\<lambda>i. start + of_nat i) ` {0..<unat len + 1}" if "start \<le> v" "v \<le> start + len" for v
    using that by (intro image_eqI [of _ _ "unat (v - start)"]) (auto simp: word_le_nat_alt unat_sub e)
  then show "set (map (\<lambda>i. start + of_nat i) [0..<unat len + 1]) = {start .. start + len}"
    by (auto simp: word_le_nat_alt a e simp del: upt_Suc)
qed

lemma runs_ok_Cons:
  "runs_ok ((start, len) # runs) \<longleftrightarrow> unat start + unat len < 65536 \<and> runs_ok runs \<and>
     (\<forall>(start', len') \<in> set runs. unat start + unat len < unat start')"
  by (auto simp: runs_ok_def)

lemma runs_to_array_spec:
  assumes "runs_ok runs"
  shows "strictly_sorted (runs_to_array runs) \<and> set (runs_to_array runs) = container_set (Runs runs)"
  using assms
proof (induction runs)
  case (Cons run runs)
  obtain start len where r [simp]: "run = (start, len)" by force
  note ok = Cons.prems [unfolded r runs_ok_Cons]
  have IH: "strictly_sorted (runs_to_array runs)" "set (runs_to_array runs) = container_set (Runs runs)"
    using Cons.IH ok by blast+
  have "runs_to_array (run # runs) = map (\<lambda>i. start + of_nat i) [0..<unat len + 1] @ runs_to_array runs"
    by (simp add: runs_to_array_def)
  moreover have "v < w" if "v \<in> {start .. start + len}" "w \<in> container_set (Runs runs)" for v w
    using that ok run_values(3) [of start len] by (fastforce simp: word_le_nat_alt word_less_nat_alt)
  ultimately show ?case
    using run_values [of start len] IH ok by (simp add: sorted_wrt_append del: upt_Suc)
qed (simp add: runs_to_array_def)

lemma runs_contains_iff: "runs_ok runs \<Longrightarrow> runs_contains runs v \<longleftrightarrow> v \<in> container_set (Runs runs)"
proof (induction runs v rule: runs_contains.induct)
  case (2 start len runs v)
  note ok = "2.prems" [unfolded runs_ok_Cons]
  have "v \<notin> container_set (Runs runs)" if "v < start"
    using that ok by (fastforce simp: word_le_nat_alt word_less_nat_alt)
  then show ?case using 2 ok by auto
qed simp

lemma container_to_array_spec:
  assumes "container_ok c"
  shows "strictly_sorted (container_to_array c)" "set (container_to_array c) = container_set c"
  using assms bitmap_to_array_spec runs_to_array_spec by (cases c; simp)+

lemma container_contains_iff: "container_ok c \<Longrightarrow> container_contains c v \<longleftrightarrow> v \<in> container_set c"
proof (cases c)
  case (Array arr)
  assume "container_ok c"
  then have "sorted arr" using Array by (simp add: strict_sorted_imp_sorted)
  from binary_search_found [OF this, of v] show ?thesis using Array by (auto split: sum.splits)
qed (auto simp: bitmap_test_wbit runs_contains_iff)

lemma array_insert_spec:
  assumes "strictly_sorted arr"
  shows "strictly_sorted (fst (array_insert arr v))" "set (fst (array_insert arr v)) = insert v (set arr)"
    "snd (array_insert arr v) \<longleftrightarrow> v \<notin> set arr"
proof -
  have s: "sorted arr" using assms by (simp add: strict_sorted_imp_sorted)
  have u: "set (take i arr) \<union> set (drop i arr) = set arr" for i by (metis append_take_drop_id set_append)
  show "strictly_sorted (fst (array_insert arr v))"
    using assms by (auto simp: array_insert_def sorted_insert_at split: sum.splits)
  show "set (fst (array_insert arr v)) = insert v (set arr)"
  proof (cases "binary_search v arr")
    case (Inr i)
    then show ?thesis using binary_search_Inr [OF s Inr] nth_mem by (auto simp: array_insert_def)
  next
    case (Inl i)
    then show ?thesis using u [of i] by (auto simp: array_insert_def)
  qed
  show "snd (array_insert arr v) \<longleftrightarrow> v \<notin> set arr"
    using binary_search_found [OF s, of v] by (auto simp: array_insert_def split: sum.splits)
qed

lemma bitmap_mark_changed:
  assumes "length bm = 1024"
  shows "bm ! unat (v div 64) \<noteq> bitmap_mark bm v ! unat (v div 64) \<longleftrightarrow> \<not> wbit bm (unat v)"
proof -
  have i: "unat (v div 64) < length bm" using assms u16_index by simp
  have "bm ! unat (v div 64) = bitmap_mark bm v ! unat (v div 64) \<longleftrightarrow> bitmap_mark bm v = bm"
    using i by (auto simp: bitmap_mark_def list_update_same_conv)
  also have "\<dots> \<longleftrightarrow> wbit bm (unat v)"
  proof
    assume w: "wbit bm (unat v)"
    have "bm ! unat (v div 64) OR push_bit (unat (v mod 64)) 1 = bm ! unat (v div 64)"
      using w by (intro bit_word_eqI) (auto simp: wbit_def u16_index bit_simps)
    then show "bitmap_mark bm v = bm" by (simp add: bitmap_mark_def)
  qed (use bitmap_mark_wbit [OF assms] in metis)
  finally show ?thesis by blast
qed

lemma container_insert_spec:
  assumes "container_ok c"
  shows "container_ok (fst (container_insert c v))"
    "container_set (fst (container_insert c v)) = insert v (container_set c)"
    "snd (container_insert c v) \<longleftrightarrow> v \<notin> container_set c"
proof -
  have "container_ok (fst (container_insert c v)) \<and> container_set (fst (container_insert c v)) = insert v (container_set c) \<and>
      (snd (container_insert c v) \<longleftrightarrow> v \<notin> container_set c)"
  proof (cases c)
    case (Array arr)
    then show ?thesis using array_insert_spec [of arr v] assms by (simp add: case_prod_unfold)
  next
    case (Bitmap bm)
    then show ?thesis using assms by (simp add: Let_def bitmap_mark_set bitmap_mark_changed)
  next
    case (Runs runs)
    then show ?thesis using array_insert_spec [of "runs_to_array runs" v] runs_to_array_spec [of runs] assms
      by (simp add: case_prod_unfold)
  qed
  then show "container_ok (fst (container_insert c v))"
    "container_set (fst (container_insert c v)) = insert v (container_set c)"
    "snd (container_insert c v) \<longleftrightarrow> v \<notin> container_set c" by blast+
qed

lemma unat_plus_one_less: "e < e + 1 \<Longrightarrow> unat (e + 1 :: u16) = unat e + 1"
  by (simp add: word_less_nat_alt unat_word_ariths split: if_splits)

lemma take_run_spec:
  assumes "strictly_sorted (e # vs)"
  shows "e \<le> fst (take_run e vs) \<and> strictly_sorted (fst (take_run e vs) # snd (take_run e vs)) \<and>
    map (\<lambda>i. e + of_nat i) [0..<unat (fst (take_run e vs) - e) + 1] @ snd (take_run e vs) = e # vs"
  using assms
proof (induction e vs rule: take_run.induct)
  case (2 e v vs)
  show ?case
  proof (cases "v = e + 1")
    case True
    have lt: "e < v" using "2.prems" by simp
    have IH: "v \<le> fst (take_run v vs)" "strictly_sorted (fst (take_run v vs) # snd (take_run v vs))"
      "map (\<lambda>i. v + of_nat i) [0..<unat (fst (take_run v vs) - v) + 1] @ snd (take_run v vs) = v # vs"
      using "2.IH" [OF True] "2.prems" by (simp_all del: upt_Suc)
    let ?f = "fst (take_run v vs)"
    have v: "unat v = unat e + 1" using lt True by (metis unat_plus_one_less)
    have "unat (?f - e) = unat (?f - v) + 1"
      using v unat_sub [OF IH(1)] unat_sub [OF order_trans [OF less_imp_le [OF lt] IH(1)]] IH(1)
      by (simp add: word_le_nat_alt)
    then have "map (\<lambda>i. e + of_nat i) [0..<unat (?f - e) + 1] = e # map (\<lambda>i. v + of_nat i) [0..<unat (?f - v) + 1]"
      by (simp add: upt_conv_Cons map_Suc_upt [symmetric] True add.assoc del: upt_Suc)
    then show ?thesis using True lt IH by (simp add: order_trans [OF less_imp_le [OF lt]] del: upt_Suc)
  qed (use 2 in simp)
qed simp

lemma encode_runs_spec:
  "strictly_sorted vs \<Longrightarrow> runs_ok (encode_runs vs) \<and> runs_to_array (encode_runs vs) = vs"
proof (induction vs rule: encode_runs.induct)
  case 1
  then show ?case by (simp add: runs_ok_def runs_to_array_def)
next
  case (2 start vs)
  let ?e = "fst (take_run start vs)" and ?rest = "snd (take_run start vs)"
  have t: "start \<le> ?e" "strictly_sorted (?e # ?rest)"
    "map (\<lambda>i. start + of_nat i) [0..<unat (?e - start) + 1] @ ?rest = start # vs"
    using take_run_spec [OF "2.prems"] by blast+
  have IH: "runs_ok (encode_runs ?rest)" "runs_to_array (encode_runs ?rest) = ?rest"
    using "2.IH" t(2) by simp_all
  have e: "unat start + unat (?e - start) = unat ?e" using t(1) by (simp add: unat_sub word_le_nat_alt)
  moreover have "unat ?e < 65536" using unsigned_less [of ?e] by simp
  moreover have "unat ?e < unat s" if "(s, l) \<in> set (encode_runs ?rest)" for s l
  proof -
    have "s \<in> set (runs_to_array (encode_runs ?rest))"
      using that by (force simp: runs_to_array_def simp del: upt_Suc intro!: bexI [of _ "(s, l)"])
    then show ?thesis using t(2) IH(2) by (simp add: word_less_nat_alt)
  qed
  ultimately have "runs_ok (encode_runs (start # vs))" using IH(1) by (auto simp: runs_ok_Cons)
  moreover have "runs_to_array (encode_runs (start # vs)) = start # vs"
    using t(3) IH(2) by (simp add: runs_to_array_def del: upt_Suc)
  ultimately show ?case by blast
qed

lemma card_u16: "card (A :: u16 set) \<le> 65536"
proof -
  have "card A \<le> card (UNIV :: u16 set)" by (intro card_mono) simp_all
  then show ?thesis by (simp add: card_word)
qed

lemma length_strictly_sorted_u16: "strictly_sorted (vs :: u16 list) \<Longrightarrow> length vs = card (set vs)"
  by (simp add: strictly_sorted_distinct distinct_card)

lemma container_cardinality_length: "container_cardinality c = of_nat (length (container_to_array c))"
proof (cases c)
  case (Bitmap bm)
  have "bitmap_cardinality bm = of_nat (sum_list (map count_ones bm))"
    unfolding bitmap_cardinality_def by (induction bm) simp_all
  then show ?thesis using Bitmap by (simp add: bitmap_to_array_wpositions length_wpositions)
next
  case (Runs runs)
  have "sum_list (map (\<lambda>(_, len). ucast len + 1) runs) = (of_nat (length (runs_to_array runs)) :: u32)"
    by (induction runs) (auto simp: runs_to_array_def simp del: upt_Suc)
  then show ?thesis using Runs by simp
qed simp

lemma container_cardinality_spec:
  assumes "container_ok c"
  shows "unat (container_cardinality c) = card (container_set c)"
proof -
  have "length (container_to_array c) = card (container_set c)"
    using container_to_array_spec [OF assms] length_strictly_sorted_u16 by metis
  then show ?thesis using card_u16 [of "container_set c"] by (simp add: container_cardinality_length unat_of_nat)
qed

lemma try_run_encode_spec:
  assumes "container_ok c"
  shows "container_ok (try_run_encode c) \<and> container_set (try_run_encode c) = container_set c"
proof (cases c)
  case (Array arr)
  have s: "strictly_sorted arr" using assms Array by simp
  have "length arr \<le> 65536" using length_strictly_sorted_u16 [OF s] card_u16 [of "set arr"] by simp
  then show ?thesis
    using Array s encode_runs_spec [OF s] runs_to_array_spec [of "encode_runs arr"] by (auto simp: try_run_encode_def Let_def simp del: container_set.simps(3))
qed (use assms in \<open>simp_all add: try_run_encode_def\<close>)

lemma container_optimize_spec:
  assumes "container_ok c"
  shows "container_ok (container_optimize c)" "container_set (container_optimize c) = container_set c"
proof -
  let ?card = "unat (container_cardinality c)"
  let ?c = "case c of
      Array arr \<Rightarrow> if ARRAY_TO_BITMAP_THRESHOLD < ?card then Bitmap (foldl bitmap_mark (replicate 1024 0) arr) else c
    | Bitmap bm \<Rightarrow> if ?card \<le> ARRAY_TO_BITMAP_THRESHOLD then Array (bitmap_to_array bm) else c
    | Runs _ \<Rightarrow> c"
  have "container_ok ?c \<and> container_set ?c = container_set c"
  proof (cases c)
    case (Array arr)
    then show ?thesis using assms bitmap_marks [of "replicate 1024 0" arr] by (simp add: unat_mem)
  next
    case (Bitmap bm)
    then show ?thesis using assms bitmap_to_array_spec [of bm] by simp
  qed (use assms in simp)
  then show "container_ok (container_optimize c)" "container_set (container_optimize c) = container_set c"
    using try_run_encode_spec [of ?c] by (simp_all add: container_optimize_def Let_def)
qed

lemma intersect_arrays_spec:
  "strictly_sorted as \<Longrightarrow> strictly_sorted bs \<Longrightarrow>
     strictly_sorted (intersect_arrays as bs) \<and> set (intersect_arrays as bs) = set as \<inter> set bs"
proof (induction as bs rule: intersect_arrays.induct)
  case (1 a as b bs)
  consider "a < b" | "b < a" | "a = b" by force
  then show ?case
  proof cases
    case 1
    then have "a \<notin> set (b # bs)" using "1.prems" by force
    then show ?thesis using "1.IH"(1) 1 "1.prems" by auto
  next
    case 2
    then have "b \<notin> set (a # as)" using "1.prems" by force
    then show ?thesis using "1.IH"(2) 2 "1.prems" by auto
  next
    case 3
    then have "a \<notin> set as" "a \<notin> set bs" using "1.prems" by auto
    then show ?thesis using "1.IH"(3) 3 "1.prems" by auto
  qed
qed auto

lemma union_arrays_spec:
  "strictly_sorted as \<Longrightarrow> strictly_sorted bs \<Longrightarrow>
     strictly_sorted (union_arrays as bs) \<and> set (union_arrays as bs) = set as \<union> set bs"
proof (induction as bs rule: union_arrays.induct)
  case (1 a as b bs)
  consider "a < b" | "b < a" | "a = b" by force
  then show ?case
  proof cases
    case 1
    then have "\<forall>v \<in> set (b # bs). a < v" using "1.prems" by force
    then show ?thesis using "1.IH"(1) 1 "1.prems" by auto
  next
    case 2
    then have "\<forall>v \<in> set (a # as). b < v" using "1.prems" by force
    then show ?thesis using "1.IH"(2) 2 "1.prems" by auto
  next
    case 3
    then show ?thesis using "1.IH"(3) 3 "1.prems" by auto
  qed
qed auto

lemma wbit_map2_words:
  assumes "length as = 1024" "length (bs :: u64 list) = 1024"
  shows "wbit (map2 (AND) as bs) k \<longleftrightarrow> wbit as k \<and> wbit bs k"
    "wbit (map2 (OR) as bs) k \<longleftrightarrow> wbit as k \<or> wbit bs k"
  using assms by (auto simp: wbit_def bit_simps)

lemma intersect_containers_spec:
  assumes "container_ok c1" "container_ok c2"
  shows "container_ok (intersect_containers c1 c2)"
    "container_set (intersect_containers c1 c2) = container_set c1 \<inter> container_set c2"
proof -
  note arrays = intersect_arrays_spec [OF container_to_array_spec(1) [OF assms(1)] container_to_array_spec(1) [OF assms(2)]]
  note sets = container_to_array_spec(2) [OF assms(1)] container_to_array_spec(2) [OF assms(2)]
  have "container_ok (intersect_containers c1 c2) \<and>
      container_set (intersect_containers c1 c2) = container_set c1 \<inter> container_set c2"
  proof (cases "\<exists>b1 b2. c1 = Bitmap b1 \<and> c2 = Bitmap b2")
    case True
    then obtain b1 b2 where b [simp]: "c1 = Bitmap b1" "c2 = Bitmap b2" by blast
    then show ?thesis
      using assms container_optimize_spec [of "Bitmap (map2 (AND) b1 b2)"]
      by (auto simp: intersect_containers_def wbit_map2_words)
  next
    case False
    then show ?thesis using assms arrays sets
      by (cases c1; cases c2) (auto simp: intersect_containers_def bitmap_test_wbit sorted_wrt_filter simp del: container_set.simps(3))
  qed
  then show "container_ok (intersect_containers c1 c2)"
    "container_set (intersect_containers c1 c2) = container_set c1 \<inter> container_set c2" by blast+
qed

lemma union_containers_spec:
  assumes "container_ok c1" "container_ok c2"
  shows "container_ok (union_containers c1 c2)"
    "container_set (union_containers c1 c2) = container_set c1 \<union> container_set c2"
proof -
  note arrays = union_arrays_spec [OF container_to_array_spec(1) [OF assms(1)] container_to_array_spec(1) [OF assms(2)]]
  note sets = container_to_array_spec(2) [OF assms(1)] container_to_array_spec(2) [OF assms(2)]
  let ?u = "Array (union_arrays (container_to_array c1) (container_to_array c2))"
  have "container_ok (container_optimize ?u) \<and> container_set (container_optimize ?u) = container_set c1 \<union> container_set c2"
    using container_optimize_spec [of ?u] arrays sets by simp
  then have "container_ok (union_containers c1 c2) \<and>
      container_set (union_containers c1 c2) = container_set c1 \<union> container_set c2"
    using assms wbit_map2_words
    by (cases c1; cases c2) (auto simp: union_containers_def simp del: container_set.simps(1,3))
  then show "container_ok (union_containers c1 c2)"
    "container_set (union_containers c1 c2) = container_set c1 \<union> container_set c2" by blast+
qed

section \<open>The bitmap as a set\<close>

text \<open>The low halves a bitmap holds under one high half.\<close>

definition members :: "roaring \<Rightarrow> u16 \<Rightarrow> u16 set" where
  "members r h = (case map_of r h of None \<Rightarrow> {} | Some c \<Rightarrow> container_set c)"

definition roaring_set :: "roaring \<Rightarrow> u32 set" where
  "roaring_set r = {v. low v \<in> members r (high v)}"

definition roaring_ok :: "roaring \<Rightarrow> bool" where
  "roaring_ok r \<longleftrightarrow> strictly_sorted (map fst r) \<and> (\<forall>c \<in> snd ` set r. container_ok c \<and> container_set c \<noteq> {})"

lemma high_join [simp]: "high (join h l) = h"
  by (rule bit_word_eqI) (auto simp: high_def join_def bit_simps dest: bit_imp_le_length)

lemma low_join [simp]: "low (join h l) = l"
  by (rule bit_word_eqI) (auto simp: low_def join_def bit_simps)

lemma join_high_low [simp]: "join (high v) (low v) = v"
  by (rule bit_word_eqI) (auto simp: high_def low_def join_def bit_simps)

lemma join_eq_iff: "join h l = v \<longleftrightarrow> h = high v \<and> l = low v"
  by (metis high_join join_high_low low_join)

lemma unat_u16: "unat (v :: u16) < 65536"
  by (rule order_less_le_trans [OF unsigned_less]) simp

lemma unat_ucast_u16: "unat (ucast (v :: u16) :: u32) = unat v"
  using unat_u16 [of v] by (simp add: unsigned_ucast_eq take_bit_nat_eq_self)

lemma unat_join: "unat (join h l) = unat h * 65536 + unat l"
proof -
  have "join h l = push_bit 16 (ucast h) + ucast l"
    unfolding join_def by (rule disjunctive_add [symmetric]) (auto simp: bit_simps dest: bit_imp_le_length)
  moreover have "unat (push_bit 16 (ucast h) :: u32) = unat h * 65536"
    using unat_u16 [of h] by (simp add: push_bit_eq_mult unat_word_ariths unat_ucast_u16)
  ultimately show ?thesis using unat_u16 [of h] unat_u16 [of l] by (simp add: unat_word_ariths unat_ucast_u16)
qed

lemma join_less: "h < h' \<Longrightarrow> join h l < join h' l'"
  using unat_u16 [of l] by (simp add: word_less_nat_alt unat_join)

lemma join_less_same [simp]: "join h l < join h l' \<longleftrightarrow> l < l'"
  by (simp add: word_less_nat_alt unat_join)

lemma high_mono: "v \<le> w \<Longrightarrow> high v \<le> high w"
  using join_less [of "high w" "high v" "low w" "low v"] by (force simp: not_less [symmetric])

lemma members_Nil [simp]: "members [] h = {}"
  by (simp add: members_def)

lemma members_Cons [simp]: "members ((h', c) # r) h = (if h = h' then container_set c else members r h)"
  by (simp add: members_def)

lemma members_absent: "h \<notin> fst ` set r \<Longrightarrow> members r h = {}"
  by (simp add: members_def map_of_eq_None_iff [THEN iffD2])

lemma members_append: "fst ` set r \<inter> fst ` set s = {} \<Longrightarrow> members (r @ s) h = members r h \<union> members s h"
  by (induction r) (auto simp: members_absent)

lemma members_nonempty: "roaring_ok r \<Longrightarrow> h \<in> fst ` set r \<Longrightarrow> members r h \<noteq> {}"
  unfolding members_def roaring_ok_def
  by (cases "map_of r h") (auto simp: map_of_eq_None_iff dest!: map_of_SomeD)

lemma roaring_ok_Nil [simp]: "roaring_ok []"
  by (simp add: roaring_ok_def)

lemma roaring_ok_Cons [simp]:
  "roaring_ok ((h, c) # r) \<longleftrightarrow> container_ok c \<and> container_set c \<noteq> {} \<and> (\<forall>h' \<in> fst ` set r. h < h') \<and> roaring_ok r"
  by (auto simp: roaring_ok_def)

lemma roaring_ok_append:
  "roaring_ok (r @ s) \<longleftrightarrow> roaring_ok r \<and> roaring_ok s \<and> (\<forall>h \<in> fst ` set r. \<forall>h' \<in> fst ` set s. h < h')"
  by (auto simp: roaring_ok_def sorted_wrt_append)

lemma roaring_set_Nil [simp]: "roaring_set [] = {}"
  by (simp add: roaring_set_def)

lemma roaring_set_empty: "roaring_ok r \<Longrightarrow> roaring_set r = {} \<longleftrightarrow> r = []"
proof (cases r)
  case (Cons hc r')
  assume "roaring_ok r"
  moreover obtain h c where "hc = (h, c)" by force
  ultimately obtain l where "l \<in> members r h" using Cons by auto
  then have "join h l \<in> roaring_set r" by (simp add: roaring_set_def)
  then show ?thesis using Cons by auto
qed simp

text \<open>The search finds the container of a high half, or the place where it belongs.\<close>

lemma roaring_search:
  assumes "roaring_ok r"
  shows "binary_search_by_key h fst r = Inr idx \<Longrightarrow> idx < length r \<and> fst (r ! idx) = h"
    and "binary_search_by_key h fst r = Inl idx \<Longrightarrow> h \<notin> fst ` set r \<and>
      (\<forall>h' \<in> fst ` set (take idx r). h' < h) \<and> (\<forall>h' \<in> fst ` set (drop idx r). h < h')"
proof -
  have s: "sorted (map fst r)" using assms by (simp add: roaring_ok_def strict_sorted_imp_sorted)
  show "idx < length r \<and> fst (r ! idx) = h" if "binary_search_by_key h fst r = Inr idx"
    using binary_search_by_key_Inr [OF s that] by simp
  show "h \<notin> fst ` set r \<and> (\<forall>h' \<in> fst ` set (take idx r). h' < h) \<and> (\<forall>h' \<in> fst ` set (drop idx r). h < h')"
    if "binary_search_by_key h fst r = Inl idx"
  proof -
    note b = binary_search_by_key_Inl [OF s that]
    have "\<forall>h' \<in> fst ` set (take idx r). h' < h" "\<forall>h' \<in> fst ` set (drop idx r). h < h'"
      using b(2) b(3) [OF le_add1] by (fastforce simp: in_set_conv_nth)+
    moreover have "set r = set (take idx r) \<union> set (drop idx r)" by (metis append_take_drop_id set_append)
    ultimately show ?thesis by (auto simp: image_Un)
  qed
qed

lemma roaring_nth:
  assumes "roaring_ok r" "idx < length r"
  shows "map_of r (fst (r ! idx)) = Some (snd (r ! idx))" "container_ok (snd (r ! idx))" "container_set (snd (r ! idx)) \<noteq> {}"
  using assms nth_mem [OF assms(2)] by (auto simp: roaring_ok_def strictly_sorted_distinct intro!: map_of_is_SomeI)

lemma roaring_contains_iff:
  assumes "roaring_ok r"
  shows "roaring_contains r v \<longleftrightarrow> v \<in> roaring_set r"
proof (cases "binary_search_by_key (high v) fst r")
  case (Inl idx)
  then show ?thesis
    using roaring_search(2) [OF assms Inl] by (simp add: roaring_contains_def roaring_set_def members_absent)
next
  case (Inr idx)
  then show ?thesis
    using roaring_search(1) [OF assms Inr] roaring_nth [OF assms, of idx]
    by (auto simp: roaring_contains_def roaring_set_def members_def container_contains_iff)
qed

lemma map_of_update_nth:
  "distinct (map fst r) \<Longrightarrow> idx < length r \<Longrightarrow> map_of (r[idx := (fst (r ! idx), c)]) = (map_of r)(fst (r ! idx) \<mapsto> c)"
proof (induction r arbitrary: idx)
  case (Cons x r)
  show ?case
  proof (cases idx)
    case (Suc k)
    then have k: "k < length r" "map_of (r[k := (fst (r ! k), c)]) = (map_of r)(fst (r ! k) \<mapsto> c)" using Cons by auto
    have "fst (r ! k) \<noteq> fst x" using Cons.prems(1) nth_mem [OF k(1)] by (auto simp: image_iff)
    then show ?thesis using Suc k(2) by (auto simp: fun_eq_iff)
  qed (simp add: fun_eq_iff)
qed simp

lemma halves_eq_iff: "high v = high w \<and> low v = low w \<longleftrightarrow> v = w"
  by (metis join_high_low)

lemma roaring_set_insert:
  assumes "\<And>h. members s h = (if h = high v then insert (low v) (members r h) else members r h)"
  shows "roaring_set s = insert v (roaring_set r)"
proof (rule set_eqI)
  fix w
  have "w \<in> roaring_set s \<longleftrightarrow> high w = high v \<and> low w = low v \<or> w \<in> roaring_set r"
    by (auto simp: roaring_set_def assms)
  then show "w \<in> roaring_set s \<longleftrightarrow> w \<in> insert v (roaring_set r)" by (simp add: halves_eq_iff)
qed

lemma roaring_insert_spec:
  assumes "roaring_ok r"
  shows "roaring_ok (fst (roaring_insert r v))" "roaring_set (fst (roaring_insert r v)) = insert v (roaring_set r)"
    "snd (roaring_insert r v) \<longleftrightarrow> v \<notin> roaring_set r"
proof -
  have "roaring_ok (fst (roaring_insert r v)) \<and> roaring_set (fst (roaring_insert r v)) = insert v (roaring_set r) \<and>
      (snd (roaring_insert r v) \<longleftrightarrow> v \<notin> roaring_set r)"
  proof (cases "binary_search_by_key (high v) fst r")
    case (Inl idx)
    note b = roaring_search(2) [OF assms Inl]
    have r: "roaring_ok (take idx r)" "roaring_ok (drop idx r)" "\<forall>h \<in> fst ` set (take idx r). \<forall>h' \<in> fst ` set (drop idx r). h < h'"
      using assms roaring_ok_append [of "take idx r" "drop idx r"] by simp_all
    have s: "array_insert [] (low v) = ([low v], True)"
      by (simp add: array_insert_def binary_search_def binary_search_by_key_def binary_search_by_def)
    let ?s = "take idx r @ (high v, Array [low v]) # drop idx r"
    have k: "fst ` set (take idx r) \<inter> fst ` set (drop idx r) = {}" using b by force
    have e: "members r h = members (take idx r) h \<union> members (drop idx r) h" for h
      using members_append [OF k, of h] by simp
    have "members ?s h = members (take idx r) h \<union> (if h = high v then {low v} else members (drop idx r) h)" for h
      using b k by (subst members_append) auto
    moreover have "members r (high v) = {}" using b by (intro members_absent) blast
    ultimately have "roaring_set ?s = insert v (roaring_set r)"
      using e [of "high v"] by (intro roaring_set_insert) (simp add: e)
    moreover have "roaring_ok ?s" using b r by (simp add: roaring_ok_append)
    moreover have "v \<notin> roaring_set r" using \<open>members r (high v) = {}\<close> by (simp add: roaring_set_def)
    moreover have "roaring_insert r v = (?s, True)" using Inl by (simp add: roaring_insert_def s)
    ultimately show ?thesis by simp
  next
    case (Inr idx)
    note i = roaring_search(1) [OF assms Inr] and n = roaring_nth [OF assms, of idx]
    let ?c = "snd (r ! idx)" and ?c' = "fst (container_insert (snd (r ! idx)) (low v))"
    have c: "container_ok ?c'" "container_set ?c' = insert (low v) (container_set ?c)"
      "snd (container_insert ?c (low v)) \<longleftrightarrow> low v \<notin> container_set ?c"
      using container_insert_spec [of ?c] n i by simp_all
    have m: "map fst (r[idx := (high v, ?c')]) = map fst r"
      using i by (simp add: map_update list_update_same_conv)
    have "map_of (r[idx := (high v, ?c')]) = (map_of r)(high v \<mapsto> ?c')"
      using assms i map_of_update_nth [of r idx ?c'] by (simp add: roaring_ok_def strictly_sorted_distinct)
    then have "members (r[idx := (high v, ?c')]) h = (if h = high v then insert (low v) (members r h) else members r h)" for h
      using n i c(2) by (simp add: members_def)
    moreover have "roaring_ok (r[idx := (high v, ?c')])"
      using assms c(1,2) m by (auto simp: roaring_ok_def dest!: set_update_subset_insert [THEN subsetD])
    moreover have "roaring_insert r v = (r[idx := (high v, ?c')], snd (container_insert ?c (low v)))"
      using Inr i by (simp add: roaring_insert_def case_prod_unfold Let_def)
    moreover have "v \<in> roaring_set r \<longleftrightarrow> low v \<in> container_set ?c" using n i by (simp add: roaring_set_def members_def)
    ultimately show ?thesis using c(3) roaring_set_insert [of _ v r] by simp
  qed
  then show "roaring_ok (fst (roaring_insert r v))" "roaring_set (fst (roaring_insert r v)) = insert v (roaring_set r)"
    "snd (roaring_insert r v) \<longleftrightarrow> v \<notin> roaring_set r" by blast+
qed

lemma roaring_optimize_spec:
  assumes "roaring_ok r"
  shows "roaring_ok (roaring_optimize r)" "roaring_set (roaring_optimize r) = roaring_set r"
proof -
  have "roaring_ok (roaring_optimize r) \<and> fst ` set (roaring_optimize r) = fst ` set r \<and>
      (\<forall>h. members (roaring_optimize r) h = members r h)"
    using assms
  proof (induction r)
    case (Cons x r)
    obtain h c where x: "x = (h, c)" by force
    have "roaring_optimize (x # r) = (h, container_optimize c) # roaring_optimize r"
      by (simp add: roaring_optimize_def x)
    then show ?case using Cons container_optimize_spec [of c] by (simp add: x)
  qed (simp add: roaring_optimize_def)
  then show "roaring_ok (roaring_optimize r)" "roaring_set (roaring_optimize r) = roaring_set r"
    by (simp_all add: roaring_set_def)
qed

lemma container_cardinality_pos: "container_ok c \<Longrightarrow> 0 < container_cardinality c \<longleftrightarrow> container_set c \<noteq> {}"
  using container_cardinality_spec [of c] by (auto simp: word_less_nat_alt card_gt_0_iff)

lemma roaring_and_spec:
  "roaring_ok r \<Longrightarrow> roaring_ok s \<Longrightarrow> roaring_ok (roaring_and r s) \<and>
     fst ` set (roaring_and r s) \<subseteq> fst ` set r \<inter> fst ` set s \<and>
     (\<forall>h. members (roaring_and r s) h = members r h \<inter> members s h)"
proof (induction r s rule: roaring_and.induct)
  case (1 h1 c1 r1 h2 c2 r2)
  consider "h1 < h2" | "h2 < h1" | "h1 = h2" by force
  then show ?case
  proof cases
    case 1
    then have "h1 \<notin> fst ` set ((h2, c2) # r2)" using "1.prems" by force
    then have "members ((h2, c2) # r2) h1 = {}" by (rule members_absent)
    then show ?thesis using "1.IH"(1) 1 "1.prems" by auto
  next
    case 2
    then have "h2 \<notin> fst ` set ((h1, c1) # r1)" using "1.prems" by force
    then have "members ((h1, c1) # r1) h2 = {}" by (rule members_absent)
    then show ?thesis using "1.IH"(2) 2 "1.prems" by auto
  next
    case 3
    then have "h1 \<notin> fst ` set r1" using "1.prems" by force
    then have m: "members r1 h1 = {}" by (rule members_absent)
    let ?c = "intersect_containers c1 c2"
    have c: "container_ok ?c" "container_set ?c = container_set c1 \<inter> container_set c2"
      using intersect_containers_spec [of c1 c2] "1.prems" by simp_all
    show ?thesis
    proof (cases "container_set ?c = {}")
      case True
      then have "\<not> 0 < container_cardinality ?c" using container_cardinality_pos [OF c(1)] by simp
      then show ?thesis using "1.IH"(4) 3 "1.prems" m True c(2) by auto
    next
      case False
      then have "0 < container_cardinality ?c" using container_cardinality_pos [OF c(1)] by simp
      then have e: "roaring_and ((h1, c1) # r1) ((h2, c2) # r2) = (h1, ?c) # roaring_and r1 r2" using 3 by simp
      have ih: "roaring_ok (roaring_and r1 r2)" "fst ` set (roaring_and r1 r2) \<subseteq> fst ` set r1 \<inter> fst ` set r2"
        "\<forall>h. members (roaring_and r1 r2) h = members r1 h \<inter> members r2 h"
        using "1.IH"(3) 3 "1.prems" \<open>0 < container_cardinality ?c\<close> by simp_all
      have "\<forall>h \<in> fst ` set r1. h1 < h" using "1.prems" by simp
      then have "\<forall>h \<in> fst ` set (roaring_and r1 r2). h1 < h" using ih(2) by blast
      then have "roaring_ok ((h1, ?c) # roaring_and r1 r2)" using ih(1) c(1) False by simp
      moreover have "fst ` set ((h1, ?c) # roaring_and r1 r2) \<subseteq> fst ` set ((h1, c1) # r1) \<inter> fst ` set ((h2, c2) # r2)"
        using ih(2) 3 by auto
      ultimately show ?thesis unfolding e using ih(3) c(2) 3 by simp
    qed
  qed
qed auto

lemma roaring_or_spec:
  "roaring_ok r \<Longrightarrow> roaring_ok s \<Longrightarrow> roaring_ok (roaring_or r s) \<and>
     fst ` set (roaring_or r s) = fst ` set r \<union> fst ` set s \<and>
     (\<forall>h. members (roaring_or r s) h = members r h \<union> members s h)"
proof (induction r s rule: roaring_or.induct)
  case (1 h1 c1 r1 h2 c2 r2)
  consider "h1 < h2" | "h2 < h1" | "h1 = h2" by force
  then show ?case
  proof cases
    case 1
    then have lt: "\<forall>h \<in> fst ` set ((h2, c2) # r2). h1 < h" using "1.prems" by force
    then have "members ((h2, c2) # r2) h1 = {}" by (intro members_absent) blast
    then show ?thesis using "1.IH"(1) 1 "1.prems" lt by auto
  next
    case 2
    then have lt: "\<forall>h \<in> fst ` set ((h1, c1) # r1). h2 < h" using "1.prems" by force
    then have "members ((h1, c1) # r1) h2 = {}" by (intro members_absent) blast
    then show ?thesis using "1.IH"(2) 2 "1.prems" lt by auto
  next
    case 3
    then show ?thesis using "1.IH"(3) 3 "1.prems" union_containers_spec [of c1 c2] by auto
  qed
qed auto

section \<open>The documents in order\<close>

definition roaring_docs :: "roaring \<Rightarrow> u32 list" where
  "roaring_docs r = concat (map (\<lambda>(h, c). map (join h) (container_to_array c)) r)"

lemma roaring_docs_Cons: "roaring_docs ((h, c) # r) = map (join h) (container_to_array c) @ roaring_docs r"
  by (simp add: roaring_docs_def)

lemma roaring_set_Cons:
  assumes "h \<notin> fst ` set r"
  shows "roaring_set ((h, c) # r) = join h ` container_set c \<union> roaring_set r"
proof (rule set_eqI)
  fix v
  have "v \<in> join h ` container_set c \<longleftrightarrow> high v = h \<and> low v \<in> container_set c"
    by (auto simp: image_iff join_eq_iff) (metis join_high_low)
  moreover have "members r h = {}" by (rule members_absent [OF assms])
  ultimately show "v \<in> roaring_set ((h, c) # r) \<longleftrightarrow> v \<in> join h ` container_set c \<union> roaring_set r"
    by (auto simp: roaring_set_def)
qed

lemma roaring_set_high: "v \<in> roaring_set r \<Longrightarrow> high v \<in> fst ` set r"
  using members_absent by (fastforce simp: roaring_set_def)

lemma roaring_docs_spec:
  "roaring_ok r \<Longrightarrow> strictly_sorted (roaring_docs r) \<and> set (roaring_docs r) = roaring_set r"
proof (induction r)
  case (Cons x r)
  obtain h c where x: "x = (h, c)" by force
  have ok: "container_ok c" "\<forall>h' \<in> fst ` set r. h < h'" "roaring_ok r" using Cons.prems by (simp_all add: x)
  have IH: "strictly_sorted (roaring_docs r)" "set (roaring_docs r) = roaring_set r" using Cons.IH ok(3) by blast+
  have "join h l < v" if "v \<in> roaring_set r" for l v
    using join_less [of h "high v" l "low v"] roaring_set_high [OF that] ok(2) by auto
  then have "strictly_sorted (roaring_docs (x # r))"
    using container_to_array_spec(1) [OF ok(1)] IH by (simp add: x roaring_docs_Cons sorted_wrt_append sorted_wrt_map)
  moreover have "h \<notin> fst ` set r" using ok(2) by blast
  ultimately show ?case
    using container_to_array_spec(2) [OF ok(1)] IH by (simp add: x roaring_docs_Cons roaring_set_Cons)
qed (simp add: roaring_docs_def)

lemma roaring_cardinality_spec:
  assumes "roaring_ok r"
  shows "roaring_cardinality r = of_nat (card (roaring_set r))"
proof -
  have "roaring_cardinality r = of_nat (length (roaring_docs r))"
    unfolding roaring_cardinality_def roaring_docs_def
    by (induction r) (auto simp: container_cardinality_length)
  then show ?thesis
    using roaring_docs_spec [OF assms] by (metis distinct_card strictly_sorted_distinct)
qed

section \<open>Sets with insertion, membership, counting and optimization\<close>

text \<open>
  The contract that containers and bitmaps share: what each operation does to the
  set of elements the representation stands for.
\<close>

locale set_rep =
  fixes ok :: "'s \<Rightarrow> bool" and elems :: "'s \<Rightarrow> 'a::finite set"
    and ins :: "'s \<Rightarrow> 'a \<Rightarrow> 's \<times> bool" and has :: "'s \<Rightarrow> 'a \<Rightarrow> bool" and opt :: "'s \<Rightarrow> 's" and count :: "'s \<Rightarrow> u32"
  assumes has: "ok s \<Longrightarrow> has s v \<longleftrightarrow> v \<in> elems s"
    and ins: "ok s \<Longrightarrow> ok (fst (ins s v)) \<and> elems (fst (ins s v)) = insert v (elems s) \<and> (snd (ins s v) \<longleftrightarrow> v \<notin> elems s)"
    and opt: "ok s \<Longrightarrow> ok (opt s) \<and> elems (opt s) = elems s"
    and count: "ok s \<Longrightarrow> count s = of_nat (card (elems s))"
begin

lemma inserts:
  "ok s \<Longrightarrow> ok (foldl (\<lambda>s v. fst (ins s v)) s vs) \<and> elems (foldl (\<lambda>s v. fst (ins s v)) s vs) = elems s \<union> set vs"
  by (induction vs arbitrary: s) (auto simp: ins)

lemma has_ins: "ok s \<Longrightarrow> has (fst (ins s v)) w \<longleftrightarrow> w = v \<or> has s w"
  using ins [of s v] has by auto

lemma count_ins: "ok s \<Longrightarrow> count (fst (ins s v)) = count s + (if snd (ins s v) then 1 else 0)"
  using ins [of s v] by (simp add: count card_insert_if insert_absorb)

lemma opt_same: "ok s \<Longrightarrow> has (opt s) v = has s v" "ok s \<Longrightarrow> count (opt s) = count s"
  using opt [of s] has count by simp_all

end

interpretation containers: set_rep container_ok container_set container_insert container_contains container_optimize container_cardinality
proof unfold_locales
  show "container_cardinality c = of_nat (card (container_set c))" if "container_ok c" for c
    using container_cardinality_spec [OF that] by (metis of_nat_unat ucast_id)
qed (simp_all add: container_contains_iff container_insert_spec container_optimize_spec)

interpretation bitmaps: set_rep roaring_ok roaring_set roaring_insert roaring_contains roaring_optimize roaring_cardinality
  by unfold_locales (simp_all add: roaring_contains_iff roaring_insert_spec roaring_optimize_spec roaring_cardinality_spec)

section \<open>Building from a sorted slice\<close>

lemma roaring_set_snoc:
  assumes "\<forall>h' \<in> fst ` set acc. h' < h"
  shows "roaring_set (acc @ [(h, c)]) = roaring_set acc \<union> join h ` container_set c"
proof -
  have "members (acc @ [(h, c)]) h' = members acc h' \<union> members [(h, c)] h'" for h'
    using assms by (intro members_append) auto
  then have "roaring_set (acc @ [(h, c)]) = roaring_set acc \<union> roaring_set [(h, c)]" by (auto simp: roaring_set_def)
  then show ?thesis by (simp add: roaring_set_Cons)
qed

lemma roaring_ok_snoc:
  "roaring_ok acc \<Longrightarrow> \<forall>h' \<in> fst ` set acc. h' < h \<Longrightarrow> container_ok c \<Longrightarrow> container_set c \<noteq> {} \<Longrightarrow>
     roaring_ok (acc @ [(h, container_optimize c)])"
  by (simp add: roaring_ok_append container_optimize_spec)

lemma from_sorted_loop_spec:
  assumes "roaring_ok acc" "\<forall>h' \<in> fst ` set acc. h' < h" "container_ok c"
    "sorted vs" "\<forall>v \<in> set vs. h \<le> high v" "container_set c \<noteq> {} \<or> (vs \<noteq> [] \<and> high (hd vs) = h)"
  shows "roaring_ok (from_sorted_loop vs h c acc) \<and>
    roaring_set (from_sorted_loop vs h c acc) = roaring_set acc \<union> join h ` container_set c \<union> set vs"
  using assms
proof (induction vs h c acc rule: from_sorted_loop.induct)
  case (1 h c acc)
  then show ?case by (simp add: roaring_ok_snoc roaring_set_snoc container_optimize_spec del: container_ok.simps container_set.simps)
next
  case (2 v vs h c acc)
  have hi: "\<forall>w \<in> set vs. high v \<le> high w" using "2.prems"(4) by (simp add: high_mono)
  show ?case
  proof (cases "high v = h")
    case True
    let ?c = "fst (container_insert c (low v))"
    have c: "container_ok ?c" "container_set ?c = insert (low v) (container_set c)"
      using container_insert_spec [OF "2.prems"(3)] by blast+
    have "roaring_ok (from_sorted_loop vs h ?c acc) \<and>
      roaring_set (from_sorted_loop vs h ?c acc) = roaring_set acc \<union> join h ` container_set ?c \<union> set vs"
      using "2.IH" [of "(h, c, acc)" h "(c, acc)" c acc] True "2.prems" c by (simp del: container_insert.simps)
    then show ?thesis using True c(2) by auto
  next
    case False
    then have ne: "container_set c \<noteq> {}" and lt: "h < high v" using "2.prems"(5,6) by auto
    let ?c = "fst (container_insert (Array []) (low v))" and ?acc = "acc @ [(h, container_optimize c)]"
    have c: "container_ok ?c" "container_set ?c = {low v}"
      using container_insert_spec [of "Array []" "low v"] by simp_all
    have acc: "roaring_ok ?acc" using roaring_ok_snoc "2.prems"(1-3) ne by blast
    have k: "\<forall>h' \<in> fst ` set ?acc. h' < high v" using lt "2.prems"(2) by auto
    have "roaring_ok (from_sorted_loop vs (high v) ?c ?acc) \<and>
      roaring_set (from_sorted_loop vs (high v) ?c ?acc) = roaring_set ?acc \<union> join (high v) ` container_set ?c \<union> set vs"
      using "2.IH" [of "(high v, Array [], ?acc)" "high v" "(Array [], ?acc)" "Array []" ?acc] False "2.prems"(4) c acc k hi
      by (simp del: container_insert.simps)
    then show ?thesis
      using False c(2) roaring_set_snoc [OF "2.prems"(2)] container_optimize_spec(2) [OF "2.prems"(3)] by auto
  qed
qed

lemma from_sorted_slice_spec:
  assumes "sorted vs"
  shows "roaring_ok (from_sorted_slice vs)" "roaring_set (from_sorted_slice vs) = set vs"
proof -
  have "roaring_ok (from_sorted_slice vs) \<and> roaring_set (from_sorted_slice vs) = set vs"
  proof (cases vs)
    case (Cons v ws)
    have "\<forall>w \<in> set vs. high v \<le> high w" using assms Cons by (auto simp: high_mono)
    then show ?thesis
      using from_sorted_loop_spec [of "[]" "high v" "Array []" vs] assms Cons
      by (simp add: from_sorted_slice_def roaring_new_def del: from_sorted_loop.simps)
  qed (simp add: from_sorted_slice_def roaring_new_def)
  then show "roaring_ok (from_sorted_slice vs)" "roaring_set (from_sorted_slice vs) = set vs" by blast+
qed

section \<open>Properties\<close>

text \<open>
  C9. Every operation of a Roaring bitmap is the set operation it stands for and
  keeps the invariant, whatever mix of arrays, bitmaps and runs the operands use:
  insertion adds the value and reports whether it was new, membership, intersection,
  union and optimization are exact, the count is the cardinality modulo the width of
  its type, and a bitmap tests empty exactly when it is.
\<close>

theorem roaring_refines_sets:
  assumes "roaring_ok r" "roaring_ok s"
  shows "roaring_ok (fst (roaring_insert r v)) \<and> roaring_set (fst (roaring_insert r v)) = insert v (roaring_set r) \<and>
    (snd (roaring_insert r v) \<longleftrightarrow> v \<notin> roaring_set r) \<and>
    (roaring_contains r v \<longleftrightarrow> v \<in> roaring_set r) \<and>
    roaring_ok (roaring_and r s) \<and> roaring_set (roaring_and r s) = roaring_set r \<inter> roaring_set s \<and>
    roaring_ok (roaring_or r s) \<and> roaring_set (roaring_or r s) = roaring_set r \<union> roaring_set s \<and>
    roaring_ok (roaring_optimize r) \<and> roaring_set (roaring_optimize r) = roaring_set r \<and>
    roaring_cardinality r = of_nat (card (roaring_set r)) \<and> (roaring_is_empty r \<longleftrightarrow> roaring_set r = {})"
proof -
  have "roaring_set (roaring_and r s) = roaring_set r \<inter> roaring_set s"
    "roaring_set (roaring_or r s) = roaring_set r \<union> roaring_set s"
    using roaring_and_spec [OF assms] roaring_or_spec [OF assms] by (auto simp: roaring_set_def)
  then show ?thesis
    using assms roaring_and_spec [OF assms] roaring_or_spec [OF assms] bitmaps.ins bitmaps.has bitmaps.opt bitmaps.count
    by (simp add: roaring_is_empty_def roaring_set_empty)
qed

theorem roaring_refines_sets_witness:
  "roaring_set (roaring_or (from_sorted_slice [1, 70000]) (from_sorted_slice [2])) = {1, 2, 70000} \<and>
    roaring_set (roaring_and (from_sorted_slice [1, 70000]) (from_sorted_slice [2])) = {} \<and>
    roaring_contains (from_sorted_slice [1, 70000]) 70000 \<and>
    roaring_cardinality (from_sorted_slice [1, 70000]) = 2"
proof -
  let ?r = "from_sorted_slice [1, 70000]" and ?s = "from_sorted_slice [2]"
  have r: "roaring_ok ?r" "roaring_set ?r = {1, 70000}" using from_sorted_slice_spec [of "[1, 70000]"] by simp_all
  have s: "roaring_ok ?s" "roaring_set ?s = {2}" using from_sorted_slice_spec [of "[2]"] by simp_all
  show ?thesis using roaring_refines_sets [OF r(1) s(1), of 70000] unfolding r(2) s(2) by auto
qed

end
