(* ===== verification/RoaringPostings.thy ===== *)
theory RoaringPostings
  imports Roaring
begin

text \<open>
  The rest of \<open>structures/postings/roaring.rs\<close>: the iterator over a Roaring bitmap,
  the serialized forms, posting lists with term frequencies and block metadata, and
  the posting iterator that seeks by blocks. The states of a posting iterator are the
  inductive relation \<open>posting_reach\<close>; its invariant \<open>posting_inv\<close> ties the current
  block to the current document. Two theorems record where the code departs from its
  contract: a seek past the end, and a full array container.
\<close>

section \<open>Iteration\<close>

record roaring_iterator =
  container_idx :: nat
  value_idx :: nat
  current_len :: nat
  current_values :: "u16 list"

definition push_or_set :: "nat \<times> u16 list \<Rightarrow> u16 \<Rightarrow> nat \<times> u16 list" where
  "push_or_set s v =
     (let (count, output) = s
      in (count + 1, if length output \<le> count then output @ [v] else output[count := v]))"

definition decode_bitmap_into :: "u64 list \<Rightarrow> u16 list \<Rightarrow> nat \<times> u16 list" where
  "decode_bitmap_into bm output =
     foldl (\<lambda>s (word_idx, w).
       if w = 0 then s
       else foldl (\<lambda>s bit_idx. push_or_set s (of_nat (word_idx * 64) + of_nat bit_idx)) s (drain_bits w))
       (0, output) (enumerate 0 bm)"

fun decode_container_into :: "container \<Rightarrow> u16 list \<Rightarrow> nat \<times> u16 list" where
  "decode_container_into (Array arr) output =
     (let output' = (if length output < length arr then output @ replicate (length arr - length output) 0 else output)
      in (length arr, arr @ drop (length arr) output'))"
| "decode_container_into (Bitmap bm) output = decode_bitmap_into bm output"
| "decode_container_into (Runs runs) output =
     foldl (\<lambda>s (start, len). foldl (\<lambda>s i. push_or_set s (start + of_nat i)) s [0..<unat len + 1]) (0, output) runs"

definition roaring_iter :: roaring_iterator where
  "roaring_iter = \<lparr>container_idx = 0, value_idx = 0, current_len = 0, current_values = []\<rparr>"

text \<open>An index out of range is a panic, \<open>None\<close>.\<close>

function roaring_next :: "roaring \<Rightarrow> roaring_iterator \<Rightarrow> (roaring_iterator \<times> u32 option) option" where
  "roaring_next r it =
     (if value_idx it < current_len it then
        if 0 < container_idx it \<and> container_idx it \<le> length r \<and> value_idx it < length (current_values it)
        then Some (it\<lparr>value_idx := value_idx it + 1\<rparr>,
                   Some (join (fst (r ! (container_idx it - 1))) (current_values it ! value_idx it)))
        else None
      else if length r \<le> container_idx it then Some (it, None)
      else let (len, values) = decode_container_into (snd (r ! container_idx it)) (current_values it)
           in roaring_next r \<lparr>container_idx = container_idx it + 1, value_idx = 0, current_len = len, current_values = values\<rparr>)"
  by pat_completeness auto
termination
  by (relation "measure (\<lambda>(r, it). length r - container_idx it)") auto

declare roaring_next.simps [simp del]


section \<open>Posting lists\<close>

text \<open>
  A score is kept as the bit pattern of its \<open>f32\<close>. Floating-point arithmetic is a
  parameter: the conversion of a term frequency, the BM25 bound of a term frequency
  under an inverse document frequency, and \<open>f32::max\<close>. The order in which a hash map
  yields its entries is another.
\<close>

type_synonym f32 = u32

record f32_ops =
  f32_of_u32 :: "u32 \<Rightarrow> f32"
  bm25_upper_bound :: "f32 \<Rightarrow> f32 \<Rightarrow> f32"
  f32_max :: "f32 \<Rightarrow> f32 \<Rightarrow> f32"

definition ROARING_BLOCK_SIZE :: nat where
  "ROARING_BLOCK_SIZE = 65536"

record roaring_block =
  rb_key :: u16
  rb_first :: u32
  rb_last :: u32
  rb_max_tf :: u32
  rb_score :: f32
  rb_docs :: u32

definition block_serialize :: "roaring_block \<Rightarrow> bytes" where
  "block_serialize b =
     u16_le (rb_key b) @ u32_le (rb_first b) @ u32_le (rb_last b) @ u32_le (rb_max_tf b) @ u32_le (rb_score b) @ u32_le (rb_docs b)"

definition block_deserialize :: "roaring_block reader" where
  "block_deserialize =
     rbind read_u16 (\<lambda>key. rbind read_u32 (\<lambda>first. rbind read_u32 (\<lambda>last. rbind read_u32 (\<lambda>max_tf.
     rbind read_u32 (\<lambda>score. rbind read_u32 (\<lambda>docs.
       rreturn \<lparr>rb_key = key, rb_first = first, rb_last = last, rb_max_tf = max_tf, rb_score = score, rb_docs = docs\<rparr>))))))"

record roaring_postings =
  rp_docs :: roaring
  rp_tfs :: "(u32 \<times> u32) list"
  rp_default :: u32
  rp_max_tf :: u32
  rp_blocks :: "roaring_block list"
  rp_max_score :: f32

definition count_tfs :: "u32 list \<Rightarrow> (u32 \<rightharpoonup> u32)" where
  "count_tfs tfs =
     foldl (\<lambda>m tf. m(tf \<mapsto> (case m tf of None \<Rightarrow> 0 | Some n \<Rightarrow> n) + 1)) Map.empty tfs"

text \<open>\<open>Iterator::max_by_key\<close> on the counts: the last of the entries with the greatest count.\<close>

fun max_by_count :: "(u32 \<times> u32) list \<Rightarrow> (u32 \<times> u32) option" where
  "max_by_count [] = None"
| "max_by_count (x # xs) = Some (foldl (\<lambda>best y. if snd best \<le> snd y then y else best) x xs)"

definition max_or_one :: "u32 list \<Rightarrow> u32" where
  "max_or_one tfs = (case tfs of [] \<Rightarrow> 1 | tf # rest \<Rightarrow> fold max rest tf)"

function build_blocks :: "f32_ops \<Rightarrow> f32 \<Rightarrow> u32 list \<Rightarrow> u32 list \<Rightarrow> f32 \<Rightarrow> roaring_block list \<times> f32" where
  "build_blocks F idf [] tfs max_score = ([], max_score)"
| "build_blocks F idf (d # ds) tfs max_score =
     (let docs = d # ds; key = high d; n = length (takeWhile (\<lambda>d. high d = key) docs);
          block_docs = take n docs; block_max_tf = max_or_one (take n tfs);
          score = bm25_upper_bound F (f32_of_u32 F block_max_tf) idf;
          (blocks, max_score') = build_blocks F idf (drop n docs) (drop n tfs) (f32_max F max_score score)
      in (\<lparr>rb_key = key, rb_first = hd block_docs, rb_last = last block_docs, rb_max_tf = block_max_tf,
            rb_score = score, rb_docs = of_nat (length block_docs)\<rparr> # blocks, max_score'))"
  by pat_completeness auto
termination
  by (relation "measure (\<lambda>(F, idf, docs, tfs, m). length docs)") auto

definition from_postings_with_idf ::
  "f32_ops \<Rightarrow> ((u32 \<rightharpoonup> u32) \<Rightarrow> (u32 \<times> u32) list) \<Rightarrow> u32 list \<Rightarrow> u32 list \<Rightarrow> f32 \<Rightarrow> roaring_postings option" where
  "from_postings_with_idf F hash_iter docs tfs idf =
     (if length docs \<noteq> length tfs then None
      else if docs = [] then
        Some \<lparr>rp_docs = roaring_new, rp_tfs = [], rp_default = 1, rp_max_tf = 0, rp_blocks = [], rp_max_score = 0\<rparr>
      else let bitmap = from_sorted_slice docs;
               default_tf = (case max_by_count (hash_iter (count_tfs tfs)) of None \<Rightarrow> 1 | Some (tf, _) \<Rightarrow> tf);
               (blocks, max_score) = build_blocks F idf docs tfs 0
           in Some \<lparr>rp_docs = bitmap, rp_tfs = filter (\<lambda>(_, tf). tf \<noteq> default_tf) (zip docs tfs),
                     rp_default = default_tf, rp_max_tf = max_or_one tfs, rp_blocks = blocks, rp_max_score = max_score\<rparr>)"

definition from_postings ::
  "f32_ops \<Rightarrow> ((u32 \<rightharpoonup> u32) \<Rightarrow> (u32 \<times> u32) list) \<Rightarrow> u32 list \<Rightarrow> u32 list \<Rightarrow> roaring_postings option" where
  "from_postings F hash_iter docs tfs = from_postings_with_idf F hash_iter docs tfs 0x3F800000"

definition get_tf :: "roaring_postings \<Rightarrow> u32 \<Rightarrow> u32" where
  "get_tf p doc =
     (case binary_search_by_key doc fst (rp_tfs p) of
        Inr idx \<Rightarrow> snd (rp_tfs p ! idx)
      | Inl _ \<Rightarrow> rp_default p)"

definition postings_len :: "roaring_postings \<Rightarrow> u32" where
  "postings_len p = roaring_cardinality (rp_docs p)"

definition postings_is_empty :: "roaring_postings \<Rightarrow> bool" where
  "postings_is_empty p \<longleftrightarrow> roaring_is_empty (rp_docs p)"

definition num_blocks :: "roaring_postings \<Rightarrow> nat" where
  "num_blocks p = length (rp_blocks p)"

definition block_for_doc :: "roaring_postings \<Rightarrow> u32 \<Rightarrow> nat option" where
  "block_for_doc p doc =
     (case binary_search_by_key (high doc) rb_key (rp_blocks p) of Inr idx \<Rightarrow> Some idx | Inl _ \<Rightarrow> None)"

definition postings_serialize :: "roaring_postings \<Rightarrow> bytes" where
  "postings_serialize p =
     roaring_serialize (rp_docs p) @ u32_le (rp_default p) @ u32_le (rp_max_tf p) @ u32_le (rp_max_score p) @
     u32_le (of_nat (length (rp_tfs p))) @ concat (map (\<lambda>(doc, tf). u32_le doc @ u32_le tf) (rp_tfs p)) @
     u32_le (of_nat (length (rp_blocks p))) @ concat (map block_serialize (rp_blocks p))"

definition postings_deserialize :: "roaring_postings reader" where
  "postings_deserialize =
     rbind roaring_deserialize (\<lambda>docs. rbind read_u32 (\<lambda>default_tf. rbind read_u32 (\<lambda>max_tf. rbind read_u32 (\<lambda>max_score.
     rbind read_u32 (\<lambda>num_exceptions.
     rbind (rreplicate (unat num_exceptions) (rbind read_u32 (\<lambda>doc. rbind read_u32 (\<lambda>tf. rreturn (doc, tf))))) (\<lambda>tfs.
     rbind read_u32 (\<lambda>num_blocks. rbind (rreplicate (unat num_blocks) block_deserialize) (\<lambda>blocks.
       rreturn \<lparr>rp_docs = docs, rp_tfs = tfs, rp_default = default_tf, rp_max_tf = max_tf, rp_blocks = blocks,
                 rp_max_score = max_score\<rparr>))))))))"

section \<open>Posting iterators\<close>

record posting_iter =
  pi_iter :: roaring_iterator
  pi_doc :: "u32 option"
  pi_block :: nat

definition posting_iterator :: posting_iter where
  "posting_iterator = \<lparr>pi_iter = roaring_iter, pi_doc = None, pi_block = 0\<rparr>"

definition posting_doc :: "posting_iter \<Rightarrow> u32" where
  "posting_doc it = (case pi_doc it of Some d \<Rightarrow> d | None \<Rightarrow> - 1)"

definition posting_term_freq :: "roaring_postings \<Rightarrow> posting_iter \<Rightarrow> u32" where
  "posting_term_freq p it = (case pi_doc it of Some d \<Rightarrow> get_tf p d | None \<Rightarrow> 0)"

function skip_blocks :: "(roaring_block \<Rightarrow> bool) \<Rightarrow> roaring_block list \<Rightarrow> nat \<Rightarrow> nat" where
  "skip_blocks before blocks k = (if k < length blocks \<and> before (blocks ! k) then skip_blocks before blocks (k + 1) else k)"
  by pat_completeness auto
termination
  by (relation "measure (\<lambda>(before, blocks, k). length blocks - k)") auto

definition posting_init :: "roaring_postings \<Rightarrow> posting_iter \<Rightarrow> posting_iter option" where
  "posting_init p it =
     map_option (\<lambda>(i, d). \<lparr>pi_iter = i, pi_doc = d, pi_block = 0\<rparr>) (roaring_next (rp_docs p) (pi_iter it))"

definition posting_advance :: "roaring_postings \<Rightarrow> posting_iter \<Rightarrow> (posting_iter \<times> u32) option" where
  "posting_advance p it =
     map_option (\<lambda>(i, d).
       let block = (case d of
             Some doc \<Rightarrow>
               if rp_blocks p \<noteq> [] then skip_blocks (\<lambda>b. rb_key b < high doc) (rp_blocks p) (pi_block it) else pi_block it
           | None \<Rightarrow> pi_block it);
           it' = \<lparr>pi_iter = i, pi_doc = d, pi_block = block\<rparr>
       in (it', posting_doc it')) (roaring_next (rp_docs p) (pi_iter it))"

text \<open>The scan of the underlying iterator to the first document at or above a bound.\<close>

partial_function (option) scan_to :: "roaring \<Rightarrow> u32 \<Rightarrow> roaring_iterator \<Rightarrow> u32 option \<Rightarrow> (roaring_iterator \<times> u32 option) option" where
  "scan_to r bound i d =
     (case d of
        Some doc \<Rightarrow>
          if bound \<le> doc then Some (i, d)
          else Option.bind (roaring_next r i) (\<lambda>(i', d'). scan_to r bound i' d')
      | None \<Rightarrow> Some (i, d))"

definition scan_posting :: "roaring_postings \<Rightarrow> u32 \<Rightarrow> posting_iter \<Rightarrow> posting_iter option" where
  "scan_posting p bound it =
     map_option (\<lambda>(i, d). it\<lparr>pi_iter := i, pi_doc := d\<rparr>) (scan_to (rp_docs p) bound (pi_iter it) (pi_doc it))"

definition posting_seek :: "roaring_postings \<Rightarrow> posting_iter \<Rightarrow> u32 \<Rightarrow> (posting_iter \<times> u32) option" where
  "posting_seek p it target =
     (let blocks = rp_blocks p;
          scan = (\<lambda>it. map_option (\<lambda>it. (it, posting_doc it)) (scan_posting p target it))
      in if blocks \<noteq> [] then
           let it1 = it\<lparr>pi_block := skip_blocks (\<lambda>b. rb_last b < target) blocks (pi_block it)\<rparr>
           in if length blocks \<le> pi_block it1 then Some (it1\<lparr>pi_doc := None\<rparr>, - 1)
              else let block = blocks ! pi_block it1
                   in if high target < rb_key block \<or> (rb_key block = high target \<and> posting_doc it1 < rb_first block)
                      then Option.bind (scan_posting p (rb_first block) it1) scan
                      else scan it1
         else scan it)"

definition posting_is_exhausted :: "posting_iter \<Rightarrow> bool" where
  "posting_is_exhausted it \<longleftrightarrow> pi_doc it = None"

definition current_block_max_score :: "roaring_postings \<Rightarrow> posting_iter \<Rightarrow> f32" where
  "current_block_max_score p it =
     (if pi_doc it = None \<or> rp_blocks p = [] then 0
      else if pi_block it < length (rp_blocks p) then rb_score (rp_blocks p ! pi_block it) else 0)"

definition current_block_max_tf :: "roaring_postings \<Rightarrow> posting_iter \<Rightarrow> u32" where
  "current_block_max_tf p it =
     (if pi_doc it = None \<or> rp_blocks p = [] then 0
      else if pi_block it < length (rp_blocks p) then rb_max_tf (rp_blocks p ! pi_block it) else 0)"

text \<open>Slicing past the last block is a panic.\<close>

definition max_remaining_score :: "f32_ops \<Rightarrow> roaring_postings \<Rightarrow> posting_iter \<Rightarrow> f32 option" where
  "max_remaining_score F p it =
     (if pi_doc it = None \<or> rp_blocks p = [] then Some 0
      else if length (rp_blocks p) < pi_block it then None
      else Some (foldl (f32_max F) 0 (map rb_score (drop (pi_block it) (rp_blocks p)))))"

definition skip_to_block_with_doc :: "roaring_postings \<Rightarrow> posting_iter \<Rightarrow> u32 \<Rightarrow> (posting_iter \<times> (u32 \<times> f32) option) option" where
  "skip_to_block_with_doc p it target =
     (let blocks = rp_blocks p
      in if blocks = [] then Some (it, None)
         else let it1 = it\<lparr>pi_block := skip_blocks (\<lambda>b. \<not> target \<le> rb_last b) blocks (pi_block it)\<rparr>
              in if pi_block it1 < length blocks
                 then let block = blocks ! pi_block it1
                      in map_option (\<lambda>it. (it, Some (rb_first block, rb_score block))) (scan_posting p (rb_first block) it1)
                 else Some (it1\<lparr>pi_doc := None\<rparr>, None))"

declare skip_blocks.simps [simp del]

section \<open>The iterator yields the set in order\<close>

definition iter_rest :: "roaring \<Rightarrow> roaring_iterator \<Rightarrow> u32 list" where
  "iter_rest r it =
     map (join (fst (r ! (container_idx it - 1)))) (drop (value_idx it) (take (current_len it) (current_values it))) @
     roaring_docs (drop (container_idx it) r)"

definition iter_ok :: "roaring \<Rightarrow> roaring_iterator \<Rightarrow> bool" where
  "iter_ok r it \<longleftrightarrow> container_idx it \<le> length r \<and> current_len it \<le> length (current_values it) \<and>
     (0 < current_len it \<longrightarrow> 0 < container_idx it)"

lemma foldl_concat_map: "foldl f s (concat (map g xs)) = foldl (\<lambda>s x. foldl f s (g x)) s xs"
  by (induction xs arbitrary: s) simp_all

lemma push_or_set_foldl:
  "count \<le> length out \<Longrightarrow> foldl push_or_set (count, out) vs = (count', out') \<Longrightarrow>
     count' = count + length vs \<and> count' \<le> length out' \<and> take count' out' = take count out @ vs"
proof (induction vs arbitrary: count out)
  case (Cons v vs)
  let ?out = "if length out \<le> count then out @ [v] else out[count := v]"
  have "take (Suc count) ?out = take count out @ [v]" "Suc count \<le> length ?out"
    using Cons.prems(1) by (auto simp: take_Suc_conv_app_nth take_update_cancel)
  moreover have "foldl push_or_set (Suc count, ?out) vs = (count', out')"
    using Cons.prems(2) by (simp add: push_or_set_def [of "(count, out)"])
  ultimately have "count' = Suc count + length vs \<and> count' \<le> length out' \<and> take count' out' = take (Suc count) ?out @ vs"
    by (intro Cons.IH)
  then show ?case using \<open>take (Suc count) ?out = take count out @ [v]\<close> by auto
qed auto

lemma decode_container_into_spec:
  assumes "decode_container_into c output = (n, out)"
  shows "n = length (container_to_array c)" "n \<le> length out" "take n out = container_to_array c"
proof -
  have "n = length (container_to_array c) \<and> n \<le> length out \<and> take n out = container_to_array c"
  proof (cases c)
    case (Array arr)
    then show ?thesis using assms by (auto simp: Let_def)
  next
    case (Bitmap bm)
    have "(\<lambda>s (i, w). if w = 0 then s else foldl (\<lambda>s b. push_or_set s (of_nat (i * 64) + of_nat b)) s (drain_bits w)) =
        (\<lambda>s x. foldl push_or_set s ((\<lambda>(i, w). map (\<lambda>b. of_nat (i * 64 + b)) (drain_bits (w :: u64))) x))"
      by (auto simp: fun_eq_iff foldl_map drain_bits.simps)
    then have "decode_bitmap_into bm output = foldl push_or_set (0, output) (bitmap_to_array bm)"
      unfolding decode_bitmap_into_def bitmap_to_array_def foldl_concat_map by presburger
    then show ?thesis using assms push_or_set_foldl [of 0 "output" "bitmap_to_array bm" n out] Bitmap by auto
  next
    case (Runs runs)
    have "(\<lambda>s (start, len). foldl (\<lambda>s i. push_or_set s (start + of_nat i)) s [0..<unat len + 1]) =
        (\<lambda>s x. foldl push_or_set s ((\<lambda>(start, len). map (\<lambda>i. start + of_nat i) [0..<unat (len :: u16) + 1]) x))"
      by (auto simp: fun_eq_iff foldl_map simp del: upt_Suc)
    then have "decode_container_into c output = foldl push_or_set (0, output) (runs_to_array runs)"
      unfolding Runs decode_container_into.simps runs_to_array_def foldl_concat_map by presburger
    then show ?thesis using assms push_or_set_foldl [of 0 "output" "runs_to_array runs" n out] Runs by auto
  qed
  then show "n = length (container_to_array c)" "n \<le> length out" "take n out = container_to_array c" by blast+
qed

lemma roaring_next_spec:
  "iter_ok r it \<Longrightarrow> \<exists>it'. roaring_next r it = Some (it', case iter_rest r it of [] \<Rightarrow> None | v # _ \<Rightarrow> Some v) \<and>
     iter_ok r it' \<and> iter_rest r it' = tl (iter_rest r it)"
proof (induction r it rule: roaring_next.induct)
  case (1 r it)
  show ?case
  proof (cases "value_idx it < current_len it")
    case True
    let ?vs = "current_values it"
    have "drop (value_idx it) (take (current_len it) ?vs) = ?vs ! value_idx it # drop (Suc (value_idx it)) (take (current_len it) ?vs)"
      using True "1.prems" by (subst Cons_nth_drop_Suc [symmetric]) (simp_all add: iter_ok_def)
    then show ?thesis
      using True "1.prems" by (simp add: roaring_next.simps [of r it] iter_ok_def iter_rest_def)
  next
    case False
    then have e: "iter_rest r it = roaring_docs (drop (container_idx it) r)" by (simp add: iter_rest_def)
    show ?thesis
    proof (cases "length r \<le> container_idx it")
      case True
      then show ?thesis
        using False "1.prems" e by (simp add: roaring_next.simps [of r it] roaring_docs_def iter_rest_def)
    next
      case less: False
      obtain h c where hc: "r ! container_idx it = (h, c)" by force
      obtain n out where d: "decode_container_into c (current_values it) = (n, out)" by force
      let ?it = "\<lparr>container_idx = container_idx it + 1, value_idx = 0, current_len = n, current_values = out\<rparr>"
      note dec = decode_container_into_spec [OF d]
      have "iter_ok r ?it" using less dec(2) by (simp add: iter_ok_def)
      moreover have "iter_rest r ?it = map (join h) (container_to_array c) @ roaring_docs (drop (Suc (container_idx it)) r)"
        using dec(3) hc by (simp add: iter_rest_def)
      then have "iter_rest r ?it = iter_rest r it"
        unfolding e using less hc by (simp add: Cons_nth_drop_Suc [symmetric] roaring_docs_Cons)
      ultimately show ?thesis
        using "1.IH" [OF False less, of "(n, out)" n out] False less hc d by (simp add: roaring_next.simps [of r it])
    qed
  qed
qed

lemma iter_start: "iter_ok r roaring_iter" "iter_rest r roaring_iter = roaring_docs r"
  by (simp_all add: iter_ok_def iter_rest_def roaring_iter_def)

section \<open>Serialization\<close>

fun container_fits :: "container \<Rightarrow> bool" where
  "container_fits (Array arr) = (length arr < 65536)"
| "container_fits _ = True"

definition roaring_fits :: "roaring \<Rightarrow> bool" where
  "roaring_fits r \<longleftrightarrow> (\<forall>c \<in> snd ` set r. container_fits c)"

lemma container_round_trip:
  assumes "container_ok c" "container_fits c"
  shows "container_deserialize (container_serialize c @ bs) = Inr (c, bs)"
proof (cases c)
  case (Array arr)
  then have "unat (of_nat (length arr) :: u16) = length arr" using assms by (simp add: of_nat_u16)
  moreover have "rreplicate (length arr) read_u16 (concat (map u16_le arr) @ bs) = Inr (arr, bs)"
    by (rule rreplicate_concat) (simp add: le_simps)
  ultimately show ?thesis using Array by (simp add: container_deserialize_def rbind_def le_simps rreturn_def)
next
  case (Bitmap bm)
  then have "rreplicate 1024 read_u64 (concat (map u64_le bm) @ bs) = Inr (bm, bs)"
    using rreplicate_concat [of bm read_u64 u64_le bs] assms by (simp add: le_simps)
  then show ?thesis using Bitmap by (simp add: container_deserialize_def rbind_def le_simps rreturn_def)
next
  case (Runs runs)
  then have "unat (of_nat (length runs) :: u16) = length runs" using assms by (simp add: of_nat_u16)
  moreover have "rreplicate (length runs) (rbind read_u16 (\<lambda>start. rbind read_u16 (\<lambda>len. rreturn (start, len))))
      (concat (map (\<lambda>(start, len). u16_le start @ u16_le len) runs) @ bs) = Inr (runs, bs)"
    by (rule rreplicate_concat) (auto simp: le_simps rbind_def rreturn_def)
  ultimately show ?thesis using Runs by (simp add: container_deserialize_def rbind_def le_simps rreturn_def)
qed

lemma length_roaring: "roaring_ok r \<Longrightarrow> length r \<le> 65536"
  using length_strictly_sorted_u16 [of "map fst r"] card_u16 [of "fst ` set r"] by (simp add: roaring_ok_def)

lemma roaring_round_trip:
  assumes "roaring_ok r" "roaring_fits r"
  shows "roaring_deserialize (roaring_serialize r @ bs) = Inr (r, bs)"
proof -
  have "unat (of_nat (length r) :: u32) = length r" using length_roaring [OF assms(1)] by (simp add: unat_of_nat)
  moreover have "rreplicate (length r) (rbind read_u16 (\<lambda>h. rbind container_deserialize (\<lambda>c. rreturn (h, c))))
      (concat (map (\<lambda>(h, c). u16_le h @ container_serialize c) r) @ bs) = Inr (r, bs)"
    using assms by (intro rreplicate_concat) (force simp: rbind_def le_simps rreturn_def container_round_trip roaring_ok_def roaring_fits_def)
  ultimately show ?thesis by (simp add: roaring_deserialize_def roaring_serialize_def rbind_def le_simps)
qed

lemma block_round_trip: "block_deserialize (block_serialize b @ bs) = Inr (b, bs)"
  by (simp add: block_deserialize_def block_serialize_def rbind_def le_simps rreturn_def)

lemma postings_serialize_round_trip:
  assumes "roaring_ok (rp_docs p)" "roaring_fits (rp_docs p)" "length (rp_tfs p) < 2 ^ 32" "length (rp_blocks p) < 2 ^ 32"
  shows "postings_deserialize (postings_serialize p @ bs) = Inr (p, bs)"
proof -
  have "unat (of_nat (length (rp_tfs p)) :: u32) = length (rp_tfs p)" "unat (of_nat (length (rp_blocks p)) :: u32) = length (rp_blocks p)"
    using assms by (simp_all add: unat_of_nat)
  moreover have "rreplicate (length (rp_tfs p)) (rbind read_u32 (\<lambda>doc. rbind read_u32 (\<lambda>tf. rreturn (doc, tf))))
      (concat (map (\<lambda>(doc, tf). u32_le doc @ u32_le tf) (rp_tfs p)) @ bs') = Inr (rp_tfs p, bs')" for bs'
    by (rule rreplicate_concat) (auto simp: rbind_def le_simps rreturn_def)
  moreover have "rreplicate (length (rp_blocks p)) block_deserialize (concat (map block_serialize (rp_blocks p)) @ bs') = Inr (rp_blocks p, bs')" for bs'
    by (rule rreplicate_concat) (rule block_round_trip)
  ultimately show ?thesis
    by (simp add: postings_deserialize_def postings_serialize_def rbind_def le_simps rreturn_def roaring_round_trip [OF assms(1,2)])
qed

lemma container_optimize_fits:
  assumes "container_ok c"
  shows "container_fits (container_optimize c)"
proof -
  let ?t = ARRAY_TO_BITMAP_THRESHOLD
  have "container_fits (try_run_encode d)" if "\<forall>arr. d = Array arr \<longrightarrow> length arr \<le> ?t" for d
    using that by (cases d) (auto simp: try_run_encode_def Let_def ARRAY_TO_BITMAP_THRESHOLD_def)
  moreover have "unat (container_cardinality c) = length (container_to_array c)"
    using container_cardinality_spec [OF assms] container_to_array_spec [OF assms] length_strictly_sorted_u16 by metis
  ultimately show ?thesis unfolding container_optimize_def Let_def by (cases c) auto
qed

lemma from_sorted_loop_fits:
  "container_ok c \<Longrightarrow> roaring_fits acc \<Longrightarrow> roaring_fits (from_sorted_loop vs h c acc)"
proof (induction vs h c acc rule: from_sorted_loop.induct)
  case (1 h c acc)
  then show ?case by (auto simp: roaring_fits_def container_optimize_fits)
next
  case (2 v vs h c acc)
  let ?t = "if high v \<noteq> h then (high v, Array [], acc @ [(h, container_optimize c)]) else (h, c, acc)"
  have "container_ok (fst (snd ?t))" "roaring_fits (snd (snd ?t))"
    using "2.prems" container_optimize_fits [of c] by (auto simp: roaring_fits_def)
  then show ?case
    using "2.IH" [of ?t "fst ?t" "snd ?t" "fst (snd ?t)" "snd (snd ?t)"] container_insert_spec(1) [of "fst (snd ?t)" "low v"]
    by (simp add: Let_def case_prod_unfold del: container_insert.simps)
qed

lemma from_sorted_slice_fits: "roaring_fits (from_sorted_slice vs)"
  by (auto simp: from_sorted_slice_def roaring_new_def roaring_fits_def [of "[]"] from_sorted_loop_fits simp del: from_sorted_loop.simps split: list.splits)

section \<open>Frequencies and blocks\<close>

lemma max_or_one_ge: "tf \<in> set tfs \<Longrightarrow> tf \<le> max_or_one tfs"
proof -
  have "(x \<le> fold max xs x) \<and> (\<forall>y \<in> set xs. y \<le> fold max xs x)" for x :: u32 and xs
  proof (induction xs arbitrary: x)
    case (Cons y ys)
    from Cons [of "max y x"] show ?case by (auto intro: order_trans [of x "max y x"] order_trans [of y "max y x"])
  qed simp
  then show "tf \<in> set tfs \<Longrightarrow> tf \<le> max_or_one tfs" by (auto simp: max_or_one_def split: list.splits)
qed

definition blocks_cover :: "(u32 \<times> u32) list \<Rightarrow> roaring_block list \<Rightarrow> bool" where
  "blocks_cover ps blocks \<longleftrightarrow> strictly_sorted (map rb_key blocks) \<and>
     (\<forall>b \<in> set blocks. high (rb_first b) = rb_key b \<and> high (rb_last b) = rb_key b \<and> rb_first b \<in> fst ` set ps \<and>
        rb_last b \<in> fst ` set ps \<and> rb_first b \<le> rb_last b) \<and>
     (\<forall>(d, tf) \<in> set ps. \<exists>b \<in> set blocks. rb_key b = high d \<and> rb_first b \<le> d \<and> d \<le> rb_last b \<and> tf \<le> rb_max_tf b)"

lemma blocks_cover_step:
  assumes "blocks_cover ps bs" "\<forall>p \<in> set ps. rb_key b < high (fst p)"
    "high (rb_first b) = rb_key b" "high (rb_last b) = rb_key b" "rb_first b \<in> fst ` set qs" "rb_last b \<in> fst ` set qs"
    "rb_first b \<le> rb_last b"
    "\<forall>(d, tf) \<in> set qs. high d = rb_key b \<and> rb_first b \<le> d \<and> d \<le> rb_last b \<and> tf \<le> rb_max_tf b"
  shows "blocks_cover (qs @ ps) (b # bs)"
proof -
  have "rb_key b < rb_key b'" if "b' \<in> set bs" for b'
  proof -
    have "high (rb_first b') = rb_key b'" "rb_first b' \<in> fst ` set ps"
      using assms(1) that by (auto simp: blocks_cover_def)
    then show ?thesis using assms(2) by force
  qed
  then have "strictly_sorted (map rb_key (b # bs))" using assms(1) by (simp add: blocks_cover_def)
  moreover have "\<exists>b' \<in> set (b # bs). rb_key b' = high d \<and> rb_first b' \<le> d \<and> d \<le> rb_last b' \<and> tf \<le> rb_max_tf b'"
    if "(d, tf) \<in> set (qs @ ps)" for d tf
  proof (cases "(d, tf) \<in> set qs")
    case True
    then have "rb_key b = high d \<and> rb_first b \<le> d \<and> d \<le> rb_last b \<and> tf \<le> rb_max_tf b" using assms(8) by fastforce
    then show ?thesis by simp
  next
    case False
    then have "(d, tf) \<in> set ps" using that by simp
    then have "\<exists>b' \<in> set bs. rb_key b' = high d \<and> rb_first b' \<le> d \<and> d \<le> rb_last b' \<and> tf \<le> rb_max_tf b'"
      using assms(1) unfolding blocks_cover_def by blast
    then show ?thesis by simp
  qed
  ultimately show ?thesis
    using assms(1,3-7) unfolding blocks_cover_def by (auto simp: image_Un)
qed

lemma strictly_sorted_hd_last:
  "strictly_sorted (xs :: 'a::linorder list) \<Longrightarrow> x \<in> set xs \<Longrightarrow> hd xs \<le> x \<and> x \<le> last xs"
  by (induction xs) (auto simp: less_imp_le)

lemma build_blocks_spec:
  "strictly_sorted docs \<Longrightarrow> length tfs = length docs \<Longrightarrow> blocks_cover (zip docs tfs) (fst (build_blocks F idf docs tfs m))"
proof (induction F idf docs tfs m rule: build_blocks.induct)
  case (1 F idf tfs m)
  then show ?case by (simp add: blocks_cover_def)
next
  case (2 F idf d ds tfs m)
  let ?docs = "d # ds" and ?P = "\<lambda>x. high x = high d"
  define n where "n = length (takeWhile ?P ?docs)"
  let ?score = "bm25_upper_bound F (f32_of_u32 F (max_or_one (take n tfs))) idf"
  let ?b = "\<lparr>rb_key = high d, rb_first = hd (take n ?docs), rb_last = last (take n ?docs), rb_max_tf = max_or_one (take n tfs),
      rb_score = ?score, rb_docs = of_nat (length (take n ?docs))\<rparr>"
  let ?rest = "fst (build_blocks F idf (drop n ?docs) (drop n tfs) (f32_max F m ?score))"
  have t: "take n ?docs = takeWhile ?P ?docs" "drop n ?docs = dropWhile ?P ?docs"
    unfolding n_def by (simp_all only: takeWhile_eq_take [symmetric] dropWhile_eq_drop [symmetric])
  have ne: "take n ?docs \<noteq> []" unfolding t(1) by simp
  have s: "strictly_sorted (take n ?docs)" "strictly_sorted (drop n ?docs)"
    using "2.prems"(1) by (metis append_take_drop_id sorted_wrt_append)+
  have IH: "blocks_cover (zip (drop n ?docs) (drop n tfs)) ?rest"
    using "2.IH" [OF refl refl _ _ _ refl, of n] s(2) "2.prems"(2) by (simp add: n_def)
  have k: "\<forall>x \<in> set (take n ?docs). high x = high d" unfolding t(1) by (auto dest: set_takeWhileD)
  have above: "high d < high x" if "x \<in> set (drop n ?docs)" for x
  proof -
    have "drop n ?docs \<noteq> []" using that by auto
    then have h: "high (hd (drop n ?docs)) \<noteq> high d" unfolding t(2) by (rule hd_dropWhile)
    moreover have "hd (drop n ?docs) \<in> set ?docs" using \<open>drop n ?docs \<noteq> []\<close> by (metis hd_in_set in_set_dropD)
    then have "d \<le> hd (drop n ?docs)" using "2.prems"(1) by (auto simp: less_imp_le)
    moreover have "hd (drop n ?docs) \<le> x" using strictly_sorted_hd_last [OF s(2) that] by blast
    ultimately show ?thesis by (metis high_mono order.not_eq_order_implies_strict order_less_le_trans)
  qed
  have z: "zip ?docs tfs = zip (take n ?docs) (take n tfs) @ zip (drop n ?docs) (drop n tfs)"
    by (metis append_take_drop_id "2.prems"(2) length_take zip_append)
  have l: "length (take n tfs) = length (take n ?docs)" using "2.prems"(2) by simp
  have "blocks_cover (zip (take n ?docs) (take n tfs) @ zip (drop n ?docs) (drop n tfs)) (?b # ?rest)"
  proof (rule blocks_cover_step [OF IH])
    show "\<forall>p \<in> set (zip (drop n ?docs) (drop n tfs)). rb_key ?b < high (fst p)"
      using above by (auto dest: set_zip_leftD)
    have f: "fst ` set (zip (take n ?docs) (take n tfs)) = set (take n ?docs)"
      using l by (metis map_fst_zip list.set_map)
    show "rb_first ?b \<in> fst ` set (zip (take n ?docs) (take n tfs))" "rb_last ?b \<in> fst ` set (zip (take n ?docs) (take n tfs))"
      unfolding f using hd_in_set [OF ne] last_in_set [OF ne] by simp_all
    show "high (rb_first ?b) = rb_key ?b" "high (rb_last ?b) = rb_key ?b"
      using k hd_in_set [OF ne] last_in_set [OF ne] by simp_all
    show "rb_first ?b \<le> rb_last ?b" using strictly_sorted_hd_last [OF s(1) last_in_set [OF ne]] by simp
    show "\<forall>(x, tf) \<in> set (zip (take n ?docs) (take n tfs)). high x = rb_key ?b \<and> rb_first ?b \<le> x \<and> x \<le> rb_last ?b \<and> tf \<le> rb_max_tf ?b"
      using k strictly_sorted_hd_last [OF s(1)] by (fastforce dest: set_zip_leftD set_zip_rightD simp: max_or_one_ge)
  qed
  then show ?case unfolding z by (simp add: Let_def case_prod_unfold n_def)
qed

lemma zip_fst_unique: "distinct docs \<Longrightarrow> (d, a) \<in> set (zip docs tfs) \<Longrightarrow> (d, b) \<in> set (zip docs tfs) \<Longrightarrow> a = b"
  by (auto simp: in_set_zip nth_eq_iff_index_eq)

lemma get_tf_exceptions:
  assumes "strictly_sorted docs" "length tfs = length docs" "(d, tf) \<in> set (zip docs tfs)"
    "rp_tfs p = filter (\<lambda>(_, tf). tf \<noteq> rp_default p) (zip docs tfs)"
  shows "get_tf p d = tf"
proof -
  have "sorted_wrt (\<lambda>x y. fst x < fst y) (zip docs tfs)"
    using assms(1,2) by (metis map_fst_zip sorted_wrt_map)
  then have s: "sorted (map fst (rp_tfs p))"
    unfolding assms(4) by (intro strict_sorted_imp_sorted) (simp add: sorted_wrt_map sorted_wrt_filter)
  show ?thesis
  proof (cases "binary_search_by_key d fst (rp_tfs p)")
    case (Inr idx)
    note b = binary_search_by_key_Inr [OF s Inr]
    then have "(d, snd (rp_tfs p ! idx)) \<in> set (rp_tfs p)" by (metis nth_mem prod.collapse)
    then have "(d, snd (rp_tfs p ! idx)) \<in> set (zip docs tfs)" unfolding assms(4) by simp
    then have "snd (rp_tfs p ! idx) = tf" using zip_fst_unique strictly_sorted_distinct assms(1,3) by metis
    then show ?thesis using Inr by (simp add: get_tf_def)
  next
    case (Inl idx)
    note b = binary_search_by_key_Inl [OF s Inl]
    have "fst x \<noteq> d" if x: "x \<in> set (rp_tfs p)" for x
    proof -
      obtain j where "j < length (rp_tfs p)" "x = rp_tfs p ! j" using x by (metis in_set_conv_nth)
      then show ?thesis using b(2,3) [of j] by (cases "j < idx") auto
    qed
    then have "(d, tf) \<notin> set (rp_tfs p)" by force
    then have "tf = rp_default p" using assms(3) unfolding assms(4) by simp
    then show ?thesis using Inl by (simp add: get_tf_def)
  qed
qed

text \<open>A posting list whose blocks cover its documents and bound their frequencies.\<close>

definition postings_ok :: "roaring_postings \<Rightarrow> bool" where
  "postings_ok p \<longleftrightarrow> roaring_ok (rp_docs p) \<and> roaring_fits (rp_docs p) \<and>
     blocks_cover (map (\<lambda>d. (d, get_tf p d)) (roaring_docs (rp_docs p))) (rp_blocks p)"

lemma strictly_sorted_unique: "strictly_sorted xs \<Longrightarrow> strictly_sorted ys \<Longrightarrow> set xs = set ys \<Longrightarrow> xs = (ys :: 'a::linorder list)"
  by (rule strict_sorted_equal)

lemma from_sorted_slice_docs: "strictly_sorted docs \<Longrightarrow> roaring_docs (from_sorted_slice docs) = docs"
  using roaring_docs_spec [OF from_sorted_slice_spec(1)] from_sorted_slice_spec(2) strict_sorted_imp_sorted strictly_sorted_unique by metis

lemma from_postings_with_idf_spec:
  assumes "strictly_sorted docs" "length tfs = length docs"
  obtains p where "from_postings_with_idf F hash_iter docs tfs idf = Some p" "postings_ok p"
    "roaring_docs (rp_docs p) = docs" "map (get_tf p) docs = tfs" "length (rp_tfs p) \<le> length docs" "length (rp_blocks p) \<le> 65536"
proof (cases "docs = []")
  case True
  then show ?thesis using assms
    by (intro that) (auto simp: from_postings_with_idf_def postings_ok_def roaring_new_def roaring_docs_def roaring_fits_def blocks_cover_def)
next
  case False
  let ?d = "case max_by_count (hash_iter (count_tfs tfs)) of None \<Rightarrow> 1 | Some (tf, _) \<Rightarrow> tf"
  define p where "p = \<lparr>rp_docs = from_sorted_slice docs, rp_tfs = filter (\<lambda>(_, tf). tf \<noteq> ?d) (zip docs tfs), rp_default = ?d,
    rp_max_tf = max_or_one tfs, rp_blocks = fst (build_blocks F idf docs tfs 0), rp_max_score = snd (build_blocks F idf docs tfs 0)\<rparr>"
  have p: "rp_docs p = from_sorted_slice docs" "rp_tfs p = filter (\<lambda>(_, tf). tf \<noteq> rp_default p) (zip docs tfs)"
    "rp_blocks p = fst (build_blocks F idf docs tfs 0)" by (simp_all add: p_def)
  have m: "map (get_tf p) docs = tfs"
    using assms(2) by (intro nth_equalityI) (auto intro!: get_tf_exceptions [OF assms _ p(2)] simp: in_set_zip)
  have "map (\<lambda>d. (d, get_tf p d)) docs = zip docs (map (get_tf p) docs)"
    by (simp add: zip_map2 zip_same_conv_map)
  then have "blocks_cover (map (\<lambda>d. (d, get_tf p d)) docs) (rp_blocks p)" using build_blocks_spec [OF assms] p(3) m by simp
  then have "postings_ok p"
    using from_sorted_slice_spec [OF strict_sorted_imp_sorted [OF assms(1)]]
    by (simp add: postings_ok_def p(1) from_sorted_slice_docs [OF assms(1)] from_sorted_slice_fits)
  moreover have "strictly_sorted (map rb_key (rp_blocks p))"
    using build_blocks_spec [OF assms, of F idf 0] by (simp add: p(3) blocks_cover_def)
  then have "length (rp_blocks p) \<le> 65536"
    using card_u16 [of "set (map rb_key (rp_blocks p))"] length_strictly_sorted_u16 by (metis length_map)
  moreover have "length (rp_tfs p) \<le> length docs"
    unfolding p(2) using assms(2) by (intro order_trans [OF length_filter_le]) simp
  moreover have "from_postings_with_idf F hash_iter docs tfs idf = Some p"
    using False assms(2) by (simp add: from_postings_with_idf_def Let_def case_prod_unfold p_def)
  ultimately show ?thesis using m from_sorted_slice_docs [OF assms(1)] p(1) by (intro that [of p]) simp_all
qed

section \<open>Seeking\<close>

definition iter_docs :: "roaring \<Rightarrow> roaring_iterator \<Rightarrow> u32 option \<Rightarrow> u32 list" where
  "iter_docs r i d = (case d of None \<Rightarrow> [] | Some doc \<Rightarrow> doc # iter_rest r i)"

definition posting_rest :: "roaring_postings \<Rightarrow> posting_iter \<Rightarrow> u32 list" where
  "posting_rest p it = iter_docs (rp_docs p) (pi_iter it) (pi_doc it)"

lemma next_docs:
  assumes "iter_ok r i"
  obtains i' d' where "roaring_next r i = Some (i', d')" "iter_ok r i'" "iter_docs r i' d' = iter_rest r i"
    "d' = None \<Longrightarrow> iter_rest r i' = []"
  using roaring_next_spec [OF assms] by (cases "iter_rest r i") (auto simp: iter_docs_def)

lemma scan_to_spec:
  "iter_ok r i \<Longrightarrow> \<exists>i' d'. scan_to r bound i d = Some (i', d') \<and> iter_ok r i' \<and>
     iter_docs r i' d' = dropWhile (\<lambda>x. x < bound) (iter_docs r i d)"
proof (induction "length (iter_docs r i d)" arbitrary: i d rule: less_induct)
  case less
  show ?case
  proof (cases d)
    case None
    then show ?thesis using less.prems by (simp add: scan_to.simps iter_docs_def)
  next
    case (Some doc)
    show ?thesis
    proof (cases "bound \<le> doc")
      case True
      then show ?thesis using Some less.prems by (simp add: scan_to.simps iter_docs_def not_less)
    next
      case False
      obtain i1 d1 where n: "roaring_next r i = Some (i1, d1)" "iter_ok r i1" "iter_docs r i1 d1 = iter_rest r i"
        using next_docs [OF less.prems] by metis
      have "length (iter_docs r i1 d1) < length (iter_docs r i d)" using n(3) Some by (simp add: iter_docs_def)
      note ih = less.hyps [OF this n(2)]
      have "scan_to r bound i d = scan_to r bound i1 d1" using Some False n(1) by (subst scan_to.simps) simp
      moreover have "dropWhile (\<lambda>x. x < bound) (iter_docs r i d) = dropWhile (\<lambda>x. x < bound) (iter_docs r i1 d1)"
        using Some False n(3) by (simp add: iter_docs_def not_le)
      ultimately show ?thesis using ih by simp
    qed
  qed
qed

lemma scan_posting_spec:
  assumes "iter_ok (rp_docs p) (pi_iter it)"
  obtains it' where "scan_posting p bound it = Some it'" "iter_ok (rp_docs p) (pi_iter it')" "pi_block it' = pi_block it"
    "posting_rest p it' = dropWhile (\<lambda>x. x < bound) (posting_rest p it)"
  using scan_to_spec [OF assms, of bound "pi_doc it"] by (auto simp: scan_posting_def posting_rest_def)

lemma skip_blocks_spec:
  "k \<le> skip_blocks before blocks k \<and> (\<forall>j. k \<le> j \<and> j < skip_blocks before blocks k \<longrightarrow> j < length blocks \<and> before (blocks ! j)) \<and>
   (skip_blocks before blocks k < length blocks \<longrightarrow> \<not> before (blocks ! skip_blocks before blocks k))"
proof (induction before blocks k rule: skip_blocks.induct)
  case (1 before blocks k)
  show ?case
  proof (cases "k < length blocks \<and> before (blocks ! k)")
    case True
    then have e: "skip_blocks before blocks k = skip_blocks before blocks (k + 1)" by (simp add: skip_blocks.simps [of before blocks k])
    show ?thesis unfolding e using 1 True by (metis Suc_eq_plus1 Suc_leD le_neq_implies_less not_less_eq_eq le_eq_less_or_eq Suc_leI)
  next
    case False
    then have "skip_blocks before blocks k = k" by (simp only: skip_blocks.simps [of before blocks k] if_False)
    then show ?thesis using False by auto
  qed
qed

lemma postings_okD:
  assumes "postings_ok p"
  shows "strictly_sorted (roaring_docs (rp_docs p))"
    "\<And>i j. i < j \<Longrightarrow> j < length (rp_blocks p) \<Longrightarrow> rb_key (rp_blocks p ! i) < rb_key (rp_blocks p ! j)"
    "\<And>i. i < length (rp_blocks p) \<Longrightarrow> rb_first (rp_blocks p ! i) \<le> rb_last (rp_blocks p ! i) \<and>
       rb_last (rp_blocks p ! i) \<in> set (roaring_docs (rp_docs p)) \<and> high (rb_last (rp_blocks p ! i)) = rb_key (rp_blocks p ! i)"
    "\<And>i j. i < j \<Longrightarrow> j < length (rp_blocks p) \<Longrightarrow> rb_last (rp_blocks p ! i) < rb_first (rp_blocks p ! j)"
    "\<And>d. d \<in> set (roaring_docs (rp_docs p)) \<Longrightarrow> \<exists>j < length (rp_blocks p). rb_key (rp_blocks p ! j) = high d \<and>
       rb_first (rp_blocks p ! j) \<le> d \<and> d \<le> rb_last (rp_blocks p ! j) \<and> get_tf p d \<le> rb_max_tf (rp_blocks p ! j)"
proof -
  have c: "blocks_cover (map (\<lambda>d. (d, get_tf p d)) (roaring_docs (rp_docs p))) (rp_blocks p)"
    using assms by (simp add: postings_ok_def)
  show "strictly_sorted (roaring_docs (rp_docs p))" using assms roaring_docs_spec by (simp add: postings_ok_def)
  have ob: "high (rb_first b) = rb_key b" "high (rb_last b) = rb_key b" "rb_last b \<in> set (roaring_docs (rp_docs p))" "rb_first b \<le> rb_last b"
    if "b \<in> set (rp_blocks p)" for b
    using c that by (auto simp: blocks_cover_def)
  show k: "rb_key (rp_blocks p ! i) < rb_key (rp_blocks p ! j)" if "i < j" "j < length (rp_blocks p)" for i j
    using c that by (simp add: blocks_cover_def sorted_wrt_iff_nth_less)
  show "rb_first (rp_blocks p ! i) \<le> rb_last (rp_blocks p ! i) \<and>
      rb_last (rp_blocks p ! i) \<in> set (roaring_docs (rp_docs p)) \<and> high (rb_last (rp_blocks p ! i)) = rb_key (rp_blocks p ! i)"
    if "i < length (rp_blocks p)" for i
    using ob nth_mem [OF that] by blast
  show "rb_last (rp_blocks p ! i) < rb_first (rp_blocks p ! j)" if "i < j" "j < length (rp_blocks p)" for i j
  proof (rule ccontr)
    assume "\<not> ?thesis"
    then have "high (rb_first (rp_blocks p ! j)) \<le> high (rb_last (rp_blocks p ! i))" by (simp add: high_mono)
    then show False using k [OF that] ob(1) [OF nth_mem [OF that(2)]] ob(2) [of "rp_blocks p ! i"] that by simp
  qed
  show "\<exists>j < length (rp_blocks p). rb_key (rp_blocks p ! j) = high d \<and> rb_first (rp_blocks p ! j) \<le> d \<and>
      d \<le> rb_last (rp_blocks p ! j) \<and> get_tf p d \<le> rb_max_tf (rp_blocks p ! j)"
    if "d \<in> set (roaring_docs (rp_docs p))" for d
  proof -
    have "(d, get_tf p d) \<in> set (map (\<lambda>d. (d, get_tf p d)) (roaring_docs (rp_docs p)))" using that by auto
    then obtain b where "b \<in> set (rp_blocks p)" "rb_key b = high d" "rb_first b \<le> d" "d \<le> rb_last b" "get_tf p d \<le> rb_max_tf b"
      using c unfolding blocks_cover_def by blast
    then show ?thesis by (metis in_set_conv_nth)
  qed
qed

text \<open>
  The state of an iterator agrees with its blocks: what is left is a suffix of the
  documents, the current block holds the current document, and every earlier block
  lies before it.
\<close>

definition posting_inv :: "roaring_postings \<Rightarrow> posting_iter \<Rightarrow> bool" where
  "posting_inv p it \<longleftrightarrow> iter_ok (rp_docs p) (pi_iter it) \<and> (\<exists>pre. roaring_docs (rp_docs p) = pre @ posting_rest p it) \<and>
     (posting_rest p it \<noteq> [] \<longrightarrow> pi_block it < length (rp_blocks p) \<and>
        hd (posting_rest p it) \<le> rb_last (rp_blocks p ! pi_block it) \<and>
        (\<forall>j < pi_block it. rb_last (rp_blocks p ! j) < hd (posting_rest p it)))"

lemma posting_rest_facts:
  assumes "postings_ok p" "posting_inv p it"
  shows "strictly_sorted (posting_rest p it)"
    "\<And>d. d \<in> set (posting_rest p it) \<Longrightarrow> d \<in> set (roaring_docs (rp_docs p)) \<and> hd (posting_rest p it) \<le> d"
    "\<And>d j. d \<in> set (posting_rest p it) \<Longrightarrow> j < length (rp_blocks p) \<Longrightarrow> d \<le> rb_last (rp_blocks p ! j) \<Longrightarrow> pi_block it \<le> j"
    "\<And>m. posting_rest p it \<noteq> [] \<Longrightarrow> pi_block it \<le> m \<Longrightarrow> m < length (rp_blocks p) \<Longrightarrow> rb_last (rp_blocks p ! m) \<in> set (posting_rest p it)"
proof -
  note okD = postings_okD [OF assms(1)]
  obtain pre where pre: "roaring_docs (rp_docs p) = pre @ posting_rest p it" using assms(2) by (auto simp: posting_inv_def)
  show s: "strictly_sorted (posting_rest p it)" using okD(1) pre by (simp add: sorted_wrt_append)
  show sub: "d \<in> set (roaring_docs (rp_docs p)) \<and> hd (posting_rest p it) \<le> d" if "d \<in> set (posting_rest p it)" for d
    using strictly_sorted_hd_last [OF s that] that pre by simp
  show "pi_block it \<le> j" if "d \<in> set (posting_rest p it)" "j < length (rp_blocks p)" "d \<le> rb_last (rp_blocks p ! j)" for d j
  proof (rule ccontr)
    assume "\<not> pi_block it \<le> j"
    moreover have "posting_rest p it \<noteq> []" using that(1) by auto
    ultimately have "rb_last (rp_blocks p ! j) < hd (posting_rest p it)" using assms(2) by (simp add: posting_inv_def)
    then show False using sub [OF that(1)] that(3) by (meson leD order_trans)
  qed
  show "rb_last (rp_blocks p ! m) \<in> set (posting_rest p it)"
    if "posting_rest p it \<noteq> []" "pi_block it \<le> m" "m < length (rp_blocks p)" for m
  proof -
    let ?k = "pi_block it"
    have "rb_last (rp_blocks p ! ?k) \<le> rb_last (rp_blocks p ! m)"
      using okD(3,4) that(2,3) by (cases "?k = m") (simp, meson le_neq_implies_less less_imp_le order_trans)
    then have "hd (posting_rest p it) \<le> rb_last (rp_blocks p ! m)" using assms(2) that(1) by (auto simp: posting_inv_def)
    moreover have "\<forall>x \<in> set pre. x < hd (posting_rest p it)" using okD(1) pre that(1) by (simp add: sorted_wrt_append)
    ultimately have "rb_last (rp_blocks p ! m) \<notin> set pre" by force
    then show ?thesis using okD(3) [OF that(3)] pre by simp
  qed
qed

lemma suffix_dropWhile: "\<exists>pre. xs = pre @ dropWhile P xs"
  by (metis takeWhile_dropWhile_id)

lemma hd_dropWhile_le:
  "strictly_sorted xs \<Longrightarrow> x \<in> set xs \<Longrightarrow> t \<le> x \<Longrightarrow>
     dropWhile (\<lambda>d. d < t) xs \<noteq> [] \<and> hd (dropWhile (\<lambda>d. d < t) xs) \<le> (x :: 'a::linorder) \<and> t \<le> hd (dropWhile (\<lambda>d. d < t) xs) \<and>
     hd (dropWhile (\<lambda>d. d < t) xs) \<in> set xs"
proof -
  assume s: "strictly_sorted xs" and x: "x \<in> set xs" "t \<le> x"
  let ?ys = "dropWhile (\<lambda>d. d < t) xs"
  have m: "x \<in> set ?ys" using x set_dropWhile_less [OF s, of t] by auto
  then have "?ys \<noteq> []" by (metis list.set(1) empty_iff)
  then have "hd ?ys \<in> set ?ys" by (rule hd_in_set)
  then show ?thesis
    using set_dropWhile_less [OF s, of t] strictly_sorted_hd_last [OF strictly_sorted_dropWhile [OF s] m] \<open>?ys \<noteq> []\<close> by auto
qed

text \<open>Moving an iterator to a later block, and past every document below a bound.\<close>

lemma posting_inv_move:
  assumes "postings_ok p" "posting_inv p it" "iter_ok (rp_docs p) (pi_iter it')"
    "pi_block it \<le> pi_block it'" "pi_block it' < length (rp_blocks p)"
    "posting_rest p it' = dropWhile (\<lambda>d. d < t) (posting_rest p it)"
    "t \<le> rb_last (rp_blocks p ! pi_block it')"
    "\<And>j. pi_block it \<le> j \<Longrightarrow> j < pi_block it' \<Longrightarrow> rb_last (rp_blocks p ! j) < t"
  shows "posting_inv p it'"
proof -
  note f = posting_rest_facts [OF assms(1,2)]
  let ?D = "posting_rest p it"
  obtain pre where "roaring_docs (rp_docs p) = pre @ ?D" using assms(2) by (auto simp: posting_inv_def)
  then have "\<exists>pre. roaring_docs (rp_docs p) = pre @ posting_rest p it'"
    using suffix_dropWhile [of ?D "\<lambda>d. d < t"] assms(6) by (metis append_assoc)
  moreover have "hd (posting_rest p it') \<le> rb_last (rp_blocks p ! pi_block it') \<and>
      (\<forall>j < pi_block it'. rb_last (rp_blocks p ! j) < hd (posting_rest p it'))" if "posting_rest p it' \<noteq> []"
  proof -
    have "?D \<noteq> []" using that assms(6) by auto
    then have l: "rb_last (rp_blocks p ! pi_block it') \<in> set ?D" using f(4) assms(4,5) by blast
    note h = hd_dropWhile_le [OF f(1) l assms(7)]
    have "rb_last (rp_blocks p ! j) < hd (dropWhile (\<lambda>d. d < t) ?D)" if "j < pi_block it'" for j
    proof (cases "pi_block it \<le> j")
      case True
      then show ?thesis using assms(8) [OF True that] h by (meson order_less_le_trans)
    next
      case False
      then have "rb_last (rp_blocks p ! j) < hd ?D" using assms(2) \<open>?D \<noteq> []\<close> by (simp add: posting_inv_def)
      then show ?thesis using f(2) h by (meson order_less_le_trans)
    qed
    then show ?thesis using h assms(6) by simp
  qed
  ultimately show ?thesis using assms(3,5) by (simp add: posting_inv_def)
qed

lemma posting_inv_empty: "iter_ok (rp_docs p) (pi_iter it) \<Longrightarrow> posting_rest p it = [] \<Longrightarrow> posting_inv p it"
  by (simp add: posting_inv_def)

definition first_or_max :: "u32 list \<Rightarrow> u32" where
  "first_or_max ds = (case ds of [] \<Rightarrow> - 1 | d # _ \<Rightarrow> d)"

lemma posting_doc_first: "posting_doc it = first_or_max (posting_rest p it)"
  by (auto simp: posting_doc_def first_or_max_def posting_rest_def iter_docs_def split: option.splits)

lemma dropWhile_two_bounds:
  "(\<And>d. d \<in> set xs \<Longrightarrow> d < f \<Longrightarrow> d < t) \<Longrightarrow> strictly_sorted xs \<Longrightarrow>
     dropWhile (\<lambda>d. d < t) (dropWhile (\<lambda>d. d < f) xs) = dropWhile (\<lambda>d. d < t) (xs :: 'a::linorder list)"
  by (auto simp: dropWhile_less_filter sorted_wrt_filter intro!: filter_cong)
    (metis not_le)

text \<open>A remaining document before the block that the skip stops at lies below the target.\<close>

lemma skipped_below_target:
  assumes "postings_ok p" "posting_inv p it" "d \<in> set (posting_rest p it)"
    and k: "k = skip_blocks (\<lambda>b. rb_last b < target) (rp_blocks p) (pi_block it)"
    and "k < length (rp_blocks p) \<Longrightarrow> d < rb_first (rp_blocks p ! k)"
  shows "d < target"
proof -
  note okD = postings_okD [OF assms(1)] and f = posting_rest_facts [OF assms(1,2)]
  note sk = skip_blocks_spec [of "pi_block it" "\<lambda>b. rb_last b < target" "rp_blocks p", folded k]
  obtain j where j: "j < length (rp_blocks p)" "rb_first (rp_blocks p ! j) \<le> d" "d \<le> rb_last (rp_blocks p ! j)"
    using okD(5) f(2) [OF assms(3)] by blast
  have "j < k"
  proof (rule ccontr)
    assume "\<not> j < k"
    then have "k < length (rp_blocks p)" using j(1) by simp
    then have "rb_first (rp_blocks p ! k) \<le> rb_first (rp_blocks p ! j)"
      using okD(3,4) \<open>\<not> j < k\<close> j(1) by (cases "j = k") (simp, meson less_imp_le linorder_neqE_nat order_trans)
    then show False using assms(5) [OF \<open>k < length (rp_blocks p)\<close>] j(2) by (meson leD order_trans)
  qed
  then have "rb_last (rp_blocks p ! j) < target" using sk f(3) [OF assms(3) j(1,3)] by blast
  then show ?thesis using j(3) by (meson order_le_less_trans)
qed

lemma posting_seek_spec:
  assumes ok: "postings_ok p" and inv: "posting_inv p it"
  shows "\<exists>it'. posting_seek p it target = Some (it', first_or_max (posting_rest p it')) \<and> posting_inv p it' \<and>
    posting_rest p it' = dropWhile (\<lambda>d. d < target) (posting_rest p it)"
proof -
  let ?D = "posting_rest p it" and ?B = "rp_blocks p"
  define k where "k = skip_blocks (\<lambda>b. rb_last b < target) ?B (pi_block it)"
  note f = posting_rest_facts [OF ok inv] and below = skipped_below_target [OF ok inv _ k_def]
  note sk = skip_blocks_spec [of "pi_block it" "\<lambda>b. rb_last b < target" ?B, folded k_def]
  have i: "iter_ok (rp_docs p) (pi_iter it)" using inv by (simp add: posting_inv_def)
  let ?it1 = "it\<lparr>pi_block := k\<rparr>"
  have r1: "posting_rest p ?it1 = ?D" by (simp add: posting_rest_def)
  have scan: "\<exists>it'. map_option (\<lambda>it. (it, posting_doc it)) (scan_posting p target s) = Some (it', first_or_max (posting_rest p it')) \<and>
      posting_inv p it' \<and> posting_rest p it' = dropWhile (\<lambda>d. d < target) ?D"
    if s: "iter_ok (rp_docs p) (pi_iter s)" "pi_block s = k" "k < length ?B"
      "dropWhile (\<lambda>d. d < target) (posting_rest p s) = dropWhile (\<lambda>d. d < target) ?D" for s
  proof -
    obtain it' where it': "scan_posting p target s = Some it'" "iter_ok (rp_docs p) (pi_iter it')" "pi_block it' = k"
      "posting_rest p it' = dropWhile (\<lambda>d. d < target) ?D"
      using scan_posting_spec [OF s(1)] s(2,4) by metis
    have "posting_inv p it'" using sk s(3) it' by (intro posting_inv_move [OF ok inv, of it' target]) auto
    then show ?thesis using it' posting_doc_first by auto
  qed
  show ?thesis
  proof (cases "k < length ?B")
    case False
    show ?thesis
    proof (cases "?B = []")
      case True
      then have D: "?D = []" using inv by (auto simp: posting_inv_def)
      obtain it' where it': "scan_posting p target it = Some it'" "iter_ok (rp_docs p) (pi_iter it')" "posting_rest p it' = []"
        using scan_posting_spec [OF i] D by (metis dropWhile.simps(1))
      then show ?thesis
        using True D posting_inv_empty posting_doc_first by (auto simp: posting_seek_def)
    next
      case ne: False
      have e: "dropWhile (\<lambda>d. d < target) ?D = []" using False below by (simp only: dropWhile_eq_Nil_conv) blast
      have r: "posting_rest p (?it1\<lparr>pi_doc := None\<rparr>) = []" by (simp add: posting_rest_def iter_docs_def)
      have "posting_seek p it target = Some (?it1\<lparr>pi_doc := None\<rparr>, - 1)"
        using False ne by (simp add: posting_seek_def Let_def k_def not_less)
      moreover have "posting_inv p (?it1\<lparr>pi_doc := None\<rparr>)" using i r by (intro posting_inv_empty) simp_all
      ultimately show ?thesis unfolding e by (intro exI [of _ "?it1\<lparr>pi_doc := None\<rparr>"]) (simp only: r first_or_max_def list.case simp_thms)
    qed
  next
    case True
    let ?b = "?B ! k"
    obtain it2 where it2: "scan_posting p (rb_first ?b) ?it1 = Some it2" "iter_ok (rp_docs p) (pi_iter it2)" "pi_block it2 = k"
      "posting_rest p it2 = dropWhile (\<lambda>d. d < rb_first ?b) ?D"
      using scan_posting_spec [of p ?it1] i r1 by auto
    have "dropWhile (\<lambda>d. d < target) (posting_rest p it2) = dropWhile (\<lambda>d. d < target) ?D"
      unfolding it2(4) using below f(1) by (intro dropWhile_two_bounds) auto
    from scan [OF it2(2,3) True this] scan [of ?it1] True i r1 it2(1) show ?thesis
      by (auto simp: posting_seek_def Let_def k_def [symmetric])
  qed
qed

lemma posting_advance_spec:
  assumes ok: "postings_ok p" and inv: "posting_inv p it" and live: "pi_doc it \<noteq> None"
  shows "\<exists>it'. posting_advance p it = Some (it', first_or_max (posting_rest p it')) \<and> posting_inv p it' \<and>
    posting_rest p it' = tl (posting_rest p it)"
proof -
  let ?D = "posting_rest p it" and ?B = "rp_blocks p"
  note f = posting_rest_facts [OF ok inv] and okD = postings_okD [OF ok]
  obtain i d where n: "roaring_next (rp_docs p) (pi_iter it) = Some (i, d)" "iter_ok (rp_docs p) i"
    "iter_docs (rp_docs p) i d = iter_rest (rp_docs p) (pi_iter it)"
    using next_docs inv by (metis posting_inv_def)
  have D: "?D = hd ?D # iter_docs (rp_docs p) i d" using live n(3) by (auto simp: posting_rest_def iter_docs_def)
  obtain it' where a: "posting_advance p it = Some (it', posting_doc it')" "pi_iter it' = i" "pi_doc it' = d"
    "d \<noteq> None \<Longrightarrow> ?B \<noteq> [] \<Longrightarrow> pi_block it' = skip_blocks (\<lambda>b. rb_key b < high (the d)) ?B (pi_block it)"
    using n(1) by (cases d) (auto simp: posting_advance_def Let_def)
  have r: "posting_rest p it' = tl ?D" using D a(2,3) by (metis list.sel(3) posting_rest_def)
  have "posting_inv p it'"
  proof (cases d)
    case None
    then show ?thesis using a n(2) by (intro posting_inv_empty) (simp_all add: posting_rest_def iter_docs_def)
  next
    case (Some doc)
    then have h: "hd (tl ?D) = doc" "tl ?D \<noteq> []" unfolding r [symmetric] using a(3) by (auto simp: posting_rest_def iter_docs_def)
    then have "doc \<in> set (tl ?D)" using hd_in_set [OF h(2)] by simp
    moreover have "?D = hd ?D # tl ?D" using D by (cases ?D) simp_all
    ultimately have m: "doc \<in> set ?D" "hd ?D < doc"
      using f(1) by (metis list.set_intros(2), metis sorted_wrt.simps(2))
    obtain j where j: "j < length ?B" "rb_key (?B ! j) = high doc" "doc \<le> rb_last (?B ! j)"
      using okD(5) f(2) [OF m(1)] by blast
    have kj: "pi_block it \<le> j" using f(3) m(1) j(1,3) by blast
    let ?k = "pi_block it'"
    have "?B \<noteq> []" using j(1) by auto
    then have k: "?k = skip_blocks (\<lambda>b. rb_key b < high doc) ?B (pi_block it)" using a(4) Some by simp
    note sk = skip_blocks_spec [of "pi_block it" "\<lambda>b. rb_key b < high doc" ?B, folded k]
    have "?k \<le> j" using sk kj j(2) by (metis linorder_not_le order_less_irrefl)
    moreover have "\<not> ?k < j" using sk okD(2) [of ?k j] j by auto
    ultimately have e: "?k = j" by simp
    have "rb_last (?B ! i) < doc" if "i < j" for i
    proof (cases "pi_block it \<le> i")
      case True
      then have "rb_key (?B ! i) < high doc" using sk that e by blast
      then have "high (rb_last (?B ! i)) < high doc" using okD(3) [of i] that j(1) by simp
      then show ?thesis using high_mono by (meson linorder_not_le)
    next
      case False
      then have "rb_last (?B ! i) < hd ?D" using inv m(1) by (auto simp: posting_inv_def)
      then show ?thesis using m(2) by (rule order_less_trans)
    qed
    moreover have "\<exists>pre. roaring_docs (rp_docs p) = pre @ tl ?D"
      using inv D unfolding posting_inv_def by (metis append.assoc append_Cons append_Nil list.sel(3))
    ultimately show ?thesis using j a(2) n(2) h e r by (simp add: posting_inv_def)
  qed
  then show ?thesis using a(1) r posting_doc_first by auto
qed

lemma posting_init_spec:
  assumes ok: "postings_ok p"
  shows "\<exists>it. posting_init p posting_iterator = Some it \<and> posting_inv p it \<and> posting_rest p it = roaring_docs (rp_docs p)"
proof -
  note okD = postings_okD [OF ok]
  obtain i d where n: "roaring_next (rp_docs p) roaring_iter = Some (i, d)" "iter_ok (rp_docs p) i"
    "iter_docs (rp_docs p) i d = roaring_docs (rp_docs p)"
    using next_docs [OF iter_start(1)] iter_start(2) by metis
  let ?it = "\<lparr>pi_iter = i, pi_doc = d, pi_block = 0\<rparr>"
  have r: "posting_rest p ?it = roaring_docs (rp_docs p)" using n(3) by (simp add: posting_rest_def)
  have "0 < length (rp_blocks p)" if "roaring_docs (rp_docs p) \<noteq> []" using okD(5) [OF hd_in_set [OF that]] by auto
  moreover have "hd (roaring_docs (rp_docs p)) \<le> rb_last (rp_blocks p ! 0)" if "0 < length (rp_blocks p)"
    using okD(3) [OF that] strictly_sorted_hd_last [OF okD(1)] by blast
  ultimately have "posting_inv p ?it" using n(2) by (simp add: posting_inv_def r)
  then show ?thesis using n(1) r by (simp add: posting_init_def posting_iterator_def)
qed

lemma posting_skip_to:
  assumes ok: "postings_ok p" and inv: "posting_inv p it"
  shows "\<exists>it' res. skip_to_block_with_doc p it target = Some (it', res) \<and> posting_inv p it' \<and>
    (\<exists>pre. posting_rest p it = pre @ posting_rest p it' \<and> (\<forall>d \<in> set pre. d < target)) \<and>
    (case res of None \<Rightarrow> posting_rest p it' = []
     | Some (first, score) \<Rightarrow> posting_rest p it' \<noteq> [] \<longrightarrow>
         first \<le> first_or_max (posting_rest p it') \<and> score = current_block_max_score p it')"
proof -
  let ?D = "posting_rest p it" and ?B = "rp_blocks p"
  define k where "k = skip_blocks (\<lambda>b. rb_last b < target) ?B (pi_block it)"
  note f = posting_rest_facts [OF ok inv] and okD = postings_okD [OF ok] and below = skipped_below_target [OF ok inv _ k_def]
  note sk = skip_blocks_spec [of "pi_block it" "\<lambda>b. rb_last b < target" ?B, folded k_def]
  have k: "skip_blocks (\<lambda>b. \<not> target \<le> rb_last b) ?B (pi_block it) = k" by (simp add: k_def not_le)
  have i: "iter_ok (rp_docs p) (pi_iter it)" using inv by (simp add: posting_inv_def)
  let ?it1 = "it\<lparr>pi_block := k\<rparr>"
  consider "?B = []" | "?B \<noteq> []" "\<not> k < length ?B" | "?B \<noteq> []" "k < length ?B" by blast
  then show ?thesis
  proof cases
    case 1
    then have "?D = []" using inv by (auto simp: posting_inv_def)
    then show ?thesis using 1 inv by (simp add: skip_to_block_with_doc_def)
  next
    case 2
    let ?it2 = "?it1\<lparr>pi_doc := None\<rparr>"
    have r: "posting_rest p ?it2 = []" by (simp add: posting_rest_def iter_docs_def)
    have "skip_to_block_with_doc p it target = Some (?it2, None)" using 2 k by (simp add: skip_to_block_with_doc_def Let_def)
    moreover have "posting_inv p ?it2" using i r by (intro posting_inv_empty) simp_all
    moreover have "\<forall>d \<in> set ?D. d < target" using 2(2) below by blast
    ultimately show ?thesis using r by (intro exI [of _ ?it2] exI [of _ None]) simp
  next
    case 3
    let ?b = "?B ! k"
    obtain it2 where it2: "scan_posting p (rb_first ?b) ?it1 = Some it2" "iter_ok (rp_docs p) (pi_iter it2)" "pi_block it2 = k"
      "posting_rest p it2 = dropWhile (\<lambda>d. d < rb_first ?b) ?D"
      using scan_posting_spec [of p ?it1 "rb_first ?b"] i by (auto simp: posting_rest_def)
    have "posting_inv p it2"
    proof (rule posting_inv_move [OF ok inv it2(2)])
      show "pi_block it \<le> pi_block it2" "pi_block it2 < length ?B" using sk 3(2) it2(3) by simp_all
      show "posting_rest p it2 = dropWhile (\<lambda>d. d < rb_first ?b) ?D" by (rule it2(4))
      show "rb_first ?b \<le> rb_last (?B ! pi_block it2)" using okD(3) 3(2) it2(3) by simp
      show "rb_last (?B ! j) < rb_first ?b" if "j < pi_block it2" for j using okD(4) that 3(2) it2(3) by simp
    qed
    moreover have "?D = takeWhile (\<lambda>d. d < rb_first ?b) ?D @ posting_rest p it2" using it2(4) by simp
    moreover have "\<forall>d \<in> set (takeWhile (\<lambda>d. d < rb_first ?b) ?D). d < target" using below by (auto dest: set_takeWhileD)
    moreover have "skip_to_block_with_doc p it target = Some (it2, Some (rb_first ?b, rb_score ?b))"
      using 3 k it2(1) by (simp add: skip_to_block_with_doc_def Let_def)
    moreover have "rb_first ?b \<le> first_or_max (posting_rest p it2) \<and> rb_score ?b = current_block_max_score p it2"
      if ne: "posting_rest p it2 \<noteq> []"
    proof -
      have "\<not> hd (posting_rest p it2) < rb_first ?b" using hd_dropWhile [of "\<lambda>d. d < rb_first ?b" ?D] ne it2(4) by metis
      moreover have "first_or_max (posting_rest p it2) = hd (posting_rest p it2)" using ne by (auto simp: first_or_max_def split: list.splits)
      moreover have "pi_doc it2 \<noteq> None" using ne by (auto simp: posting_rest_def iter_docs_def split: option.splits)
      ultimately show ?thesis using 3 it2(3) by (auto simp: current_block_max_score_def not_less)
    qed
    ultimately show ?thesis by (intro exI [of _ it2] exI [of _ "Some (rb_first ?b, rb_score ?b)"]) (simp, metis)
  qed
qed

lemma current_block_bounds_tf:
  assumes ok: "postings_ok p" and inv: "posting_inv p it"
  shows "posting_term_freq p it \<le> current_block_max_tf p it"
proof (cases "pi_doc it")
  case None
  then show ?thesis by (simp add: posting_term_freq_def current_block_max_tf_def)
next
  case (Some d)
  then have r: "posting_rest p it \<noteq> []" "hd (posting_rest p it) = d" by (simp_all add: posting_rest_def iter_docs_def)
  note f = posting_rest_facts [OF ok inv] and okD = postings_okD [OF ok]
  have m: "d \<in> set (posting_rest p it)" using hd_in_set [OF r(1)] r(2) by simp
  obtain j where j: "j < length (rp_blocks p)" "rb_first (rp_blocks p ! j) \<le> d" "d \<le> rb_last (rp_blocks p ! j)"
    "get_tf p d \<le> rb_max_tf (rp_blocks p ! j)" using okD(5) f(2) [OF m] by blast
  have k: "pi_block it < length (rp_blocks p)" "d \<le> rb_last (rp_blocks p ! pi_block it)" using inv r by (auto simp: posting_inv_def)
  have "\<not> pi_block it < j"
  proof
    assume "pi_block it < j"
    then have "rb_last (rp_blocks p ! pi_block it) < rb_first (rp_blocks p ! j)" using okD(4) j(1) by blast
    then show False using k(2) j(2) by (meson leD order_trans)
  qed
  then have "j = pi_block it" using f(3) [OF m j(1,3)] by simp
  then show ?thesis using Some j(1,4) by (auto simp: posting_term_freq_def current_block_max_tf_def)
qed

text \<open>The states an iterator goes through; \<open>advance\<close> is called while there is a current document.\<close>

inductive posting_reach :: "roaring_postings \<Rightarrow> posting_iter \<Rightarrow> bool" for p where
  reach_init: "posting_init p posting_iterator = Some it \<Longrightarrow> posting_reach p it"
| reach_advance: "posting_reach p it \<Longrightarrow> pi_doc it \<noteq> None \<Longrightarrow> posting_advance p it = Some (it', d) \<Longrightarrow> posting_reach p it'"
| reach_seek: "posting_reach p it \<Longrightarrow> posting_seek p it target = Some (it', d) \<Longrightarrow> posting_reach p it'"
| reach_skip: "posting_reach p it \<Longrightarrow> skip_to_block_with_doc p it target = Some (it', res) \<Longrightarrow> posting_reach p it'"

lemma posting_reach_inv:
  assumes "postings_ok p" "posting_reach p it"
  shows "posting_inv p it"
  using assms(2)
proof induction
  case (reach_init it)
  then show ?case using posting_init_spec [OF assms(1)] by auto
next
  case (reach_advance it it' d)
  then show ?case using posting_advance_spec [OF assms(1)] by fastforce
next
  case (reach_seek it target it' d)
  then show ?case using posting_seek_spec [OF assms(1) reach_seek.IH, of target] by auto
next
  case (reach_skip it target it' res)
  then show ?case using posting_skip_to [OF assms(1) reach_skip.IH, of target] by auto
qed

lemma single_array_step:
  assumes "strictly_sorted arr" "arr \<noteq> []" "high v = h"
  shows "\<exists>arr'. fst (roaring_insert [(h, Array arr)] v) = [(h, Array arr')]"
proof (cases "binary_search_by_key h fst [(h, Array arr)]")
  case (Inl idx)
  have "roaring_ok [(h, Array arr)]" using assms by simp
  from roaring_search(2) [OF this Inl] show ?thesis by simp
next
  case (Inr idx)
  have "roaring_ok [(h, Array arr)]" using assms by simp
  from roaring_search(1) [OF this Inr] show ?thesis
    using Inr assms(3) by (simp add: roaring_insert_def case_prod_unfold Let_def)
qed

lemma single_array:
  "vs \<noteq> [] \<Longrightarrow> \<forall>v \<in> set vs. high v = h \<Longrightarrow> \<exists>arr. foldl (\<lambda>r v. fst (roaring_insert r v)) roaring_new vs = [(h, Array arr)]"
proof (induction vs rule: rev_induct)
  case (snoc v vs)
  let ?f = "foldl (\<lambda>r v. fst (roaring_insert r v)) roaring_new"
  show ?case
  proof (cases "vs = []")
    case True
    then show ?thesis using snoc.prems
      by (simp add: roaring_insert_def roaring_new_def array_insert_def binary_search_def binary_search_by_key_def binary_search_by_def)
  next
    case False
    then obtain arr where arr: "?f vs = [(h, Array arr)]" using snoc by auto
    have "roaring_ok (?f vs)" using bitmaps.inserts [of roaring_new vs] by (simp add: roaring_new_def)
    then have "strictly_sorted arr" "arr \<noteq> []" by (auto simp: arr)
    then show ?thesis using single_array_step [of arr v h] arr snoc.prems by auto
  qed
qed simp

section \<open>Properties\<close>

text \<open>
  C14. A posting list built from ascending documents and their term frequencies holds
  exactly those documents and gives back every frequency, whichever most frequent
  value the hash map yields as the default; the iterator starts at the first
  document; and the list, with its block metadata, reads back from its serialized
  form. Lists of different lengths fail the assertion.
\<close>

theorem roaring_postings_round_trip:
  assumes "strictly_sorted docs" "length docs < 2 ^ 32"
  shows "if length tfs = length docs then
      \<exists>p. from_postings_with_idf F hash_iter docs tfs idf = Some p \<and> roaring_docs (rp_docs p) = docs \<and>
        map (get_tf p) docs = tfs \<and> postings_deserialize (postings_serialize p @ rest) = Inr (p, rest)
    else from_postings_with_idf F hash_iter docs tfs idf = None"
proof (cases "length tfs = length docs")
  case True
  obtain p where p: "from_postings_with_idf F hash_iter docs tfs idf = Some p" "postings_ok p"
    "roaring_docs (rp_docs p) = docs" "map (get_tf p) docs = tfs" "length (rp_tfs p) \<le> length docs" "length (rp_blocks p) \<le> 65536"
    using from_postings_with_idf_spec [OF assms(1) True] by metis
  have "postings_deserialize (postings_serialize p @ rest) = Inr (p, rest)"
    using p assms(2) by (intro postings_serialize_round_trip) (simp_all add: postings_ok_def)
  then show ?thesis using True p by auto
qed (simp add: from_postings_with_idf_def)

text \<open>
  C11. In every state the iterator of a built posting list reaches by \<open>init\<close>,
  \<open>advance\<close>, \<open>seek\<close> and \<open>skip_to_block_with_doc\<close>: the documents left are a suffix
  of the list; \<open>advance\<close> moves to the next; \<open>seek\<close> moves to the first document at or
  above the target, although it skips by blocks; \<open>skip_to_block_with_doc\<close> passes no
  document at or above the target; and the maximum frequency of the current block
  bounds the frequency of the current document, as block-max pruning assumes.
\<close>

theorem roaring_iterator_correct:
  assumes "strictly_sorted docs" "length tfs = length docs" "from_postings_with_idf F hash_iter docs tfs idf = Some p"
    "posting_reach p it"
  shows "(\<exists>pre. docs = pre @ posting_rest p it) \<and>
    (pi_doc it \<noteq> None \<longrightarrow> (\<exists>it'. posting_advance p it = Some (it', first_or_max (tl (posting_rest p it))) \<and>
        posting_rest p it' = tl (posting_rest p it))) \<and>
    (\<exists>it'. posting_seek p it target = Some (it', first_or_max (posting_rest p it')) \<and>
        posting_rest p it' = dropWhile (\<lambda>d. d < target) (posting_rest p it)) \<and>
    (\<exists>it' res pre. skip_to_block_with_doc p it target = Some (it', res) \<and>
        posting_rest p it = pre @ posting_rest p it' \<and> (\<forall>d \<in> set pre. d < target)) \<and>
    posting_term_freq p it \<le> current_block_max_tf p it"
proof -
  have ok: "postings_ok p" and d: "roaring_docs (rp_docs p) = docs"
    using from_postings_with_idf_spec [OF assms(1,2), of F hash_iter idf] assms(3) by (metis option.inject)+
  have inv: "posting_inv p it" by (rule posting_reach_inv [OF ok assms(4)])
  show ?thesis
    using posting_seek_spec [OF ok inv] posting_skip_to [OF ok inv, of target] posting_advance_spec [OF ok inv]
      current_block_bounds_tf [OF ok inv] inv d
    unfolding posting_inv_def by metis
qed

text \<open>
  C36. A seek past the last document reports exhaustion but leaves the underlying
  iterator where it was: a call of \<open>advance\<close> after it goes back to the second
  document of the list.
\<close>

theorem roaring_seek_past_end_resumes:
  assumes "strictly_sorted (d0 # d1 # ds)" "length tfs = length (d0 # d1 # ds)"
    "from_postings_with_idf F hash_iter (d0 # d1 # ds) tfs idf = Some p" "last (d0 # d1 # ds) < target"
  shows "\<exists>it it' it''. posting_init p posting_iterator = Some it \<and>
    posting_seek p it target = Some (it', - 1) \<and> posting_is_exhausted it' \<and>
    posting_advance p it' = Some (it'', d1)"
proof -
  let ?docs = "d0 # d1 # ds"
  have ok: "postings_ok p" and d: "roaring_docs (rp_docs p) = ?docs"
    using from_postings_with_idf_spec [OF assms(1,2), of F hash_iter idf] assms(3) by (metis option.inject)+
  obtain it where it: "posting_init p posting_iterator = Some it" "posting_inv p it" "posting_rest p it = ?docs"
    using posting_init_spec [OF ok] d by auto
  have all: "\<forall>x \<in> set ?docs. x < target" using strictly_sorted_hd_last [OF assms(1)] assms(4) by (meson order_le_less_trans)
  note okD = postings_okD [OF ok]
  let ?k = "skip_blocks (\<lambda>b. rb_last b < target) (rp_blocks p) (pi_block it)"
  note sk = skip_blocks_spec [of "pi_block it" "\<lambda>b. rb_last b < target" "rp_blocks p"]
  have "\<not> ?k < length (rp_blocks p)" using sk okD(3) [of ?k] all unfolding d by blast
  moreover have "rp_blocks p \<noteq> []" using okD(5) [of d0] unfolding d by auto
  ultimately have "posting_seek p it target = Some (it\<lparr>pi_block := ?k, pi_doc := None\<rparr>, - 1)"
    by (simp add: posting_seek_def Let_def not_less)
  moreover have "iter_ok (rp_docs p) (pi_iter it)" using it(2) by (simp add: posting_inv_def)
  moreover have "iter_rest (rp_docs p) (pi_iter it) = d1 # ds"
    using it(3) by (auto simp: posting_rest_def iter_docs_def split: option.splits)
  ultimately show ?thesis
    using it(1) roaring_next_spec [of "rp_docs p" "pi_iter it"]
    by (auto simp: posting_is_exhausted_def posting_advance_def posting_doc_def Let_def)
qed

text \<open>
  C37. An array container that holds all 65536 values of its high half is written with
  a length of zero, since the length field has 16 bits: inserting the values one by
  one and serializing without \<open>optimize\<close> gives bytes that read back as an empty
  container with the values left unread.
\<close>

theorem roaring_full_array_lost:
  assumes "set vs = {v. high v = h}"
  shows "let r = foldl (\<lambda>r v. fst (roaring_insert r v)) roaring_new vs
    in roaring_set r = set vs \<and> card (roaring_set r) = 65536 \<and>
       (\<exists>rest. roaring_deserialize (roaring_serialize r) = Inr ([(h, Array [])], rest) \<and> length rest = 131072) \<and>
       roaring_set [(h, Array [])] = {}"
proof -
  let ?r = "foldl (\<lambda>r v. fst (roaring_insert r v)) roaring_new vs"
  have r: "roaring_ok ?r" "roaring_set ?r = set vs" using bitmaps.inserts [of roaring_new vs] by (simp_all add: roaring_new_def)
  have "join h 0 \<in> set vs" unfolding assms by simp
  then have "vs \<noteq> []" by auto
  then obtain arr where arr: "?r = [(h, Array arr)]" using assms single_array [of vs h] by auto
  have s: "strictly_sorted arr" using r(1) by (simp add: arr)
  have m: "set arr = UNIV"
  proof -
    have "l \<in> set arr" for l
    proof -
      have "join h l \<in> roaring_set ?r" unfolding r(2) assms by simp
      then show ?thesis by (simp add: arr roaring_set_def)
    qed
    then show ?thesis by blast
  qed
  then have len: "length arr = 65536" using length_strictly_sorted_u16 [OF s] by (simp add: card_word)
  have "set vs = join h ` (UNIV :: u16 set)" unfolding assms by (auto simp: image_iff join_eq_iff) (metis join_high_low)
  moreover have "inj (join h)" by (rule injI) (metis low_join)
  ultimately have c: "card (set vs) = 65536" by (simp add: card_image card_word)
  have "roaring_deserialize (roaring_serialize ?r) = Inr ([(h, Array [])], concat (map u16_le arr))"
    unfolding arr roaring_deserialize_def roaring_serialize_def
    by (simp add: len rbind_def le_simps rreturn_def container_deserialize_def)
  moreover have "length (concat (map u16_le arr)) = 131072" by (simp add: length_concat comp_def len sum_list_triv)
  moreover have "roaring_set [(h, Array [])] = {}" by (simp add: roaring_set_Cons)
  ultimately show ?thesis using r(2) c by (simp only: Let_def) blast
qed

section \<open>Examples\<close>

definition sample_ops :: f32_ops where
  "sample_ops = \<lparr>f32_of_u32 = (\<lambda>n. n), bm25_upper_bound = (\<lambda>tf idf. tf), f32_max = max\<rparr>"

definition sample_iter :: "(u32 \<rightharpoonup> u32) \<Rightarrow> (u32 \<times> u32) list" where
  "sample_iter m = map (\<lambda>k. (k, the (m k))) (filter (\<lambda>k. m k \<noteq> None) [1, 3])"

theorem roaring_postings_round_trip_witness:
  "\<exists>p. from_postings_with_idf sample_ops sample_iter [1, 5, 70000] [1, 3, 1] 0 = Some p \<and>
     roaring_docs (rp_docs p) = [1, 5, 70000] \<and> map (get_tf p) [1, 5, 70000] = [1, 3, 1] \<and>
     postings_deserialize (postings_serialize p @ [7]) = Inr (p, [7])"
  using roaring_postings_round_trip [of "[1, 5, 70000]" "[1, 3, 1]" sample_ops sample_iter 0 "[7]"] by simp

lemma sample_postings:
  obtains p it where "from_postings_with_idf sample_ops sample_iter [1, 5, 70000] [1, 3, 1] 0 = Some p"
    "posting_init p posting_iterator = Some it" "posting_rest p it = [1, 5, 70000]"
proof -
  obtain p where p: "from_postings_with_idf sample_ops sample_iter [1, 5, 70000] [1, 3, 1] 0 = Some p" "postings_ok p"
    "roaring_docs (rp_docs p) = [1, 5, 70000]"
    using from_postings_with_idf_spec [of "[1, 5, 70000]" "[1, 3, 1]" sample_ops sample_iter 0] by auto
  then show ?thesis using that posting_init_spec [OF p(2)] by auto
qed

theorem roaring_iterator_correct_witness:
  "\<exists>p it it'. from_postings_with_idf sample_ops sample_iter [1, 5, 70000] [1, 3, 1] 0 = Some p \<and>
     posting_init p posting_iterator = Some it \<and> posting_seek p it 6 = Some (it', 70000)"
proof -
  obtain p it where p: "from_postings_with_idf sample_ops sample_iter [1, 5, 70000] [1, 3, 1] 0 = Some p"
    "posting_init p posting_iterator = Some it" "posting_rest p it = [1, 5, 70000]" by (rule sample_postings)
  have "posting_reach p it" using p(2) by (rule reach_init)
  from roaring_iterator_correct [OF _ _ p(1) this, of 6]
  obtain it' where "posting_seek p it 6 = Some (it', first_or_max (posting_rest p it'))"
    "posting_rest p it' = dropWhile (\<lambda>d. d < 6) (posting_rest p it)" by auto
  then show ?thesis using p by (auto simp: first_or_max_def)
qed

theorem roaring_seek_past_end_resumes_witness:
  "\<exists>p it it' it''. from_postings_with_idf sample_ops sample_iter [1, 5, 70000] [1, 3, 1] 0 = Some p \<and>
     posting_init p posting_iterator = Some it \<and> posting_seek p it 80000 = Some (it', - 1) \<and>
     posting_is_exhausted it' \<and> posting_advance p it' = Some (it'', 5)"
proof -
  obtain p where p: "from_postings_with_idf sample_ops sample_iter [1, 5, 70000] [1, 3, 1] 0 = Some p" by (rule sample_postings)
  then show ?thesis using roaring_seek_past_end_resumes [of 1 5 "[70000]" "[1, 3, 1]" sample_ops sample_iter 0 p 80000] by auto
qed

theorem roaring_full_array_lost_witness:
  "\<exists>rest. roaring_deserialize (roaring_serialize
       (foldl (\<lambda>r v. fst (roaring_insert r v)) roaring_new (map (\<lambda>i. join 3 (of_nat i)) [0..<65536]))) =
     Inr ([(3, Array [])], rest) \<and> length rest = 131072"
proof -
  let ?vs = "map (\<lambda>i. join 3 (of_nat i)) [0..<65536]"
  have "set ?vs = {v. high v = 3}"
  proof (rule set_eqI)
    fix v
    have "v \<in> set ?vs" if "high v = 3"
    proof -
      have "v = join 3 (of_nat (unat (low v)))" using that join_high_low [of v] by simp
      moreover have "unat (low v) \<in> set [0..<65536]" using unat_u16 [of "low v"] by simp
      ultimately show ?thesis unfolding set_map by (rule image_eqI)
    qed
    then show "v \<in> set ?vs \<longleftrightarrow> v \<in> {v. high v = 3}" by auto
  qed
  from roaring_full_array_lost [OF this] show ?thesis by (simp only: Let_def)
qed

end
