(* ===== verification/MergePolicy.thy ===== *)
theory MergePolicy
  imports Complex_Main Summa_Prelude "HOL-Library.Multiset"
begin

text \<open>
  Merge policies (\<open>merge/mod.rs\<close>): which segments are merged together. A policy is the
  trait \<open>MergePolicy\<close>, here the locale \<open>merge_policy\<close> with the law its callers rely on,
  that concurrent candidates share no segment. The tiered policy is modelled with
  both of its selection strategies; floating-point arithmetic is a parameter.
\<close>

section \<open>Segments, candidates and policies\<close>

record segment_info =
  si_id :: string
  si_docs :: nat

record merge_candidate =
  segment_ids :: "string list"

text \<open>The operations on \<open>f64\<close> that the policy uses; \<open>f_dec m k\<close> is the literal \<open>m / 10 ^ k\<close>.\<close>

record 'f f64_ops =
  f_of_nat :: "nat \<Rightarrow> 'f"
  f_to_nat :: "'f \<Rightarrow> nat"
  f_dec :: "nat \<Rightarrow> nat \<Rightarrow> 'f"
  f_MAX :: 'f
  f_add :: "'f \<Rightarrow> 'f \<Rightarrow> 'f"
  f_mul :: "'f \<Rightarrow> 'f \<Rightarrow> 'f"
  f_div :: "'f \<Rightarrow> 'f \<Rightarrow> 'f"
  f_max :: "'f \<Rightarrow> 'f \<Rightarrow> 'f"
  f_log :: "'f \<Rightarrow> 'f \<Rightarrow> 'f"
  f_ceil :: "'f \<Rightarrow> 'f"
  f_powf :: "'f \<Rightarrow> 'f \<Rightarrow> 'f"
  f_le :: "'f \<Rightarrow> 'f \<Rightarrow> bool"
  f_less :: "'f \<Rightarrow> 'f \<Rightarrow> bool"
  f_eq :: "'f \<Rightarrow> 'f \<Rightarrow> bool"
  f_total_less :: "'f \<Rightarrow> 'f \<Rightarrow> bool"

record 'f tiered_policy =
  segments_per_tier :: nat
  max_merge_at_once :: nat
  tier_factor :: 'f
  tier_floor :: nat
  max_merged_docs :: nat
  floor_segment_docs :: nat
  oversized_threshold :: 'f
  min_growth_ratio :: 'f
  budget_trigger :: bool
  scored_selection :: bool
  max_segment_docs :: nat

definition no_merge_find_merges :: "segment_info list \<Rightarrow> merge_candidate list" where
  "no_merge_find_merges segments = []"

definition default_policy :: "'f f64_ops \<Rightarrow> 'f tiered_policy" where
  "default_policy F =
     \<lparr>segments_per_tier = 10, max_merge_at_once = 10, tier_factor = f_dec F 10 0, tier_floor = 1000,
      max_merged_docs = 5000000, floor_segment_docs = 1000, oversized_threshold = f_dec F 5 1,
      min_growth_ratio = f_dec F 0 0, budget_trigger = False, scored_selection = False, max_segment_docs = 10000000\<rparr>"

definition aggressive :: "'f f64_ops \<Rightarrow> 'f tiered_policy" where
  "aggressive F =
     (default_policy F)\<lparr>segments_per_tier := 3, max_merge_at_once := 10, tier_factor := f_dec F 10 0, tier_floor := 500,
      max_merged_docs := 10000000, max_segment_docs := 10000000\<rparr>"

definition large_scale :: "'f f64_ops \<Rightarrow> 'f tiered_policy" where
  "large_scale F =
     \<lparr>segments_per_tier = 10, max_merge_at_once = 24, tier_factor = f_dec F 10 0, tier_floor = 50000,
      max_merged_docs = 5000000, floor_segment_docs = 50000, oversized_threshold = f_dec F 5 1,
      min_growth_ratio = f_dec F 5 1, budget_trigger = True, scored_selection = True, max_segment_docs = 5000000\<rparr>"

definition bulk_indexing :: "'f f64_ops \<Rightarrow> 'f tiered_policy" where
  "bulk_indexing F =
     \<lparr>segments_per_tier = 20, max_merge_at_once = 20, tier_factor = f_dec F 10 0, tier_floor = 100000,
      max_merged_docs = 50000000, floor_segment_docs = 100000, oversized_threshold = f_dec F 5 1,
      min_growth_ratio = f_dec F 75 2, budget_trigger = True, scored_selection = True, max_segment_docs = 50000000\<rparr>"

section \<open>The tiered policy\<close>

definition effective_max_docs :: "'f tiered_policy \<Rightarrow> nat" where
  "effective_max_docs P = min (max_merged_docs P) (max_segment_docs P)"

text \<open>The last product is on \<open>usize\<close> and wraps.\<close>

definition compute_ideal_segment_count :: "'f f64_ops \<Rightarrow> 'f tiered_policy \<Rightarrow> nat \<Rightarrow> nat" where
  "compute_ideal_segment_count F P total_docs =
     (if total_docs = 0 then 0
      else let floor = f_of_nat F (max (floor_segment_docs P) 1);
               num_tiers = f_to_nat F (f_ceil F (f_log F (f_max F (f_div F (f_of_nat F total_docs) floor) (f_dec F 1 0)) (tier_factor P)))
           in max num_tiers 1 * segments_per_tier P mod 2 ^ 64)"

definition eligible_segments :: "'f f64_ops \<Rightarrow> 'f tiered_policy \<Rightarrow> segment_info list \<Rightarrow> segment_info list" where
  "eligible_segments F P segments =
     (let oversized_limit = f_to_nat F (f_mul F (f_of_nat F (effective_max_docs P)) (oversized_threshold P))
      in filter (\<lambda>s. si_docs s \<le> oversized_limit \<or> oversized_limit = 0) segments)"

definition score_candidate :: "'f f64_ops \<Rightarrow> 'f tiered_policy \<Rightarrow> nat list \<Rightarrow> segment_info list \<Rightarrow> 'f" where
  "score_candidate F P grp srt =
     (let floor = f_of_nat F (max (floor_segment_docs P) 1);
          (total_floored, largest_floored) =
            foldl (\<lambda>(tot, largest) idx.
              let floored = f_max F (f_of_nat F (si_docs (srt ! idx))) floor
              in (f_add F tot floored, if f_less F largest floored then floored else largest))
              (f_dec F 0 0, f_dec F 0 0) grp
      in if f_eq F total_floored (f_dec F 0 0) then f_MAX F
         else f_mul F (f_div F largest_floored total_floored) (f_powf F total_floored (f_dec F 5 2)))"

definition group_docs :: "segment_info list \<Rightarrow> nat list \<Rightarrow> nat" where
  "group_docs srt grp = sum_list (map (\<lambda>i. si_docs (srt ! i)) grp)"

definition passes_min_growth :: "'f f64_ops \<Rightarrow> 'f tiered_policy \<Rightarrow> nat list \<Rightarrow> segment_info list \<Rightarrow> bool" where
  "passes_min_growth F P grp srt =
     (if f_le F (min_growth_ratio P) (f_dec F 0 0) \<or> length grp < 2 then True
      else let largest = fold max (map (\<lambda>i. si_docs (srt ! i)) grp) 0
           in f_le F (f_mul F (f_add F (f_dec F 1 0) (min_growth_ratio P)) (f_of_nat F largest)) (f_of_nat F (group_docs srt grp)))"

text \<open>The tests that let the segment at index \<open>j\<close> join a group; the product is on 64 bits.\<close>

definition joins :: "'f f64_ops \<Rightarrow> 'f tiered_policy \<Rightarrow> segment_info list \<Rightarrow> nat list \<Rightarrow> nat \<Rightarrow> nat \<Rightarrow> bool" where
  "joins F P srt grp tot j \<longleftrightarrow>
     \<not> max_merge_at_once P \<le> length grp \<and>
     \<not> tot + si_docs (srt ! j) > effective_max_docs P \<and>
     \<not> si_docs (srt ! j) > max tot 1 * f_to_nat F (tier_factor P) mod 2 ^ 64"

definition group_accepted :: "'f f64_ops \<Rightarrow> 'f tiered_policy \<Rightarrow> segment_info list \<Rightarrow> nat list \<Rightarrow> bool" where
  "group_accepted F P srt grp \<longleftrightarrow>
     segments_per_tier P \<le> length grp \<and> 2 \<le> length grp \<and> passes_min_growth F P grp srt"

definition candidate_of :: "segment_info list \<Rightarrow> nat list \<Rightarrow> merge_candidate" where
  "candidate_of srt grp = \<lparr>segment_ids = map (\<lambda>i. si_id (srt ! i)) grp\<rparr>"

definition mark_used :: "bool list \<Rightarrow> nat list \<Rightarrow> bool list" where
  "mark_used used grp = foldl (\<lambda>used i. used[i := True]) used grp"

fun extend_greedy ::
  "'f f64_ops \<Rightarrow> 'f tiered_policy \<Rightarrow> segment_info list \<Rightarrow> bool list \<Rightarrow> nat list \<Rightarrow> nat list \<Rightarrow> nat \<Rightarrow> nat list" where
  "extend_greedy F P srt used [] grp tot = grp"
| "extend_greedy F P srt used (j # js) grp tot =
     (if used ! j then extend_greedy F P srt used js grp tot
      else if joins F P srt grp tot j
      then extend_greedy F P srt used js (grp @ [j]) (tot + si_docs (srt ! j))
      else grp)"

function skip_used :: "bool list \<Rightarrow> nat \<Rightarrow> nat" where
  "skip_used used start = (if start < length used \<and> used ! start then skip_used used (start + 1) else start)"
  by pat_completeness auto
termination
  by (relation "measure (\<lambda>(used, start). length used - start)") auto

declare skip_used.simps [simp del]

lemma skip_used_ge: "start \<le> skip_used used start"
  by (induction used start rule: skip_used.induct) (subst skip_used.simps, auto)

lemma skip_used_stop: "skip_used used start < length used \<Longrightarrow> \<not> used ! skip_used used start"
  by (induction used start rule: skip_used.induct) (subst skip_used.simps, subst (asm) skip_used.simps, auto split: if_splits)

function greedy_loop ::
  "'f f64_ops \<Rightarrow> 'f tiered_policy \<Rightarrow> segment_info list \<Rightarrow> nat \<Rightarrow> bool list \<Rightarrow> merge_candidate list \<Rightarrow> merge_candidate list" where
  "greedy_loop F P srt start used candidates =
     (let s = skip_used used start
      in if length srt \<le> s then candidates
         else let grp = extend_greedy F P srt used [s + 1..<length srt] [s] (si_docs (srt ! s))
              in if group_accepted F P srt grp
                 then greedy_loop F P srt (s + 1) (mark_used used grp) (candidates @ [candidate_of srt grp])
                 else greedy_loop F P srt (s + 1) used candidates)"
  by pat_completeness auto
termination
  by (relation "measure (\<lambda>(F, P, srt, start, used, cs). length srt - start)")
    (auto simp: not_le intro!: diff_less_mono2 le_imp_less_Suc skip_used_ge intro: order_le_less_trans [OF skip_used_ge])

declare greedy_loop.simps [simp del]

definition find_merges_greedy :: "'f f64_ops \<Rightarrow> 'f tiered_policy \<Rightarrow> segment_info list \<Rightarrow> merge_candidate list" where
  "find_merges_greedy F P srt = greedy_loop F P srt 0 (replicate (length srt) False) []"

fun extend_scored ::
  "'f f64_ops \<Rightarrow> 'f tiered_policy \<Rightarrow> segment_info list \<Rightarrow> nat list \<Rightarrow> nat list \<Rightarrow> nat \<Rightarrow> ('f \<times> nat list) list \<Rightarrow> ('f \<times> nat list) list" where
  "extend_scored F P srt [] grp tot acc = acc"
| "extend_scored F P srt (j # js) grp tot acc =
     (if joins F P srt grp tot j
      then let grp' = grp @ [j];
               acc' = (if group_accepted F P srt grp' then acc @ [(score_candidate F P grp' srt, grp')] else acc)
           in extend_scored F P srt js grp' (tot + si_docs (srt ! j)) acc'
      else acc)"

text \<open>A stable sort by a strict comparison.\<close>

fun insert_by :: "('a \<Rightarrow> 'a \<Rightarrow> bool) \<Rightarrow> 'a \<Rightarrow> 'a list \<Rightarrow> 'a list" where
  "insert_by lt x [] = [x]"
| "insert_by lt x (y # ys) = (if lt y x then y # insert_by lt x ys else x # y # ys)"

definition sort_by :: "('a \<Rightarrow> 'a \<Rightarrow> bool) \<Rightarrow> 'a list \<Rightarrow> 'a list" where
  "sort_by lt xs = foldr (insert_by lt) xs []"

fun select_groups :: "segment_info list \<Rightarrow> nat list list \<Rightarrow> bool list \<Rightarrow> merge_candidate list" where
  "select_groups srt [] used = []"
| "select_groups srt (grp # groups) used =
     (if \<exists>i \<in> set grp. used ! i then select_groups srt groups used
      else candidate_of srt grp # select_groups srt groups (mark_used used grp))"

definition scored_groups :: "'f f64_ops \<Rightarrow> 'f tiered_policy \<Rightarrow> segment_info list \<Rightarrow> ('f \<times> nat list) list" where
  "scored_groups F P srt =
     foldl (\<lambda>acc start. extend_scored F P srt [start + 1..<length srt] [start] (si_docs (srt ! start)) acc) [] [0..<length srt]"

definition find_merges_scored :: "'f f64_ops \<Rightarrow> 'f tiered_policy \<Rightarrow> segment_info list \<Rightarrow> merge_candidate list" where
  "find_merges_scored F P srt =
     select_groups srt (map snd (sort_by (\<lambda>a b. f_total_less F (fst a) (fst b)) (scored_groups F P srt))) (replicate (length srt) False)"

definition find_merges :: "'f f64_ops \<Rightarrow> 'f tiered_policy \<Rightarrow> segment_info list \<Rightarrow> merge_candidate list" where
  "find_merges F P segments =
     (if length segments < 2 then []
      else let eligible = eligible_segments F P segments
           in if length eligible < 2 then []
              else if budget_trigger P \<and>
                length eligible \<le> compute_ideal_segment_count F P (sum_list (map si_docs segments)) then []
              else let srt = sort_key si_docs eligible
                   in if scored_selection P then find_merges_scored F P srt else find_merges_greedy F P srt)"

definition has_severe_backlog :: "'f f64_ops \<Rightarrow> 'f tiered_policy \<Rightarrow> segment_info list \<Rightarrow> bool" where
  "has_severe_backlog F P segments =
     (if \<not> budget_trigger P then False
      else let eligible = eligible_segments F P segments
           in if length eligible < 2 then False
              else min (compute_ideal_segment_count F P (sum_list (map si_docs segments)) * 2) (2 ^ 64 - 1) < length eligible)"

definition tiered_max_segment_docs :: "'f tiered_policy \<Rightarrow> nat option" where
  "tiered_max_segment_docs P = Some (max_segment_docs P)"

section \<open>Groups\<close>

definition group_valid :: "'f tiered_policy \<Rightarrow> segment_info list \<Rightarrow> bool list \<Rightarrow> nat list \<Rightarrow> bool" where
  "group_valid P srt used grp \<longleftrightarrow> sorted_wrt (<) grp \<and> (\<forall>i \<in> set grp. i < length srt \<and> \<not> used ! i) \<and>
     (2 \<le> length grp \<longrightarrow> length grp \<le> max_merge_at_once P \<and> group_docs srt grp \<le> effective_max_docs P)"

lemma group_docs_append [simp]: "group_docs srt (grp @ [j]) = group_docs srt grp + si_docs (srt ! j)"
  by (simp add: group_docs_def)

lemma group_valid_step:
  assumes "group_valid P srt used grp" "joins F P srt grp (group_docs srt grp) j" "sorted_wrt (<) (grp @ j # js)"
    "j < length srt" "\<not> used ! j"
  shows "group_valid P srt used (grp @ [j])"
  using assms by (auto simp: group_valid_def joins_def sorted_wrt_append)

lemma extend_greedy_valid:
  "group_valid P srt used grp \<Longrightarrow> tot = group_docs srt grp \<Longrightarrow> sorted_wrt (<) (grp @ js) \<Longrightarrow> \<forall>j \<in> set js. j < length srt \<Longrightarrow>
     group_valid P srt used (extend_greedy F P srt used js grp tot)"
proof (induction F P srt used js grp tot rule: extend_greedy.induct)
  case (2 F P srt used j js grp tot)
  have s: "sorted_wrt (<) (grp @ js)" using "2.prems"(3) by (simp add: sorted_wrt_append)
  show ?case
  proof (cases "used ! j")
    case True
    then show ?thesis using "2.IH"(1) "2.prems" s by simp
  next
    case False
    show ?thesis
    proof (cases "joins F P srt grp tot j")
      case True
      have "group_valid P srt used (grp @ [j])"
        using "2.prems" True False by (intro group_valid_step [of _ _ _ _ F j js]) auto
      then show ?thesis using "2.IH"(2) "2.prems" False True by simp
    next
      case no: False
      then show ?thesis using "2.prems"(1) False by simp
    qed
  qed
qed simp

lemma mark_used_spec:
  "\<forall>i \<in> set grp. i < length used \<Longrightarrow> length (mark_used used grp) = length used \<and>
     (\<forall>i < length used. mark_used used grp ! i \<longleftrightarrow> used ! i \<or> i \<in> set grp)"
  unfolding mark_used_def by (induction grp arbitrary: used) (auto simp: nth_list_update)

lemma group_valid_mark:
  assumes "group_valid P srt (mark_used used grp) g" "\<forall>i \<in> set grp. i < length used" "length used = length srt"
  shows "group_valid P srt used g" "set g \<inter> set grp = {}"
  using assms mark_used_spec [OF assms(2)] unfolding group_valid_def by auto

text \<open>What a selection promises of the groups it returns.\<close>

definition selection_ok :: "'f f64_ops \<Rightarrow> 'f tiered_policy \<Rightarrow> segment_info list \<Rightarrow> bool list \<Rightarrow> nat list list \<Rightarrow> bool" where
  "selection_ok F P srt used gs \<longleftrightarrow> distinct (concat gs) \<and> (\<forall>g \<in> set gs. group_valid P srt used g \<and> group_accepted F P srt g)"

lemma selection_ok_Cons:
  assumes "selection_ok F P srt (mark_used used grp) gs" "group_valid P srt used grp" "group_accepted F P srt grp"
    "length used = length srt"
  shows "selection_ok F P srt used (grp # gs)"
proof -
  have b: "\<forall>i \<in> set grp. i < length used" using assms(2,4) by (simp add: group_valid_def)
  have "group_valid P srt used g" "set g \<inter> set grp = {}" if "g \<in> set gs" for g
  proof -
    have "group_valid P srt (mark_used used grp) g" using assms(1) that by (simp add: selection_ok_def)
    from group_valid_mark [OF this b assms(4)] show "group_valid P srt used g" "set g \<inter> set grp = {}" by blast+
  qed
  moreover have "distinct grp" using assms(2) by (simp add: group_valid_def strict_sorted_iff)
  ultimately show ?thesis using assms(1-3) by (fastforce simp: selection_ok_def)
qed

lemma greedy_loop_selection:
  "length used = length srt \<Longrightarrow>
     \<exists>gs. greedy_loop F P srt start used cs = cs @ map (candidate_of srt) gs \<and> selection_ok F P srt used gs"
proof (induction F P srt start used cs rule: greedy_loop.induct)
  case (1 F P srt start used cs)
  define s where "s = skip_used used start"
  define grp where "grp = extend_greedy F P srt used [s + 1..<length srt] [s] (si_docs (srt ! s))"
  note simps = greedy_loop.simps [of F P srt start used cs, folded s_def, unfolded Let_def, folded grp_def]
  show ?case
  proof (cases "length srt \<le> s")
    case True
    then show ?thesis by (intro exI [of _ "[]"]) (simp add: simps selection_ok_def)
  next
    case False
    have unused: "\<not> used ! s" using False "1.prems" skip_used_stop [of used start] by (simp add: s_def)
    have v: "group_valid P srt used grp"
      unfolding grp_def using False unused by (intro extend_greedy_valid) (auto simp: group_valid_def group_docs_def)
    then have b: "\<forall>i \<in> set grp. i < length used" using "1.prems" by (simp add: group_valid_def)
    show ?thesis
    proof (cases "group_accepted F P srt grp")
      case True
      obtain gs where gs: "greedy_loop F P srt (s + 1) (mark_used used grp) (cs @ [candidate_of srt grp]) =
          (cs @ [candidate_of srt grp]) @ map (candidate_of srt) gs" "selection_ok F P srt (mark_used used grp) gs"
        using "1.IH"(1) [OF s_def False grp_def True] mark_used_spec [OF b] "1.prems" by auto
      show ?thesis
        using gs True False selection_ok_Cons [OF gs(2) v True "1.prems"] by (intro exI [of _ "grp # gs"]) (simp add: simps)
    next
      case no: False
      then show ?thesis using "1.IH"(2) [OF s_def False grp_def no "1.prems"] False by (simp add: simps)
    qed
  qed
qed

lemma extend_scored_valid:
  "group_valid P srt used grp \<Longrightarrow> tot = group_docs srt grp \<Longrightarrow> sorted_wrt (<) (grp @ js) \<Longrightarrow>
     \<forall>j \<in> set js. j < length srt \<and> \<not> used ! j \<Longrightarrow>
     \<forall>(_, g) \<in> set acc. group_valid P srt used g \<and> group_accepted F P srt g \<Longrightarrow>
     \<forall>(_, g) \<in> set (extend_scored F P srt js grp tot acc). group_valid P srt used g \<and> group_accepted F P srt g"
proof (induction F P srt js grp tot acc rule: extend_scored.induct)
  case (2 F P srt j js grp tot acc)
  show ?case
  proof (cases "joins F P srt grp tot j")
    case True
    have v: "group_valid P srt used (grp @ [j])"
      using "2.prems" True by (intro group_valid_step [of _ _ _ _ F j js]) auto
    let ?acc = "if group_accepted F P srt (grp @ [j]) then acc @ [(score_candidate F P (grp @ [j]) srt, grp @ [j])] else acc"
    have "\<forall>(_, g) \<in> set ?acc. group_valid P srt used g \<and> group_accepted F P srt g" using "2.prems"(5) v by simp
    then have "\<forall>(_, g) \<in> set (extend_scored F P srt js (grp @ [j]) (tot + si_docs (srt ! j)) ?acc).
        group_valid P srt used g \<and> group_accepted F P srt g"
      using "2.prems"(2-4) by (intro "2.IH" [OF True refl refl v]) simp_all
    then show ?thesis using True by (simp only: extend_scored.simps Let_def if_True)
  qed (use "2.prems" in simp)
qed simp

lemma select_groups_selection:
  "length used = length srt \<Longrightarrow> \<forall>g \<in> set groups. group_valid P srt (replicate (length srt) False) g \<and> group_accepted F P srt g \<Longrightarrow>
     \<exists>gs. select_groups srt groups used = map (candidate_of srt) gs \<and> selection_ok F P srt used gs"
proof (induction srt groups used rule: select_groups.induct)
  case (1 srt used)
  then show ?case by (simp add: selection_ok_def)
next
  case (2 srt grp groups used)
  show ?case
  proof (cases "\<exists>i \<in> set grp. used ! i")
    case True
    then show ?thesis using 2 by simp
  next
    case False
    have v: "group_valid P srt used grp" using False "2.prems"(2) by (auto simp: group_valid_def)
    then have b: "\<forall>i \<in> set grp. i < length used" using "2.prems"(1) by (simp add: group_valid_def)
    obtain gs where gs: "select_groups srt groups (mark_used used grp) = map (candidate_of srt) gs" "selection_ok F P srt (mark_used used grp) gs"
      using "2.IH"(2) [OF False] mark_used_spec [OF b] "2.prems" by auto
    show ?thesis
      using gs False selection_ok_Cons [OF gs(2) v _ "2.prems"(1)] "2.prems"(2) by (intro exI [of _ "grp # gs"]) simp
  qed
qed

lemma set_sort_by [simp]: "set (sort_by lt xs) = set xs"
proof -
  have "set (insert_by lt x ys) = insert x (set ys)" for x ys by (induction ys) auto
  then show ?thesis unfolding sort_by_def by (induction xs) simp_all
qed

lemma scored_groups_valid:
  "\<forall>(_, g) \<in> set (scored_groups F P srt). group_valid P srt (replicate (length srt) False) g \<and> group_accepted F P srt g"
proof -
  let ?n = "length srt" and ?u = "replicate (length srt) False"
  let ?step = "\<lambda>acc start. extend_scored F P srt [start + 1..<?n] [start] (si_docs (srt ! start)) acc"
  have "\<forall>(_, g) \<in> set (foldl ?step acc starts). group_valid P srt ?u g \<and> group_accepted F P srt g"
    if "\<forall>(_, g) \<in> set acc. group_valid P srt ?u g \<and> group_accepted F P srt g" "\<forall>s \<in> set starts. s < ?n" for acc starts
    using that
  proof (induction starts arbitrary: acc)
    case (Cons s starts)
    have "\<forall>(_, g) \<in> set (?step acc s). group_valid P srt ?u g \<and> group_accepted F P srt g"
      using Cons.prems by (intro extend_scored_valid) (auto simp: group_valid_def group_docs_def)
    then show ?case using Cons by simp
  qed simp
  from this [of "[]" "[0..<?n]"] show ?thesis by (simp add: scored_groups_def)
qed

lemma find_merges_selection:
  "\<exists>gs. (if scored_selection P then find_merges_scored F P srt else find_merges_greedy F P srt) = map (candidate_of srt) gs \<and>
     selection_ok F P srt (replicate (length srt) False) gs"
proof (cases "scored_selection P")
  case False
  then show ?thesis using greedy_loop_selection [of "replicate (length srt) False" srt F P 0 "[]"] by (simp add: find_merges_greedy_def)
next
  case True
  let ?u = "replicate (length srt) False"
  have "\<forall>g \<in> set (map snd (sort_by (\<lambda>a b. f_total_less F (fst a) (fst b)) (scored_groups F P srt))).
      group_valid P srt ?u g \<and> group_accepted F P srt g" using scored_groups_valid by fastforce
  from select_groups_selection [OF _ this, of ?u] show ?thesis using True by (simp add: find_merges_scored_def)
qed

lemma mset_nths_subset:
  assumes "distinct is" "\<forall>i \<in> set is. i < length xs"
  shows "mset (map ((!) xs) is) \<subseteq># mset xs"
proof -
  have "mset is = mset_set (set is)" using assms(1) by (simp add: mset_set_set)
  also have "\<dots> \<subseteq># mset_set {..<length xs}" using assms(2) by (intro subset_imp_msubset_mset_set) auto
  finally have "image_mset ((!) xs) (mset is) \<subseteq># image_mset ((!) xs) (mset_set {..<length xs})" by (rule image_mset_subseteq_mono)
  also have "image_mset ((!) xs) (mset_set {..<length xs}) = mset xs"
  proof -
    have "mset_set {..<length xs} = mset [0..<length xs]" by (simp add: atLeast0LessThan)
    then show ?thesis by (metis map_nth mset_map)
  qed
  finally show ?thesis by simp
qed

lemma selection_segments:
  assumes "selection_ok F P srt used gs"
  shows "mset (concat (map (map ((!) srt)) gs)) \<subseteq># mset srt"
proof -
  have "concat (map (map ((!) srt)) gs) = map ((!) srt) (concat gs)" by (simp add: map_concat)
  then show ?thesis using mset_nths_subset [of "concat gs" srt] assms by (auto simp: selection_ok_def group_valid_def)
qed

section \<open>The contract of a policy\<close>

lemma distinct_if_count: "(\<And>x. count (mset xs) x \<le> 1) \<Longrightarrow> distinct xs"
proof (induction xs)
  case (Cons y xs)
  have "count (mset xs) x \<le> 1" for x by (rule order_trans [OF _ Cons.prems [of x]]) simp
  moreover have "count (mset xs) y = 0" using Cons.prems [of y] by simp
  ultimately show ?case using Cons.IH by (simp add: count_eq_zero_iff)
qed simp

locale merge_policy =
  fixes find :: "segment_info list \<Rightarrow> merge_candidate list"
  assumes shares_none: "mset (concat (map segment_ids (find segs))) \<subseteq># mset (map si_id segs)"
    and joins_two: "c \<in> set (find segs) \<Longrightarrow> 2 \<le> length (segment_ids c)"
begin

lemma known_segments: "c \<in> set (find segs) \<Longrightarrow> set (segment_ids c) \<subseteq> si_id ` set segs"
  using set_mset_mono [OF shares_none [of segs]] by auto

lemma candidates_disjoint:
  assumes "distinct (map si_id segs)"
  shows "distinct (concat (map segment_ids (find segs)))"
proof -
  have "count (mset (concat (map segment_ids (find segs)))) x \<le> count (mset (map si_id segs)) x" for x
    using shares_none by (rule mset_subset_eq_count)
  also have "count (mset (map si_id segs)) x \<le> 1" for x using assms by (simp add: distinct_count_atmost_1)
  finally have "count (mset (concat (map segment_ids (find segs)))) x \<le> 1" for x .
  then show ?thesis by (rule distinct_if_count)
qed

lemma candidate_count: "2 * length (find segs) \<le> length segs"
proof -
  have "2 * length cs \<le> length (concat (map segment_ids cs))" if "\<forall>c \<in> set cs. 2 \<le> length (segment_ids c)" for cs
    using that by (induction cs) auto
  then have "2 * length (find segs) \<le> length (concat (map segment_ids (find segs)))" using joins_two by blast
  also have "\<dots> \<le> length segs" using size_mset_mono [OF shares_none [of segs]] by simp
  finally show ?thesis .
qed

end

interpretation no_merge: merge_policy no_merge_find_merges
  by unfold_locales (simp_all add: no_merge_find_merges_def)

lemma eligible_subset: "mset (eligible_segments F P segs) \<subseteq># mset segs"
  by (simp add: eligible_segments_def Let_def multiset_filter_subset)

lemma find_merges_groups:
  obtains gs srt where "find_merges F P segs = map (candidate_of srt) gs" "selection_ok F P srt (replicate (length srt) False) gs"
    "mset srt = mset (eligible_segments F P segs)"
proof -
  let ?srt = "sort_key si_docs (eligible_segments F P segs)"
  obtain gs where gs: "(if scored_selection P then find_merges_scored F P ?srt else find_merges_greedy F P ?srt) = map (candidate_of ?srt) gs"
    "selection_ok F P ?srt (replicate (length ?srt) False) gs" using find_merges_selection by blast
  have "find_merges F P segs = [] \<or> find_merges F P segs = map (candidate_of ?srt) gs"
    unfolding find_merges_def Let_def gs(1) by simp
  then show ?thesis
  proof
    assume "find_merges F P segs = []"
    then show ?thesis using that [of ?srt "[]"] by (simp add: selection_ok_def)
  next
    assume "find_merges F P segs = map (candidate_of ?srt) gs"
    then show ?thesis using that gs(2) by simp
  qed
qed

interpretation tiered: merge_policy "find_merges F P" for F P
proof
  fix segs
  obtain gs srt where g: "find_merges F P segs = map (candidate_of srt) gs" "selection_ok F P srt (replicate (length srt) False) gs"
    "mset srt = mset (eligible_segments F P segs)" by (rule find_merges_groups)
  have "concat (map segment_ids (find_merges F P segs)) = map si_id (concat (map (map ((!) srt)) gs))"
    by (simp add: g(1) candidate_of_def map_concat comp_def)
  moreover have "mset (concat (map (map ((!) srt)) gs)) \<subseteq># mset segs"
    using subset_mset.order_trans [OF selection_segments [OF g(2)]] eligible_subset [of F P segs] g(3) by simp
  then have "mset (map si_id (concat (map (map ((!) srt)) gs))) \<subseteq># mset (map si_id segs)"
    unfolding mset_map by (rule image_mset_subseteq_mono)
  ultimately show "mset (concat (map segment_ids (find_merges F P segs))) \<subseteq># mset (map si_id segs)" by simp
  show "2 \<le> length (segment_ids c)" if "c \<in> set (find_merges F P segs)" for c
    using that g(1,2) by (auto simp: candidate_of_def selection_ok_def group_accepted_def)
qed

section \<open>When a selection finds a candidate\<close>

text \<open>Consecutive segments of the sorted list, each of which may join the group of those before it.\<close>

definition run_joins :: "'f f64_ops \<Rightarrow> 'f tiered_policy \<Rightarrow> segment_info list \<Rightarrow> nat \<Rightarrow> nat \<Rightarrow> nat \<Rightarrow> bool" where
  "run_joins F P srt s m k \<longleftrightarrow> (\<forall>i. m \<le> i \<and> i < k \<longrightarrow> joins F P srt [s..<s + i] (group_docs srt [s..<s + i]) (s + i))"

definition mergeable_run :: "'f f64_ops \<Rightarrow> 'f tiered_policy \<Rightarrow> segment_info list \<Rightarrow> nat \<Rightarrow> nat \<Rightarrow> bool" where
  "mergeable_run F P srt s k \<longleftrightarrow> s + k \<le> length srt \<and> run_joins F P srt s 1 k \<and> group_accepted F P srt [s..<s + k]"

text \<open>The greedy selection takes the longest run from a start.\<close>

definition longest_run :: "'f f64_ops \<Rightarrow> 'f tiered_policy \<Rightarrow> segment_info list \<Rightarrow> nat \<Rightarrow> nat \<Rightarrow> bool" where
  "longest_run F P srt s k \<longleftrightarrow> s + k = length srt \<or> \<not> joins F P srt [s..<s + k] (group_docs srt [s..<s + k]) (s + k)"

lemma run_joins_Suc:
  "run_joins F P srt s m k \<longleftrightarrow> k \<le> m \<or> joins F P srt [s..<s + m] (group_docs srt [s..<s + m]) (s + m) \<and> run_joins F P srt s (Suc m) k"
proof -
  have "(\<forall>i. m \<le> i \<and> i < k \<longrightarrow> Q i) \<longleftrightarrow> k \<le> m \<or> Q m \<and> (\<forall>i. Suc m \<le> i \<and> i < k \<longrightarrow> Q i)" for Q
    by (cases "m < k") (auto simp: Suc_le_eq le_less [of m])
  then show ?thesis unfolding run_joins_def .
qed

lemma upt_Suc_snoc: "[s..<s + m] @ [s + m] = [s..<s + Suc m]"
  "group_docs srt [s..<s + m] + si_docs (srt ! (s + m)) = group_docs srt [s..<s + Suc m]"
  by (simp_all add: group_docs_def)

lemma extend_greedy_run:
  assumes "s + m \<le> length srt"
  shows "\<exists>k \<ge> m. s + k \<le> length srt \<and> run_joins F P srt s m k \<and> longest_run F P srt s k \<and>
    extend_greedy F P srt (replicate (length srt) False) [s + m..<length srt] [s..<s + m] (group_docs srt [s..<s + m]) = [s..<s + k]"
  using assms
proof (induction "length srt - (s + m)" arbitrary: m)
  case 0
  then show ?case by (intro exI [of _ m]) (auto simp: run_joins_def longest_run_def)
next
  case (Suc d)
  then have u: "[s + m..<length srt] = (s + m) # [s + Suc m..<length srt]" "s + m < length srt"
    by (simp_all add: upt_conv_Cons)
  show ?case
  proof (cases "joins F P srt [s..<s + m] (group_docs srt [s..<s + m]) (s + m)")
    case True
    have "d = length srt - (s + Suc m)" "s + Suc m \<le> length srt" using Suc.hyps(2) u(2) by simp_all
    from Suc.hyps(1) [OF this] obtain k where k: "Suc m \<le> k" "s + k \<le> length srt" "run_joins F P srt s (Suc m) k"
        "longest_run F P srt s k" "extend_greedy F P srt (replicate (length srt) False) [s + Suc m..<length srt]
          [s..<s + Suc m] (group_docs srt [s..<s + Suc m]) = [s..<s + k]" by blast
    have "extend_greedy F P srt (replicate (length srt) False) [s + m..<length srt] [s..<s + m] (group_docs srt [s..<s + m]) =
        [s..<s + k]"
      unfolding u(1) extend_greedy.simps upt_Suc_snoc k(5) using u(2) True by simp
    then show ?thesis using k True run_joins_Suc [of F P srt s m k] by (intro exI [of _ k]) simp
  next
    case False
    then show ?thesis using u by (intro exI [of _ m]) (auto simp: run_joins_def longest_run_def)
  qed
qed

lemma longest_run_unique:
  assumes "run_joins F P srt s 1 k" "longest_run F P srt s k" "s + k \<le> length srt" "1 \<le> k"
    "run_joins F P srt s 1 k'" "longest_run F P srt s k'" "s + k' \<le> length srt" "1 \<le> k'"
  shows "k = k'"
proof (rule linorder_cases [of k k'])
  assume "k < k'"
  then show ?thesis using assms(2,4,5,7) unfolding run_joins_def longest_run_def by auto
next
  assume "k' < k"
  then show ?thesis using assms(1,3,6,8) unfolding run_joins_def longest_run_def by auto
qed

lemma greedy_from_start:
  fixes F :: "'f f64_ops" and P :: "'f tiered_policy"
  assumes "s < length srt"
  defines "grp \<equiv> extend_greedy F P srt (replicate (length srt) False) [s + 1..<length srt] [s] (si_docs (srt ! s))"
  shows "group_accepted F P srt grp \<longleftrightarrow> (\<exists>k. mergeable_run F P srt s k \<and> longest_run F P srt s k)"
proof -
  have one: "[s] = [s..<s + 1]" "si_docs (srt ! s) = group_docs srt [s..<s + 1]" by (simp_all add: group_docs_def)
  obtain k where k: "1 \<le> k" "s + k \<le> length srt" "run_joins F P srt s 1 k" "longest_run F P srt s k" "grp = [s..<s + k]"
    using extend_greedy_run [of s 1 srt F P] assms(1) unfolding grp_def one by auto
  moreover have "1 \<le> k'" if "mergeable_run F P srt s k'" for k'
    using that by (simp add: mergeable_run_def group_accepted_def)
  ultimately show ?thesis unfolding mergeable_run_def using longest_run_unique [of F P srt s k] by metis
qed

lemma greedy_loop_nonempty: "length used = length srt \<Longrightarrow> candidates \<noteq> [] \<Longrightarrow> greedy_loop F P srt start used candidates \<noteq> []"
  using greedy_loop_selection [of used srt F P start candidates] by auto

lemma greedy_loop_progress:
  "greedy_loop F P srt start (replicate (length srt) False) [] \<noteq> [] \<longleftrightarrow>
     (\<exists>s \<ge> start. s < length srt \<and> (\<exists>k. mergeable_run F P srt s k \<and> longest_run F P srt s k))"
proof (induction "length srt - start" arbitrary: start)
  case 0
  have "skip_used (replicate (length srt) False) start = start" using 0 by (subst skip_used.simps) simp
  then show ?case using 0 by (subst greedy_loop.simps) (auto simp: Let_def)
next
  case (Suc d)
  let ?u = "replicate (length srt) False"
  let ?grp = "extend_greedy F P srt ?u [start + 1..<length srt] [start] (si_docs (srt ! start))"
  have lt: "start < length srt" using Suc.hyps(2) by simp
  have s: "skip_used ?u start = start" by (subst skip_used.simps) auto
  have split: "(\<exists>s \<ge> start. s < length srt \<and> Q s) \<longleftrightarrow> Q start \<or> (\<exists>s \<ge> start + 1. s < length srt \<and> Q s)" for Q
    using lt by (auto simp: Suc_le_eq le_less [of start])
  note acc = greedy_from_start [OF lt, of F P]
  have unfold: "greedy_loop F P srt start ?u [] =
      (if group_accepted F P srt ?grp then greedy_loop F P srt (start + 1) (mark_used ?u ?grp) [candidate_of srt ?grp]
       else greedy_loop F P srt (start + 1) ?u [])"
    using s lt unfolding greedy_loop.simps [of F P srt start ?u "[]"] Let_def s by simp
  show ?case
  proof (cases "group_accepted F P srt ?grp")
    case True
    have v: "group_valid P srt ?u ?grp"
      using lt by (intro extend_greedy_valid) (auto simp: group_valid_def group_docs_def)
    then have "length (mark_used ?u ?grp) = length srt" using mark_used_spec [of ?grp ?u] by (simp add: group_valid_def)
    then have "greedy_loop F P srt start ?u [] \<noteq> []" unfolding unfold using True by (simp add: greedy_loop_nonempty)
    moreover have "\<exists>k. mergeable_run F P srt start k \<and> longest_run F P srt start k" using True acc by blast
    ultimately show ?thesis using lt by blast
  next
    case False
    have "d = length srt - (start + 1)" using Suc.hyps(2) by simp
    note ih = Suc.hyps(1) [OF this]
    have "\<not> (\<exists>k. mergeable_run F P srt start k \<and> longest_run F P srt start k)" using False acc by blast
    then show ?thesis unfolding split [of "\<lambda>s. \<exists>k. mergeable_run F P srt s k \<and> longest_run F P srt s k"] ih [symmetric] unfold
      using False by auto
  qed
qed

text \<open>The scored selection records every accepted run.\<close>

lemma extend_scored_progress:
  assumes "s + m \<le> length srt"
  shows "extend_scored F P srt [s + m..<length srt] [s..<s + m] (group_docs srt [s..<s + m]) acc \<noteq> [] \<longleftrightarrow>
    acc \<noteq> [] \<or> (\<exists>k > m. s + k \<le> length srt \<and> run_joins F P srt s m k \<and> group_accepted F P srt [s..<s + k])"
  using assms
proof (induction "length srt - (s + m)" arbitrary: m acc)
  case 0
  then show ?case by auto
next
  case (Suc d)
  then have u: "[s + m..<length srt] = (s + m) # [s + Suc m..<length srt]" "s + m < length srt"
    by (simp_all add: upt_conv_Cons)
  let ?acc = "if group_accepted F P srt [s..<s + Suc m] then acc @ [(score_candidate F P [s..<s + Suc m] srt, [s..<s + Suc m])] else acc"
  have split: "(\<exists>k > m. Q k) \<longleftrightarrow> Q (Suc m) \<or> (\<exists>k > Suc m. Q k)" for Q
  proof -
    have "m < k \<longleftrightarrow> k = Suc m \<or> Suc m < k" for k by auto
    then show ?thesis by auto
  qed
  show ?case
  proof (cases "joins F P srt [s..<s + m] (group_docs srt [s..<s + m]) (s + m)")
    case True
    have "extend_scored F P srt [s + m..<length srt] [s..<s + m] (group_docs srt [s..<s + m]) acc =
        extend_scored F P srt [s + Suc m..<length srt] [s..<s + Suc m] (group_docs srt [s..<s + Suc m]) ?acc"
      unfolding u(1) extend_scored.simps Let_def upt_Suc_snoc using True by simp
    also have "\<dots> \<noteq> [] \<longleftrightarrow> ?acc \<noteq> [] \<or>
        (\<exists>k > Suc m. s + k \<le> length srt \<and> run_joins F P srt s (Suc m) k \<and> group_accepted F P srt [s..<s + k])"
      using Suc.hyps u(2) by (intro Suc.hyps(1)) simp_all
    also have "\<dots> \<longleftrightarrow> acc \<noteq> [] \<or>
        (\<exists>k > m. s + k \<le> length srt \<and> run_joins F P srt s m k \<and> group_accepted F P srt [s..<s + k])"
      unfolding split [of "\<lambda>k. s + k \<le> length srt \<and> run_joins F P srt s m k \<and> group_accepted F P srt [s..<s + k]"]
      using True u(2) run_joins_Suc [of F P srt s m] run_joins_Suc [of F P srt s "Suc m" "Suc m"] by auto
    finally show ?thesis .
  next
    case False
    then have "\<not> run_joins F P srt s m k" if "m < k" for k using that by (auto simp: run_joins_def)
    then show ?thesis unfolding u(1) using False by auto
  qed
qed

lemma scored_groups_progress: "scored_groups F P srt \<noteq> [] \<longleftrightarrow> (\<exists>s k. s < length srt \<and> mergeable_run F P srt s k)"
proof -
  let ?n = "length srt"
  let ?step = "\<lambda>acc start. extend_scored F P srt [start + 1..<?n] [start] (si_docs (srt ! start)) acc"
  have step: "?step acc s \<noteq> [] \<longleftrightarrow> acc \<noteq> [] \<or> (\<exists>k. mergeable_run F P srt s k)" if "s < ?n" for acc s
  proof -
    have one: "[s] = [s..<s + 1]" "si_docs (srt ! s) = group_docs srt [s..<s + 1]" by (simp_all add: group_docs_def)
    have "1 < k" if "group_accepted F P srt [s..<s + k]" for k using that by (simp add: group_accepted_def)
    then show ?thesis using extend_scored_progress [of s 1 srt F P acc] that
      unfolding one mergeable_run_def by auto
  qed
  have "foldl ?step acc starts \<noteq> [] \<longleftrightarrow> acc \<noteq> [] \<or> (\<exists>s \<in> set starts. \<exists>k. mergeable_run F P srt s k)"
    if "\<forall>s \<in> set starts. s < ?n" for acc starts
    using that
  proof (induction starts arbitrary: acc)
    case (Cons s starts)
    then show ?case using step [of s acc] by auto
  qed simp
  from this [of "[0..<?n]" "[]"] show ?thesis by (auto simp: scored_groups_def)
qed

lemma find_merges_scored_progress: "find_merges_scored F P srt \<noteq> [] \<longleftrightarrow> scored_groups F P srt \<noteq> []"
proof (cases "sort_by (\<lambda>a b. f_total_less F (fst a) (fst b)) (scored_groups F P srt)")
  case Nil
  then have "scored_groups F P srt = []" by (metis set_empty set_sort_by)
  then show ?thesis using Nil by (simp add: find_merges_scored_def)
next
  case (Cons x xs)
  then have "x \<in> set (scored_groups F P srt)" by (metis list.set_intros(1) set_sort_by)
  then have "\<forall>i \<in> set (snd x). \<not> replicate (length srt) False ! i" "scored_groups F P srt \<noteq> []"
    using scored_groups_valid [of F P srt] by (auto simp: group_valid_def)
  then show ?thesis using Cons by (simp add: find_merges_scored_def Let_def)
qed

section \<open>Properties\<close>

text \<open>
  C15. Whatever the floating-point operations return and whichever selection the
  tiered policy uses, its candidates merge distinct eligible segments: each segment
  is in at most one candidate, a candidate has at least two segments and at least
  the tier's number, at most the fan-in, its documents fit the caps on merged and
  on single segments, and it passes the growth test.
\<close>

theorem find_merges_sound:
  "\<exists>groups. find_merges F P segs = map (\<lambda>g. \<lparr>segment_ids = map si_id g\<rparr>) groups \<and>
     mset (concat groups) \<subseteq># mset (eligible_segments F P segs) \<and>
     list_all (\<lambda>g. 2 \<le> length g \<and> segments_per_tier P \<le> length g \<and> length g \<le> max_merge_at_once P \<and>
       sum_list (map si_docs g) \<le> max_merged_docs P \<and> sum_list (map si_docs g) \<le> max_segment_docs P \<and>
       (f_le F (min_growth_ratio P) (f_dec F 0 0) \<or>
        f_le F (f_mul F (f_add F (f_dec F 1 0) (min_growth_ratio P)) (f_of_nat F (fold max (map si_docs g) 0)))
          (f_of_nat F (sum_list (map si_docs g))))) groups"
proof -
  obtain gs srt where g: "find_merges F P segs = map (candidate_of srt) gs" "selection_ok F P srt (replicate (length srt) False) gs"
    "mset srt = mset (eligible_segments F P segs)" by (rule find_merges_groups)
  let ?groups = "map (map ((!) srt)) gs"
  have "find_merges F P segs = map (\<lambda>g. \<lparr>segment_ids = map si_id g\<rparr>) ?groups"
    by (simp add: g(1) candidate_of_def comp_def)
  moreover have "mset (concat ?groups) \<subseteq># mset (eligible_segments F P segs)"
    using selection_segments [OF g(2)] g(3) by simp
  moreover have d: "map si_docs (map ((!) srt) g) = map (\<lambda>i. si_docs (srt ! i)) g" for g by simp
  have "list_all (\<lambda>g. 2 \<le> length g \<and> segments_per_tier P \<le> length g \<and> length g \<le> max_merge_at_once P \<and>
       sum_list (map si_docs g) \<le> max_merged_docs P \<and> sum_list (map si_docs g) \<le> max_segment_docs P \<and>
       (f_le F (min_growth_ratio P) (f_dec F 0 0) \<or>
        f_le F (f_mul F (f_add F (f_dec F 1 0) (min_growth_ratio P)) (f_of_nat F (fold max (map si_docs g) 0)))
          (f_of_nat F (sum_list (map si_docs g))))) ?groups"
    unfolding list_all_length
  proof (intro allI impI)
    fix n assume n: "n < length ?groups"
    then have "group_valid P srt (replicate (length srt) False) (gs ! n)" "group_accepted F P srt (gs ! n)"
      using g(2) nth_mem [of n gs] by (simp_all add: selection_ok_def)
    then show "2 \<le> length (?groups ! n) \<and> segments_per_tier P \<le> length (?groups ! n) \<and> length (?groups ! n) \<le> max_merge_at_once P \<and>
       sum_list (map si_docs (?groups ! n)) \<le> max_merged_docs P \<and> sum_list (map si_docs (?groups ! n)) \<le> max_segment_docs P \<and>
       (f_le F (min_growth_ratio P) (f_dec F 0 0) \<or>
        f_le F (f_mul F (f_add F (f_dec F 1 0) (min_growth_ratio P)) (f_of_nat F (fold max (map si_docs (?groups ! n)) 0)))
          (f_of_nat F (sum_list (map si_docs (?groups ! n)))))"
      using n unfolding group_valid_def group_accepted_def passes_min_growth_def Let_def group_docs_def effective_max_docs_def
      by (simp add: d comp_def split: if_splits)
  qed
  ultimately show ?thesis by blast
qed

text \<open>
  C16. When the policy proposes a merge. With the eligible segments sorted by size, the
  result is empty only for a reason: the budget is not exceeded, or no run of
  consecutive segments fits, from its first segment on, the fan-in, the document
  caps and the size ratio, and at its end has enough segments and passes the growth
  test. The scored selection considers every such run, the greedy one from each
  start the longest that fits; when one is acceptable, a candidate is returned.
\<close>

theorem find_merges_progress:
  assumes "srt = sort_key si_docs (eligible_segments F P segs)"
  shows "find_merges F P segs \<noteq> [] \<longleftrightarrow>
    (budget_trigger P \<longrightarrow> compute_ideal_segment_count F P (sum_list (map si_docs segs)) < length srt) \<and>
    (\<exists>s k. s + k \<le> length srt \<and>
       (\<forall>i. 1 \<le> i \<and> i < k \<longrightarrow> joins F P srt [s..<s + i] (group_docs srt [s..<s + i]) (s + i)) \<and>
       group_accepted F P srt [s..<s + k] \<and>
       (scored_selection P \<or> s + k = length srt \<or> \<not> joins F P srt [s..<s + k] (group_docs srt [s..<s + k]) (s + k)))"
    (is "_ \<longleftrightarrow> ?budget \<and> ?run")
proof -
  have two: "2 \<le> k" if "mergeable_run F P srt s k" for s k using that by (simp add: mergeable_run_def group_accepted_def)
  have run: "?run \<longleftrightarrow> (\<exists>s k. s < length srt \<and> mergeable_run F P srt s k \<and> (scored_selection P \<or> longest_run F P srt s k))"
    (is "_ \<longleftrightarrow> ?runs")
  proof -
    have "s < length srt" if "mergeable_run F P srt s k" for s k using two [OF that] that by (simp add: mergeable_run_def)
    then show ?thesis unfolding mergeable_run_def run_joins_def longest_run_def by (intro iff_exI) blast
  qed
  have sel: "(if scored_selection P then find_merges_scored F P srt else find_merges_greedy F P srt) \<noteq> [] \<longleftrightarrow> ?run"
    unfolding run using scored_groups_progress [of F P srt] greedy_loop_progress [of F P srt 0]
    by (auto simp: find_merges_scored_progress find_merges_greedy_def)
  have len: "2 \<le> length srt" if ?run
    using that two unfolding run by (metis (no_types, lifting) mergeable_run_def le_add2 le_trans)
  have l: "length srt = length (eligible_segments F P segs)" "length (eligible_segments F P segs) \<le> length segs"
    using assms by (simp_all add: eligible_segments_def Let_def)
  show ?thesis
  proof (cases "2 \<le> length srt")
    case True
    then have "find_merges F P segs = (if budget_trigger P \<and> length srt \<le> compute_ideal_segment_count F P (sum_list (map si_docs segs))
        then [] else if scored_selection P then find_merges_scored F P srt else find_merges_greedy F P srt)"
      using l assms by (simp add: find_merges_def Let_def)
    then show ?thesis using sel by (simp add: not_le)
  next
    case False
    then show ?thesis using len l by (auto simp: find_merges_def Let_def)
  qed
qed

section \<open>Example\<close>

text \<open>Exact real arithmetic in place of \<open>f64\<close>, and eleven equal segments under the \<open>large_scale\<close> preset,
  which has its budget, its scored selection and its growth test on.\<close>

definition real_ops :: "real f64_ops" where
  "real_ops = \<lparr>f_of_nat = real, f_to_nat = (\<lambda>x. nat \<lfloor>x\<rfloor>), f_dec = (\<lambda>m k. real m / 10 ^ k), f_MAX = 2 ^ 1024,
     f_add = (+), f_mul = (*), f_div = (/), f_max = max, f_log = (\<lambda>x b. log b x), f_ceil = (\<lambda>x. of_int \<lceil>x\<rceil>),
     f_powf = (powr), f_le = (\<le>), f_less = (<), f_eq = (=), f_total_less = (<)\<rparr>"

definition sample_segments :: "segment_info list" where
  "sample_segments = map (\<lambda>i. \<lparr>si_id = replicate i CHR ''s'', si_docs = 100\<rparr>) [0..<11]"

lemma sample_docs: "i < 11 \<Longrightarrow> si_docs (sample_segments ! i) = 100"
  by (simp add: sample_segments_def)

lemma sample_group_docs: "m \<le> 11 \<Longrightarrow> group_docs sample_segments [0..<m] = 100 * m"
proof -
  assume "m \<le> 11"
  then have "map (\<lambda>i. si_docs (sample_segments ! i)) [0..<m] = replicate m 100"
    by (intro nth_equalityI) (simp_all add: sample_docs)
  then show ?thesis by (simp add: group_docs_def sum_list_replicate)
qed

lemma sample_sorted: "sort_key si_docs (eligible_segments real_ops (large_scale real_ops) sample_segments) = sample_segments"
proof -
  have "\<lfloor>5000000 * (5 / 10) :: real\<rfloor> = 2500000" by simp
  then have "eligible_segments real_ops (large_scale real_ops) sample_segments = sample_segments"
    by (simp add: eligible_segments_def effective_max_docs_def large_scale_def real_ops_def sample_segments_def)
  moreover have "sorted (map si_docs sample_segments)" by (simp add: sample_segments_def sorted_iff_nth_mono)
  ultimately show ?thesis by (simp add: sort_key_id_if_sorted)
qed

lemma sample_ideal: "compute_ideal_segment_count real_ops (large_scale real_ops) (sum_list (map si_docs sample_segments)) = 10"
proof -
  have "sum_list (map si_docs sample_segments) = 1100" by (simp add: sample_segments_def comp_def sum_list_triv)
  then show ?thesis by (simp add: compute_ideal_segment_count_def real_ops_def large_scale_def Let_def max_def)
qed

theorem find_merges_progress_witness: "find_merges real_ops (large_scale real_ops) sample_segments \<noteq> []"
proof -
  let ?P = "large_scale real_ops"
  have j: "joins real_ops ?P sample_segments [0..<i] (group_docs sample_segments [0..<i]) i" if "1 \<le> i" "i < 10" for i
    using that by (simp add: joins_def sample_group_docs sample_docs effective_max_docs_def large_scale_def real_ops_def)
  have "fold max (map (\<lambda>i. si_docs (sample_segments ! i)) [0..<10]) 0 = 100"
    by (simp add: sample_segments_def upt_rec)
  then have g: "group_accepted real_ops ?P sample_segments [0..<10]"
    by (simp add: group_accepted_def passes_min_growth_def sample_group_docs real_ops_def large_scale_def)
  have "\<exists>s k. s + k \<le> length sample_segments \<and>
      (\<forall>i. 1 \<le> i \<and> i < k \<longrightarrow> joins real_ops ?P sample_segments [s..<s + i] (group_docs sample_segments [s..<s + i]) (s + i)) \<and>
      group_accepted real_ops ?P sample_segments [s..<s + k] \<and> scored_selection ?P"
    using j g by (intro exI [of _ 0] exI [of _ 10]) (simp add: sample_segments_def large_scale_def)
  moreover have "compute_ideal_segment_count real_ops ?P (sum_list (map si_docs sample_segments)) < length sample_segments"
    by (simp add: sample_ideal) (simp add: sample_segments_def)
  ultimately show ?thesis using find_merges_progress [OF sample_sorted [symmetric]] by blast
qed

end
