(* ===== verification/Spec2Isabelle.thy ===== *)
theory Spec2Isabelle
  imports Summa_Prelude Summa_Bits Summa_Search Vint DocBitset DocSet DocSetCursors PredicatedScorer
    Bitpack FastFieldCodec FastFieldAuto FastFieldBatch TextDict FastFieldWriter FastFieldReader FastFieldOpen
    FastFieldAccess FastFieldRoundTrip FastFieldMerge SegmentTracker RowDeletion Monotone EliasFano Roaring RoaringPostings MergePolicy
begin

text \<open>
  A verification development for the storage and query core of Summa, a search engine written in Rust
  (\<open>src/summa-core/src\<close>; paths below are relative to it).

  \<^bold>\<open>The program and its parts.\<close> An index is a set of immutable segments. A segment stores, beside its
  inverted index, columns of values per document (fast fields), and, once rows were deleted, a
  visibility file. Writers fill a column value by value and serialize it with the codec that gives the
  fewest bytes; readers map the file, validate it once, and then read it without further checks. Queries
  walk document cursors over posting lists and bitmaps. A merge policy picks segments to merge, the
  merger stacks their columns into one file, and a tracker keeps every segment on disk for as long as a
  reader holds it.

  \<^bold>\<open>Shared theories.\<close>
  \<^item> \<open>Summa_Prelude\<close>: machine types (\<open>u8\<close> to \<open>u64\<close> are words, \<open>usize\<close> and document ids are natural
    numbers with \<open>as_u32\<close> where the code casts), the error types of \<open>error.rs\<close>, byte readers,
    little-endian integers and their \<open>le_simps\<close>, \<open>div_ceil\<close> and \<open>chunks\<close>.
  \<^item> \<open>Summa_Bits\<close>: bit scanning, and bitmaps as lists of words read as one bit string (\<open>wbit\<close>,
    \<open>wpositions\<close>).
  \<^item> \<open>Summa_Search\<close>: the binary searches of Rust's slices, with a comparison that returns or may panic.

  \<^bold>\<open>Fast fields\<close> (\<open>structures/fast_field/\<close>).
  \<^item> \<open>Bitpack\<close>: the value encodings and bit packing of \<open>mod.rs\<close>.
  \<^item> \<open>FastFieldCodec\<close>: the four codecs of \<open>codec.rs\<close> with their estimators, \<open>validate_auto\<close>,
    \<open>value_bounds\<close> and the single-value readers. The locale \<open>column_codec\<close> is the contract of a codec,
    interpreted for all four; \<open>FastFieldAuto\<close> proves from it that the chosen codec reads back and is the
    smallest offered (\<open>serialize_auto_round_trip\<close>), that a validated payload never panics
    (\<open>validated_payload_never_panics\<close>) and that header bounds are conservative
    (\<open>value_bounds_conservative\<close>).
  \<^item> \<open>FastFieldBatch\<close>: batch reads and their cursor, equal to single reads
    (\<open>batch_reads_equal_single_reads\<close>).
  \<^item> \<open>TextDict\<close>: dictionaries of strings. Validation accepts exactly what is written
    (\<open>text_dict_validation_exact\<close>), and the inputs on which it panics are characterised
    (\<open>text_dict_validation_panics\<close>).
  \<^item> \<open>FastFieldWriter\<close>: \<open>FastFieldWriter\<close> of \<open>mod.rs\<close> with its add, pad and serialize operations; the
    locale \<open>multi_recorder\<close> is what the two multi-valued recorders share. \<open>pad_to\<close> ends exactly below
    \<open>u32::MAX\<close> (\<open>pad_to_terminates_exactly\<close>).
  \<^item> \<open>FastFieldReader\<close>: opening a column, its blocks, the merged dictionary, every accessor, scans and
    cursors (\<open>checkpoints.rs\<close> included). \<open>FastFieldOpen\<close> proves the invariant \<open>reader_wf\<close> of whatever
    opens, \<open>FastFieldAccess\<close> that no accessor panics (\<open>opened_column_never_panics\<close>), that scans and
    cursors equal random access (\<open>bulk_reads_equal_random_access\<close>) and that merged ordinals name the
    text (\<open>merged_ordinals_name_the_text\<close>), \<open>FastFieldRoundTrip\<close> the four round trips from writer to
    reader (\<open>numeric_column_round_trip\<close>, \<open>multi_column_round_trip\<close>, \<open>text_column_round_trip\<close>,
    \<open>text_multi_column_round_trip\<close>).
  \<^item> \<open>FastFieldMerge\<close>: the column merger of \<open>segment/merger/fast_fields.rs\<close>. A merged column and the
    whole merged file read, for every document, as their sources did
    (\<open>merged_column_preserves_documents\<close>, \<open>merged_file_reads_back\<close>).

  \<^bold>\<open>Document sets.\<close>
  \<^item> \<open>DocBitset\<close>: \<open>DocBitset\<close> of \<open>query/traits.rs\<close>, refined to sets (\<open>doc_bitset_refines_set\<close>) with its
    padding invariant (\<open>doc_bitset_invariant\<close>).
  \<^item> \<open>DocSet\<close>: the trait of \<open>query/docset.rs\<close> with its default methods. The locales \<open>doc_cursor\<close>,
    \<open>docset_contract\<close> and \<open>windowed_contract\<close> state what a cursor promises: an invariant and the list of
    documents that remain.
  \<^item> \<open>DocSetCursors\<close>: the concrete cursors, each an interpretation (\<open>concrete_cursors_correct\<close>), and the
    intersection, proved for any two cursors that keep the contract (\<open>intersection_docset_correct\<close>).
    \<open>PredicatedScorer\<close>: the filtered scorer, scalar and by windows (\<open>predicated_scorer_correct\<close>).
  \<^item> \<open>Roaring\<close> and \<open>RoaringPostings\<close>: \<open>structures/postings/roaring.rs\<close>. The locale \<open>set_rep\<close> is
    interpreted for containers and for bitmaps; every operation refines the set operation
    (\<open>roaring_refines_sets\<close>). Posting lists round-trip (\<open>roaring_postings_round_trip\<close>) and their
    iterator is correct in every reachable state (\<open>roaring_iterator_correct\<close>);
    \<open>roaring_seek_past_end_resumes\<close> and \<open>roaring_full_array_lost\<close> prove two defects.
  \<^item> \<open>EliasFano\<close>: the sequences of \<open>structures/postings/elias_fano.rs\<close> (\<open>elias_fano_correct\<close>).
    \<open>Monotone\<close>: the integer blocks of \<open>structures/monotone.rs\<close> (\<open>monotone_round_trip\<close>,
    \<open>monotone_lower_bound\<close>). \<open>Vint\<close>: the variable-length integers of \<open>structures/vint.rs\<close>
    (\<open>vint_round_trip\<close>, \<open>write_vint_length\<close>).

  \<^bold>\<open>Life of segments.\<close>
  \<^item> \<open>SegmentTracker\<close>: \<open>segment/tracker.rs\<close>. Every critical section of the tracker is one step of the
    relation \<open>tracker_step\<close>, so the two releases of a snapshot drop interleave with everything else. The
    guards are those of the callers in \<open>merge/segment_manager.rs\<close>, which publish, acquire and retire
    under their state lock. Held segments are never handed out for deletion
    (\<open>held_segments_never_deleted\<close>), and retired ones are, once (\<open>retired_segments_are_deleted\<close>).
  \<^item> \<open>RowDeletion\<close>: \<open>segment/deletion.rs\<close>, the visibility file (\<open>deletion_file_round_trip\<close>,
    \<open>loaded_bitset_well_formed\<close>, \<open>decode_rejects_changed_byte\<close>), deletion by primary key
    (\<open>delete_keys_clears_rows\<close>) and the copying of visibility into a merged segment
    (\<open>append_dead_rows_docs\<close>). A directory is a map from paths to bytes.
  \<^item> \<open>MergePolicy\<close>: \<open>merge/mod.rs\<close>. The locale \<open>merge_policy\<close> is the trait; candidates are disjoint and
    within every limit (\<open>find_merges_sound\<close>), and one is returned exactly when some run of segments is
    acceptable (\<open>find_merges_progress\<close>).

  \<^bold>\<open>Conventions.\<close> An \<open>Err\<close> is \<open>Inl\<close>. A panic is \<open>None\<close>: a slice or an index out of range, a failed
  assertion, and a subtraction below zero, which overflow checks report. Additions and products whose
  wrapped result is used are written at their width (\<open>as_u32\<close>, \<open>mod 2 ^ 64\<close> or words). Elsewhere a
  theorem assumes a size bound under which nothing overflows; these bounds (\<open>2 ^ 27\<close> values of a column,
  \<open>2 ^ 29\<close> and \<open>2 ^ 30\<close> integers, files below \<open>2 ^ 32\<close> bytes where offsets have 32 bits) are above what
  the format can address or far above what a segment holds. Loops are structural recursion or functions
  with a termination proof; there is no fuel. The loops that can run forever in the code (\<open>pad_to\<close>,
  cursor alignment and windows over arbitrary cursors) are partial functions, and that they return is
  proved.

  \<^bold>\<open>Parameters.\<close> Floating-point values of stored scores are bit patterns, with the operations on them a
  record argument (\<open>f32_ops\<close>); the merge policy takes its \<open>f64\<close> arithmetic as an argument (\<open>f64_ops\<close>).
  The theorems hold for every such record. The iteration order of a \<open>HashMap\<close>, the answers of a
  cancellation callback and the predicate and score of a verifier are arguments as well.

  \<^bold>\<open>Not modelled.\<close> The inverted index on disk (\<open>structures/sstable.rs\<close>, the store) goes through zstd and
  asynchronous range reads; block posting codecs and \<open>structures/simd.rs\<close> are architecture intrinsics;
  vector and sparse retrieval are approximate by design; query planning and BM25 are floating-point
  scoring behind asynchronous plans; the query language is a generated parser; the index writer, the
  segment manager, the servers, the broker, the clients and the model tools orchestrate tasks, files and
  network calls. Of the segment manager, the calls to the tracker are the steps of \<open>SegmentTracker\<close>. Of
  \<open>elias_fano.rs\<close>, the posting list with packed term frequencies is left out.
  \<open>wait_for_scheduled_deletions\<close> is its loop over the states it wakes up in; that a notification arrives
  is the runtime's part. The hardware select of \<open>select_in_word\<close> is its portable fallback. Logging and
  statistics counters have no part in any result.
\<close>

end
